(* ===== verification/Prelude.thy ===== *)
theory Prelude
  imports Main "HOL-Library.Word"
begin

text \<open>
  What every component shares: the machine integers of \<^verbatim>\<open>kern/types.h\<close>, byte memory with the
  little-endian 32-bit accesses of the i386, C strings in memory, and the result type of operations
  that may stop the machine. The collection \<open>mem_simps\<close> gathers the read-over-write laws that the
  component proofs rewrite with.
\<close>

unbundle bit_operations_syntax

named_theorems mem_simps
named_theorems res_simps

section \<open>Machine integers\<close>

type_synonym u8 = "8 word"
type_synonym u16 = "16 word"
type_synonym u32 = "32 word"
type_synonym mem = "u32 \<Rightarrow> u8"

section \<open>Results\<close>

text \<open>
  How an operation of the kernel can stop instead of returning: \<open>Halt\<close> is a printed PANIC followed
  by \<^verbatim>\<open>hlt\<close>, \<open>PageFault a\<close> an access to the unmapped address \<open>a\<close>, \<open>NullDeref\<close> an access through
  a null pointer, \<open>OutOfBounds\<close> an array access outside the array, \<open>Diverges\<close> a loop that is known
  not to end.
\<close>

datatype kerror = Halt | PageFault u32 | NullDeref | OutOfBounds | Diverges

type_synonym 'a res = "kerror + 'a"

definition bind_res :: "'a res \<Rightarrow> ('a \<Rightarrow> 'b res) \<Rightarrow> 'b res" where
  "bind_res r f = (case r of Inl e \<Rightarrow> Inl e | Inr x \<Rightarrow> f x)"

lemma bind_res_simps [simp, res_simps]:
  "bind_res (Inl e) f = Inl e"
  "bind_res (Inr x) f = f x"
  by (simp_all add: bind_res_def)

lemma bind_res_eq_Inr [res_simps]: "bind_res r f = Inr y \<longleftrightarrow> (\<exists>x. r = Inr x \<and> f x = Inr y)"
  by (cases r) simp_all

lemma bind_res_assoc: "bind_res (bind_res r f) g = bind_res r (\<lambda>x. bind_res (f x) g)"
  by (cases r) simp_all

lemma bind_res_cong [fundef_cong]:
  "r = r' \<Longrightarrow> (\<And>x. r' = Inr x \<Longrightarrow> f x = g x) \<Longrightarrow> bind_res r f = bind_res r' g"
  by (cases r') simp_all

text \<open>Operations that contain a loop that may not end: \<open>None\<close> is not returning at all.\<close>

type_synonym 'a out = "'a res option"

definition bind_out :: "'a out \<Rightarrow> ('a \<Rightarrow> 'b out) \<Rightarrow> 'b out" where
  "bind_out r f = (case r of None \<Rightarrow> None | Some (Inl e) \<Rightarrow> Some (Inl e) | Some (Inr x) \<Rightarrow> f x)"

lemma bind_out_simps [simp, res_simps]:
  "bind_out None f = None"
  "bind_out (Some (Inl e)) f = Some (Inl e)"
  "bind_out (Some (Inr x)) f = f x"
  by (simp_all add: bind_out_def)

lemma bind_out_mono [partial_function_mono]:
  assumes "mono_option B" "\<And>y. mono_option (\<lambda>f. C y f)"
  shows "mono_option (\<lambda>f. bind_out (B f) (\<lambda>y. C y f))"
proof -
  have eq: "bind_out r g = Option.bind r (\<lambda>x. case x of Inl e \<Rightarrow> Some (Inl e) | Inr y \<Rightarrow> g y)"
    for r :: "'x out" and g :: "'x \<Rightarrow> 'y out"
    by (cases r) (auto simp: bind_out_def split: sum.split)
  have "mono_option (\<lambda>f. case x of Inl e \<Rightarrow> Some (Inl e) | Inr y \<Rightarrow> C y f)" for x
    using assms(2) by (cases x) (simp_all add: monotone_def option.leq_refl)
  with assms(1) show ?thesis unfolding eq by (rule bind_mono)
qed

text \<open>A loop over the elements of a list whose body may fail.\<close>

primrec iter_res :: "('i \<Rightarrow> 's \<Rightarrow> 's res) \<Rightarrow> 'i list \<Rightarrow> 's \<Rightarrow> 's res" where
  "iter_res f [] s = Inr s"
| "iter_res f (i # is) s = bind_res (f i s) (iter_res f is)"

lemma iter_res_append: "iter_res f (xs @ ys) s = bind_res (iter_res f xs s) (iter_res f ys)"
proof (induction xs arbitrary: s)
  case (Cons x xs)
  then show ?case by (cases "f x s") simp_all
qed simp

section \<open>Word arithmetic\<close>

lemma unat_add_nowrap: "unat a + unat b < 2 ^ 32 \<Longrightarrow> unat (a + b :: u32) = unat a + unat b"
  by (simp add: unat_word_ariths)

lemma unat_sub_nowrap: "b \<le> a \<Longrightarrow> unat (a - b :: u32) = unat a - unat b"
  by (simp add: unat_sub)

lemma unat_lt_2p32 [simp]: "unat (a :: u32) < 4294967296"
  using unsigned_less [of a] by simp

lemma unat_of_nat_u32: "n < 2 ^ 32 \<Longrightarrow> unat (of_nat n :: u32) = n"
  by (simp add: unat_of_nat take_bit_nat_eq_self)

lemma unat_pred: "n \<noteq> 0 \<Longrightarrow> unat (n :: u32) = Suc (unat (n - 1))"
  using unat_gt_0 [of n] by (simp add: unat_minus_one)

lemma unat_minus_1: "unat (- 1 :: u32) = 4294967295"
  by (simp add: unsigned_minus_1_eq_mask mask_eq_exp_minus_1)

section \<open>Blocks of memory\<close>

text \<open>\<open>in_block b n a\<close>: the address \<open>a\<close> is one of the \<open>n\<close> bytes from \<open>b\<close> on (addresses wrap).\<close>

definition in_block :: "u32 \<Rightarrow> nat \<Rightarrow> u32 \<Rightarrow> bool" where
  "in_block b n a \<longleftrightarrow> unat (a - b) < n"

lemma in_block_0 [simp]: "\<not> in_block b 0 a"
  by (simp add: in_block_def)

lemma in_block_base [simp]: "in_block b n b \<longleftrightarrow> 0 < n"
  by (simp add: in_block_def)

lemma in_block_offset: "i < n \<Longrightarrow> n \<le> 2 ^ 32 \<Longrightarrow> in_block b n (b + of_nat i)"
  by (simp add: in_block_def unat_of_nat_u32)

lemma in_block_Suc:
  assumes "n < 2 ^ 32"
  shows "in_block b (Suc n) a \<longleftrightarrow> a = b \<or> in_block (b + 1) n a"
proof -
  have "unat (a - b) = (if a = b then 0 else Suc (unat (a - (b + 1))))"
    using unat_pred [of "a - b"] by (simp add: diff_diff_eq)
  then show ?thesis using assms by (auto simp: in_block_def)
qed

text \<open>A sequence of bytes stored from an address on.\<close>

primrec wr_bytes :: "mem \<Rightarrow> u32 \<Rightarrow> u8 list \<Rightarrow> mem" where
  "wr_bytes m a [] = m"
| "wr_bytes m a (b # bs) = wr_bytes (m(a := b)) (a + 1) bs"

lemma wr_bytes_outside: "length bs < 2 ^ 32 \<Longrightarrow> \<not> in_block a (length bs) c \<Longrightarrow> wr_bytes m a bs c = m c"
proof (induction bs arbitrary: m a)
  case (Cons b bs)
  then show ?case using in_block_Suc [of "length bs" a c] by auto
qed simp

lemma wr_bytes_nth:
  "length bs < 2 ^ 32 \<Longrightarrow> i < length bs \<Longrightarrow> wr_bytes m a bs (a + of_nat i) = bs ! i"
proof (induction bs arbitrary: m a i)
  case (Cons b bs)
  show ?case
  proof (cases i)
    case 0
    have "\<not> in_block (a + 1) (length bs) a"
      using Cons.prems by (simp add: in_block_def unat_minus_1)
    then have "wr_bytes (m(a := b)) (a + 1) bs a = b"
      using Cons.prems by (simp add: wr_bytes_outside)
    with 0 show ?thesis by simp
  next
    case (Suc j)
    with Cons.prems have "wr_bytes (m(a := b)) (a + 1) bs (a + 1 + of_nat j) = bs ! j"
      by (intro Cons.IH) simp_all
    with Suc show ?thesis by (simp add: add.assoc)
  qed
qed simp

section \<open>Little-endian 32-bit accesses\<close>

definition rd32 :: "mem \<Rightarrow> u32 \<Rightarrow> u32" where
  "rd32 m a = ucast (m a) OR push_bit 8 (ucast (m (a + 1)))
     OR push_bit 16 (ucast (m (a + 2))) OR push_bit 24 (ucast (m (a + 3)))"

definition wr32 :: "mem \<Rightarrow> u32 \<Rightarrow> u32 \<Rightarrow> mem" where
  "wr32 m a w = m(a := ucast w, a + 1 := ucast (drop_bit 8 w),
     a + 2 := ucast (drop_bit 16 w), a + 3 := ucast (drop_bit 24 w))"

text \<open>The four bytes at \<open>a\<close> and the four bytes at \<open>b\<close> do not overlap.\<close>

definition apart4 :: "u32 \<Rightarrow> u32 \<Rightarrow> bool" where
  "apart4 a b \<longleftrightarrow> 4 \<le> a - b \<and> 4 \<le> b - a"

lemma bytes_join:
  "ucast (ucast w :: u8) OR push_bit 8 (ucast (ucast (drop_bit 8 w) :: u8))
     OR push_bit 16 (ucast (ucast (drop_bit 16 w) :: u8))
     OR push_bit 24 (ucast (ucast (drop_bit 24 w) :: u8)) = (w :: u32)"
proof (rule bit_word_eqI)
  fix n assume "n < LENGTH(32)"
  then consider "n < 8" | "8 \<le> n" "n < 16" | "16 \<le> n" "n < 24" | "24 \<le> n" "n < 32"
    by fastforce
  then show "bit (ucast (ucast w :: u8) OR push_bit 8 (ucast (ucast (drop_bit 8 w) :: u8))
     OR push_bit 16 (ucast (ucast (drop_bit 16 w) :: u8))
     OR push_bit 24 (ucast (ucast (drop_bit 24 w) :: u8)) :: u32) n = bit w n"
    by cases (auto simp: bit_simps)
qed

lemma rd32_wr32_same [simp, mem_simps]: "rd32 (wr32 m a w) a = w"
  by (simp add: rd32_def wr32_def bytes_join)

lemma apart4_neq: "apart4 a b \<Longrightarrow> i < 4 \<Longrightarrow> j < 4 \<Longrightarrow> a + i \<noteq> b + j"
  unfolding apart4_def by uint_arith

lemma apart4_sym: "apart4 a b \<longleftrightarrow> apart4 b a"
  by (auto simp: apart4_def)

lemma apart4I_le:
  assumes "unat a + 4 \<le> unat b" "unat b + 4 \<le> 2 ^ 32"
  shows "apart4 a b"
  using assms by (simp add: apart4_def word_le_nat_alt unat_sub_if') arith

lemma apart4I:
  assumes "unat a + 4 \<le> unat b \<or> unat b + 4 \<le> unat a"
    and "unat a + 4 \<le> 2 ^ 32" "unat b + 4 \<le> 2 ^ 32"
  shows "apart4 a b"
  using assms apart4I_le apart4_sym by blast

lemma wr32_other:
  assumes "4 \<le> unat (c - a)"
  shows "wr32 m a w c = m c"
proof -
  have "c \<noteq> a \<and> c \<noteq> a + 1 \<and> c \<noteq> a + 2 \<and> c \<noteq> a + 3"
    using assms by auto
  then show ?thesis by (simp add: wr32_def)
qed

lemma rd32_wr32_apart [mem_simps]:
  assumes "apart4 a b"
  shows "rd32 (wr32 m a w) b = rd32 m b"
proof -
  have neq: "a + i \<noteq> b + j" if "i < 4" "j < 4" for i j
    using apart4_neq [OF assms that] .
  have "wr32 m a w (b + j) = m (b + j)" if "j < 4" for j
    using neq [of 0 j] neq [of 1 j] neq [of 2 j] neq [of 3 j] that
    by (simp add: wr32_def)
  from this [of 0] this [of 1] this [of 2] this [of 3] show ?thesis
    by (simp add: rd32_def)
qed

section \<open>C strings\<close>

text \<open>\<open>cstr m a s\<close>: the bytes \<open>s\<close>, none of them 0, lie at \<open>a\<close> and are followed by a 0.\<close>

primrec cstr :: "mem \<Rightarrow> u32 \<Rightarrow> u8 list \<Rightarrow> bool" where
  "cstr m a [] \<longleftrightarrow> m a = 0"
| "cstr m a (c # s) \<longleftrightarrow> m a = c \<and> c \<noteq> 0 \<and> cstr m (a + 1) s"

lemma cstr_unique: "cstr m a s \<Longrightarrow> cstr m a t \<Longrightarrow> s = t"
proof (induction s arbitrary: a t)
  case Nil
  then show ?case by (cases t) auto
next
  case (Cons c s)
  then show ?case by (cases t) auto
qed

lemma cstr_nth: "cstr m a s \<Longrightarrow> i < length s \<Longrightarrow> m (a + of_nat i) = s ! i \<and> s ! i \<noteq> 0"
proof (induction s arbitrary: a i)
  case (Cons c s)
  show ?case
  proof (cases i)
    case (Suc j)
    with Cons.prems Cons.IH [of "a + 1" j] show ?thesis by (simp add: add.assoc)
  qed (use Cons.prems in simp)
qed simp

lemma cstr_end: "cstr m a s \<Longrightarrow> m (a + of_nat (length s)) = 0"
proof (induction s arbitrary: a)
  case (Cons c s)
  then have "m (a + 1 + of_nat (length s)) = 0" by simp
  then show ?case by (simp add: add.assoc)
qed simp

lemma cstr_cong:
  "(\<And>i. i \<le> length s \<Longrightarrow> m (a + of_nat i) = m' (a + of_nat i)) \<Longrightarrow> cstr m a s = cstr m' a s"
proof (induction s arbitrary: a)
  case Nil
  from Nil [of 0] show ?case by simp
next
  case (Cons c s)
  have "cstr m (a + 1) s = cstr m' (a + 1) s"
  proof (rule Cons.IH)
    fix i assume "i \<le> length s"
    then show "m (a + 1 + of_nat i) = m' (a + 1 + of_nat i)"
      using Cons.prems [of "Suc i"] by (simp add: add.assoc)
  qed
  with Cons.prems [of 0] show ?case by simp
qed

lemma cstrI:
  "(\<And>i. i < length s \<Longrightarrow> m (a + of_nat i) = s ! i \<and> s ! i \<noteq> 0) \<Longrightarrow>
    m (a + of_nat (length s)) = 0 \<Longrightarrow> cstr m a s"
proof (induction s arbitrary: a)
  case (Cons c s)
  have "cstr m (a + 1) s"
  proof (rule Cons.IH)
    fix i assume "i < length s"
    then show "m (a + 1 + of_nat i) = s ! i \<and> s ! i \<noteq> 0"
      using Cons.prems(1) [of "Suc i"] by (simp add: add.assoc)
  qed (use Cons.prems(2) in \<open>simp add: add.assoc\<close>)
  with Cons.prems(1) [of 0] show ?case by simp
qed simp

end
