(* ===== verification/Frames.thy ===== *)
theory Frames
  imports Prelude
begin

text \<open>
  The physical page frames of \<^verbatim>\<open>kern/mm.c\<close>: the bitmap \<open>mem_bitmap\<close>, one bit per frame of the 4 GB
  address space, its initialisation, and the allocation and release of a frame. The state is a record
  that the later layers (page tables, kernel heap) extend. The locale \<open>frame_allocator\<close> is what those
  layers rely on.
\<close>

section \<open>The code\<close>

abbreviation (input) PAGESIZE :: u32 where "PAGESIZE \<equiv> 4096"
abbreviation (input) RAM_MAXPAGE :: nat where "RAM_MAXPAGE \<equiv> 0x100000"
abbreviation (input) NO_FRAME :: u32 where "NO_FRAME \<equiv> 0xFFFFFFFF"

text \<open>\<open>mem_bitmap\<close> has \<open>RAM_MAXPAGE / 8\<close> bytes; every access below is inside it.\<close>

record frame_state =
  mem_bitmap :: "nat \<Rightarrow> u8"

definition set_page_frame_used :: "u32 \<Rightarrow> 'a frame_state_scheme \<Rightarrow> 'a frame_state_scheme" where
  "set_page_frame_used page s =
     (let i = unat (page div 8)
      in s\<lparr>mem_bitmap := (mem_bitmap s)(i := mem_bitmap s i OR push_bit (unat (page mod 8)) 1)\<rparr>)"

definition release_page_frame :: "u32 \<Rightarrow> 'a frame_state_scheme \<Rightarrow> 'a frame_state_scheme" where
  "release_page_frame p_addr s =
     (let i = unat (p_addr div PAGESIZE div 8)
      in s\<lparr>mem_bitmap := (mem_bitmap s)
             (i := mem_bitmap s i AND NOT (push_bit (unat (p_addr div PAGESIZE mod 8)) 1))\<rparr>)"

text \<open>The inner loop of \<open>get_page_frame\<close>: the first clear bit of a byte, from \<open>b\<close> on.\<close>

function find_bit :: "u8 \<Rightarrow> nat \<Rightarrow> nat option" where
  "find_bit w b =
     (if b < 8 then if w AND push_bit b 1 = 0 then Some b else find_bit w (b + 1) else None)"
  by pat_completeness auto
termination
  by (relation "measure (\<lambda>(w, b). 8 - b)") auto

declare find_bit.simps [simp del]

text \<open>The outer loop, from the byte \<open>i\<close> on: the number of the frame found.\<close>

function find_page :: "(nat \<Rightarrow> u8) \<Rightarrow> nat \<Rightarrow> nat option" where
  "find_page bm i =
     (if i < RAM_MAXPAGE div 8
      then if bm i \<noteq> 0xFF
           then (case find_bit (bm i) 0 of Some b \<Rightarrow> Some (8 * i + b) | None \<Rightarrow> find_page bm (i + 1))
           else find_page bm (i + 1)
      else None)"
  by pat_completeness auto
termination
  by (relation "measure (\<lambda>(bm, i). RAM_MAXPAGE div 8 - i)") auto

declare find_page.simps [simp del]

definition get_page_frame :: "'a frame_state_scheme \<Rightarrow> u32 \<times> 'a frame_state_scheme" where
  "get_page_frame s =
     (case find_page (mem_bitmap s) 0 of
        Some page \<Rightarrow> (of_nat page * PAGESIZE, set_page_frame_used (of_nat page) s)
      | None \<Rightarrow> (NO_FRAME, s))"

text \<open>The part of \<open>init_mm\<close> that sets the bitmap up; \<open>pg1_end\<close> is 8 MB, so pages 0 to 2047 are the
  kernel's.\<close>

definition init_bitmap :: "u32 \<Rightarrow> 'a frame_state_scheme \<Rightarrow> 'a frame_state_scheme" where
  "init_bitmap high_mem s =
     (let pg_limit = unat ((high_mem * 1024) div PAGESIZE);
          b1 = fold (\<lambda>pg b. b(pg := 0)) [0..<pg_limit div 8] (mem_bitmap s);
          b2 = fold (\<lambda>pg b. b(pg := 0xFF)) [pg_limit div 8..<RAM_MAXPAGE div 8] b1
      in fold (\<lambda>pg. set_page_frame_used (of_nat pg)) [0..<2048] (s\<lparr>mem_bitmap := b2\<rparr>))"

section \<open>Which frames are used\<close>

definition frame_used :: "'a frame_state_scheme \<Rightarrow> nat \<Rightarrow> bool" where
  "frame_used s f \<longleftrightarrow> bit (mem_bitmap s (f div 8)) (f mod 8)"

lemma frame_used_set:
  "frame_used (set_page_frame_used page s) f \<longleftrightarrow> f = unat page \<or> frame_used s f"
proof -
  have "f = unat page \<longleftrightarrow> f div 8 = unat page div 8 \<and> f mod 8 = unat page mod 8"
    by (metis div_mult_mod_eq)
  moreover have "f mod 8 < 8" by simp
  ultimately show ?thesis
    by (auto simp: frame_used_def set_page_frame_used_def Let_def unat_div unat_mod bit_simps)
qed

lemma frame_used_release:
  "frame_used (release_page_frame p s) f \<longleftrightarrow> f \<noteq> unat p div 4096 \<and> frame_used s f"
proof -
  have "f = unat p div 4096 \<longleftrightarrow> f div 8 = unat p div 4096 div 8 \<and> f mod 8 = unat p div 4096 mod 8"
    by (metis div_mult_mod_eq)
  moreover have "f mod 8 < 8" by simp
  ultimately show ?thesis
    by (auto simp: frame_used_def release_page_frame_def Let_def unat_div unat_mod bit_simps)
qed

lemma find_bit_Some:
  "find_bit w b = Some c \<Longrightarrow> b \<le> c \<and> c < 8 \<and> \<not> bit w c \<and> (\<forall>j. b \<le> j \<and> j < c \<longrightarrow> bit w j)"
proof (induction w b rule: find_bit.induct)
  case (1 w b)
  have bw: "w AND push_bit b 1 = 0 \<longleftrightarrow> \<not> bit w b" if "b < 8"
    using that by (simp add: push_bit_eq_mult and_exp_eq_0_iff_not_bit)
  show ?case
  proof (cases "b < 8 \<and> bit w b")
    case True
    with "1.prems" bw have "find_bit w (b + 1) = Some c" by (simp add: find_bit.simps [of w b])
    with "1.IH" True bw have "b + 1 \<le> c \<and> c < 8 \<and> \<not> bit w c \<and> (\<forall>j. b + 1 \<le> j \<and> j < c \<longrightarrow> bit w j)"
      by simp
    moreover have "b \<le> j \<and> j < c \<longleftrightarrow> j < c \<and> (j = b \<or> b + 1 \<le> j)" if "b < c" for j
      using that by auto
    ultimately show ?thesis using True by auto
  next
    case False
    with "1.prems" bw show ?thesis by (auto simp: find_bit.simps [of w b] split: if_splits)
  qed
qed

lemma find_bit_None: "find_bit w b = None \<Longrightarrow> b \<le> j \<Longrightarrow> j < 8 \<Longrightarrow> bit w j"
proof (induction w b rule: find_bit.induct)
  case (1 w b)
  have bw: "w AND push_bit b 1 = 0 \<longleftrightarrow> \<not> bit w b" if "b < 8"
    using that by (simp add: push_bit_eq_mult and_exp_eq_0_iff_not_bit)
  from "1.prems" have b: "b < 8" by simp
  with "1.prems"(1) bw have nb: "bit w b" "find_bit w (b + 1) = None"
    by (auto simp: find_bit.simps [of w b] split: if_splits)
  show ?case
  proof (cases "j = b")
    case False
    with "1.IH" [OF b _ nb(2)] nb b bw "1.prems" show ?thesis by simp
  qed (use nb in simp)
qed


lemma full_byte: "j < 8 \<Longrightarrow> bit (0xFF :: u8) j"
proof -
  assume "j < 8"
  then have "bit (mask 8 :: u8) j" by (simp add: bit_mask_iff)
  moreover have "(mask 8 :: u8) = 0xFF" by (simp add: mask_eq_exp_minus_1)
  ultimately show ?thesis by simp
qed

lemma find_page_Some:
  "find_page bm i = Some p \<Longrightarrow> 8 * i \<le> p \<and> p < RAM_MAXPAGE \<and> \<not> bit (bm (p div 8)) (p mod 8)
     \<and> (\<forall>f. 8 * i \<le> f \<and> f < p \<longrightarrow> bit (bm (f div 8)) (f mod 8))"
proof (induction bm i rule: find_page.induct)
  case (1 bm i)
  from "1.prems" have i: "i < RAM_MAXPAGE div 8"
    by (auto simp: find_page.simps [of bm i] split: if_splits)
  show ?case
  proof (cases "bm i \<noteq> 0xFF \<and> find_bit (bm i) 0 \<noteq> None")
    case True
    then obtain b where b: "find_bit (bm i) 0 = Some b" by blast
    with "1.prems" True i have p: "p = 8 * i + b" by (simp add: find_page.simps [of bm i])
    from find_bit_Some [OF b] have fb: "b < 8" "\<not> bit (bm i) b" "\<forall>j<b. bit (bm i) j" by auto
    have "f div 8 = i \<and> f mod 8 < b" if "8 * i \<le> f" "f < p" for f
    proof -
      from that p obtain k where "f = 8 * i + k" "k < b" by (auto simp: nat_le_iff_add)
      with fb show ?thesis by auto
    qed
    with p fb i show ?thesis by auto
  next
    case False
    then have all: "bit (bm i) j" if "j < 8" for j
      using that full_byte find_bit_None [of "bm i" 0 j] by auto
    from False have nx: "find_page bm (i + 1) = Some p"
      using "1.prems" i by (auto simp: find_page.simps [of bm i] split: option.splits)
    have "bit (bm (f div 8)) (f mod 8)" if "8 * i \<le> f" "f < 8 * (i + 1)" for f
    proof -
      from that have "f div 8 = i" by auto
      with all show ?thesis by simp
    qed
    moreover have "8 * (i + 1) \<le> p \<and> p < RAM_MAXPAGE \<and> \<not> bit (bm (p div 8)) (p mod 8)
       \<and> (\<forall>f. 8 * (i + 1) \<le> f \<and> f < p \<longrightarrow> bit (bm (f div 8)) (f mod 8))"
      using "1.IH" i False nx by (cases "bm i = 0xFF") auto
    ultimately show ?thesis by (meson le_trans linorder_not_le mult_le_mono2 le_add1)
  qed
qed

lemma find_page_None:
  "find_page bm i = None \<Longrightarrow> 8 * i \<le> f \<Longrightarrow> f < RAM_MAXPAGE \<Longrightarrow> bit (bm (f div 8)) (f mod 8)"
proof (induction bm i rule: find_page.induct)
  case (1 bm i)
  then have "8 * i < RAM_MAXPAGE" by simp
  then have i: "i < RAM_MAXPAGE div 8" by simp
  with "1.prems" have ff: "bm i = 0xFF \<or> find_bit (bm i) 0 = None" and nx: "find_page bm (i + 1) = None"
    by (auto simp: find_page.simps [of bm i] split: if_splits option.splits)
  show ?case
  proof (cases "f < 8 * (i + 1)")
    case True
    with "1.prems" have "f div 8 = i" by auto
    with ff show ?thesis using full_byte find_bit_None [of "bm i" 0 "f mod 8"] by auto
  next
    case False
    with ff nx i "1.prems" "1.IH" show ?thesis by (cases "bm i = 0xFF") auto
  qed
qed

text \<open>\<open>get_page_frame\<close> returns the lowest free frame and marks only it.\<close>

lemma get_page_frame_Some:
  assumes "get_page_frame s = (p, s')" "p \<noteq> NO_FRAME"
  shows "\<exists>f < RAM_MAXPAGE. p = of_nat f * PAGESIZE \<and> \<not> frame_used s f \<and> (\<forall>g < f. frame_used s g)
    \<and> (\<forall>g. frame_used s' g \<longleftrightarrow> g = f \<or> frame_used s g)"
proof -
  from assms obtain f where f: "find_page (mem_bitmap s) 0 = Some f" "p = of_nat f * PAGESIZE"
    "s' = set_page_frame_used (of_nat f) s"
    by (auto simp: get_page_frame_def split: option.splits)
  from find_page_Some [OF f(1)] have "f < RAM_MAXPAGE" "\<not> frame_used s f" "\<forall>g < f. frame_used s g"
    by (auto simp: frame_used_def)
  moreover from \<open>f < RAM_MAXPAGE\<close> have "unat (of_nat f :: u32) = f" by (intro unat_of_nat_u32) simp
  ultimately show ?thesis using f by (auto simp: frame_used_set)
qed

lemma of_nat_frame:
  assumes "f < RAM_MAXPAGE"
  shows "unat (of_nat f * PAGESIZE :: u32) = f * 4096" "of_nat f * PAGESIZE \<noteq> NO_FRAME"
proof -
  have f: "unat (of_nat f :: u32) = f" using assms by (intro unat_of_nat_u32) simp
  show u: "unat (of_nat f * PAGESIZE :: u32) = f * 4096"
    using assms f by (simp add: unat_word_ariths(2))
  have "f * 4096 mod 4096 \<noteq> (4294967295 :: nat) mod 4096" by simp
  then have "f * 4096 \<noteq> 4294967295" by metis
  moreover have "unat NO_FRAME = 4294967295" by simp
  ultimately show "of_nat f * PAGESIZE \<noteq> NO_FRAME" using u by metis
qed

lemma get_page_frame_fail:
  "fst (get_page_frame s) = NO_FRAME \<longleftrightarrow> (\<forall>f < RAM_MAXPAGE. frame_used s f)"
  "fst (get_page_frame s) = NO_FRAME \<Longrightarrow> snd (get_page_frame s) = s"
  using find_page_Some [of "mem_bitmap s" 0] find_page_None [of "mem_bitmap s" 0] of_nat_frame(2)
  by (force simp: get_page_frame_def frame_used_def split: option.splits)+


section \<open>Initialisation\<close>

lemma fold_fill: "fold (\<lambda>i b. b(i := v)) [l..<h] b = (\<lambda>i. if l \<le> i \<and> i < h then v else b i)"
proof (induction h)
  case (Suc h)
  then show ?case by (cases "l \<le> h") (auto simp: fun_eq_iff)
qed simp

lemma fold_set_used:
  "n < 2 ^ 32 \<Longrightarrow> frame_used (fold (\<lambda>pg. set_page_frame_used (of_nat pg)) [0..<n] s) f
     \<longleftrightarrow> f < n \<or> frame_used s f"
proof (induction n)
  case (Suc n)
  then have "unat (of_nat n :: u32) = n" by (intro unat_of_nat_u32) simp
  with Suc show ?case by (auto simp: frame_used_set)
qed simp

lemma init_bitmap_used:
  assumes "f < RAM_MAXPAGE"
  shows "frame_used (init_bitmap high_mem s) f
    \<longleftrightarrow> f < 2048 \<or> 8 * (unat (high_mem * 1024 div PAGESIZE) div 8) \<le> f"
proof -
  let ?l = "unat (high_mem * 1024 div PAGESIZE) div 8"
  have "f div 8 < RAM_MAXPAGE div 8" using assms by simp
  moreover have "f div 8 < ?l \<longleftrightarrow> f < 8 * ?l" by (simp add: div_less_iff_less_mult mult.commute)
  ultimately show ?thesis
    using full_byte [of "f mod 8"] unfolding init_bitmap_def Let_def fold_fill
    by (subst fold_set_used) (auto simp: frame_used_def)
qed

section \<open>The interface the memory layers rely on\<close>

primrec alloc_many :: "('s \<Rightarrow> u32 \<times> 's) \<Rightarrow> nat \<Rightarrow> 's \<Rightarrow> u32 list \<times> 's" where
  "alloc_many alloc 0 s = ([], s)"
| "alloc_many alloc (Suc n) s =
     (case alloc s of (p, s1) \<Rightarrow> case alloc_many alloc n s1 of (ps, s2) \<Rightarrow> (p # ps, s2))"

abbreviation frame_addr :: "nat \<Rightarrow> u32" where
  "frame_addr f \<equiv> of_nat f * PAGESIZE"

locale frame_allocator =
  fixes alloc :: "'s \<Rightarrow> u32 \<times> 's"
    and release :: "u32 \<Rightarrow> 's \<Rightarrow> 's"
    and used :: "'s \<Rightarrow> nat \<Rightarrow> bool"
  assumes alloc_fresh: "alloc s = (p, s') \<Longrightarrow> p \<noteq> NO_FRAME \<Longrightarrow>
      \<exists>f < RAM_MAXPAGE. p = frame_addr f \<and> \<not> used s f \<and> (\<forall>g. used s' g \<longleftrightarrow> g = f \<or> used s g)"
    and alloc_fails: "fst (alloc s) = NO_FRAME \<longleftrightarrow> (\<forall>f < RAM_MAXPAGE. used s f)"
    and release_frees: "used (release p s) f \<longleftrightarrow> f \<noteq> unat p div 4096 \<and> used s f"
begin

definition free_frames :: "'s \<Rightarrow> nat set" where
  "free_frames s = {f. f < RAM_MAXPAGE \<and> \<not> used s f}"

lemma finite_free [simp]: "finite (free_frames s)"
  by (simp add: free_frames_def)

lemma alloc_step:
  assumes "free_frames s \<noteq> {}" "alloc s = (p, s')"
  shows "\<exists>f \<in> free_frames s. p = frame_addr f \<and> free_frames s' = free_frames s - {f}
    \<and> (\<forall>g. used s' g \<longleftrightarrow> g = f \<or> used s g)"
proof -
  have "p \<noteq> NO_FRAME" using assms alloc_fails [of s] by (auto simp: free_frames_def)
  from alloc_fresh [OF assms(2) this] show ?thesis by (auto simp: free_frames_def)
qed

lemma alloc_many_distinct:
  "n \<le> card (free_frames s) \<Longrightarrow> alloc_many alloc n s = (ps, s') \<Longrightarrow>
    \<exists>fs. ps = map frame_addr fs \<and> length fs = n \<and> distinct fs \<and> set fs \<subseteq> free_frames s
      \<and> (\<forall>g. used s' g \<longleftrightarrow> g \<in> set fs \<or> used s g)"
proof (induction n arbitrary: s ps)
  case 0
  then show ?case by auto
next
  case (Suc n)
  obtain p s1 where a: "alloc s = (p, s1)" by fastforce
  with Suc.prems obtain qs where qs: "alloc_many alloc n s1 = (qs, s')" "ps = p # qs"
    by (auto split: prod.splits)
  have "free_frames s \<noteq> {}" using Suc.prems by auto
  from alloc_step [OF this a] obtain f where f: "f \<in> free_frames s" "p = frame_addr f"
    "free_frames s1 = free_frames s - {f}" "\<forall>g. used s1 g \<longleftrightarrow> g = f \<or> used s g" by blast
  then have "n \<le> card (free_frames s1)" using Suc.prems by simp
  from Suc.IH [OF this qs(1)] obtain fs where "qs = map frame_addr fs" "length fs = n" "distinct fs"
    "set fs \<subseteq> free_frames s1" "\<forall>g. used s' g \<longleftrightarrow> g \<in> set fs \<or> used s1 g" by blast
  with f qs(2) show ?case by (intro exI [of _ "f # fs"]) auto
qed

lemma release_alloc:
  assumes "free_frames s \<noteq> {}" "alloc s = (p, s')"
  shows "used (release p s') g \<longleftrightarrow> used s g"
proof -
  from alloc_step [OF assms] obtain f where "f < RAM_MAXPAGE" "\<not> used s f" "p = frame_addr f"
    "\<forall>g. used s' g \<longleftrightarrow> g = f \<or> used s g" by (auto simp: free_frames_def)
  then show ?thesis by (auto simp: release_frees of_nat_frame)
qed

end

interpretation frames: frame_allocator get_page_frame release_page_frame frame_used
  by unfold_locales
    (use get_page_frame_Some get_page_frame_fail frame_used_release in \<open>blast+\<close>)

section \<open>Properties\<close>

definition demo_frames :: frame_state where
  "demo_frames = \<lparr>mem_bitmap = (\<lambda>_. 0)\<rparr>"

lemma demo_frames_free: "{f. f < RAM_MAXPAGE \<and> \<not> frame_used demo_frames f} = {..<RAM_MAXPAGE}"
  by (auto simp: frame_used_def demo_frames_def)

text \<open>C33. \<open>get_page_frame\<close> fails exactly when every frame is used, and then changes nothing; otherwise it
  returns the address of the lowest free frame and marks that frame and no other.\<close>

theorem get_page_frame_correct:
  "case get_page_frame s of (p, s') \<Rightarrow>
     if p = NO_FRAME then s' = s \<and> (\<forall>f < RAM_MAXPAGE. frame_used s f)
     else \<exists>f < RAM_MAXPAGE. p = frame_addr f \<and> \<not> frame_used s f \<and> (\<forall>g < f. frame_used s g)
       \<and> (\<forall>g. frame_used s' g \<longleftrightarrow> g = f \<or> frame_used s g)"
proof (cases "get_page_frame s")
  case (Pair p s')
  show ?thesis
  proof (cases "p = NO_FRAME")
    case True
    with Pair get_page_frame_fail [of s] show ?thesis by simp
  next
    case False
    from get_page_frame_Some [OF Pair this] show ?thesis unfolding Pair using False by simp
  qed
qed

theorem get_page_frame_correct_witness: "fst (get_page_frame demo_frames) = frame_addr 0"
proof -
  obtain p s' where g: "get_page_frame demo_frames = (p, s')" by fastforce
  have free: "\<not> frame_used demo_frames f" for f by (simp add: frame_used_def demo_frames_def)
  have r: "if p = NO_FRAME then s' = demo_frames \<and> (\<forall>f < RAM_MAXPAGE. frame_used demo_frames f)
     else \<exists>f < RAM_MAXPAGE. p = frame_addr f \<and> \<not> frame_used demo_frames f \<and> (\<forall>g < f. frame_used demo_frames g)
       \<and> (\<forall>g. frame_used s' g \<longleftrightarrow> g = f \<or> frame_used demo_frames g)"
    using get_page_frame_correct [of demo_frames] unfolding g prod.case .
  have "p \<noteq> NO_FRAME" using r free [of 0] by auto
  with r free have "\<exists>f. p = frame_addr f \<and> f = 0" by (metis not_gr_zero)
  then show ?thesis by (simp add: g)
qed

text \<open>Any number of allocations that the free frames suffice for return distinct frames, all free
  before, and mark exactly these.\<close>

theorem frames_distinct:
  assumes "n \<le> card {f. f < RAM_MAXPAGE \<and> \<not> frame_used s f}" "alloc_many get_page_frame n s = (ps, s')"
  shows "\<exists>fs. ps = map frame_addr fs \<and> length fs = n \<and> distinct fs
    \<and> (\<forall>f \<in> set fs. f < RAM_MAXPAGE \<and> \<not> frame_used s f)
    \<and> (\<forall>g. frame_used s' g \<longleftrightarrow> g \<in> set fs \<or> frame_used s g)"
  using frames.alloc_many_distinct [of n s ps s'] assms unfolding frames.free_frames_def by blast

theorem frames_distinct_witness:
  "\<exists>fs. fst (alloc_many get_page_frame 2 demo_frames) = map frame_addr fs \<and> length fs = 2 \<and> distinct fs"
proof -
  obtain ps s' where a: "alloc_many get_page_frame 2 demo_frames = (ps, s')" by fastforce
  have "2 \<le> card {f. f < RAM_MAXPAGE \<and> \<not> frame_used demo_frames f}"
    unfolding demo_frames_free by simp
  from frames_distinct [OF this a] a show ?thesis by auto
qed

text \<open>After the bitmap part of \<open>init_mm\<close> a frame is used exactly when it is one of the first 2048
  (8 MB, the kernel's) or lies at or above the last multiple of eight frames of the memory the boot
  loader reports.\<close>

theorem init_bitmap_correct:
  assumes "f < RAM_MAXPAGE"
  shows "frame_used (init_bitmap high_mem s) f
    \<longleftrightarrow> f < 2048 \<or> 8 * (unat (high_mem * 1024 div PAGESIZE) div 8) \<le> f"
  using init_bitmap_used [OF assms] .

theorem init_bitmap_correct_witness:
  "\<not> frame_used (init_bitmap 65536 demo_frames) 3000 \<and> frame_used (init_bitmap 65536 demo_frames) 20000"
  using init_bitmap_correct [of 3000 65536 demo_frames] init_bitmap_correct [of 20000 65536 demo_frames] by simp

end
