(* ===== verification/Paging.thy ===== *)
theory Paging
  imports Frames
begin

text \<open>
  The page tables of \<^verbatim>\<open>kern/mm.c\<close>. The state adds physical memory, in which the directories and tables
  lie, and the register \<open>cr3\<close>. \<open>walk\<close> is the translation the i386 does on every access; the code
  never sees physical addresses but reads and writes the entries through the last directory entry,
  which points to the directory itself ("page table mirroring magic trick").
\<close>

section \<open>The address translation of the processor\<close>

text \<open>
  Physical memory by 32-bit words at their byte address (directories and tables are accessed by
  aligned words only). The accessed and dirty bits and the permission bits play no part in supervisor
  mode and are left out; neither is the TLB modelled.
\<close>

record mmu_state = frame_state +
  pmem :: "u32 \<Rightarrow> u32"
  cr3 :: u32

abbreviation frame_of :: "u32 \<Rightarrow> u32" where "frame_of w \<equiv> w AND 0xFFFFF000"
abbreviation pdi :: "u32 \<Rightarrow> u32" where "pdi va \<equiv> drop_bit 22 va"
abbreviation vpage :: "u32 \<Rightarrow> u32" where "vpage va \<equiv> drop_bit 12 va"

text \<open>The entry of the directory or table in the frame of \<open>w\<close> that the ten low bits of \<open>i\<close> select.\<close>

definition entry_addr :: "u32 \<Rightarrow> u32 \<Rightarrow> u32" where
  "entry_addr w i = frame_of w OR push_bit 2 (i AND 0x3FF)"

definition pde_of :: "'a mmu_state_scheme \<Rightarrow> u32 \<Rightarrow> u32" where
  "pde_of s i = pmem s (entry_addr (cr3 s) i)"

definition walk :: "'a mmu_state_scheme \<Rightarrow> u32 \<Rightarrow> u32 option" where
  "walk s va =
     (let pde = pde_of s (pdi va)
      in if \<not> bit pde 0 then None
         else if bit pde 7 then Some ((pde AND 0xFFC00000) OR (va AND 0x3FFFFF))
         else let pte = pmem s (entry_addr pde (vpage va))
              in if \<not> bit pte 0 then None else Some (frame_of pte OR (va AND 0xFFF)))"

definition vread :: "'a mmu_state_scheme \<Rightarrow> u32 \<Rightarrow> u32 res" where
  "vread s va = (case walk s va of None \<Rightarrow> Inl (PageFault va) | Some pa \<Rightarrow> Inr (pmem s pa))"

definition vwrite :: "u32 \<Rightarrow> u32 \<Rightarrow> 'a mmu_state_scheme \<Rightarrow> 'a mmu_state_scheme res" where
  "vwrite va w s =
     (case walk s va of
        None \<Rightarrow> Inl (PageFault va)
      | Some pa \<Rightarrow> Inr (s\<lparr>pmem := (pmem s)(pa := w)\<rparr>))"

section \<open>The code\<close>

abbreviation (input) PG_PRESENT :: u32 where "PG_PRESENT \<equiv> 1"
abbreviation (input) PG_WRITE :: u32 where "PG_WRITE \<equiv> 2"
abbreviation (input) PG_USER :: u32 where "PG_USER \<equiv> 4"
abbreviation (input) PG_4MB :: u32 where "PG_4MB \<equiv> 0x80"
abbreviation (input) KERN_PDIR :: u32 where "KERN_PDIR \<equiv> 0x1000"
abbreviation (input) USER_OFFSET :: u32 where "USER_OFFSET \<equiv> 0x40000000"
abbreviation (input) USER_STACK :: u32 where "USER_STACK \<equiv> 0xE0000000"

text \<open>The virtual addresses at which the code finds the directory and table entry of \<open>v\<close>.\<close>

definition pde_addr :: "u32 \<Rightarrow> u32" where
  "pde_addr v = 0xFFFFF000 OR drop_bit 20 (v AND 0xFFC00000)"

definition pte_addr :: "u32 \<Rightarrow> u32" where
  "pte_addr v = 0xFFC00000 OR drop_bit 10 (v AND 0xFFFFF000)"

definition pd0_add_page :: "u32 \<Rightarrow> u32 \<Rightarrow> u32 \<Rightarrow> 'a mmu_state_scheme \<Rightarrow> 'a mmu_state_scheme res" where
  "pd0_add_page v_addr p_addr flags s =
     (if v_addr > USER_OFFSET then Inr s
      else bind_res (vread s (pde_addr v_addr)) (\<lambda>pde.
        if pde AND PG_PRESENT = 0 then Inl Halt
        else vwrite (pte_addr v_addr) (p_addr OR (PG_PRESENT OR PG_WRITE OR flags)) s))"

definition get_p_addr :: "'a mmu_state_scheme \<Rightarrow> u32 \<Rightarrow> u32 res" where
  "get_p_addr s v_addr =
     bind_res (vread s (pde_addr v_addr)) (\<lambda>pde.
       if pde AND PG_PRESENT \<noteq> 0
       then bind_res (vread s (pte_addr v_addr)) (\<lambda>pte.
              if pte AND PG_PRESENT \<noteq> 0 then Inr (frame_of pte + (v_addr AND 0xFFF)) else Inr 0)
       else Inr 0)"

definition pd_remove_page :: "u32 \<Rightarrow> 'a mmu_state_scheme \<Rightarrow> 'a mmu_state_scheme res" where
  "pd_remove_page v_addr s =
     bind_res (get_p_addr s v_addr) (\<lambda>p.
       if p \<noteq> 0
       then bind_res (vread s (pte_addr v_addr)) (\<lambda>pte.
              vwrite (pte_addr v_addr) (pte AND NOT PG_PRESENT) s)
       else Inr s)"

text \<open>The kernel's page directory, written before paging is on, so by physical address.\<close>

definition init_pd0 :: "'a mmu_state_scheme \<Rightarrow> 'a mmu_state_scheme" where
  "init_pd0 s =
     (let pd0 = (\<lambda>i w m. m(KERN_PDIR + 4 * i := w));
          m1 = pd0 0 (0 OR (PG_PRESENT OR PG_WRITE OR PG_4MB)) (pmem s);
          m2 = pd0 1 (0x400000 OR (PG_PRESENT OR PG_WRITE OR PG_4MB)) m1;
          m3 = fold (\<lambda>i. pd0 (of_nat i) ((0x400000 + PAGESIZE * of_nat i) OR (PG_PRESENT OR PG_WRITE))) [2..<1023] m2;
          m4 = pd0 1023 (KERN_PDIR OR (PG_PRESENT OR PG_WRITE)) m3
      in s\<lparr>pmem := m4, cr3 := KERN_PDIR\<rparr>)"

section \<open>Arithmetic of the mirror\<close>

lemma word_masks:
  "(0xFFC00000 :: u32) = push_bit 22 (mask 10)" "(0xFFFFF000 :: u32) = push_bit 12 (mask 20)"
  "(0x3FF :: u32) = mask 10" "(0xFFF :: u32) = mask 12" "(0x3FFFFF :: u32) = mask 22"
  "(0x3FF000 :: u32) = push_bit 12 (mask 10)"
  by (simp_all add: mask_eq_exp_minus_1)

lemma pde_addr_fields:
  "pdi (pde_addr v) = 0x3FF" "vpage (pde_addr v) AND 0x3FF = 0x3FF"
  "pde_addr v AND 0xFFF = push_bit 2 (pdi v AND 0x3FF)"
  unfolding pde_addr_def word_masks
  by (rule bit_word_eqI; auto simp: bit_simps dest: bit_imp_le_length)+

lemma pte_addr_fields:
  "pdi (pte_addr v) = 0x3FF" "vpage (pte_addr v) AND 0x3FF = pdi v"
  "pte_addr v AND 0xFFF = push_bit 2 (vpage v AND 0x3FF)"
  unfolding pte_addr_def word_masks
  by (rule bit_word_eqI; auto simp: bit_simps dest: bit_imp_le_length)+

lemma and_one_bit0: "w AND 1 = (0 :: u32) \<longleftrightarrow> \<not> bit w 0"
  by (simp add: and_one_eq odd_iff_mod_2_eq_one bit_0 flip: even_iff_mod_2_eq_zero)

lemma pdi_mask: "pdi v AND 0x3FF = pdi v"
  unfolding word_masks by (rule bit_word_eqI) (auto simp: bit_simps dest: bit_imp_le_length)

lemma entry_frame: "frame_of (frame_of w OR push_bit 2 (i AND 0x3FF)) = frame_of w"
  unfolding word_masks by (rule bit_word_eqI) (auto simp: bit_simps)

lemma entry_index: "drop_bit 2 (frame_of w OR push_bit 2 (i AND 0x3FF)) AND 0x3FF = i AND 0x3FF"
  unfolding word_masks by (rule bit_word_eqI) (auto simp: bit_simps)

lemma entry_addr_inj:
  "entry_addr a i = entry_addr b j \<longleftrightarrow> frame_of a = frame_of b \<and> i AND 0x3FF = j AND 0x3FF"
  unfolding entry_addr_def by (metis entry_frame entry_index)

text \<open>The directory of \<open>cr3\<close> maps itself: its last entry is present, small and names its own frame.\<close>

definition self_mapped :: "'a mmu_state_scheme \<Rightarrow> bool" where
  "self_mapped s \<longleftrightarrow> bit (pde_of s 0x3FF) 0 \<and> \<not> bit (pde_of s 0x3FF) 7
     \<and> frame_of (pde_of s 0x3FF) = frame_of (cr3 s)"

lemma mirror_entry:
  assumes "self_mapped s"
  shows "pmem s (entry_addr (pde_of s 0x3FF) i) = pde_of s (i AND 0x3FF)"
  using assms by (simp add: self_mapped_def entry_addr_def pde_of_def and.assoc)

lemma walk_pde_addr:
  assumes "self_mapped s"
  shows "walk s (pde_addr v) = Some (entry_addr (cr3 s) (pdi v))"
  using assms mirror_entry [OF assms, of "vpage (pde_addr v)"]
  by (simp add: walk_def self_mapped_def pde_addr_fields Let_def entry_addr_def)

lemma walk_pte_addr:
  assumes "self_mapped s"
  shows "walk s (pte_addr v) =
    (if bit (pde_of s (pdi v)) 0 then Some (entry_addr (pde_of s (pdi v)) (vpage v)) else None)"
  using assms mirror_entry [OF assms, of "vpage (pte_addr v)"]
  by (simp add: walk_def self_mapped_def pte_addr_fields Let_def entry_addr_def)

lemma vread_pde: "self_mapped s \<Longrightarrow> vread s (pde_addr v) = Inr (pde_of s (pdi v))"
  by (simp add: vread_def walk_pde_addr pde_of_def)

definition pte_at :: "'a mmu_state_scheme \<Rightarrow> u32 \<Rightarrow> u32" where
  "pte_at s v = entry_addr (pde_of s (pdi v)) (vpage v)"

lemma vread_pte:
  "self_mapped s \<Longrightarrow> bit (pde_of s (pdi v)) 0 \<Longrightarrow> vread s (pte_addr v) = Inr (pmem s (pte_at s v))"
  by (simp add: vread_def walk_pte_addr pte_at_def)

lemma vwrite_pte:
  "self_mapped s \<Longrightarrow> bit (pde_of s (pdi v)) 0 \<Longrightarrow>
    vwrite (pte_addr v) w s = Inr (s\<lparr>pmem := (pmem s)(pte_at s v := w)\<rparr>)"
  by (simp add: vwrite_def walk_pte_addr pte_at_def)

lemma walk_small:
  "\<not> bit (pde_of s (pdi v)) 7 \<Longrightarrow> walk s v =
    (if bit (pde_of s (pdi v)) 0 \<and> bit (pmem s (pte_at s v)) 0
     then Some (frame_of (pmem s (pte_at s v)) OR (v AND 0xFFF)) else None)"
  by (simp add: walk_def Let_def pte_at_def)

lemma frame_plus_offset: "frame_of w + (v AND 0xFFF) = frame_of w OR (v AND 0xFFF)"
  unfolding word_masks by (rule disjunctive_add) (auto simp: bit_simps)

lemma get_p_addr_walk:
  assumes "self_mapped s" "\<not> bit (pde_of s (pdi v)) 7"
  shows "get_p_addr s v = Inr (case walk s v of None \<Rightarrow> 0 | Some p \<Rightarrow> p)"
  using assms
  by (simp add: get_p_addr_def vread_pde vread_pte walk_small and_one_bit0 frame_plus_offset)


section \<open>Kernel space\<close>

text \<open>
  \<open>init_mm\<close> gives the kernel one page table per directory entry, at fixed frames from 4 MB on; every
  process directory shares the entries below 256 (\<open>USER_OFFSET\<close>).
\<close>

definition ktab :: "u32 \<Rightarrow> u32" where
  "ktab i = 0x400000 + PAGESIZE * i"

definition kspace :: "'a mmu_state_scheme \<Rightarrow> bool" where
  "kspace s \<longleftrightarrow> self_mapped s
     \<and> (\<forall>i. 2 \<le> i \<and> i < 256 \<longrightarrow> bit (pde_of s i) 0 \<and> \<not> bit (pde_of s i) 7
          \<and> frame_of (pde_of s i) = ktab i \<and> frame_of (cr3 s) \<noteq> ktab i)"

definition kernel_v :: "u32 \<Rightarrow> bool" where
  "kernel_v v \<longleftrightarrow> 0x800000 \<le> v \<and> v < USER_OFFSET"

definition set_pte :: "u32 \<Rightarrow> u32 \<Rightarrow> 'a mmu_state_scheme \<Rightarrow> 'a mmu_state_scheme" where
  "set_pte v w s = s\<lparr>pmem := (pmem s)(pte_at s v := w)\<rparr>"

lemma kernel_v_pdi: "kernel_v v \<Longrightarrow> 2 \<le> pdi v \<and> pdi v < 256"
  by (auto simp: kernel_v_def word_le_nat_alt word_less_nat_alt drop_bit_eq_div unat_div)

lemma kspace_pde:
  assumes "kspace s" "kernel_v v"
  shows "bit (pde_of s (pdi v)) 0" "\<not> bit (pde_of s (pdi v)) 7" "frame_of (pde_of s (pdi v)) = ktab (pdi v)"
    "frame_of (cr3 s) \<noteq> ktab (pdi v)"
  using assms kernel_v_pdi [OF assms(2)] by (auto simp: kspace_def)

lemma unat_ktab: "i < 256 \<Longrightarrow> unat (ktab i) = 4194304 + 4096 * unat i"
  by (simp add: ktab_def unat_word_ariths word_less_nat_alt)

lemma ktab_inj: "i < 256 \<Longrightarrow> j < 256 \<Longrightarrow> ktab i = ktab j \<longleftrightarrow> i = j"
  by (auto simp: unat_ktab simp flip: word_unat_eq_iff dest: arg_cong [where f = unat])

lemma vpage_split: "vpage v = push_bit 10 (pdi v) OR (vpage v AND 0x3FF)"
  unfolding word_masks by (rule bit_word_eqI) (auto simp: bit_simps dest: bit_imp_le_length)

lemma vpage_eq: "vpage v = vpage w \<longleftrightarrow> pdi v = pdi w \<and> vpage v AND 0x3FF = vpage w AND 0x3FF"
proof
  have "pdi x = drop_bit 10 (vpage x)" for x by simp
  moreover assume "vpage v = vpage w"
  ultimately show "pdi v = pdi w \<and> vpage v AND 0x3FF = vpage w AND 0x3FF" by metis
next
  assume "pdi v = pdi w \<and> vpage v AND 0x3FF = vpage w AND 0x3FF"
  then show "vpage v = vpage w" using vpage_split [of v] vpage_split [of w] by metis
qed

lemma pte_at_inj:
  assumes "kspace s" "kernel_v v" "kernel_v w"
  shows "pte_at s v = pte_at s w \<longleftrightarrow> vpage v = vpage w"
proof -
  have "pte_at s v = pte_at s w \<longleftrightarrow> ktab (pdi v) = ktab (pdi w) \<and> vpage v AND 0x3FF = vpage w AND 0x3FF"
    using kspace_pde [OF assms(1,2)] kspace_pde [OF assms(1,3)]
    by (simp add: pte_at_def entry_addr_inj)
  with kernel_v_pdi assms show ?thesis by (simp add: ktab_inj vpage_eq)
qed

lemma set_pte_pde:
  assumes "kspace s" "kernel_v v"
  shows "pde_of (set_pte v w s) i = pde_of s i"
  using kspace_pde [OF assms] by (auto simp: pde_of_def set_pte_def pte_at_def entry_addr_inj)

lemma set_pte_cr3 [simp]: "cr3 (set_pte v w s) = cr3 s"
  by (simp add: set_pte_def)

lemma set_pte_kspace:
  assumes "kspace s" "kernel_v v"
  shows "kspace (set_pte v w s)"
  using assms by (simp add: kspace_def self_mapped_def set_pte_pde [OF assms])

lemma walk_kernel:
  assumes "kspace s" "kernel_v v"
  shows "walk s v = (if bit (pmem s (pte_at s v)) 0
    then Some (frame_of (pmem s (pte_at s v)) OR (v AND 0xFFF)) else None)"
  using kspace_pde [OF assms] by (simp add: walk_small)

lemma walk_set_pte:
  assumes "kspace s" "kernel_v v" "kernel_v u"
  shows "walk (set_pte v w s) u =
    (if vpage u = vpage v then if bit w 0 then Some (frame_of w OR (u AND 0xFFF)) else None
     else walk s u)"
proof -
  have "pte_at (set_pte v w s) u = pte_at s u"
    by (simp add: pte_at_def set_pte_pde [OF assms(1,2)])
  then show ?thesis
    using assms set_pte_kspace [OF assms(1,2), of w] pte_at_inj [OF assms(1,3,2)]
    by (simp add: walk_kernel) (simp add: set_pte_def)
qed


section \<open>Adding and removing kernel pages\<close>

lemma pd0_add_page_set_pte:
  assumes "kspace s" "kernel_v v"
  shows "pd0_add_page v p flags s = Inr (set_pte v (p OR (PG_PRESENT OR PG_WRITE OR flags)) s)"
proof -
  have "self_mapped s" using assms by (simp add: kspace_def)
  moreover have "\<not> v > USER_OFFSET" using assms(2) by (auto simp: kernel_v_def)
  ultimately show ?thesis
    using kspace_pde [OF assms]
    by (simp add: pd0_add_page_def vread_pde vwrite_pte and_one_bit0 set_pte_def)
qed

lemma pte_flags:
  assumes "frame_of p = p" "frame_of flags = 0"
  shows "bit (p OR (PG_PRESENT OR PG_WRITE OR flags)) 0"
    "frame_of (p OR (PG_PRESENT OR PG_WRITE OR flags)) = p"
proof -
  have "frame_of (p OR (PG_PRESENT OR PG_WRITE OR flags)) = frame_of p OR (frame_of 1 OR frame_of 2 OR frame_of flags)"
    by (simp add: bit.conj_disj_distrib2)
  with assms show "frame_of (p OR (PG_PRESENT OR PG_WRITE OR flags)) = p" by simp
qed (simp add: bit_simps)

lemma frame_of_frame_addr: "frame_of (of_nat f * PAGESIZE) = of_nat f * PAGESIZE"
proof -
  have "of_nat f * PAGESIZE = push_bit 12 (of_nat f :: u32)" by (simp add: push_bit_eq_mult)
  then show ?thesis
    by (simp only:) (unfold word_masks, rule bit_word_eqI, auto simp: bit_simps)
qed

lemma pd_remove_page_set_pte:
  assumes "kspace s" "kernel_v v" "walk s v = Some p" "p \<noteq> 0"
  shows "pd_remove_page v s = Inr (set_pte v (pmem s (pte_at s v) AND NOT PG_PRESENT) s)"
proof -
  have "self_mapped s" using assms by (simp add: kspace_def)
  with assms kspace_pde [OF assms(1,2)] show ?thesis
    by (simp add: pd_remove_page_def get_p_addr_walk vread_pte vwrite_pte set_pte_def)
qed

section \<open>The directory that \<open>init_mm\<close> builds\<close>

lemma slot_word: "4 * of_nat i = push_bit 2 (of_nat i :: u32)"
  by (simp add: push_bit_eq_mult mult.commute)

lemma slot_unat: "i < 1024 \<Longrightarrow> unat (KERN_PDIR + 4 * of_nat i) = 4096 + 4 * i"
  by (simp add: unat_word_ariths unat_of_nat_u32)

lemma slot_inj: "i < 1024 \<Longrightarrow> j < 1024 \<Longrightarrow> KERN_PDIR + 4 * of_nat i = KERN_PDIR + 4 * of_nat j \<longleftrightarrow> i = j"
  using slot_unat [of i] slot_unat [of j] by (metis add_left_cancel mult_cancel1 zero_neq_numeral)

lemma index_mask: "i < 1024 \<Longrightarrow> of_nat i AND (0x3FF :: u32) = of_nat i"
  unfolding word_masks by (simp add: take_bit_of_nat take_bit_nat_eq_self flip: take_bit_eq_mask)

lemma entry_slot:
  assumes "i < 1024" "frame_of w = KERN_PDIR"
  shows "entry_addr w (of_nat i) = KERN_PDIR + 4 * of_nat i"
proof -
  have "KERN_PDIR + push_bit 2 (of_nat i AND 0x3FF) = KERN_PDIR OR push_bit 2 (of_nat i AND 0x3FF)"
  proof (rule disjunctive_add)
    fix n
    have "(0x1000 :: u32) = 2 ^ 12" by simp
    then have "bit (0x1000 :: u32) n \<Longrightarrow> n = 12" by (simp only: bit_exp_iff)
    then show "\<not> bit (0x1000 :: u32) n \<or> \<not> bit (push_bit 2 (of_nat i AND 0x3FF :: u32)) n"
      unfolding word_masks by (auto simp: bit_simps)
  qed
  then show ?thesis using assms index_mask [OF assms(1)] by (simp add: entry_addr_def slot_word)
qed

lemma fold_slots:
  "h \<le> 1024 \<Longrightarrow> j < 1024 \<Longrightarrow> fold (\<lambda>i m. m(KERN_PDIR + 4 * of_nat i := w i)) [l..<h] m (KERN_PDIR + 4 * of_nat j)
     = (if l \<le> j \<and> j < h then w j else m (KERN_PDIR + 4 * of_nat j))"
proof (induction h)
  case (Suc h)
  then show ?case using slot_inj [of j h] by (cases "l \<le> h") (auto simp: less_Suc_eq)
qed simp

lemma fold_slots_outside:
  "h \<le> 1024 \<Longrightarrow> a < 0x1000 \<or> 0x2000 \<le> a \<Longrightarrow>
    fold (\<lambda>i m. m(KERN_PDIR + 4 * of_nat i := w i)) [l..<h] m a = m a"
proof (induction h)
  case (Suc h)
  have "a \<noteq> KERN_PDIR + 4 * of_nat h"
    using Suc.prems slot_unat [of h] by (auto simp: word_less_nat_alt word_le_nat_alt)
  with Suc show ?case by (cases "l \<le> h") auto
qed simp

lemma init_pd0_entry:
  assumes "j < 1024"
  shows "pmem (init_pd0 s) (KERN_PDIR + 4 * of_nat j) =
    (if j = 0 then 0x83 else if j = 1 then 0x400083 else if j = 1023 then 0x1003
     else (0x400000 + PAGESIZE * of_nat j) OR 3)"
  using assms slot_inj [of j 0] slot_inj [of j 1] slot_inj [of j 1023]
    fold_slots [where j = 0 and h = 1023 and l = 2 and w = "w :: nat \<Rightarrow> u32" for w]
    fold_slots [where j = 1 and h = 1023 and l = 2 and w = "w :: nat \<Rightarrow> u32" for w]
  by (auto simp: init_pd0_def Let_def fold_slots simp del: upt_rec_numeral)

lemma init_pd0_outside:
  "a < 0x1000 \<or> 0x2000 \<le> a \<Longrightarrow> pmem (init_pd0 s) a = pmem s a"
  by (auto simp: init_pd0_def Let_def fold_slots_outside simp del: upt_rec_numeral)

lemma init_pd0_sel [simp]: "cr3 (init_pd0 s) = KERN_PDIR" "mem_bitmap (init_pd0 s) = mem_bitmap s"
  by (simp_all add: init_pd0_def Let_def del: upt_rec_numeral)

lemma init_pd0_pde:
  assumes "j < 1024" shows "pde_of (init_pd0 s) (of_nat j) = pmem (init_pd0 s) (KERN_PDIR + 4 * of_nat j)"
  using entry_slot [OF assms, of KERN_PDIR] by (simp add: pde_of_def)

lemma frame_addr_bits: "n < 12 \<Longrightarrow> \<not> bit (frame_addr f) n"
proof -
  assume "n < 12"
  moreover have "frame_addr f = push_bit 12 (of_nat f :: u32)" by (simp add: push_bit_eq_mult)
  ultimately show ?thesis by (simp only:) (simp add: bit_simps)
qed

lemma init_pd0_kspace: "kspace (init_pd0 s)"
  unfolding kspace_def
proof (intro conjI allI impI)
  have last: "pde_of (init_pd0 s) 0x3FF = 0x1003" using init_pd0_pde [of 1023 s] init_pd0_entry [of 1023 s] by simp
  show "self_mapped (init_pd0 s)"
    unfolding self_mapped_def last by (simp add: bit_numeral_rec)
  fix i :: u32 assume i: "2 \<le> i \<and> i < 256"
  define j where "j = unat i"
  have j: "2 \<le> j" "j < 256" "i = of_nat j" using i by (simp_all add: j_def word_le_nat_alt word_less_nat_alt)
  have k: "ktab i = frame_addr (1024 + j)" by (simp add: ktab_def j(3) algebra_simps)
  have e: "pde_of (init_pd0 s) i = frame_addr (1024 + j) OR (PG_PRESENT OR PG_WRITE OR 0)"
    using j init_pd0_pde [of j s] init_pd0_entry [of j s] by (simp add: algebra_simps)
  note fl = pte_flags [OF frame_of_frame_addr, of 0 "1024 + j"]
  show "bit (pde_of (init_pd0 s) i) 0" "frame_of (pde_of (init_pd0 s) i) = ktab i"
    unfolding e k using fl by simp_all
  have "\<not> bit (frame_addr (1024 + j)) 7"
    using frame_addr_bits [of 7 "1024 + j"] by simp
  then show "\<not> bit (pde_of (init_pd0 s) i) 7" unfolding e by (simp add: bit_simps bit_numeral_rec)
  have "unat (ktab i) \<noteq> unat KERN_PDIR" using unat_ktab [of i] i by simp
  then show "frame_of (cr3 (init_pd0 s)) \<noteq> ktab i" by auto
qed

text \<open>What the kernel heap and the page heap rely on.\<close>

locale kernel_mapping =
  fixes inv :: "'s \<Rightarrow> bool"
    and translate :: "'s \<Rightarrow> u32 \<Rightarrow> u32 option"
    and add_page :: "u32 \<Rightarrow> u32 \<Rightarrow> 's \<Rightarrow> 's res"
    and remove_page :: "u32 \<Rightarrow> 's \<Rightarrow> 's res"
  assumes add_page_ok: "inv s \<Longrightarrow> kernel_v v \<Longrightarrow> frame_of p = p \<Longrightarrow>
      \<exists>s'. add_page v p s = Inr s' \<and> inv s' \<and> (\<forall>u. kernel_v u \<longrightarrow> translate s' u =
        (if vpage u = vpage v then Some (p OR (u AND 0xFFF)) else translate s u))"
    and remove_page_ok: "inv s \<Longrightarrow> kernel_v v \<Longrightarrow> translate s v = Some p \<Longrightarrow> p \<noteq> 0 \<Longrightarrow>
      \<exists>s'. remove_page v s = Inr s' \<and> inv s' \<and> (\<forall>u. kernel_v u \<longrightarrow> translate s' u =
        (if vpage u = vpage v then None else translate s u))"
begin

lemma remove_add:
  assumes "inv s" "kernel_v v" "frame_of p = p" "p \<noteq> 0"
    "\<And>u. kernel_v u \<Longrightarrow> vpage u = vpage v \<Longrightarrow> translate s u = None"
  shows "\<exists>s'. bind_res (add_page v p s) (remove_page v) = Inr s' \<and> inv s'
    \<and> (\<forall>u. kernel_v u \<longrightarrow> translate s' u = translate s u)"
proof -
  from add_page_ok [OF assms(1-3)] obtain s1 where s1: "add_page v p s = Inr s1" "inv s1"
    "\<forall>u. kernel_v u \<longrightarrow> translate s1 u = (if vpage u = vpage v then Some (p OR (u AND 0xFFF)) else translate s u)"
    by blast
  have "p OR (v AND 0xFFF) \<noteq> 0" using assms(4) by (metis or_eq_0_iff)
  moreover have "translate s1 v = Some (p OR (v AND 0xFFF))" using s1 assms(2) by simp
  ultimately show ?thesis using remove_page_ok [OF s1(2) assms(2)] s1 assms by fastforce
qed

end

interpretation kmap: kernel_mapping kspace walk "\<lambda>v p. pd0_add_page v p 0" pd_remove_page
proof unfold_locales
  fix s :: "'a mmu_state_scheme" and v p
  assume s: "kspace s" "kernel_v v" and p: "frame_of p = p"
  let ?w = "p OR (PG_PRESENT OR PG_WRITE OR 0)"
  have "bit ?w 0" "frame_of ?w = p" using pte_flags [OF p, of 0] by simp_all
  then show "\<exists>s'. pd0_add_page v p 0 s = Inr s' \<and> kspace s' \<and> (\<forall>u. kernel_v u \<longrightarrow> walk s' u =
        (if vpage u = vpage v then Some (p OR (u AND 0xFFF)) else walk s u))"
    using pd0_add_page_set_pte [OF s, of p 0] set_pte_kspace [OF s] walk_set_pte [OF s] by auto
next
  fix s :: "'a mmu_state_scheme" and v p
  assume s: "kspace s" "kernel_v v" and p: "walk s v = Some p" "p \<noteq> 0"
  let ?w = "pmem s (pte_at s v) AND NOT PG_PRESENT"
  have "\<not> bit ?w 0" by (simp add: bit_simps)
  then show "\<exists>s'. pd_remove_page v s = Inr s' \<and> kspace s' \<and> (\<forall>u. kernel_v u \<longrightarrow> walk s' u =
        (if vpage u = vpage v then None else walk s u))"
    using pd_remove_page_set_pte [OF s p] set_pte_kspace [OF s] walk_set_pte [OF s] by auto
qed

section \<open>Properties\<close>

definition demo_mmu :: mmu_state where
  "demo_mmu = init_pd0 \<lparr>mem_bitmap = (\<lambda>_. 0), pmem = (\<lambda>_. 0), cr3 = 0\<rparr>"

lemma demo_mmu_kspace: "kspace demo_mmu" "self_mapped demo_mmu"
  using init_pd0_kspace unfolding demo_mmu_def kspace_def by blast+

text \<open>C25. The mirror: in an address space whose directory maps itself, the processor translates the
  virtual address at which the code looks for a directory entry to that entry, and the one at which it
  looks for a table entry to that entry of the table when the table is present, and to nothing
  otherwise.\<close>

theorem mirror_correct:
  assumes "self_mapped s"
  shows "walk s (pde_addr v) = Some (entry_addr (cr3 s) (pdi v))
    \<and> walk s (pte_addr v) =
        (if bit (pde_of s (pdi v)) 0 then Some (entry_addr (pde_of s (pdi v)) (vpage v)) else None)"
  using walk_pde_addr [OF assms] walk_pte_addr [OF assms] by blast

theorem mirror_correct_witness:
  "self_mapped demo_mmu \<and> walk demo_mmu (pde_addr 0x10000000) = Some (entry_addr (cr3 demo_mmu) 64)"
  using mirror_correct [OF demo_mmu_kspace(2), of "0x10000000"] demo_mmu_kspace(2) by (simp add: drop_bit_eq_div)



text \<open>C27. In kernel space \<open>pd0_add_page\<close> maps exactly the page of \<open>v\<close>, to the frame given, and keeps the
  address space well formed; \<open>pd_remove_page\<close> after it succeeds and leaves \<open>v\<close> unmapped and every
  other kernel page as it was.\<close>

theorem add_remove_page:
  assumes "kspace s" "kernel_v v" "frame_of p = p" "p \<noteq> 0"
  shows "\<exists>s1 s2. pd0_add_page v p 0 s = Inr s1 \<and> kspace s1
    \<and> (\<forall>u. kernel_v u \<longrightarrow> walk s1 u = (if vpage u = vpage v then Some (p OR (u AND 0xFFF)) else walk s u))
    \<and> pd_remove_page v s1 = Inr s2 \<and> kspace s2
    \<and> (\<forall>u. kernel_v u \<longrightarrow> walk s2 u = (if vpage u = vpage v then None else walk s u))"
proof -
  from kmap.add_page_ok [OF assms(1-3)] obtain s1 where s1: "pd0_add_page v p 0 s = Inr s1" "kspace s1"
    "\<forall>u. kernel_v u \<longrightarrow> walk s1 u = (if vpage u = vpage v then Some (p OR (u AND 0xFFF)) else walk s u)" by blast
  have "walk s1 v = Some (p OR (v AND 0xFFF))" "p OR (v AND 0xFFF) \<noteq> 0"
    using s1(3) assms(2,4) by (simp, metis or_eq_0_iff)
  from kmap.remove_page_ok [OF s1(2) assms(2) this] obtain s2 where "pd_remove_page v s1 = Inr s2" "kspace s2"
    "\<forall>u. kernel_v u \<longrightarrow> walk s2 u = (if vpage u = vpage v then None else walk s1 u)" by blast
  with s1 show ?thesis by auto
qed

theorem add_remove_page_witness:
  "\<exists>s1. pd0_add_page 0x10000000 0x5000000 0 demo_mmu = Inr s1 \<and> walk s1 0x10000000 = Some 0x5000000"
proof -
  have "kernel_v 0x10000000" by (simp add: kernel_v_def)
  with add_remove_page [OF demo_mmu_kspace(1) this, of "0x5000000"] show ?thesis by auto
qed

end
