(* ===== verification/Chunks.thy ===== *)
theory Chunks
  imports Prelude
begin

text \<open>
  The heap layout that \<^verbatim>\<open>kern/kmalloc.c\<close> and \<^verbatim>\<open>usr/libc/malloc.c\<close> share: a heap is a run of chunks,
  each with a packed four-byte header (\<open>size:31, used:1\<close>) that gives the size of the whole chunk.
  \<open>chunks m a cs e\<close> reads the headers from \<open>a\<close> to \<open>e\<close> as a list; \<open>used_blocks\<close> is the abstract view,
  the set of data blocks handed out. What a first-fit allocation, a release and a growth of the heap
  do to the list is stated once here for both allocators.
\<close>

section \<open>Headers\<close>

definition hdr_size :: "mem \<Rightarrow> u32 \<Rightarrow> u32" where
  "hdr_size m a = rd32 m a AND 0x7FFFFFFF"

definition hdr_used :: "mem \<Rightarrow> u32 \<Rightarrow> bool" where
  "hdr_used m a \<longleftrightarrow> bit (rd32 m a) 31"

text \<open>Assignments to the bit fields \<open>size\<close> and \<open>used\<close>.\<close>

definition set_size :: "u32 \<Rightarrow> u32 \<Rightarrow> mem \<Rightarrow> mem" where
  "set_size a sz m = wr32 m a ((rd32 m a AND 0x80000000) OR (sz AND 0x7FFFFFFF))"

definition set_used :: "u32 \<Rightarrow> bool \<Rightarrow> mem \<Rightarrow> mem" where
  "set_used a u m = wr32 m a ((rd32 m a AND 0x7FFFFFFF) OR (if u then 0x80000000 else 0))"

lemma hdr_masks: "(0x7FFFFFFF :: u32) = mask 31" "(0x80000000 :: u32) = 2 ^ 31"
  by (simp_all add: mask_eq_exp_minus_1)

lemma hdr_fields:
  "((w AND 0x80000000) OR (sz AND 0x7FFFFFFF)) AND 0x7FFFFFFF = sz AND (0x7FFFFFFF :: u32)"
  "((w AND 0x7FFFFFFF) OR 0x80000000) AND 0x7FFFFFFF = w AND (0x7FFFFFFF :: u32)"
  "bit ((w AND 0x80000000) OR (sz AND (0x7FFFFFFF :: u32))) 31 = bit w 31"
  "bit ((w AND 0x7FFFFFFF) OR (0x80000000 :: u32)) 31" "\<not> bit (w AND (0x7FFFFFFF :: u32)) 31"
  unfolding hdr_masks by (auto intro!: bit_word_eqI simp del: power_numeral simp: bit_simps)

lemma hdr_set_same [simp, mem_simps]:
  "hdr_size (set_size a sz m) a = sz AND 0x7FFFFFFF" "hdr_used (set_size a sz m) a = hdr_used m a"
  "hdr_size (set_used a u m) a = hdr_size m a" "hdr_used (set_used a u m) a = u"
  by (simp_all add: hdr_size_def hdr_used_def set_size_def set_used_def hdr_fields)

lemma rd32_set_apart [mem_simps]:
  "apart4 a b \<Longrightarrow> rd32 (set_size a sz m) b = rd32 m b"
  "apart4 a b \<Longrightarrow> rd32 (set_used a u m) b = rd32 m b"
  by (simp_all add: set_size_def set_used_def rd32_wr32_apart)

lemma hdr_set_apart [mem_simps]:
  assumes "apart4 a b"
  shows "hdr_size (set_size a sz m) b = hdr_size m b" "hdr_used (set_size a sz m) b = hdr_used m b"
    "hdr_size (set_used a u m) b = hdr_size m b" "hdr_used (set_used a u m) b = hdr_used m b"
  using assms by (simp_all add: hdr_size_def hdr_used_def rd32_set_apart)

lemma set_other:
  "\<not> in_block a 4 c \<Longrightarrow> set_size a sz m c = m c"
  "\<not> in_block a 4 c \<Longrightarrow> set_used a u m c = m c"
  by (simp_all add: set_size_def set_used_def wr32_other in_block_def)

lemma size_field: "n < 2 ^ 31 \<Longrightarrow> of_nat n AND (0x7FFFFFFF :: u32) = of_nat n"
proof -
  assume "n < 2 ^ 31"
  then have "take_bit 31 (of_nat n :: u32) = of_nat n"
    by (simp add: take_bit_of_nat take_bit_nat_eq_self)
  then show ?thesis unfolding hdr_masks by (simp add: take_bit_eq_mask)
qed

section \<open>The run of chunks\<close>

text \<open>Addresses and sizes as natural numbers: the heaps lie below \<open>2 ^ 32\<close>, so nothing wraps.\<close>

type_synonym chunk = "nat \<times> bool"

abbreviation (input) MINSIZE :: nat where "MINSIZE \<equiv> 16"

fun chunks :: "mem \<Rightarrow> nat \<Rightarrow> chunk list \<Rightarrow> nat \<Rightarrow> bool" where
  "chunks m a [] e \<longleftrightarrow> a = e"
| "chunks m a ((sz, u) # cs) e \<longleftrightarrow> unat (hdr_size m (of_nat a)) = sz \<and> hdr_used m (of_nat a) = u
     \<and> MINSIZE \<le> sz \<and> chunks m (a + sz) cs e"

definition heap_bytes :: "chunk list \<Rightarrow> nat" where
  "heap_bytes cs = sum_list (map fst cs)"

lemma heap_bytes_simps [simp]: "heap_bytes [] = 0" "heap_bytes ((sz, u) # cs) = sz + heap_bytes cs"
  "heap_bytes (xs @ ys) = heap_bytes xs + heap_bytes ys"
  by (simp_all add: heap_bytes_def)

lemma chunks_end: "chunks m a cs e \<Longrightarrow> e = a + heap_bytes cs"
proof (induction cs arbitrary: a)
  case (Cons c cs)
  obtain sz u where c: "c = (sz, u)" by fastforce
  with Cons.prems have "chunks m (a + sz) cs e" by simp
  from Cons.IH [OF this] c show ?case by simp
qed simp

lemma chunks_append:
  "chunks m a (xs @ ys) e \<longleftrightarrow> chunks m a xs (a + heap_bytes xs) \<and> chunks m (a + heap_bytes xs) ys e"
  by (induction xs arbitrary: a) (auto simp: add.assoc)

fun starts :: "nat \<Rightarrow> chunk list \<Rightarrow> nat list" where
  "starts a [] = []"
| "starts a ((sz, u) # cs) = a # starts (a + sz) cs"

lemma starts_append: "starts a (xs @ ys) = starts a xs @ starts (a + heap_bytes xs) ys"
  by (induction xs arbitrary: a) (auto simp: add.assoc)

lemma starts_bounds:
  "chunks m a cs e \<Longrightarrow> x \<in> set (starts a cs) \<Longrightarrow> a \<le> x \<and> x + MINSIZE \<le> e"
proof (induction cs arbitrary: a)
  case (Cons c cs)
  obtain sz u where c: "c = (sz, u)" by fastforce
  with Cons.prems have ch: "chunks m (a + sz) cs e" and sz: "MINSIZE \<le> sz" by auto
  then have e: "e = a + sz + heap_bytes cs" by (auto dest: chunks_end)
  show ?case
  proof (cases "x = a")
    case False
    with Cons.prems c have "x \<in> set (starts (a + sz) cs)" by simp
    from Cons.IH [OF ch this] show ?thesis by simp
  qed (use e sz in simp)
qed simp

lemma chunks_cong:
  "(\<And>x. x \<in> set (starts a cs) \<Longrightarrow> rd32 m' (of_nat x) = rd32 m (of_nat x)) \<Longrightarrow>
    chunks m' a cs e = chunks m a cs e"
  by (induction cs arbitrary: a) (auto simp: hdr_size_def hdr_used_def)

text \<open>The data blocks in use, as pairs of the data address and the number of data bytes.\<close>

fun used_blocks :: "nat \<Rightarrow> chunk list \<Rightarrow> (nat \<times> nat) set" where
  "used_blocks a [] = {}"
| "used_blocks a ((sz, u) # cs) = (if u then {(a + 4, sz - 4)} else {}) \<union> used_blocks (a + sz) cs"

lemma used_blocks_append: "used_blocks a (xs @ ys) = used_blocks a xs \<union> used_blocks (a + heap_bytes xs) ys"
  by (induction xs arbitrary: a) (auto simp: add.assoc)

lemma used_blocks_bounds:
  "chunks m a cs e \<Longrightarrow> (p, n) \<in> used_blocks a cs \<Longrightarrow> a + 4 \<le> p \<and> p + n \<le> e \<and> 12 \<le> n"
proof (induction cs arbitrary: a)
  case (Cons c cs)
  obtain sz u where c: "c = (sz, u)" by fastforce
  with Cons.prems have ch: "chunks m (a + sz) cs e" and sz: "MINSIZE \<le> sz" by auto
  then have e: "e = a + sz + heap_bytes cs" by (auto dest: chunks_end)
  with Cons.prems c sz Cons.IH [OF ch] show ?case by (fastforce split: if_splits)
qed simp

text \<open>Blocks in use never overlap: two of them are the same or apart by at least a header.\<close>

lemma used_blocks_apart:
  "chunks m a cs e \<Longrightarrow> (p, n) \<in> used_blocks a cs \<Longrightarrow> (q, k) \<in> used_blocks a cs \<Longrightarrow>
    p = q \<and> n = k \<or> p + n + 4 \<le> q \<or> q + k + 4 \<le> p"
proof (induction cs arbitrary: a)
  case (Cons c cs)
  obtain sz u where c: "c = (sz, u)" by fastforce
  with Cons.prems have ch: "chunks m (a + sz) cs e" and sz: "MINSIZE \<le> sz" by auto
  with Cons.prems c Cons.IH [OF ch] used_blocks_bounds [OF ch] show ?case
    by (fastforce split: if_splits)
qed simp


section \<open>The code that both allocators contain\<close>

text \<open>Taking \<open>realsize\<close> bytes of a free chunk that is large enough; a rest of at least the minimal size
  becomes a free chunk of its own (\<^verbatim>\<open>kmalloc.c\<close> and \<^verbatim>\<open>malloc.c\<close> have the same statements).\<close>

definition place :: "u32 \<Rightarrow> u32 \<Rightarrow> mem \<Rightarrow> mem" where
  "place chunk realsize m =
     (if hdr_size m chunk - realsize < of_nat MINSIZE then set_used chunk True m
      else let other = chunk + realsize;
               m1 = set_size other (hdr_size m chunk - realsize) m;
               m2 = set_used other False m1;
               m3 = set_size chunk realsize m2
           in set_used chunk True m3)"

text \<open>Merging the chunks that follow while they are free. \<open>ok\<close> tells which headers are mapped.\<close>

partial_function (option) coalesce :: "(u32 \<Rightarrow> bool) \<Rightarrow> u32 \<Rightarrow> u32 \<Rightarrow> mem \<Rightarrow> mem res option" where
  "coalesce ok limit chunk m =
     (let other = chunk + hdr_size m chunk
      in if other \<noteq> 0 \<and> other < limit
         then if \<not> ok other then Some (Inl (PageFault other))
              else if \<not> hdr_used m other
              then coalesce ok limit chunk (set_size chunk (hdr_size m chunk + hdr_size m other) m)
              else Some (Inr m)
         else Some (Inr m))"

section \<open>What the operations do to the list\<close>

text \<open>The memories agree on every address outside \<open>[b, c)\<close>.\<close>

definition agree_outside :: "nat \<Rightarrow> nat \<Rightarrow> mem \<Rightarrow> mem \<Rightarrow> bool" where
  "agree_outside b c m m' \<longleftrightarrow> (\<forall>x < 2 ^ 32. x < b \<or> c \<le> x \<longrightarrow> m' (of_nat x) = m (of_nat x))"

lemma in_block_nat:
  assumes "a + n \<le> 2 ^ 32" "x < 2 ^ 32"
  shows "in_block (of_nat a) n (of_nat x) \<longleftrightarrow> 0 < n \<and> a \<le> x \<and> x < a + n"
proof (cases "n = 0")
  case False
  with assms have a: "unat (of_nat a :: u32) = a" "unat (of_nat x :: u32) = x"
    by (auto intro!: unat_of_nat_u32)
  have "unat (of_nat x - of_nat a :: u32) = (if a \<le> x then x - a else x + 2 ^ 32 - a)"
    using unat_sub_if' [of "of_nat x :: u32" "of_nat a"] by (simp add: a)
  with assms show ?thesis by (auto simp: in_block_def)
qed simp

lemma agree_outside_refl [simp]: "agree_outside b c m m"
  by (simp add: agree_outside_def)

lemma agree_outside_trans:
  "agree_outside b c m m' \<Longrightarrow> agree_outside b c m' m'' \<Longrightarrow> agree_outside b c m m''"
  by (simp add: agree_outside_def)

lemma agree_outside_set:
  assumes "b \<le> x" "x + 4 \<le> c" "c \<le> 2 ^ 32" "agree_outside b c m m'"
  shows "agree_outside b c m (set_size (of_nat x) sz m')" "agree_outside b c m (set_used (of_nat x) u m')"
proof -
  have "\<not> in_block (of_nat x) 4 (of_nat y)" if "y < 2 ^ 32" "y < b \<or> c \<le> y" for y
    using that assms in_block_nat [of x 4 y] by auto
  with assms(4) show "agree_outside b c m (set_size (of_nat x) sz m')"
    "agree_outside b c m (set_used (of_nat x) u m')"
    by (auto simp: agree_outside_def set_other)
qed

lemma agree_outside_rd32:
  assumes "agree_outside b c m m'" "x + 4 \<le> b \<or> c \<le> x" "x + 4 \<le> 2 ^ 32"
  shows "rd32 m' (of_nat x) = rd32 m (of_nat x)"
proof -
  have "m' (of_nat (x + i)) = m (of_nat (x + i))" if "i < 4" for i
    using assms that unfolding agree_outside_def by (elim allE [of _ "x + i"]) auto
  from this [of 0] this [of 1] this [of 2] this [of 3] show ?thesis
    by (simp add: rd32_def add.commute)
qed

lemma chunks_replace:
  assumes ch: "chunks m a (xs @ zs @ ys) e" and e: "e \<le> 2 ^ 32"
    and b: "b = a + heap_bytes xs" and c: "c = b + heap_bytes zs"
    and agree: "agree_outside b c m m'" and new: "chunks m' b zs' c"
  shows "chunks m' a (xs @ zs' @ ys) e"
proof -
  from ch have x: "chunks m a xs b" and z: "chunks m b zs c" and y: "chunks m c ys e"
    by (auto simp: chunks_append b c)
  have ce: "c \<le> e" "b \<le> c" using chunks_end [OF y] c by auto
  have "chunks m' a xs b"
  proof (subst chunks_cong [where m = m])
    fix p assume "p \<in> set (starts a xs)"
    from starts_bounds [OF x this] show "rd32 m' (of_nat p) = rd32 m (of_nat p)"
      using e ce by (intro agree_outside_rd32 [OF agree]) auto
  qed (rule x)
  moreover have "chunks m' c ys e"
  proof (subst chunks_cong [where m = m])
    fix p assume "p \<in> set (starts c ys)"
    from starts_bounds [OF y this] show "rd32 m' (of_nat p) = rd32 m (of_nat p)"
      using e by (intro agree_outside_rd32 [OF agree]) auto
  qed (rule y)
  ultimately show ?thesis
    using new chunks_end [OF new] by (simp add: chunks_append b)
qed

lemma place_chunks:
  assumes ch: "chunks m b [(sz, False)] c" and c: "c < 2 ^ 31" and rs: "rs \<le> sz" "MINSIZE \<le> rs"
  shows "chunks (place (of_nat b) (of_nat rs) m) b
           (if sz - rs < MINSIZE then [(sz, True)] else [(rs, True), (sz - rs, False)]) c"
    and "agree_outside b c m (place (of_nat b) (of_nat rs) m)"
proof -
  let ?b = "of_nat b :: u32" and ?o = "of_nat (b + rs) :: u32"
  from ch have sz: "unat (hdr_size m ?b) = sz" "MINSIZE \<le> sz" and cb: "c = b + sz" by auto
  from rs have "of_nat rs \<le> hdr_size m ?b"
    using sz c cb by (simp add: word_le_nat_alt unat_of_nat_u32)
  then have d: "unat (hdr_size m ?b - of_nat rs) = sz - rs"
    using sz rs c cb by (simp add: unat_sub unat_of_nat_u32)
  moreover have "hdr_size m ?b - of_nat rs = of_nat (unat (hdr_size m ?b - of_nat rs))" by simp
  ultimately have dw: "hdr_size m ?b - of_nat rs = of_nat (sz - rs)" by metis
  have small: "hdr_size m ?b - of_nat rs < of_nat MINSIZE \<longleftrightarrow> sz - rs < MINSIZE"
    using d by (simp add: word_less_nat_alt)
  show "chunks (place ?b (of_nat rs) m) b
           (if sz - rs < MINSIZE then [(sz, True)] else [(rs, True), (sz - rs, False)]) c"
  proof (cases "sz - rs < MINSIZE")
    case True
    with small sz cb show ?thesis by (simp add: place_def)
  next
    case False
    have ob: "apart4 ?o ?b"
      using False rs c cb by (intro apart4I) (auto simp del: of_nat_add simp: unat_of_nat_u32)
    then have bo: "apart4 ?b ?o" by (simp add: apart4_sym)
    let ?m2 = "set_used ?o False (set_size ?o (of_nat (sz - rs)) m)"
    have pl: "place ?b (of_nat rs) m = set_used ?b True (set_size ?b (of_nat rs) ?m2)"
      using False small by (simp add: place_def Let_def dw)
    have "unat (hdr_size (place ?b (of_nat rs) m) ?b) = rs" "hdr_used (place ?b (of_nat rs) m) ?b"
      using c cb rs by (simp_all add: pl size_field unat_of_nat_u32)
    moreover have "unat (hdr_size (place ?b (of_nat rs) m) ?o) = sz - rs"
      "\<not> hdr_used (place ?b (of_nat rs) m) ?o"
      using bo c cb unfolding pl hdr_set_apart [OF bo] hdr_set_same
      by (simp_all add: size_field unat_of_nat_u32 del: of_nat_diff)
    ultimately show ?thesis using False cb rs by simp
  qed
  have "agree_outside b c m (set_used ?b True m)"
    using cb sz c by (intro agree_outside_set) auto
  moreover have "agree_outside b c m (set_used ?b True (set_size ?b (of_nat rs)
      (set_used ?o False (set_size ?o (of_nat (sz - rs)) m))))" if "\<not> sz - rs < MINSIZE"
    using that cb sz c rs by (intro agree_outside_set) auto
  ultimately show "agree_outside b c m (place (of_nat b) (of_nat rs) m)"
    using small by (simp add: place_def Let_def dw)
qed

fun absorb :: "nat \<Rightarrow> chunk list \<Rightarrow> chunk list" where
  "absorb sz ((k, False) # cs) = absorb (sz + k) cs"
| "absorb sz cs = (sz, False) # cs"

text \<open>The number of bytes that \<open>absorb\<close> merges.\<close>

fun absorbed :: "chunk list \<Rightarrow> nat" where
  "absorbed ((k, False) # cs) = k + absorbed cs"
| "absorbed cs = 0"

lemma heap_bytes_absorb: "heap_bytes (absorb sz cs) = sz + heap_bytes cs"
  by (induction sz cs rule: absorb.induct) auto

lemma used_blocks_absorb: "used_blocks a (absorb sz cs) = used_blocks (a + sz) cs"
  by (induction sz cs rule: absorb.induct) (auto simp: add.assoc)

lemma absorb_nonempty [simp]: "absorb sz cs \<noteq> []"
  by (induction sz cs rule: absorb.induct) auto

lemma absorbed_le: "absorbed cs \<le> heap_bytes cs"
  by (induction cs rule: absorbed.induct) auto

lemma hdr_size_word: "hdr_size m a = of_nat (unat (hdr_size m a))"
  by simp

lemma merge_next:
  assumes ch: "chunks m b ((sz, f) # (k, False) # cs) e" and e31: "e < 2 ^ 31"
  shows "chunks (set_size (of_nat b) (of_nat (sz + k)) m) b ((sz + k, f) # cs) e"
    and "agree_outside b (b + sz + k) m (set_size (of_nat b) (of_nat (sz + k)) m)"
proof -
  let ?b = "of_nat b :: u32"
  let ?m = "set_size ?b (of_nat (sz + k)) m"
  from ch have sz: "MINSIZE \<le> sz" and u: "hdr_used m ?b = f" and cs: "chunks m (b + sz + k) cs e"
    by (simp_all del: of_nat_add)
  have e: "e = b + sz + k + heap_bytes cs" using chunks_end [OF cs] by simp
  with e31 have sk: "sz + k < 2 ^ 31" by simp
  have new: "chunks ?m b [(sz + k, f)] (b + sz + k)"
    using u sz sk by (simp add: size_field unat_of_nat_u32 del: of_nat_add)
  show ag: "agree_outside b (b + sz + k) m ?m"
    by (rule agree_outside_set) (use e e31 sz in simp_all)
  show "chunks ?m b ((sz + k, f) # cs) e"
    using chunks_replace [where xs = "[]" and zs = "[(sz, f), (k, False)]" and ys = cs
        and zs' = "[(sz + k, f)]" and m = m and m' = ?m and a = b and e = e]
      ch e31 ag new by (simp add: add.assoc del: chunks.simps of_nat_add)
qed

lemma coalesce_step:
  assumes ch: "chunks m b ((sz, f) # (k, u) # cs) e" and e31: "e < 2 ^ 31"
    and ok: "ok (of_nat (b + sz))"
  shows "coalesce ok (of_nat e) (of_nat b) m =
    (if u then Some (Inr m) else coalesce ok (of_nat e) (of_nat b) (set_size (of_nat b) (of_nat (sz + k)) m))"
proof -
  let ?b = "of_nat b :: u32" and ?o = "of_nat (b + sz) :: u32"
  from ch have sz: "unat (hdr_size m ?b) = sz" "MINSIZE \<le> sz"
    and k: "unat (hdr_size m ?o) = k" "MINSIZE \<le> k" "hdr_used m ?o = u"
    and cs: "chunks m (b + sz + k) cs e"
    by (simp_all del: of_nat_add)
  have e: "e = b + sz + k + heap_bytes cs" using chunks_end [OF cs] by simp
  have szw: "hdr_size m ?b = of_nat sz" "hdr_size m ?o = of_nat k"
    using hdr_size_word [of m ?b] hdr_size_word [of m ?o] by (simp_all only: sz k)
  have other: "?b + hdr_size m ?b = ?o" by (simp add: szw)
  have un: "unat ?o = b + sz" "unat (of_nat e :: u32) = e"
    using e e31 by (simp_all add: unat_of_nat_u32 del: of_nat_add)
  have "b + sz < e" using e k(2) by simp
  then have lt: "?o < of_nat e" unfolding word_less_nat_alt un .
  have "unat ?o \<noteq> 0" using un sz by simp
  then have nz: "?o \<noteq> 0" by (metis unat_0)
  have sum: "hdr_size m ?b + hdr_size m ?o = of_nat (sz + k)" unfolding szw by simp
  show ?thesis
    unfolding coalesce.simps [of ok "of_nat e" ?b m] Let_def other sum k(3) using lt nz ok
    by (cases u) (simp_all only: simp_thms if_True if_False not_False_eq_True not_True_eq_False)
qed

text \<open>The flag \<open>f\<close> of the first chunk stays as it is while the free chunks behind it are merged into it:
  \<open>kfree\<close> clears it before the loop, \<open>free\<close> after it.\<close>

lemma coalesce_absorb_as:
  assumes "chunks m b ((sz, f) # cs) e" "e < 2 ^ 31"
    and "\<And>x. b \<le> x \<Longrightarrow> x + MINSIZE \<le> e \<Longrightarrow> ok (of_nat x)"
  shows "\<exists>m' z zs. coalesce ok (of_nat e) (of_nat b) m = Some (Inr m') \<and> absorb sz cs = (z, False) # zs
    \<and> chunks m' b ((z, f) # zs) e \<and> agree_outside b (b + sz + absorbed cs) m m'"
  using assms
proof (induction sz cs arbitrary: m rule: absorb.induct, goal_cases)
  case (1 sz k cs m)
  let ?m = "set_size (of_nat b) (of_nat (sz + k)) m"
  note mg = merge_next [OF 1(2,3)]
  from 1(2) have cs: "chunks m (b + sz + k) cs e" "MINSIZE \<le> k" by simp_all
  then have "b + sz + MINSIZE \<le> e" using chunks_end [OF cs(1)] by simp
  then have ok: "ok (of_nat (b + sz))" by (intro 1(4)) simp_all
  from 1(1) [OF mg(1) 1(3,4)] obtain m' z zs where m': "coalesce ok (of_nat e) (of_nat b) ?m = Some (Inr m')"
    "absorb (sz + k) cs = (z, False) # zs" "chunks m' b ((z, f) # zs) e" "agree_outside b (b + (sz + k) + absorbed cs) ?m m'"
    by blast
  have "agree_outside b (b + (sz + k) + absorbed cs) m m'"
    using mg(2) m'(4) by (simp add: agree_outside_def)
  with m' coalesce_step [where ok = ok, OF 1(2,3) ok] show ?case by (simp add: add.assoc)
next
  case (2 sz m)
  then have sz: "unat (hdr_size m (of_nat b)) = sz" and e: "e = b + sz" by auto
  have "of_nat b + hdr_size m (of_nat b) = of_nat e"
    using hdr_size_word [of m "of_nat b"] by (simp only: sz e of_nat_add)
  then have "coalesce ok (of_nat e) (of_nat b) m = Some (Inr m)"
    by (subst coalesce.simps) simp
  with 2 show ?case by simp
next
  case (3 sz v cs m)
  then have v: "MINSIZE \<le> v" and cs: "chunks m (b + sz + v) cs e" by simp_all
  have "b + sz + MINSIZE \<le> e" using chunks_end [OF cs] v by simp
  then have ok: "ok (of_nat (b + sz))" by (intro 3(3)) simp_all
  from coalesce_step [where ok = ok, OF 3(1,2) ok] 3(1) show ?case by simp
qed

lemma coalesce_absorb:
  assumes "chunks m b ((sz, False) # cs) e" "e < 2 ^ 31"
    and "\<And>x. b \<le> x \<Longrightarrow> x + MINSIZE \<le> e \<Longrightarrow> ok (of_nat x)"
  shows "\<exists>m'. coalesce ok (of_nat e) (of_nat b) m = Some (Inr m')
    \<and> chunks m' b (absorb sz cs) e \<and> agree_outside b (b + sz + absorbed cs) m m'"
  using coalesce_absorb_as [where ok = ok, OF assms] by auto

section \<open>Data that stays in place\<close>

text \<open>The data bytes of the blocks in \<open>B\<close> are the same in both memories.\<close>

definition same_data :: "(nat \<times> nat) set \<Rightarrow> mem \<Rightarrow> mem \<Rightarrow> bool" where
  "same_data B m m' \<longleftrightarrow> (\<forall>(p, n) \<in> B. \<forall>i < n. m' (of_nat (p + i)) = m (of_nat (p + i)))"

lemma same_data_trans: "same_data B m m' \<Longrightarrow> same_data B m' m'' \<Longrightarrow> same_data B m m''"
  by (fastforce simp: same_data_def)

lemma same_data_mono: "same_data B m m' \<Longrightarrow> A \<subseteq> B \<Longrightarrow> same_data A m m'"
  by (auto simp: same_data_def)

lemma same_data_outside:
  assumes "agree_outside b c m m'"
    and "\<And>p n. (p, n) \<in> B \<Longrightarrow> (p + n \<le> b \<or> c \<le> p) \<and> p + n \<le> 2 ^ 32"
  shows "same_data B m m'"
  unfolding same_data_def
proof (clarify)
  fix p n i assume "(p, n) \<in> B" "i < n"
  with assms(2) [of p n] have "p + i < 2 ^ 32" "p + i < b \<or> c \<le> p + i" by auto
  with assms(1) show "m' (of_nat (p + i)) = m (of_nat (p + i))"
    unfolding agree_outside_def by blast
qed

lemma used_blocks_around:
  assumes ch: "chunks m a (xs @ zs @ ys) e" and b: "b = a + heap_bytes xs" "c = b + heap_bytes zs"
    and u: "(p, n) \<in> used_blocks a xs \<union> used_blocks c ys"
  shows "(p + n \<le> b \<or> c \<le> p) \<and> p + n \<le> e"
proof -
  from ch have x: "chunks m a xs b" and z: "chunks m b zs c" and y: "chunks m c ys e"
    by (simp_all add: chunks_append b)
  have "b \<le> c" "c \<le> e" using b chunks_end [OF y] by simp_all
  with u used_blocks_bounds [OF x, of p n] used_blocks_bounds [OF y, of p n] show ?thesis by auto
qed

lemma absorbed_split: "\<exists>zs ys. cs = zs @ ys \<and> list_all (\<lambda>c. \<not> snd c) zs \<and> absorbed cs = heap_bytes zs"
proof (induction cs rule: absorbed.induct)
  case (1 k cs)
  then obtain zs ys where "cs = zs @ ys" "list_all (\<lambda>c. \<not> snd c) zs" "absorbed cs = heap_bytes zs" by blast
  then show ?case by (intro exI [of _ "(k, False) # zs"] exI [of _ ys]) simp
qed (force intro: exI [of _ "[]"])+

lemma used_blocks_free: "list_all (\<lambda>c. \<not> snd c) zs \<Longrightarrow> used_blocks a zs = {}"
  by (induction zs arbitrary: a) auto

text \<open>Changes inside a free chunk and the free chunks behind it touch no block in use.\<close>

lemma same_data_free:
  assumes ch: "chunks m a (xs @ (sz, u) # ys) e" and e: "e \<le> 2 ^ 32" and b: "b = a + heap_bytes xs"
    and agree: "agree_outside b (b + sz + absorbed ys) m m'"
  shows "same_data (used_blocks a xs \<union> used_blocks (b + sz) ys) m m'"
proof -
  obtain zs ws where ys: "ys = zs @ ws" and fz: "list_all (\<lambda>c. \<not> snd c) zs" and ab: "absorbed ys = heap_bytes zs"
    using absorbed_split by blast
  let ?c = "b + heap_bytes ((sz, u) # zs)"
  have ch': "chunks m a (xs @ ((sz, u) # zs) @ ws) e" using ch ys by simp
  have ub: "used_blocks (b + sz) ys = used_blocks ?c ws"
    using used_blocks_free [OF fz] ys by (simp add: used_blocks_append add.assoc)
  have "(p + n \<le> b \<or> ?c \<le> p) \<and> p + n \<le> 2 ^ 32" if "(p, n) \<in> used_blocks a xs \<union> used_blocks ?c ws" for p n
    using used_blocks_around [OF ch' b refl that] e by linarith
  with agree ab show ?thesis unfolding ub by (intro same_data_outside) (auto simp: add.assoc)
qed

end
