(* ===== verification/Kmalloc.thy ===== *)
theory Kmalloc
  imports Paging Chunks
begin

text \<open>
  The kernel heap of \<^verbatim>\<open>kern/kmalloc.c\<close>: \<open>ksbrk\<close>, \<open>kmalloc\<close> and \<open>kfree\<close> over the kernel's virtual
  memory. Every header access goes through the page tables of theory \<open>Paging\<close> and faults where they
  map nothing. The allocator refines a first-fit allocator on the list of chunks (\<open>abs_kmalloc\<close>), and
  the locale \<open>block_allocator\<close> is the contract that the other components use.
\<close>

section \<open>The code\<close>

text \<open>\<open>kmem\<close> are the bytes of kernel virtual memory. Pages are never unmapped from the heap and the
  frames behind them are distinct (\<open>heap_mapped\<close> below), so the bytes can be kept by virtual address.\<close>

record kheap_state = mmu_state +
  kmem :: mem
  kern_heap :: u32
  kmalloc_used :: u32

abbreviation (input) KERN_HEAP :: u32 where "KERN_HEAP \<equiv> 0x10000000"
abbreviation (input) KERN_HEAP_LIM :: u32 where "KERN_HEAP_LIM \<equiv> 0x40000000"
abbreviation (input) KMALLOC_MINSIZE :: u32 where "KMALLOC_MINSIZE \<equiv> 16"

text \<open>The four bytes of a header at \<open>a\<close> are mapped.\<close>

definition hdr_ok :: "'a mmu_state_scheme \<Rightarrow> u32 \<Rightarrow> bool" where
  "hdr_ok s a \<longleftrightarrow> walk s a \<noteq> None \<and> walk s (a + 3) \<noteq> None"

text \<open>The page loop of \<open>ksbrk\<close>; the boolean tells that it returned early. The test \<open>p_addr < 0\<close> on a
  pointer is an unsigned comparison.\<close>

primrec ksbrk_loop :: "nat \<Rightarrow> 'a kheap_state_scheme \<Rightarrow> (bool \<times> 'a kheap_state_scheme) res" where
  "ksbrk_loop 0 s = Inr (False, s)"
| "ksbrk_loop (Suc n) s =
     (case get_page_frame s of (p_addr, s1) \<Rightarrow>
        if p_addr < 0 then Inr (True, s1)
        else bind_res (pd0_add_page (kern_heap s1) p_addr 0 s1) (\<lambda>s2.
               ksbrk_loop n (s2\<lparr>kern_heap := kern_heap s2 + PAGESIZE\<rparr>)))"

definition ksbrk :: "u32 \<Rightarrow> 'a kheap_state_scheme \<Rightarrow> (u32 \<times> 'a kheap_state_scheme) res" where
  "ksbrk n s =
     (if kern_heap s + n * PAGESIZE > KERN_HEAP_LIM then Inr (- 1, s)
      else let chunk = kern_heap s
           in bind_res (ksbrk_loop (nat (sint n)) s) (\<lambda>(early, s1).
                if early then Inr (- 1, s1)
                else if \<not> hdr_ok s1 chunk then Inl (PageFault chunk)
                else Inr (chunk, s1\<lparr>kmem := set_used chunk False (set_size chunk (PAGESIZE * n) (kmem s1))\<rparr>)))"

partial_function (option) kmalloc_loop ::
    "u32 \<Rightarrow> u32 \<Rightarrow> 'a kheap_state_scheme \<Rightarrow> (u32 \<times> 'a kheap_state_scheme) res option" where
  "kmalloc_loop realsize chunk s =
     (if \<not> hdr_ok s chunk then Some (Inl (PageFault chunk))
      else if hdr_used (kmem s) chunk \<or> hdr_size (kmem s) chunk < realsize
      then if hdr_size (kmem s) chunk = 0 then Some (Inl Halt)
           else let chunk' = chunk + hdr_size (kmem s) chunk
                in if chunk' = kern_heap s
                   then (case ksbrk (realsize div PAGESIZE + 1) s of
                           Inl e \<Rightarrow> Some (Inl e)
                         | Inr (r, s1) \<Rightarrow> if r < 0 then Some (Inl Halt) else kmalloc_loop realsize chunk' s1)
                   else if chunk' > kern_heap s then Some (Inl Halt)
                   else kmalloc_loop realsize chunk' s
      else Some (Inr (chunk, s)))"

text \<open>Taking the chunk found; the new header of a split must be mapped as well.\<close>

definition kmalloc_take :: "u32 \<Rightarrow> u32 \<Rightarrow> 'a kheap_state_scheme \<Rightarrow> (u32 \<times> 'a kheap_state_scheme) res" where
  "kmalloc_take realsize chunk s =
     (if \<not> hdr_size (kmem s) chunk - realsize < KMALLOC_MINSIZE \<and> \<not> hdr_ok s (chunk + realsize)
      then Inl (PageFault (chunk + realsize))
      else Inr (chunk + 4, s\<lparr>kmem := place chunk realsize (kmem s),
                              kmalloc_used := kmalloc_used s + realsize\<rparr>))"

definition kmalloc :: "u32 \<Rightarrow> 'a kheap_state_scheme \<Rightarrow> (u32 \<times> 'a kheap_state_scheme) res option" where
  "kmalloc sz s =
     (let realsize = (if 4 + sz < KMALLOC_MINSIZE then KMALLOC_MINSIZE else 4 + sz)
      in Option.bind (kmalloc_loop realsize KERN_HEAP s) (\<lambda>r.
           Some (bind_res r (\<lambda>(chunk, s1). kmalloc_take realsize chunk s1))))"

definition kfree :: "u32 \<Rightarrow> 'a kheap_state_scheme \<Rightarrow> 'a kheap_state_scheme res option" where
  "kfree v_addr s =
     (let chunk = v_addr - 4
      in if \<not> hdr_ok s chunk then Some (Inl (PageFault chunk))
         else let m1 = set_used chunk False (kmem s);
                  s1 = s\<lparr>kmem := m1, kmalloc_used := kmalloc_used s - hdr_size m1 chunk\<rparr>
              in Option.bind (coalesce (hdr_ok s1) (kern_heap s1) chunk m1) (\<lambda>r.
                   Some (bind_res r (\<lambda>m2. Inr (s1\<lparr>kmem := m2\<rparr>)))))"

section \<open>The abstract allocator\<close>

definition unfit :: "nat \<Rightarrow> chunk \<Rightarrow> bool" where
  "unfit rs c \<longleftrightarrow> snd c \<or> fst c < rs"

definition carve :: "nat \<Rightarrow> nat \<Rightarrow> chunk list" where
  "carve rs sz = (if sz - rs < MINSIZE then [(sz, True)] else [(rs, True), (sz - rs, False)])"

text \<open>How much the heap grows when no chunk fits.\<close>

definition growth :: "nat \<Rightarrow> nat" where
  "growth rs = 4096 * (rs div 4096 + 1)"

definition ready :: "nat \<Rightarrow> chunk list \<Rightarrow> chunk list" where
  "ready rs cs = (if list_all (unfit rs) cs then cs @ [(growth rs, False)] else cs)"

definition abs_kmalloc :: "nat \<Rightarrow> chunk list \<Rightarrow> chunk list" where
  "abs_kmalloc rs cs =
     (case dropWhile (unfit rs) (ready rs cs) of
        [] \<Rightarrow> cs
      | c # ys \<Rightarrow> takeWhile (unfit rs) cs @ carve rs (fst c) @ ys)"

definition real_size :: "u32 \<Rightarrow> nat" where
  "real_size sz = max MINSIZE (4 + unat sz)"

section \<open>The invariant\<close>

abbreviation (input) heap_base :: nat where "heap_base \<equiv> 0x10000000"

definition heap_pages :: "'a kheap_state_scheme \<Rightarrow> nat set" where
  "heap_pages s = {k. 0x10000 \<le> k \<and> k * 4096 < unat (kern_heap s)}"

text \<open>The pages of the heap are backed by distinct frames, all marked used in the bitmap.\<close>

definition heap_mapped :: "'a kheap_state_scheme \<Rightarrow> bool" where
  "heap_mapped s \<longleftrightarrow> (\<exists>fr. inj_on fr (heap_pages s) \<and> (\<forall>k \<in> heap_pages s. fr k < RAM_MAXPAGE
     \<and> frame_used s (fr k)
     \<and> (\<forall>u. unat u div 4096 = k \<longrightarrow> walk s u = Some (frame_addr (fr k) OR (u AND 0xFFF)))))"

definition kheap :: "'a kheap_state_scheme \<Rightarrow> chunk list \<Rightarrow> bool" where
  "kheap s cs \<longleftrightarrow> kspace s \<and> heap_mapped s \<and> unat (kern_heap s) mod 4096 = 0
     \<and> unat (kern_heap s) \<le> 0x40000000 \<and> cs \<noteq> []
     \<and> chunks (kmem s) heap_base cs (unat (kern_heap s))"

section \<open>Growing the heap\<close>

lemma get_page_frame_sel:
  "pmem (snd (get_page_frame s)) = pmem s" "cr3 (snd (get_page_frame s)) = cr3 s"
  by (simp_all add: get_page_frame_def set_page_frame_used_def Let_def split: option.split)

lemma get_page_frame_ksel:
  "kheap_state.more (snd (get_page_frame s)) = kheap_state.more s" "kmem (snd (get_page_frame s)) = kmem s" "kern_heap (snd (get_page_frame s)) = kern_heap s"
  "kmalloc_used (snd (get_page_frame s)) = kmalloc_used s"
  by (simp_all add: get_page_frame_def set_page_frame_used_def Let_def split: option.split)

lemma walk_cong: "pmem s = pmem t \<Longrightarrow> cr3 s = cr3 t \<Longrightarrow> walk s = walk t"
  by (rule ext) (simp add: walk_def pde_of_def Let_def)

lemma kspace_cong: "pmem s = pmem t \<Longrightarrow> cr3 s = cr3 t \<Longrightarrow> kspace s = kspace t"
  by (simp add: kspace_def self_mapped_def pde_of_def)

lemma set_pte_sel [simp]:
  "mem_bitmap (set_pte v w s) = mem_bitmap s" "kmem (set_pte v w t) = kmem t"
  "kheap_state.more (set_pte v w t) = kheap_state.more t"
  "kern_heap (set_pte v w t) = kern_heap t" "kmalloc_used (set_pte v w t) = kmalloc_used t"
  by (simp_all add: set_pte_def)

lemma frame_used_cong: "mem_bitmap s = mem_bitmap t \<Longrightarrow> frame_used s f = frame_used t f"
  by (simp add: frame_used_def)

lemma vpage_nat: "vpage u = vpage v \<longleftrightarrow> unat u div 4096 = unat v div 4096"
  by (simp add: drop_bit_eq_div word_unat_eq_iff unat_div)

lemma heap_mapped_walk:
  assumes "heap_mapped s" "heap_base \<le> x" "x < unat (kern_heap s)"
  shows "walk s (of_nat x) \<noteq> None"
proof -
  have "x div 4096 \<in> heap_pages s"
    using assms(2,3) div_times_less_eq_dividend [of x 4096] by (auto simp: heap_pages_def)
  moreover have "unat (of_nat x :: u32) = x"
    by (rule unat_of_nat_u32) (rule less_trans [OF assms(3)], simp)
  ultimately show ?thesis using assms(1) unfolding heap_mapped_def by fastforce
qed

lemma heap_hdr_ok:
  assumes "heap_mapped s" "heap_base \<le> x" "x + 4 \<le> unat (kern_heap s)"
  shows "hdr_ok s (of_nat x)"
  using heap_mapped_walk [OF assms(1), of x] heap_mapped_walk [OF assms(1), of "x + 3"] assms(2,3)
  by (simp add: hdr_ok_def)

text \<open>The part of the invariant that does not speak of chunks.\<close>

definition kheap_pages :: "'a kheap_state_scheme \<Rightarrow> bool" where
  "kheap_pages s \<longleftrightarrow> kspace s \<and> heap_mapped s \<and> unat (kern_heap s) mod 4096 = 0
     \<and> heap_base \<le> unat (kern_heap s)"

text \<open>No frame is mapped at two kernel pages, and every frame mapped in kernel space is marked used.\<close>

definition kmaps :: "'a mmu_state_scheme \<Rightarrow> bool" where
  "kmaps s \<longleftrightarrow> (\<forall>u v p q. kernel_v u \<and> kernel_v v \<and> walk s u = Some p \<and> walk s v = Some q
       \<and> unat p div 4096 = unat q div 4096 \<longrightarrow> vpage u = vpage v)
     \<and> (\<forall>u p. kernel_v u \<and> walk s u = Some p \<longrightarrow> frame_used s (unat p div 4096))"

text \<open>What the heap operations leave alone: the rest of the state, the mappings below the old end of
  the heap, and physical memory outside the kernel's page tables.\<close>

definition grown :: "'a kheap_state_scheme \<Rightarrow> 'a kheap_state_scheme \<Rightarrow> bool" where
  "grown s s' \<longleftrightarrow> kheap_state.more s' = kheap_state.more s \<and> cr3 s' = cr3 s \<and> kern_heap s \<le> kern_heap s'
     \<and> (\<forall>u. kernel_v u \<and> u < kern_heap s \<longrightarrow> walk s' u = walk s u) \<and> (kmaps s \<longrightarrow> kmaps s')
     \<and> (\<forall>f. frame_used s f \<longrightarrow> frame_used s' f)
     \<and> (\<forall>a. a < 0x400000 \<or> 0x500000 \<le> a \<longrightarrow> pmem s' a = pmem s a)"

lemma grown_refl [simp]: "grown s s"
  by (simp add: grown_def)

lemma grown_trans: "grown s s' \<Longrightarrow> grown s' s'' \<Longrightarrow> grown s s''"
  unfolding grown_def by (auto intro: order_trans order.strict_trans2)

lemma kmaps_cong:
  "pmem s = pmem t \<Longrightarrow> cr3 s = cr3 t \<Longrightarrow> mem_bitmap s = mem_bitmap t \<Longrightarrow> kmaps s = kmaps t"
  using walk_cong [of s t] frame_used_cong [of s t] by (simp add: kmaps_def)

lemma grown_update: "grown s (s\<lparr>kmem := m, kmalloc_used := k\<rparr>)"
proof -
  let ?s = "s\<lparr>kmem := m, kmalloc_used := k\<rparr>"
  have "walk ?s = walk s" "kmaps ?s = kmaps s" by (rule walk_cong kmaps_cong; simp)+
  then show ?thesis by (simp add: grown_def frame_used_def)
qed

lemma grown_update_kmem: "grown s (s\<lparr>kmem := m\<rparr>)"
  using grown_update [of s "kmalloc_used s" m] by simp

lemma frame_addr_offset:
  assumes "f < RAM_MAXPAGE"
  shows "unat (frame_addr f OR (u AND 0xFFF)) div 4096 = f"
proof -
  have "frame_addr f = push_bit 12 (of_nat f :: u32)" by (simp add: push_bit_eq_mult)
  then have "drop_bit 12 (frame_addr f OR (u AND 0xFFF)) = take_bit 20 (of_nat f :: u32)"
    by (simp only:) (unfold word_masks, rule bit_word_eqI, auto simp: bit_simps dest: bit_imp_le_length)
  also have "\<dots> = of_nat f" using assms by (simp add: take_bit_of_nat take_bit_nat_eq_self)
  finally have "unat (drop_bit 12 (frame_addr f OR (u AND 0xFFF))) = unat (of_nat f :: u32)" by (simp only:)
  moreover have "unat (of_nat f :: u32) = f" using assms by (intro unat_of_nat_u32) simp
  ultimately show ?thesis by (simp add: drop_bit_eq_div unat_div)
qed

lemma pte_at_bounds:
  assumes "kspace s" "kernel_v v"
  shows "0x400000 \<le> pte_at s v \<and> pte_at s v < 0x500000"
proof -
  let ?i = "pdi v"
  have i: "2 \<le> ?i" "?i < 256" using kernel_v_pdi [OF assms(2)] by auto
  have "pte_at s v = ktab ?i OR push_bit 2 (vpage v AND 0x3FF)"
    using kspace_pde(3) [OF assms] by (simp add: pte_at_def entry_addr_def)
  also have "\<dots> = ktab ?i + push_bit 2 (vpage v AND 0x3FF)"
  proof (rule disjunctive_add [symmetric])
    fix n
    have "ktab ?i = push_bit 12 (0x400 + ?i)" by (simp add: ktab_def push_bit_eq_mult algebra_simps)
    then show "\<not> bit (ktab ?i) n \<or> \<not> bit (push_bit 2 (vpage v AND 0x3FF)) n"
      unfolding word_masks by (auto simp: bit_simps)
  qed
  finally have e: "pte_at s v = ktab ?i + push_bit 2 (vpage v AND 0x3FF)" .
  have "vpage v AND 0x3FF \<le> 0x3FF" by (rule word_and_le1)
  then have "unat (push_bit 2 (vpage v AND 0x3FF)) = 4 * unat (vpage v AND 0x3FF)" "unat (vpage v AND 0x3FF) \<le> 0x3FF"
    by (simp_all add: push_bit_eq_mult unat_word_ariths word_le_nat_alt)
  moreover have "unat ?i < 256" using i by (simp add: word_less_nat_alt)
  ultimately show ?thesis
    using unat_ktab [OF i(2)] by (simp add: e word_le_nat_alt word_less_nat_alt unat_word_ariths)
qed

text \<open>Mapping a fresh frame.\<close>

lemma map_fresh:
  assumes ks: "kspace s" and kv: "kernel_v v" and f: "f < RAM_MAXPAGE" "\<not> frame_used s f"
    and s1: "pmem s1 = pmem s" "cr3 s1 = cr3 s" "\<And>g. frame_used s1 g \<longleftrightarrow> g = f \<or> frame_used s g"
    and s2: "s2 = set_pte v (frame_addr f OR (PG_PRESENT OR PG_WRITE OR 0)) s1"
  shows "kspace s2" "kernel_v u \<Longrightarrow> walk s2 u = (if vpage u = vpage v then Some (frame_addr f OR (u AND 0xFFF)) else walk s u)"
    "frame_used s2 g \<longleftrightarrow> g = f \<or> frame_used s g" "kmaps s \<Longrightarrow> kmaps s2"
    "a < 0x400000 \<or> 0x500000 \<le> a \<Longrightarrow> pmem s2 a = pmem s a"
proof -
  have ks1: "kspace s1" using ks kspace_cong [of s1 s] s1 by simp
  show "kspace s2" unfolding s2 by (rule set_pte_kspace [OF ks1 kv])
  note fl = pte_flags [OF frame_of_frame_addr, of 0 f]
  show w: "walk s2 u = (if vpage u = vpage v then Some (frame_addr f OR (u AND 0xFFF)) else walk s u)"
    if "kernel_v u" for u
    using walk_set_pte [OF ks1 kv that] fl walk_cong [of s1 s] s1 unfolding s2 by simp
  show fu: "frame_used s2 g \<longleftrightarrow> g = f \<or> frame_used s g" for g
    using s1(3) frame_used_cong [of s2 s1] unfolding s2 by simp
  show "pmem s2 a = pmem s a" if "a < 0x400000 \<or> 0x500000 \<le> a"
    using that pte_at_bounds [OF ks1 kv] s1(1) unfolding s2 set_pte_def by auto
  assume km: "kmaps s"
  have used: "frame_used s (unat p div 4096)" if "kernel_v u" "walk s u = Some p" for u p
    using km that unfolding kmaps_def by blast
  show "kmaps s2" unfolding kmaps_def
  proof (intro conjI allI impI; elim conjE)
    fix x y p q assume k: "kernel_v x" "kernel_v y" and wx: "walk s2 x = Some p" and wy: "walk s2 y = Some q"
      and eq: "unat p div 4096 = unat q div 4096"
    show "vpage x = vpage y"
      using wx wy w [OF k(1)] w [OF k(2)] eq used [OF k(1)] used [OF k(2)] f frame_addr_offset [OF f(1)] km k
      unfolding kmaps_def by (auto split: if_splits)
  next
    fix x p assume k: "kernel_v x" and wx: "walk s2 x = Some p"
    show "frame_used s2 (unat p div 4096)"
      using wx w [OF k] used [OF k] frame_addr_offset [OF f(1)] unfolding fu by (auto split: if_splits)
  qed
qed

lemma heap_pages_grow:
  assumes "unat v = k * 4096" "0x10000 \<le> k" "unat v + 4096 \<le> 0x40000000" "kern_heap s = v"
  shows "heap_pages (s\<lparr>kern_heap := v + PAGESIZE\<rparr>) = insert k (heap_pages s)"
proof -
  have "unat (v + PAGESIZE) = (k + 1) * 4096"
    using assms(1,3) by (simp add: unat_add_nowrap)
  then show ?thesis using assms by (auto simp: heap_pages_def)
qed

lemma heap_mapped_grow:
  assumes m: "heap_mapped s" and v: "unat (kern_heap s) = k * 4096" "0x10000 \<le> k"
      "unat (kern_heap s) + 4096 \<le> 0x40000000"
    and f: "f < RAM_MAXPAGE" "\<not> frame_used s f" "\<And>g. frame_used s2 g \<longleftrightarrow> g = f \<or> frame_used s g"
    and w: "\<And>u. kernel_v u \<Longrightarrow> walk s2 u =
      (if vpage u = vpage (kern_heap s) then Some (frame_addr f OR (u AND 0xFFF)) else walk s u)"
    and h: "kern_heap s2 = kern_heap s"
  shows "heap_mapped (s2\<lparr>kern_heap := kern_heap s + PAGESIZE\<rparr>)" (is "heap_mapped ?s")
proof -
  from m obtain fr where fr: "inj_on fr (heap_pages s)" and fk: "\<And>j. j \<in> heap_pages s \<Longrightarrow> fr j < RAM_MAXPAGE
     \<and> frame_used s (fr j) \<and> (\<forall>u. unat u div 4096 = j \<longrightarrow> walk s u = Some (frame_addr (fr j) OR (u AND 0xFFF)))"
    unfolding heap_mapped_def by blast
  have pg: "heap_pages ?s = insert k (heap_pages s)" and k: "k \<notin> heap_pages s"
    using heap_pages_grow [of "kern_heap s" k s2] v h by (auto simp: heap_pages_def)
  have wu: "walk ?s u = (if unat u div 4096 = k then Some (frame_addr f OR (u AND 0xFFF)) else walk s u)"
    if "unat u div 4096 \<in> heap_pages ?s" for u
  proof -
    have "0x10000 \<le> unat u div 4096" "unat u div 4096 * 4096 < 0x40000000"
      using that v unfolding pg by (auto simp: heap_pages_def)
    then have "0x10000000 \<le> unat u" "unat u div 4096 < 0x40000" by linarith+
    then have "0x10000000 \<le> unat u" "unat u < 0x40000000" by (simp_all add: div_less_iff_less_mult)
    then have "kernel_v u" by (simp add: kernel_v_def word_le_nat_alt word_less_nat_alt)
    from w [OF this] show ?thesis
      using v(1) walk_cong [of ?s s2] by (simp add: vpage_nat)
  qed
  have fu: "frame_used ?s g \<longleftrightarrow> g = f \<or> frame_used s g" for g
    using f(3) frame_used_cong [of ?s s2] by simp
  show ?thesis unfolding heap_mapped_def
  proof (intro exI [of _ "fr(k := f)"] conjI ballI allI impI)
    show "inj_on (fr(k := f)) (heap_pages ?s)"
      unfolding pg using fr k fk f(2) by (auto simp: inj_on_def)
  next
    fix j assume j: "j \<in> heap_pages ?s"
    then show "(fr(k := f)) j < RAM_MAXPAGE" "frame_used ?s ((fr(k := f)) j)"
      using fk f(1) unfolding pg fu by auto
    fix u :: u32 assume u: "unat u div 4096 = j"
    show "walk ?s u = Some (frame_addr ((fr(k := f)) j) OR (u AND 0xFFF))"
      using wu [of u] j u fk [of j] unfolding pg by (cases "j = k") auto
  qed
qed

lemma free_frames_cong: "mem_bitmap s = mem_bitmap t \<Longrightarrow> frames.free_frames s = frames.free_frames t"
  by (auto simp: frames.free_frames_def frame_used_def)

lemma ksbrk_page:
  assumes inv: "kheap_pages s" and lim: "unat (kern_heap s) + 4096 \<le> 0x40000000"
    and free: "frames.free_frames s \<noteq> {}" and g: "get_page_frame s = (p, s1)"
  shows "\<exists>s2. pd0_add_page (kern_heap s1) p 0 s1 = Inr s2 \<and> kmem s2 = kmem s
    \<and> kern_heap s2 = kern_heap s \<and> kmalloc_used s2 = kmalloc_used s
    \<and> kheap_pages (s2\<lparr>kern_heap := kern_heap s + PAGESIZE\<rparr>)
    \<and> grown s (s2\<lparr>kern_heap := kern_heap s + PAGESIZE\<rparr>)
    \<and> card (frames.free_frames (s2\<lparr>kern_heap := kern_heap s + PAGESIZE\<rparr>)) + 1 = card (frames.free_frames s)"
proof -
  let ?v = "kern_heap s"
  define s2 where "s2 = set_pte ?v (p OR (PG_PRESENT OR PG_WRITE OR 0)) s1"
  let ?s = "s2\<lparr>kern_heap := ?v + PAGESIZE\<rparr>"
  from frames.alloc_step [OF free g] obtain f where f: "f \<in> frames.free_frames s" "p = frame_addr f"
    "frames.free_frames s1 = frames.free_frames s - {f}" "\<And>g. frame_used s1 g \<longleftrightarrow> g = f \<or> frame_used s g"
    by blast
  have s1: "pmem s1 = pmem s" "cr3 s1 = cr3 s" "kmem s1 = kmem s" "kern_heap s1 = ?v"
    "kmalloc_used s1 = kmalloc_used s" "kheap_state.more s1 = kheap_state.more s"
    using get_page_frame_sel [of s] get_page_frame_ksel [of s] g by simp_all
  from inv obtain k where k: "unat ?v = k * 4096" "0x10000 \<le> k" and ks: "kspace s" and hm: "heap_mapped s"
    unfolding kheap_pages_def by (auto simp: mod_eq_0_iff_dvd elim!: dvdE)
  have kv: "kernel_v ?v" using k lim by (simp add: kernel_v_def word_le_nat_alt word_less_nat_alt)
  have f': "f < RAM_MAXPAGE" "\<not> frame_used s f" using f(1) by (auto simp: frames.free_frames_def)
  note mf = map_fresh [OF ks kv f' s1(1,2) f(4) s2_def [unfolded f(2)]]
  have h2: "kern_heap s2 = ?v" using s1 by (simp add: s2_def)
  have v: "unat (?v + PAGESIZE) = (k + 1) * 4096" using k lim by (simp add: unat_add_nowrap)
  have "heap_mapped ?s"
    using mf(2,3) h2 by (intro heap_mapped_grow [OF hm k lim f'])
  moreover have "kspace ?s" using mf(1) kspace_cong [of ?s s2] by simp
  ultimately have "kheap_pages ?s" using k(2) v by (simp add: kheap_pages_def)
  moreover have "grown s ?s"
    using walk_cong [of ?s s2] mf(2-5) k v kmaps_cong [of ?s s2] frame_used_cong [of ?s s2] s1
    unfolding grown_def by (simp add: s2_def word_le_nat_alt vpage_nat word_less_nat_alt div_less_iff_less_mult)
      (metis less_irrefl nonzero_mult_div_cancel_right div_less_iff_less_mult zero_less_numeral zero_neq_numeral)
  moreover have "0 < card (frames.free_frames s)"
    using free frames.finite_free [of s] by (simp only: card_gt_0_iff simp_thms)
  then have "card (frames.free_frames ?s) + 1 = card (frames.free_frames s)"
    using f(1,3) free_frames_cong [of ?s s1] by (simp add: s2_def)
  moreover have "pd0_add_page (kern_heap s1) p 0 s1 = Inr s2"
    using pd0_add_page_set_pte [of s1 ?v p 0] ks kspace_cong [of s1 s] kv s1 by (simp add: s2_def)
  ultimately show ?thesis using s1 by (intro exI [of _ s2]) (simp add: s2_def)
qed

lemma ksbrk_loop_ok:
  assumes "kheap_pages s" "unat (kern_heap s) + n * 4096 \<le> 0x40000000" "n \<le> card (frames.free_frames s)"
  shows "\<exists>s'. ksbrk_loop n s = Inr (False, s') \<and> kheap_pages s' \<and> grown s s' \<and> kmem s' = kmem s
    \<and> kmalloc_used s' = kmalloc_used s \<and> unat (kern_heap s') = unat (kern_heap s) + n * 4096
    \<and> card (frames.free_frames s') + n = card (frames.free_frames s)"
  using assms
proof (induction n arbitrary: s)
  case (Suc n)
  obtain p s1 where g: "get_page_frame s = (p, s1)" by fastforce
  have lim: "unat (kern_heap s) + 4096 \<le> 0x40000000" using Suc.prems(2) by simp
  have "frames.free_frames s \<noteq> {}" using Suc.prems(3) by auto
  from ksbrk_page [OF Suc.prems(1) lim this g] obtain s2 where
    s2: "pd0_add_page (kern_heap s1) p 0 s1 = Inr s2" "kmem s2 = kmem s" "kern_heap s2 = kern_heap s"
      "kmalloc_used s2 = kmalloc_used s" "kheap_pages (s2\<lparr>kern_heap := kern_heap s + PAGESIZE\<rparr>)"
      "grown s (s2\<lparr>kern_heap := kern_heap s + PAGESIZE\<rparr>)"
      "card (frames.free_frames (s2\<lparr>kern_heap := kern_heap s + PAGESIZE\<rparr>)) + 1 = card (frames.free_frames s)"
    by blast
  have v: "unat (kern_heap s + PAGESIZE) = unat (kern_heap s) + 4096"
    using lim by (simp add: unat_add_nowrap)
  obtain s' where "ksbrk_loop n (s2\<lparr>kern_heap := kern_heap s + PAGESIZE\<rparr>) = Inr (False, s')"
    "kheap_pages s'" "grown (s2\<lparr>kern_heap := kern_heap s + PAGESIZE\<rparr>) s'" "kmem s' = kmem s"
    "kmalloc_used s' = kmalloc_used s" "unat (kern_heap s') = unat (kern_heap s) + 4096 + n * 4096"
    "card (frames.free_frames s') + n = card (frames.free_frames (s2\<lparr>kern_heap := kern_heap s + PAGESIZE\<rparr>))"
    using Suc.IH [OF s2(5)] Suc.prems(2,3) s2 v by auto
  moreover have "grown s s'" using s2(6) \<open>grown _ s'\<close> by (rule grown_trans)
  ultimately show ?case using g s2 by (intro exI [of _ s']) simp
qed simp

lemma sint_small: 
  assumes "unat (n :: u32) < 2 ^ 31" shows "nat (sint n) = unat n"
proof -
  have u: "uint n = int (unat n)" by (rule uint_nat)
  have "int (unat n) < int (2 ^ 31)" using assms by (simp only: of_nat_less_iff)
  then have "uint n < 2 ^ 31" by simp
  moreover have "- (2 ^ 31) \<le> uint n" by (rule order_trans [OF _ uint_ge_0]) simp
  ultimately have "signed_take_bit 31 (uint n) = uint n" by (intro signed_take_bit_int_eq_self) 
  then have "sint n = uint n" unfolding sint_uint by simp
  then show ?thesis by simp
qed

lemma ksbrk_ok:
  assumes inv: "kheap_pages s" and lim: "unat (kern_heap s) + n * 4096 \<le> 0x40000000"
    and free: "n \<le> card (frames.free_frames s)" and n: "0 < n"
  shows "\<exists>s'. ksbrk (of_nat n) s = Inr (kern_heap s, s') \<and> kheap_pages s' \<and> grown s s'
    \<and> kmem s' = set_used (kern_heap s) False (set_size (kern_heap s) (of_nat (n * 4096)) (kmem s))
    \<and> kmalloc_used s' = kmalloc_used s \<and> unat (kern_heap s') = unat (kern_heap s) + n * 4096
    \<and> card (frames.free_frames s') + n = card (frames.free_frames s)"
proof -
  let ?n = "of_nat n :: u32"
  have un: "unat ?n = n" using lim by (intro unat_of_nat_u32) simp
  have mul: "?n * PAGESIZE = of_nat (n * 4096)" by simp
  have "unat (of_nat (n * 4096) :: u32) = n * 4096" using lim by (intro unat_of_nat_u32) simp
  then have "\<not> kern_heap s + ?n * PAGESIZE > KERN_HEAP_LIM"
    unfolding mul word_less_nat_alt using lim by (subst unat_add_nowrap) simp_all
  moreover have "nat (sint ?n) = n" using un lim by (subst sint_small) simp_all
  moreover obtain s1 where s1: "ksbrk_loop n s = Inr (False, s1)" "kheap_pages s1" "grown s s1" "kmem s1 = kmem s"
    "kmalloc_used s1 = kmalloc_used s" "unat (kern_heap s1) = unat (kern_heap s) + n * 4096"
    "card (frames.free_frames s1) + n = card (frames.free_frames s)"
    using ksbrk_loop_ok [OF inv lim free] by blast
  moreover have "hdr_ok s1 (of_nat (unat (kern_heap s)))"
    using s1 inv n by (intro heap_hdr_ok) (auto simp: kheap_pages_def)
  moreover have "kheap_pages (s1\<lparr>kmem := m\<rparr>)" for m
    using s1(2) kspace_cong [of "s1\<lparr>kmem := m\<rparr>" s1] walk_cong [of "s1\<lparr>kmem := m\<rparr>" s1]
      frame_used_cong [of "s1\<lparr>kmem := m\<rparr>" s1]
    by (simp add: kheap_pages_def heap_mapped_def heap_pages_def)
  moreover have "frames.free_frames (s1\<lparr>kmem := m\<rparr>) = frames.free_frames s1" for m
    by (rule free_frames_cong) simp
  moreover have "grown s (s1\<lparr>kmem := m\<rparr>)" for m
    by (rule grown_trans [OF s1(3) grown_update_kmem])
  ultimately show ?thesis by (simp add: ksbrk_def Let_def mult.commute)
qed

lemma kheap_end: "kheap s cs \<Longrightarrow> unat (kern_heap s) = heap_base + heap_bytes cs"
  by (auto simp: kheap_def dest: chunks_end)

lemma kheap_kheap_pages: "kheap s cs \<Longrightarrow> kheap_pages s"
proof -
  assume k: "kheap s cs"
  have "heap_base \<le> unat (kern_heap s)" unfolding kheap_end [OF k] by simp
  with k show ?thesis by (simp add: kheap_def kheap_pages_def)
qed

lemma kern_heap_nat: "kheap s cs \<Longrightarrow> kern_heap s = of_nat (heap_base + heap_bytes cs)"
proof -
  assume "kheap s cs"
  from kheap_end [OF this] have "of_nat (unat (kern_heap s)) = (of_nat (heap_base + heap_bytes cs) :: u32)"
    by (simp only:)
  then show ?thesis by (simp del: of_nat_add)
qed

text \<open>At most one growth of the heap lies between the two states.\<close>

definition spent :: "nat \<Rightarrow> 'a kheap_state_scheme \<Rightarrow> 'a kheap_state_scheme \<Rightarrow> bool" where
  "spent rs s s' \<longleftrightarrow> card (frames.free_frames s) \<le> card (frames.free_frames s') + (rs div 4096 + 1)
     \<and> unat (kern_heap s') \<le> unat (kern_heap s) + growth rs"

lemma spent_refl [simp]: "spent rs s s"
  by (simp add: spent_def)

lemma ksbrk_kheap:
  assumes kh: "kheap s cs" and lim: "unat (kern_heap s) + growth rs \<le> 0x40000000"
    and free: "rs div 4096 + 1 \<le> card (frames.free_frames s)"
  shows "\<exists>s'. ksbrk (of_nat rs div PAGESIZE + 1) s = Inr (kern_heap s, s')
    \<and> kheap s' (cs @ [(growth rs, False)]) \<and> grown s s' \<and> spent rs s s' \<and> kmalloc_used s' = kmalloc_used s
    \<and> agree_outside (unat (kern_heap s)) (unat (kern_heap s')) (kmem s) (kmem s')"
proof -
  let ?n = "rs div 4096 + 1" and ?h = "unat (kern_heap s)"
  have g: "growth rs = ?n * 4096" by (simp add: growth_def)
  have rs: "rs < 2 ^ 30" using lim div_mult_mod_eq [of rs 4096] mod_less_divisor [of 4096 rs]
    by (simp add: growth_def)
  have n: "of_nat rs div PAGESIZE + 1 = (of_nat ?n :: u32)"
    using rs by (simp add: word_unat_eq_iff unat_word_ariths unat_div unat_of_nat_u32)
  from ksbrk_ok [OF kheap_kheap_pages [OF kh], of ?n] lim free obtain s' where
    s': "ksbrk (of_nat ?n) s = Inr (kern_heap s, s')" "kheap_pages s'"
      "kmem s' = set_used (kern_heap s) False (set_size (kern_heap s) (of_nat (?n * 4096)) (kmem s))"
      "kmalloc_used s' = kmalloc_used s" "unat (kern_heap s') = ?h + ?n * 4096" "grown s s'"
      "card (frames.free_frames s') + ?n = card (frames.free_frames s)"
    by (auto simp: g)
  have h: "?h = heap_base + heap_bytes cs" using kheap_end [OF kh] .
  have hw: "kern_heap s = of_nat ?h" by simp
  have ch: "chunks (kmem s) heap_base cs ?h" using kh by (simp add: kheap_def)
  have ag: "agree_outside ?h (unat (kern_heap s')) (kmem s) (kmem s')"
    unfolding s'(3) s'(5) using lim
    by (subst (2 3) hw, intro agree_outside_set) (simp_all add: g)
  have "chunks (kmem s') heap_base cs ?h"
  proof (subst chunks_cong [where m = "kmem s"])
    fix x assume "x \<in> set (starts heap_base cs)"
    from starts_bounds [OF ch this] lim show "rd32 (kmem s') (of_nat x) = rd32 (kmem s) (of_nat x)"
      by (intro agree_outside_rd32 [OF ag]) auto
  qed (rule ch)
  moreover have "chunks (kmem s') ?h [(growth rs, False)] (unat (kern_heap s'))"
    using lim g by (simp add: s' size_field unat_of_nat_u32 del: of_nat_mult of_nat_add)
  ultimately have "chunks (kmem s') heap_base (cs @ [(growth rs, False)]) (unat (kern_heap s'))"
    using h by (simp add: chunks_append)
  then have "kheap s' (cs @ [(growth rs, False)])"
    using s'(2,5) lim g by (simp add: kheap_def kheap_pages_def)
  moreover have "spent rs s s'" using s'(5,7) g by (simp add: spent_def)
  ultimately show ?thesis using s'(1,4,6) ag unfolding n by blast
qed

lemma kmalloc_step:
  assumes kh: "kheap s (xs @ (sz, u) # ys)" and rs: "rs < 2 ^ 32"
  shows "kmalloc_loop (of_nat rs) (of_nat (heap_base + heap_bytes xs)) s =
    (if unfit rs (sz, u)
     then if ys = []
          then (case ksbrk (of_nat rs div PAGESIZE + 1) s of
                  Inl e \<Rightarrow> Some (Inl e)
                | Inr (r, s1) \<Rightarrow> kmalloc_loop (of_nat rs) (of_nat (heap_base + heap_bytes (xs @ [(sz, u)]))) s1)
          else kmalloc_loop (of_nat rs) (of_nat (heap_base + heap_bytes (xs @ [(sz, u)]))) s
     else Some (Inr (of_nat (heap_base + heap_bytes xs), s)))"
proof -
  let ?b = "of_nat (heap_base + heap_bytes xs) :: u32"
  let ?o = "of_nat (heap_base + heap_bytes (xs @ [(sz, u)])) :: u32"
  from kh have c: "chunks (kmem s) (heap_base + heap_bytes xs) ((sz, u) # ys) (unat (kern_heap s))"
    and lim: "unat (kern_heap s) \<le> 0x40000000"
    by (simp_all add: kheap_def chunks_append)
  then have sz: "unat (hdr_size (kmem s) ?b) = sz" "hdr_used (kmem s) ?b = u" "MINSIZE \<le> sz"
    and cy: "chunks (kmem s) (heap_base + heap_bytes xs + sz) ys (unat (kern_heap s))"
    by (simp_all del: of_nat_add)
  have h: "unat (kern_heap s) = heap_base + heap_bytes xs + sz + heap_bytes ys"
    using kheap_end [OF kh] by simp
  have ok: "hdr_ok s ?b" using kh h sz(3) by (intro heap_hdr_ok) (auto simp: kheap_def)
  have lt: "hdr_size (kmem s) ?b < of_nat rs \<longleftrightarrow> sz < rs"
    using rs sz(1) by (simp add: word_less_nat_alt unat_of_nat_u32 del: of_nat_add)
  have nz: "hdr_size (kmem s) ?b \<noteq> 0" using sz(1,3) by auto
  have "?b + of_nat (unat (hdr_size (kmem s) ?b)) = ?o" unfolding sz(1) by simp
  then have other: "?b + hdr_size (kmem s) ?b = ?o" by (simp del: of_nat_add)
  have uo: "unat ?o = heap_base + heap_bytes xs + sz"
    using lim h by (subst unat_of_nat_u32) simp_all
  have "?o = kern_heap s \<longleftrightarrow> heap_bytes ys = 0" unfolding word_unat_eq_iff uo h by simp
  also have "\<dots> \<longleftrightarrow> ys = []" using cy by (cases ys) auto
  finally have last: "?o = kern_heap s \<longleftrightarrow> ys = []" .
  have below: "\<not> kern_heap s < ?o" unfolding word_less_nat_alt uo h by simp
  have dead: "(r < (0 :: u32)) = False" for r by simp
  show ?thesis
    unfolding kmalloc_loop.simps [of "of_nat rs" ?b s] Let_def unfit_def sz(2) other lt last
      fst_conv snd_conv dead using ok nz below
    by (simp only: simp_thms if_True if_False not_False_eq_True not_True_eq_False)
qed

section \<open>Refinement\<close>

lemma growth_fits: "\<not> unfit rs (growth rs, False)"
  using div_mult_mod_eq [of rs 4096] mod_less_divisor [of 4096 rs] by (simp add: unfit_def growth_def)

lemma ready_split: "\<exists>sz ys. ready rs cs = takeWhile (unfit rs) cs @ (sz, False) # ys \<and> rs \<le> sz
    \<and> abs_kmalloc rs cs = takeWhile (unfit rs) cs @ carve rs sz @ ys"
proof (cases "list_all (unfit rs) cs")
  case True
  then have t: "takeWhile (unfit rs) cs = cs" by (simp add: list_all_iff)
  from True have r: "ready rs cs = cs @ [(growth rs, False)]" by (simp add: ready_def)
  from True growth_fits have d: "dropWhile (unfit rs) (cs @ [(growth rs, False)]) = [(growth rs, False)]"
    by (simp add: list_all_iff)
  have "rs \<le> growth rs" using growth_fits [of rs] by (simp add: unfit_def)
  then show ?thesis unfolding abs_kmalloc_def t r d
    by (intro exI [of _ "growth rs"] exI [of _ "[]"]) simp
next
  case False
  then have r: "ready rs cs = cs" unfolding ready_def by (simp only: if_False)
  from False have "dropWhile (unfit rs) cs \<noteq> []" by (auto simp: list_all_iff dropWhile_eq_Nil_conv)
  then obtain c ys where d: "dropWhile (unfit rs) cs = c # ys" by (cases "dropWhile (unfit rs) cs") auto
  then have "\<not> unfit rs c" by (metis dropWhile_eq_Cons_conv)
  then obtain sz where c: "c = (sz, False)" and sz: "rs \<le> sz" by (cases c) (auto simp: unfit_def)
  have "cs = takeWhile (unfit rs) cs @ (sz, False) # ys"
    using takeWhile_dropWhile_id [of "unfit rs" cs] d c by simp
  with sz show ?thesis unfolding abs_kmalloc_def r d c by auto
qed

definition room :: "nat \<Rightarrow> 'a kheap_state_scheme \<Rightarrow> bool" where
  "room rs s \<longleftrightarrow> unat (kern_heap s) + growth rs \<le> 0x40000000
     \<and> rs div 4096 + 1 \<le> card (frames.free_frames s)"

lemma kmalloc_loop_ready:
  assumes kh: "kheap s (xs @ ys)" and ne: "ys \<noteq> []" and rs: "rs < 2 ^ 32"
    and fits: "list_all (unfit rs) ys \<longrightarrow> room rs s"
  shows "\<exists>s'. kmalloc_loop (of_nat rs) (of_nat (heap_base + heap_bytes xs)) s =
      Some (Inr (of_nat (heap_base + heap_bytes (xs @ takeWhile (unfit rs) ys)), s'))
    \<and> kheap s' (xs @ ready rs ys) \<and> grown s s' \<and> spent rs s s' \<and> kmalloc_used s' = kmalloc_used s
    \<and> agree_outside (unat (kern_heap s)) (unat (kern_heap s')) (kmem s) (kmem s')
    \<and> (\<not> list_all (unfit rs) ys \<longrightarrow> s' = s)"
  using assms
proof (induction ys arbitrary: xs)
  case (Cons y ys)
  obtain sz u where y: "y = (sz, u)" by fastforce
  note step = kmalloc_step [OF Cons.prems(1) [unfolded y] rs]
  consider "\<not> unfit rs y" | "unfit rs y" "ys = []" | "unfit rs y" "ys \<noteq> []" by blast
  then show ?case
  proof cases
    case 1
    with Cons.prems y step show ?thesis by (simp add: ready_def)
  next
    case 2
    with Cons.prems have "room rs s" by simp
    with Cons.prems(1) 2 obtain s' where s': "ksbrk (of_nat rs div PAGESIZE + 1) s = Inr (kern_heap s, s')"
      "kheap s' ((xs @ [(sz, u)]) @ [(growth rs, False)])" "grown s s'" "spent rs s s'" "kmalloc_used s' = kmalloc_used s"
      "agree_outside (unat (kern_heap s)) (unat (kern_heap s')) (kmem s) (kmem s')"
      using ksbrk_kheap [of s "xs @ [y]" rs] unfolding y by (auto simp: room_def)
    with step 2 y kmalloc_step [OF s'(2) rs] growth_fits [of rs] show ?thesis by (simp add: ready_def)
  next
    case 3
    have "kheap s ((xs @ [y]) @ ys)" using Cons.prems(1) by simp
    moreover have "list_all (unfit rs) ys \<longrightarrow> room rs s" using Cons.prems(4) 3 by simp
    moreover have "ready rs (y # ys) = y # ready rs ys" using 3 by (simp add: ready_def)
    ultimately show ?thesis using Cons.IH [of "xs @ [y]"] 3 rs step unfolding y by simp
  qed
qed simp

lemma heap_mapped_cong:
  "pmem s = pmem t \<Longrightarrow> cr3 s = cr3 t \<Longrightarrow> mem_bitmap s = mem_bitmap t \<Longrightarrow> kern_heap s = kern_heap t \<Longrightarrow>
    heap_mapped s = heap_mapped t"
  using walk_cong [of s t] frame_used_cong [of s t] by (simp add: heap_mapped_def heap_pages_def)

lemma kheap_update:
  assumes "kheap s cs" "chunks m heap_base cs' (unat (kern_heap s))" "cs' \<noteq> []"
  shows "kheap (s\<lparr>kmem := m, kmalloc_used := k\<rparr>) cs'"
  using assms kspace_cong [of "s\<lparr>kmem := m, kmalloc_used := k\<rparr>" s]
    heap_mapped_cong [of "s\<lparr>kmem := m, kmalloc_used := k\<rparr>" s]
  by (simp add: kheap_def)

lemma kheap_size_bound: "kheap s cs \<Longrightarrow> c \<in> set cs \<Longrightarrow> fst c \<le> 0x30000000"
proof -
  assume k: "kheap s cs" and c: "c \<in> set cs"
  have "fst c \<le> heap_bytes cs" using c by (auto simp: heap_bytes_def intro: member_le_sum_list)
  moreover have "heap_base + heap_bytes cs \<le> 0x40000000" using k kheap_end [OF k] by (simp add: kheap_def)
  ultimately show ?thesis by simp
qed

lemma carve_nonempty [simp]: "carve rs sz \<noteq> []"
  by (simp add: carve_def)

lemma kmalloc_take_refines:
  assumes kh: "kheap s (xs @ (sz, False) # ys)" and rs: "rs \<le> sz" "MINSIZE \<le> rs"
    and b: "b = heap_base + heap_bytes xs"
  shows "\<exists>s'. kmalloc_take (of_nat rs) (of_nat b) s = Inr (of_nat (b + 4), s')
    \<and> kheap s' (xs @ carve rs sz @ ys) \<and> grown s s' \<and> kern_heap s' = kern_heap s
    \<and> frames.free_frames s' = frames.free_frames s
    \<and> kmalloc_used s' = kmalloc_used s + of_nat rs
    \<and> same_data (used_blocks heap_base xs \<union> used_blocks (b + sz) ys) (kmem s) (kmem s')"
proof -
  let ?m = "place (of_nat b) (of_nat rs) (kmem s)"
  let ?s = "s\<lparr>kmem := ?m, kmalloc_used := kmalloc_used s + of_nat rs\<rparr>"
  from kh have c: "chunks (kmem s) heap_base (xs @ [(sz, False)] @ ys) (unat (kern_heap s))"
    and lim: "unat (kern_heap s) \<le> 0x40000000" and hm: "heap_mapped s"
    by (simp_all add: kheap_def)
  have h: "unat (kern_heap s) = b + sz + heap_bytes ys" using kheap_end [OF kh] b by simp
  have c1: "chunks (kmem s) b [(sz, False)] (b + sz)" using c b by (simp add: chunks_append)
  have b31: "b + sz < 2 ^ 31" using lim h by simp
  note pl = place_chunks [OF c1 b31 rs]
  have "chunks ?m heap_base (xs @ carve rs sz @ ys) (unat (kern_heap s))"
    using chunks_replace [OF c _ b _ pl(2), of "carve rs sz"] pl(1) lim by (simp add: carve_def)
  then have "kheap ?s (xs @ carve rs sz @ ys)" using kheap_update [OF kh] by simp
  moreover have "grown s ?s" by (rule grown_update)
  moreover have "frames.free_frames ?s = frames.free_frames s" by (rule free_frames_cong) simp
  moreover have "hdr_ok s (of_nat b + of_nat rs)" if "\<not> hdr_size (kmem s) (of_nat b) - of_nat rs < KMALLOC_MINSIZE"
  proof -
    have "unat (hdr_size (kmem s) (of_nat b)) = sz" using c1 by simp
    moreover have "unat (of_nat rs :: u32) = rs" using rs b31 by (intro unat_of_nat_u32) simp
    ultimately have "unat (hdr_size (kmem s) (of_nat b) - of_nat rs) = sz - rs"
      using rs by (subst unat_sub_nowrap) (simp_all add: word_le_nat_alt)
    with that have "16 \<le> sz - rs" by (simp add: word_less_nat_alt)
    then have "hdr_ok s (of_nat (b + rs))" using h rs b by (intro heap_hdr_ok [OF hm]) auto
    then show ?thesis by simp
  qed
  moreover have "same_data (used_blocks heap_base xs \<union> used_blocks (b + sz) ys) (kmem s) ?m"
  proof (rule same_data_free [where u = False and e = "unat (kern_heap s)"])
    show "agree_outside b (b + sz + absorbed ys) (kmem s) ?m"
      using pl(2) by (auto simp: agree_outside_def)
  qed (use c lim b in simp_all)
  ultimately show ?thesis by (intro exI [of _ ?s]) (auto simp: kmalloc_take_def)
qed

lemma real_size_word:
  assumes "real_size sz < 2 ^ 32"
  shows "(if 4 + sz < KMALLOC_MINSIZE then KMALLOC_MINSIZE else 4 + sz) = of_nat (real_size sz)"
proof -
  have u: "unat (4 + sz) = 4 + unat sz" using assms by (subst unat_add_nowrap) (simp_all add: real_size_def)
  have "of_nat (4 + unat sz) = 4 + sz" by simp
  moreover have "4 + sz < KMALLOC_MINSIZE \<longleftrightarrow> 4 + unat sz < MINSIZE" by (simp add: word_less_nat_alt u)
  ultimately show ?thesis by (simp add: real_size_def max_def)
qed

lemma used_blocks_ready: "used_blocks a (ready rs cs) = used_blocks a cs"
  by (simp add: ready_def used_blocks_append)

lemma same_data_below:
  assumes "kheap s cs" "agree_outside (unat (kern_heap s)) c (kmem s) m'"
  shows "same_data (used_blocks heap_base cs) (kmem s) m'"
proof (rule same_data_outside [OF assms(2)])
  fix p n assume u: "(p, n) \<in> used_blocks heap_base cs"
  have "chunks (kmem s) heap_base cs (unat (kern_heap s))" "unat (kern_heap s) \<le> 0x40000000"
    using assms(1) by (simp_all add: kheap_def)
  with used_blocks_bounds [OF this(1) u] show "(p + n \<le> unat (kern_heap s) \<or> c \<le> p) \<and> p + n \<le> 2 ^ 32"
    by simp
qed

text \<open>Where the abstract allocator puts the block.\<close>

definition abs_addr :: "nat \<Rightarrow> chunk list \<Rightarrow> nat" where
  "abs_addr rs cs = heap_base + heap_bytes (takeWhile (unfit rs) cs) + 4"

lemma kmalloc_refines_fits:
  assumes kh: "kheap s cs" and fits: "list_all (unfit (real_size sz)) cs \<longrightarrow> room (real_size sz) s"
  shows "\<exists>s'. kmalloc sz s = Some (Inr (of_nat (abs_addr (real_size sz) cs), s'))
    \<and> kheap s' (abs_kmalloc (real_size sz) cs) \<and> grown s s' \<and> spent (real_size sz) s s'
    \<and> kmalloc_used s' = kmalloc_used s + of_nat (real_size sz)
    \<and> same_data (used_blocks heap_base cs) (kmem s) (kmem s')
    \<and> (\<not> list_all (unfit (real_size sz)) cs \<longrightarrow>
          kern_heap s' = kern_heap s \<and> frames.free_frames s' = frames.free_frames s)"
proof -
  let ?rs = "real_size sz" and ?xs = "takeWhile (unfit (real_size sz)) cs"
  have rs16: "MINSIZE \<le> ?rs" by (simp add: real_size_def)
  have rs: "?rs < 2 ^ 32"
  proof (cases "list_all (unfit ?rs) cs")
    case True
    then have "growth ?rs \<le> 0x40000000" using fits by (simp add: room_def)
    moreover have "?rs \<le> growth ?rs" using growth_fits [of ?rs] by (simp add: unfit_def)
    ultimately show ?thesis by simp
  next
    case False
    then obtain c where "c \<in> set cs" "?rs \<le> fst c" by (auto simp: list_all_iff unfit_def)
    with kheap_size_bound [OF kh this(1)] show ?thesis by simp
  qed
  have ne: "cs \<noteq> []" using kh by (simp add: kheap_def)
  obtain s1 where s1: "kmalloc_loop (of_nat ?rs) KERN_HEAP s = Some (Inr (of_nat (heap_base + heap_bytes ?xs), s1))"
    "kheap s1 (ready ?rs cs)" "kmalloc_used s1 = kmalloc_used s"
    "agree_outside (unat (kern_heap s)) (unat (kern_heap s1)) (kmem s) (kmem s1)" "grown s s1" "spent ?rs s s1"
    "\<not> list_all (unfit ?rs) cs \<longrightarrow> s1 = s"
    using kmalloc_loop_ready [of s "[]" cs ?rs] kh ne rs fits by auto
  obtain z ys where zy: "ready ?rs cs = ?xs @ (z, False) # ys" "?rs \<le> z" "abs_kmalloc ?rs cs = ?xs @ carve ?rs z @ ys"
    using ready_split by blast
  obtain s' where s': "kmalloc_take (of_nat ?rs) (of_nat (heap_base + heap_bytes ?xs)) s1 =
      Inr (of_nat (heap_base + heap_bytes ?xs + 4), s')" "kheap s' (?xs @ carve ?rs z @ ys)"
    "kmalloc_used s' = kmalloc_used s1 + of_nat ?rs"
    "same_data (used_blocks heap_base ?xs \<union> used_blocks (heap_base + heap_bytes ?xs + z) ys) (kmem s1) (kmem s')"
    "grown s1 s'" "kern_heap s' = kern_heap s1" "frames.free_frames s' = frames.free_frames s1"
    using kmalloc_take_refines [OF s1(2) [unfolded zy(1)] zy(2) rs16 refl] by blast
  have "used_blocks heap_base ?xs \<union> used_blocks (heap_base + heap_bytes ?xs + z) ys = used_blocks heap_base cs"
    using used_blocks_ready [of heap_base ?rs cs] unfolding zy(1) by (simp add: used_blocks_append)
  then have "same_data (used_blocks heap_base cs) (kmem s) (kmem s')"
    using s'(4) same_data_below [OF kh s1(4)] by (auto intro: same_data_trans)
  moreover have "kmalloc sz s = Some (Inr (of_nat (abs_addr ?rs cs), s'))"
    unfolding kmalloc_def real_size_word [OF rs] Let_def s1(1) bind.simps bind_res_simps split_conv
      s'(1) abs_addr_def ..
  moreover have "grown s s'" using s1(5) s'(5) by (rule grown_trans)
  moreover have "spent ?rs s s'" using s1(6) s'(6,7) by (simp add: spent_def)
  moreover have "\<not> list_all (unfit ?rs) cs \<longrightarrow> kern_heap s' = kern_heap s \<and> frames.free_frames s' = frames.free_frames s"
    using s1(7) s'(6,7) by simp
  ultimately show ?thesis using s' s1(3) zy(3) by auto
qed

lemma kmalloc_refines:
  assumes "kheap s cs" "list_all (unfit (real_size sz)) cs \<longrightarrow> room (real_size sz) s"
  shows "\<exists>s'. kmalloc sz s = Some (Inr (of_nat (abs_addr (real_size sz) cs), s'))
    \<and> kheap s' (abs_kmalloc (real_size sz) cs) \<and> grown s s' \<and> spent (real_size sz) s s'
    \<and> kmalloc_used s' = kmalloc_used s + of_nat (real_size sz)
    \<and> same_data (used_blocks heap_base cs) (kmem s) (kmem s')"
  using kmalloc_refines_fits [OF assms] by blast

lemma kfree_refines:
  assumes kh: "kheap s (xs @ (sz, True) # ys)" and b: "b = heap_base + heap_bytes xs"
  shows "\<exists>s'. kfree (of_nat (b + 4)) s = Some (Inr s') \<and> kheap s' (xs @ absorb sz ys)
    \<and> s' = s\<lparr>kmem := kmem s', kmalloc_used := kmalloc_used s - of_nat sz\<rparr>
    \<and> same_data (used_blocks heap_base xs \<union> used_blocks (b + sz) ys) (kmem s) (kmem s')"
proof -
  let ?b = "of_nat b :: u32" and ?e = "unat (kern_heap s)"
  let ?m1 = "set_used ?b False (kmem s)"
  let ?s1 = "s\<lparr>kmem := ?m1, kmalloc_used := kmalloc_used s - of_nat sz\<rparr>"
  from kh have c: "chunks (kmem s) heap_base (xs @ [(sz, True)] @ ys) ?e" and lim: "?e \<le> 0x40000000"
    and hm: "heap_mapped s" by (simp_all add: kheap_def)
  have e: "?e = b + sz + heap_bytes ys" using kheap_end [OF kh] b by simp
  have c1: "unat (hdr_size (kmem s) ?b) = sz" "MINSIZE \<le> sz"
    using c unfolding chunks_append b [symmetric] by simp_all
  have ag1: "agree_outside b (b + sz) (kmem s) ?m1"
    using c1 e lim by (intro agree_outside_set) simp_all
  have c1': "chunks ?m1 heap_base (xs @ [(sz, False)] @ ys) ?e"
    using chunks_replace [OF c _ b _ ag1, of "[(sz, False)]"] c1 lim by simp
  then have c2: "chunks ?m1 heap_base (xs @ ((sz, False) # ys) @ []) ?e" by simp
  have c3: "chunks ?m1 b ((sz, False) # ys) ?e"
    using c1' unfolding chunks_append b [symmetric] by simp
  have w: "walk ?s1 = walk s" by (rule walk_cong) simp_all
  have ok: "hdr_ok ?s1 (of_nat x)" if "b \<le> x" "x + MINSIZE \<le> ?e" for x
  proof -
    have "hdr_ok s (of_nat x)" using that b by (intro heap_hdr_ok [OF hm]) simp_all
    then show ?thesis by (simp add: hdr_ok_def w)
  qed
  obtain m2 where m2: "coalesce (hdr_ok ?s1) (of_nat ?e) ?b ?m1 = Some (Inr m2)"
    "chunks m2 b (absorb sz ys) ?e" "agree_outside b (b + sz + absorbed ys) ?m1 m2"
    using coalesce_absorb [where ok = "hdr_ok ?s1", OF c3 _ ok] lim by auto
  have "agree_outside b ?e ?m1 m2"
    using m2(3) absorbed_le [of ys] e by (auto simp: agree_outside_def)
  then have "chunks m2 heap_base (xs @ absorb sz ys) ?e"
    using chunks_replace [OF c2 _ b _ _ m2(2)] lim e by (simp add: add.assoc)
  then have kh': "kheap (s\<lparr>kmem := m2, kmalloc_used := kmalloc_used s - of_nat sz\<rparr>) (xs @ absorb sz ys)"
    using kheap_update [OF kh] absorb_nonempty [of sz ys] by simp
  have "hdr_size ?m1 ?b = of_nat sz" using hdr_size_word [of "kmem s" ?b] by (simp add: c1)
  moreover have "hdr_ok s ?b" using e c1 b by (intro heap_hdr_ok [OF hm]) simp_all
  moreover have "of_nat (b + 4) - 4 = ?b" by simp
  ultimately have "kfree (of_nat (b + 4)) s = Some (Inr (s\<lparr>kmem := m2, kmalloc_used := kmalloc_used s - of_nat sz\<rparr>))"
    using m2(1) unfolding kfree_def Let_def by (simp del: of_nat_add)
  moreover have "same_data (used_blocks heap_base xs \<union> used_blocks (b + sz) ys) (kmem s) m2"
  proof (rule same_data_free [OF _ _ b, where e = ?e])
    show "agree_outside b (b + sz + absorbed ys) (kmem s) m2"
      using ag1 m2(3) by (simp add: agree_outside_def)
  qed (use c lim in simp_all)
  ultimately show ?thesis using kh' by simp
qed

section \<open>The contract of the heap\<close>

text \<open>The abstract view: the set of blocks handed out.\<close>

definition kblocks :: "'a kheap_state_scheme \<Rightarrow> (nat \<times> nat) set \<Rightarrow> bool" where
  "kblocks s B \<longleftrightarrow> (\<exists>cs. kheap s cs \<and> B = used_blocks heap_base cs)"

lemma used_blocks_split:
  "(p, n) \<in> used_blocks a cs \<Longrightarrow>
    \<exists>xs sz ys. cs = xs @ (sz, True) # ys \<and> p = a + heap_bytes xs + 4 \<and> n = sz - 4"
proof (induction cs arbitrary: a)
  case (Cons c cs)
  obtain sz u where c: "c = (sz, u)" by fastforce
  show ?case
  proof (cases "u \<and> p = a + 4 \<and> n = sz - 4")
    case True
    then show ?thesis using c by (intro exI [of _ "[]"]) simp
  next
    case False
    with Cons.prems c have "(p, n) \<in> used_blocks (a + sz) cs" by (auto split: if_splits)
    from Cons.IH [OF this] obtain xs z ys where "cs = xs @ (z, True) # ys" "p = a + sz + heap_bytes xs + 4" "n = z - 4"
      by blast
    then show ?thesis using c by (intro exI [of _ "c # xs"] exI [of _ z] exI [of _ ys]) simp
  qed
qed simp

lemma chunks_unique: "chunks m a cs e \<Longrightarrow> chunks m a cs' e \<Longrightarrow> cs = cs'"
proof (induction cs arbitrary: a cs')
  case Nil
  then show ?case by (cases cs') (force dest: chunks_end)+
next
  case (Cons c cs)
  obtain sz u where c: "c = (sz, u)" by fastforce
  have "a < e" using Cons.prems(1) c chunks_end [of m "a + sz" cs e] by simp
  with Cons.prems(2) obtain z v ds where d: "cs' = (z, v) # ds" by (cases cs') auto
  with Cons.prems c have "z = sz" "v = u" "chunks m (a + sz) cs e" "chunks m (a + sz) ds e" by auto
  with Cons.IH c d show ?case by blast
qed

lemma kblocks_unique: "kblocks s B \<Longrightarrow> kblocks s C \<Longrightarrow> B = C"
  unfolding kblocks_def kheap_def using chunks_unique by blast

lemma kblocks_apart:
  assumes "kblocks s B" "(p, n) \<in> B" "(q, k) \<in> B"
  shows "(p, n) = (q, k) \<or> p + n \<le> q \<or> q + k \<le> p"
proof -
  from assms obtain cs where "chunks (kmem s) heap_base cs (unat (kern_heap s))" "B = used_blocks heap_base cs"
    by (auto simp: kblocks_def kheap_def)
  with used_blocks_apart assms(2,3) show ?thesis by fastforce
qed

lemma carve_facts:
  assumes "rs \<le> sz" "MINSIZE \<le> rs"
  shows "heap_bytes (carve rs sz) = sz"
    "\<exists>n. used_blocks b (carve rs sz) = {(b + 4, n)} \<and> rs - 4 \<le> n \<and> n + 4 \<le> sz"
proof -
  show "heap_bytes (carve rs sz) = sz" using assms by (simp add: carve_def)
  show "\<exists>n. used_blocks b (carve rs sz) = {(b + 4, n)} \<and> rs - 4 \<le> n \<and> n + 4 \<le> sz"
  proof (cases "sz - rs < MINSIZE")
    case True
    with assms show ?thesis by (intro exI [of _ "sz - 4"]) (simp add: carve_def)
  next
    case False
    with assms show ?thesis by (intro exI [of _ "rs - 4"]) (simp add: carve_def)
  qed
qed

lemma kblocks_kmalloc:
  assumes kh: "kheap s' (abs_kmalloc rs cs)" and rs: "MINSIZE \<le> rs"
  shows "\<exists>n. used_blocks heap_base (abs_kmalloc rs cs) = insert (abs_addr rs cs, n) (used_blocks heap_base cs)
    \<and> rs - 4 \<le> n \<and> (abs_addr rs cs, n) \<notin> used_blocks heap_base cs"
proof -
  let ?xs = "takeWhile (unfit rs) cs"
  let ?b = "heap_base + heap_bytes ?xs"
  obtain z ys where zy: "ready rs cs = ?xs @ (z, False) # ys" "rs \<le> z" "abs_kmalloc rs cs = ?xs @ carve rs z @ ys"
    using ready_split by blast
  note cv = carve_facts [OF zy(2) rs]
  obtain n where n: "used_blocks ?b (carve rs z) = {(?b + 4, n)}" "rs - 4 \<le> n" "n + 4 \<le> z" using cv(2) by blast
  have old: "used_blocks heap_base cs = used_blocks heap_base ?xs \<union> used_blocks (?b + z) ys"
    using used_blocks_ready [of heap_base rs cs] unfolding zy(1) by (simp add: used_blocks_append)
  have new: "used_blocks heap_base (abs_kmalloc rs cs) = insert (?b + 4, n) (used_blocks heap_base cs)"
    unfolding zy(3) old using n cv(1) by (auto simp: used_blocks_append)
  have c: "chunks (kmem s') heap_base (?xs @ carve rs z @ ys) (unat (kern_heap s'))"
    using kh zy(3) by (simp add: kheap_def)
  have "(?b + 4, n) \<notin> used_blocks heap_base cs"
  proof
    assume "(?b + 4, n) \<in> used_blocks heap_base cs"
    then have "(?b + 4, n) \<in> used_blocks heap_base ?xs \<union> used_blocks (?b + z) ys" using old by blast
    from used_blocks_around [OF c refl _ this] n zy(2) rs cv(1) show False by simp
  qed
  with new n show ?thesis unfolding abs_addr_def by blast
qed

lemma free_block_removed:
  assumes "kheap s (xs @ (sz, True) # ys)"
  shows "used_blocks heap_base (xs @ (sz, True) # ys) - {(heap_base + heap_bytes xs + 4, sz - 4)} =
    used_blocks heap_base xs \<union> used_blocks (heap_base + heap_bytes xs + sz) ys"
proof -
  let ?b = "heap_base + heap_bytes xs"
  have c: "chunks (kmem s) heap_base (xs @ [(sz, True)] @ ys) (unat (kern_heap s))"
    using assms by (simp add: kheap_def)
  then have sz: "MINSIZE \<le> sz" by (simp add: chunks_append)
  have "(?b + 4, sz - 4) \<notin> used_blocks heap_base xs \<union> used_blocks (?b + sz) ys"
    using used_blocks_around [OF c refl refl, of "?b + 4" "sz - 4"] sz by auto
  then show ?thesis by (auto simp: used_blocks_append)
qed

text \<open>A run of allocations, and of releases of blocks other than \<open>b\<close>.\<close>

inductive heap_trace :: "(u32 \<Rightarrow> 's \<Rightarrow> (u32 \<times> 's) res option) \<Rightarrow> (u32 \<Rightarrow> 's \<Rightarrow> 's res option) \<Rightarrow>
    (u32 \<Rightarrow> 's \<Rightarrow> bool) \<Rightarrow> ('s \<Rightarrow> (nat \<times> nat) set \<Rightarrow> bool) \<Rightarrow> nat \<times> nat \<Rightarrow> 's \<Rightarrow> 's \<Rightarrow> bool"
  for alloc release can rep b s0 where
  start: "heap_trace alloc release can rep b s0 s0"
| alloc: "heap_trace alloc release can rep b s0 s \<Longrightarrow> can sz s \<Longrightarrow> alloc sz s = Some (Inr (p, s')) \<Longrightarrow>
    heap_trace alloc release can rep b s0 s'"
| release: "heap_trace alloc release can rep b s0 s \<Longrightarrow> rep s B \<Longrightarrow> (p, n) \<in> B \<Longrightarrow> (p, n) \<noteq> b \<Longrightarrow>
    release (of_nat p) s = Some (Inr s') \<Longrightarrow> heap_trace alloc release can rep b s0 s'"

locale block_allocator =
  fixes rep :: "'s \<Rightarrow> (nat \<times> nat) set \<Rightarrow> bool"
    and can :: "u32 \<Rightarrow> 's \<Rightarrow> bool"
    and alloc :: "u32 \<Rightarrow> 's \<Rightarrow> (u32 \<times> 's) res option"
    and release :: "u32 \<Rightarrow> 's \<Rightarrow> 's res option"
    and data :: "'s \<Rightarrow> mem"
  assumes rep_unique: "rep s B \<Longrightarrow> rep s C \<Longrightarrow> B = C"
    and rep_apart: "rep s B \<Longrightarrow> (p, n) \<in> B \<Longrightarrow> (q, k) \<in> B \<Longrightarrow> (p, n) = (q, k) \<or> p + n \<le> q \<or> q + k \<le> p"
    and alloc_ok: "rep s B \<Longrightarrow> can sz s \<Longrightarrow> \<exists>p n s'. alloc sz s = Some (Inr (of_nat p, s'))
      \<and> rep s' (insert (p, n) B) \<and> (p, n) \<notin> B \<and> unat sz \<le> n \<and> same_data B (data s) (data s')"
    and release_ok: "rep s B \<Longrightarrow> (p, n) \<in> B \<Longrightarrow> \<exists>s'. release (of_nat p) s = Some (Inr s')
      \<and> rep s' (B - {(p, n)}) \<and> same_data (B - {(p, n)}) (data s) (data s')"
begin

lemma alloc_disjoint:
  assumes "rep s B" "can sz s"
  shows "\<exists>p n s'. alloc sz s = Some (Inr (of_nat p, s')) \<and> rep s' (insert (p, n) B) \<and> unat sz \<le> n
    \<and> same_data B (data s) (data s') \<and> (\<forall>(q, k) \<in> B. p + n \<le> q \<or> q + k \<le> p)"
proof -
  from alloc_ok [OF assms] obtain p n s' where a: "alloc sz s = Some (Inr (of_nat p, s'))"
    "rep s' (insert (p, n) B)" "(p, n) \<notin> B" "unat sz \<le> n" "same_data B (data s) (data s')" by blast
  have "p + n \<le> q \<or> q + k \<le> p" if "(q, k) \<in> B" for q k
    using rep_apart [OF a(2), of p n q k] that a(3) by auto
  with a show ?thesis by blast
qed

lemma alloc_release:
  assumes "rep s B" "can sz s"
  shows "\<exists>p s' s''. alloc sz s = Some (Inr (p, s')) \<and> release p s' = Some (Inr s'') \<and> rep s'' B
    \<and> same_data B (data s) (data s'')"
proof -
  from alloc_ok [OF assms] obtain p n s' where a: "alloc sz s = Some (Inr (of_nat p, s'))"
    "rep s' (insert (p, n) B)" "(p, n) \<notin> B" "same_data B (data s) (data s')" by blast
  from release_ok [OF a(2), of p n] a(3) obtain s'' where "release (of_nat p) s' = Some (Inr s'')" "rep s'' B"
    "same_data B (data s') (data s'')" by auto
  with a show ?thesis by (blast intro: same_data_trans)
qed

lemma trace_keeps:
  assumes "heap_trace alloc release can rep b s0 s" "rep s0 B0" "b \<in> B0"
  shows "\<exists>B. rep s B \<and> b \<in> B \<and> same_data {b} (data s0) (data s)"
  using assms
proof (induction rule: heap_trace.induct)
  case start
  then show ?case by (auto simp: same_data_def)
next
  case (alloc s sz p s')
  then obtain B where B: "rep s B" "b \<in> B" "same_data {b} (data s0) (data s)" by blast
  from alloc_ok [OF B(1) alloc.hyps(2)] alloc.hyps(3) obtain q n where
    "rep s' (insert (q, n) B)" "same_data B (data s) (data s')" by auto
  with B show ?case by (blast intro: same_data_trans same_data_mono)
next
  case (release s B p n s')
  then have B: "b \<in> B" "same_data {b} (data s0) (data s)" using rep_unique by blast+
  from release_ok [OF release.hyps(2,3)] release.hyps(5) have
    "rep s' (B - {(p, n)})" "same_data (B - {(p, n)}) (data s) (data s')" by auto
  with B release.hyps(4) show ?case by (blast intro: same_data_trans same_data_mono)
qed

end

lemma kmalloc_kblocks:
  assumes "kblocks s B" and room: "room (real_size sz) s"
  shows "\<exists>p n s'. kmalloc sz s = Some (Inr (of_nat p, s')) \<and> kblocks s' (insert (p, n) B) \<and> (p, n) \<notin> B
    \<and> unat sz \<le> n \<and> same_data B (kmem s) (kmem s') \<and> grown s s' \<and> spent (real_size sz) s s'"
proof -
  obtain cs where cs: "kheap s cs" "B = used_blocks heap_base cs" using assms(1) by (auto simp: kblocks_def)
  from kmalloc_refines [OF cs(1), of sz] room obtain s' where
    s': "kmalloc sz s = Some (Inr (of_nat (abs_addr (real_size sz) cs), s'))"
    "kheap s' (abs_kmalloc (real_size sz) cs)" "same_data B (kmem s) (kmem s')" "grown s s'"
    "spent (real_size sz) s s'" unfolding cs(2) by blast
  have rs: "MINSIZE \<le> real_size sz" "unat sz \<le> real_size sz - 4" by (simp_all add: real_size_def)
  obtain n where n: "used_blocks heap_base (abs_kmalloc (real_size sz) cs) = insert (abs_addr (real_size sz) cs, n) B"
    "real_size sz - 4 \<le> n" "(abs_addr (real_size sz) cs, n) \<notin> B"
    using kblocks_kmalloc [OF s'(2) rs(1)] unfolding cs(2) by blast
  then have "kblocks s' (insert (abs_addr (real_size sz) cs, n) B)" using s'(2) unfolding kblocks_def by blast
  moreover have "unat sz \<le> n" using rs(2) n(2) by (rule order_trans)
  ultimately show ?thesis using s' n by blast
qed

lemma kfree_kblocks:
  assumes "kblocks s B" and pn: "(p, n) \<in> B"
  shows "\<exists>s'. kfree (of_nat p) s = Some (Inr s') \<and> kblocks s' (B - {(p, n)})
    \<and> same_data (B - {(p, n)}) (kmem s) (kmem s') \<and> (\<exists>m k. s' = s\<lparr>kmem := m, kmalloc_used := k\<rparr>)"
proof -
  obtain cs where cs: "kheap s cs" "B = used_blocks heap_base cs" using assms(1) by (auto simp: kblocks_def)
  from used_blocks_split pn cs(2) obtain xs sz ys where
    x: "cs = xs @ (sz, True) # ys" "p = heap_base + heap_bytes xs + 4" "n = sz - 4" by blast
  from kfree_refines [OF cs(1) [unfolded x(1)] refl] x obtain s' where s': "kfree (of_nat p) s = Some (Inr s')"
    "kheap s' (xs @ absorb sz ys)" "\<exists>m k. s' = s\<lparr>kmem := m, kmalloc_used := k\<rparr>"
    "same_data (used_blocks heap_base xs \<union> used_blocks (heap_base + heap_bytes xs + sz) ys) (kmem s) (kmem s')"
    by auto
  have "B - {(p, n)} = used_blocks heap_base xs \<union> used_blocks (heap_base + heap_bytes xs + sz) ys"
    using free_block_removed [OF cs(1) [unfolded x(1)]] cs(2) x by simp
  moreover have "used_blocks heap_base (xs @ absorb sz ys) = used_blocks heap_base xs \<union> used_blocks (heap_base + heap_bytes xs + sz) ys"
    by (simp add: used_blocks_append used_blocks_absorb)
  ultimately show ?thesis using s' unfolding kblocks_def by auto
qed

interpretation kh: block_allocator kblocks "\<lambda>sz. room (real_size sz)" kmalloc kfree kmem
proof unfold_locales
  fix s :: "'a kheap_state_scheme" and B sz
  assume "kblocks s B" "room (real_size sz) s"
  from kmalloc_kblocks [OF this] show "\<exists>p n s'. kmalloc sz s = Some (Inr (of_nat p, s'))
      \<and> kblocks s' (insert (p, n) B) \<and> (p, n) \<notin> B \<and> unat sz \<le> n \<and> same_data B (kmem s) (kmem s')"
    by blast
next
  fix s :: "'a kheap_state_scheme" and B p n
  assume "kblocks s B" "(p, n) \<in> B"
  from kfree_kblocks [OF this] show "\<exists>s'. kfree (of_nat p) s = Some (Inr s')
      \<and> kblocks s' (B - {(p, n)}) \<and> same_data (B - {(p, n)}) (kmem s) (kmem s')"
    by blast
qed (use kblocks_unique kblocks_apart in blast)+

section \<open>The first page\<close>

text \<open>After \<open>ksbrk(1)\<close> the heap is one free chunk of a page.\<close>

lemma first_chunk:
  assumes "kheap_pages s" "kern_heap s = KERN_HEAP" "1 \<le> card (frames.free_frames s)"
  shows "\<exists>s'. ksbrk 1 s = Inr (KERN_HEAP, s') \<and> kheap s' [(4096, False)] \<and> grown s s'
    \<and> card (frames.free_frames s') + 1 = card (frames.free_frames s)"
proof -
  from ksbrk_ok [OF assms(1), of 1] assms(2,3) obtain s' where s': "ksbrk 1 s = Inr (KERN_HEAP, s')" "kheap_pages s'"
    "grown s s'" "kmem s' = set_used KERN_HEAP False (set_size KERN_HEAP 4096 (kmem s))"
    "unat (kern_heap s') = heap_base + 4096" "card (frames.free_frames s') + 1 = card (frames.free_frames s)" by auto
  have "kheap s' [(4096, False)]"
    using s'(2) by (simp add: kheap_def kheap_pages_def s'(4,5))
  with s' show ?thesis by blast
qed

section \<open>Properties\<close>

definition demo_kheap :: kheap_state where
  "demo_kheap = init_pd0 \<lparr>mem_bitmap = (\<lambda>_. 0), pmem = (\<lambda>_. 0), cr3 = 0, kmem = (\<lambda>_. 0),
     kern_heap = KERN_HEAP, kmalloc_used = 0\<rparr>"

lemma demo_frames_card: "mem_bitmap s = (\<lambda>_. 0) \<Longrightarrow> card (frames.free_frames s) = RAM_MAXPAGE"
proof -
  assume "mem_bitmap s = (\<lambda>_. 0)"
  then have "frames.free_frames s = {..<RAM_MAXPAGE}" by (auto simp: frames.free_frames_def frame_used_def)
  then show ?thesis by simp
qed

lemma demo_kheap_page:
  "\<exists>s :: kheap_state. kheap s [(4096, False)] \<and> unat (kern_heap s) = heap_base + 4096
     \<and> 1000 \<le> card (frames.free_frames s)"
proof -
  have f: "mem_bitmap demo_kheap = (\<lambda>_. 0)" "kern_heap demo_kheap = KERN_HEAP"
    by (simp_all add: demo_kheap_def init_pd0_def Let_def del: upt_rec_numeral)
  have "heap_pages demo_kheap = {}" by (auto simp: heap_pages_def f)
  then have "heap_mapped demo_kheap" by (simp add: heap_mapped_def)
  moreover have "kspace demo_kheap" unfolding demo_kheap_def by (rule init_pd0_kspace)
  ultimately have kp: "kheap_pages demo_kheap" by (simp add: kheap_pages_def f)
  from ksbrk_ok [OF kp, of 1] f demo_frames_card [OF f(1)] obtain s where
    s: "ksbrk 1 demo_kheap = Inr (KERN_HEAP, s)" "unat (kern_heap s) = heap_base + 4096"
      "card (frames.free_frames s) + 1 = RAM_MAXPAGE" by auto
  from first_chunk [OF kp f(2)] demo_frames_card [OF f(1)] s(1) have "kheap s [(4096, False)]" by auto
  then show ?thesis using s(2,3) by (intro exI [of _ s]) simp
qed

text \<open>C16. \<open>kmalloc\<close> implements the first-fit allocator on the list of chunks: on a well-formed heap where
  some free chunk is large enough, or where enough frames and address space are left to grow, it
  returns, with the data address of the first chunk that fits (or of the new one); the heap is well
  formed again, its chunks are those the abstract allocator computes, the counter grows by the size of
  the record, and no byte of a block in use has changed.\<close>

theorem kmalloc_first_fit:
  assumes "kheap s cs" "list_all (unfit (real_size sz)) cs \<longrightarrow> room (real_size sz) s"
  shows "\<exists>s'. kmalloc sz s = Some (Inr (of_nat (abs_addr (real_size sz) cs), s'))
    \<and> kheap s' (abs_kmalloc (real_size sz) cs)
    \<and> kmalloc_used s' = kmalloc_used s + of_nat (real_size sz)
    \<and> same_data (used_blocks heap_base cs) (kmem s) (kmem s')"
  using kmalloc_refines [OF assms] by blast

theorem kmalloc_first_fit_witness:
  "\<exists>s s' :: kheap_state. kheap s [(4096, False)] \<and> kmalloc 100 s = Some (Inr (0x10000004, s'))
    \<and> kheap s' [(104, True), (3992, False)]"
proof -
  obtain s :: kheap_state where s: "kheap s [(4096, False)]" using demo_kheap_page by blast
  have "\<not> unfit 104 (4096, False)" "real_size 100 = 104" by (simp_all add: unfit_def real_size_def)
  with kmalloc_first_fit [OF s, of 100] s show ?thesis
    by (auto simp: abs_addr_def abs_kmalloc_def ready_def carve_def)
qed

text \<open>C28. \<open>kfree\<close> of a block in use returns, gives exactly that block back (the other blocks in use are
  the same), merges the chunk with the free chunks behind it, and changes no byte of the other blocks;
  neither the page tables nor the frames change.\<close>

theorem kfree_releases:
  assumes "kheap s (xs @ (sz, True) # ys)"
  shows "\<exists>s'. kfree (of_nat (heap_base + heap_bytes xs + 4)) s = Some (Inr s') \<and> kheap s' (xs @ absorb sz ys)
    \<and> used_blocks heap_base (xs @ absorb sz ys)
        = used_blocks heap_base (xs @ (sz, True) # ys) - {(heap_base + heap_bytes xs + 4, sz - 4)}
    \<and> same_data (used_blocks heap_base (xs @ absorb sz ys)) (kmem s) (kmem s')
    \<and> pmem s' = pmem s \<and> mem_bitmap s' = mem_bitmap s \<and> kern_heap s' = kern_heap s"
proof -
  have u: "used_blocks heap_base (xs @ absorb sz ys) =
      used_blocks heap_base xs \<union> used_blocks (heap_base + heap_bytes xs + sz) ys"
    by (simp add: used_blocks_append used_blocks_absorb)
  from kfree_refines [OF assms refl] obtain s' where s': "kfree (of_nat (heap_base + heap_bytes xs + 4)) s = Some (Inr s')"
    "kheap s' (xs @ absorb sz ys)" "s' = s\<lparr>kmem := kmem s', kmalloc_used := kmalloc_used s - of_nat sz\<rparr>"
    "same_data (used_blocks heap_base xs \<union> used_blocks (heap_base + heap_bytes xs + sz) ys) (kmem s) (kmem s')"
    by blast
  from s'(3) have "pmem s' = pmem s" "mem_bitmap s' = mem_bitmap s" "kern_heap s' = kern_heap s"
    by (metis (no_types, lifting) kheap_state.select_convs kheap_state.surjective kheap_state.update_convs
        mmu_state.select_convs mmu_state.surjective mmu_state.update_convs frame_state.select_convs)+
  with s' u free_block_removed [OF assms] show ?thesis by metis
qed

theorem kfree_releases_witness:
  "\<exists>s s' :: kheap_state. kheap s [(104, True), (3992, False)] \<and> kfree 0x10000004 s = Some (Inr s')
    \<and> kheap s' [(4096, False)]"
proof -
  obtain s0 :: kheap_state where s0: "kheap s0 [(4096, False)]" using demo_kheap_page by blast
  have "\<not> unfit 104 (4096, False)" "real_size 100 = 104" by (simp_all add: unfit_def real_size_def)
  with kmalloc_refines [OF s0, of 100] obtain s :: kheap_state where "kheap s [(104, True), (3992, False)]"
    by (auto simp: abs_kmalloc_def ready_def carve_def)
  with kfree_releases [of s "[]" 104 "[(3992, False)]"] show ?thesis by auto
qed

text \<open>C1. Memory safety of the kernel heap: along any run of \<open>kmalloc\<close> calls that there is room for and of
  \<open>kfree\<close> calls on blocks other than \<open>b\<close>, the block \<open>b\<close> stays allocated, disjoint from all blocks handed
  out, and its bytes keep their values.\<close>

theorem kmalloc_safety:
  assumes "heap_trace kmalloc kfree (\<lambda>sz. room (real_size sz)) kblocks b s0 s" "kblocks s0 B0" "b \<in> B0"
  shows "\<exists>B. kblocks s B \<and> b \<in> B \<and> same_data {b} (kmem s0) (kmem s)
    \<and> (\<forall>(q, k) \<in> B. (q, k) = b \<or> fst b + snd b \<le> q \<or> q + k \<le> fst b)"
proof -
  from kh.trace_keeps [OF assms] obtain B where B: "kblocks s B" "b \<in> B" "same_data {b} (kmem s0) (kmem s)" by blast
  have "(q, k) = b \<or> fst b + snd b \<le> q \<or> q + k \<le> fst b" if "(q, k) \<in> B" for q k
    using kh.rep_apart [OF B(1) that, of "fst b" "snd b"] B(2) by (cases b) auto
  with B show ?thesis by blast
qed

theorem kmalloc_safety_witness:
  "\<exists>(s0 :: kheap_state) p s B. kblocks s0 {(0x10000004, 100)} \<and> kmalloc 8 s0 = Some (Inr (p, s))
    \<and> kblocks s B \<and> (0x10000004, 100) \<in> B \<and> same_data {(0x10000004, 100)} (kmem s0) (kmem s)"
proof -
  obtain s' :: kheap_state where s': "kheap s' [(4096, False)]" "unat (kern_heap s') = heap_base + 4096"
    "1000 \<le> card (frames.free_frames s')" using demo_kheap_page by blast
  have "\<not> unfit 104 (4096, False)" and rs: "real_size 100 = 104" "real_size 8 = 16"
    by (simp_all add: unfit_def real_size_def)
  with kmalloc_refines [OF s'(1), of 100] obtain s0 :: kheap_state where
    s0: "kheap s0 [(104, True), (3992, False)]" "spent 104 s' s0"
    by (auto simp: abs_kmalloc_def ready_def carve_def)
  have k: "kblocks s0 {(0x10000004, 100)}"
    unfolding kblocks_def by (intro exI [of _ "[(104, True), (3992, False)]"]) (simp add: s0(1))
  have r: "room (real_size 8) s0"
    using s'(2,3) s0(2) unfolding rs by (simp add: room_def spent_def growth_def)
  from kmalloc_kblocks [OF k r] obtain p s where a: "kmalloc 8 s0 = Some (Inr (p, s))" by blast
  have "heap_trace kmalloc kfree (\<lambda>sz. room (real_size sz)) kblocks (0x10000004, 100) s0 s"
    by (rule heap_trace.alloc [where s = s0 and sz = 8 and p = p], rule heap_trace.start) (rule r, rule a)
  from kmalloc_safety [OF this k] obtain B where "kblocks s B" "(0x10000004, 100) \<in> B"
    "same_data {(0x10000004, 100)} (kmem s0) (kmem s)" by blast
  with k a show ?thesis by blast
qed

end
