(* ===== verification/Lib.thy ===== *)
theory Lib
  imports Prelude
begin

text \<open>
  \<^verbatim>\<open>kern/lib.c\<close> on byte memory: \<open>memcpy\<close>, the string functions and \<open>itoa\<close>. Loops that end only on
  a terminated string are \<open>partial_function (option)\<close>; the lemmas show that they return on one.
\<close>

section \<open>The code\<close>

text \<open>\<open>while (n--) *dst++ = *src++;\<close> with \<open>n\<close> a 32-bit \<open>int\<close> (a negative \<open>n\<close> counts down through the
  wrap-around). The returned pointer is \<open>dst\<close>, so only the memory is a result.\<close>

function memcpy :: "mem \<Rightarrow> u32 \<Rightarrow> u32 \<Rightarrow> u32 \<Rightarrow> mem" where
  "memcpy m dst src n =
     (if n = 0 then m else memcpy (m(dst := m src)) (dst + 1) (src + 1) (n - 1))"
  by pat_completeness auto
termination
  by (relation "measure (\<lambda>(m, dst, src, n). unat n)")
    (auto simp: unat_minus_one unat_gt_0)

declare memcpy.simps [simp del]

partial_function (option) strcpy_loop :: "mem \<Rightarrow> u32 \<Rightarrow> u32 \<Rightarrow> u32 \<Rightarrow> (u32 \<times> mem) option" where
  "strcpy_loop m dst src i =
     (let c = m (src + i); m' = m(dst + i := c)
      in if c \<noteq> 0 then strcpy_loop m' dst src (i + 1) else Some (i, m'))"

definition strcpy :: "mem \<Rightarrow> u32 \<Rightarrow> u32 \<Rightarrow> (u32 \<times> mem) option" where
  "strcpy m dst src = strcpy_loop m dst src 0"

partial_function (option) strcmp_loop :: "mem \<Rightarrow> u32 \<Rightarrow> u32 \<Rightarrow> u32 \<Rightarrow> u32 option" where
  "strcmp_loop m dst src i =
     (if m (dst + i) = m (src + i)
      then if m (src + i) = 0 then Some 0 else strcmp_loop m dst src (i + 1)
      else Some 1)"

definition strcmp :: "mem \<Rightarrow> u32 \<Rightarrow> u32 \<Rightarrow> u32 option" where
  "strcmp m dst src = strcmp_loop m dst src 0"

partial_function (option) strlen_loop :: "mem \<Rightarrow> u32 \<Rightarrow> u32 \<Rightarrow> u32 option" where
  "strlen_loop m s i = (if m s \<noteq> 0 then strlen_loop m (s + 1) (i + 1) else Some i)"

definition strlen :: "mem \<Rightarrow> u32 \<Rightarrow> u32 option" where
  "strlen m s = strlen_loop m s 0"

text \<open>
  \<open>itoa\<close>: the digits are written in reverse, then swapped in place. A base of 0 raises the divide
  error, whose default handler returns to the division: it does not return, and neither does
  base 1 on a number other than 0.
\<close>

definition itoa_digit :: "u32 \<Rightarrow> u8" where
  "itoa_digit t = (if t < 10 then ucast (t + 48) else ucast (t + 97 - 10))"

partial_function (option) itoa_digits :: "mem \<Rightarrow> u32 \<Rightarrow> u32 \<Rightarrow> u32 \<Rightarrow> u32 \<Rightarrow> (mem \<times> u32) option" where
  "itoa_digits m buf n base i =
     (if base = 0 then None
      else let m' = m(buf + i := itoa_digit (n mod base)); n' = n div base
           in if n' \<noteq> 0 then itoa_digits m' buf n' base (i + 1) else Some (m', i + 1))"

function itoa_swap :: "mem \<Rightarrow> u32 \<Rightarrow> nat \<Rightarrow> nat \<Rightarrow> mem" where
  "itoa_swap m buf j i =
     (if j < i
      then let tmp = m (buf + of_nat j);
               m1 = m(buf + of_nat j := m (buf + of_nat i));
               m2 = m1(buf + of_nat i := tmp)
           in itoa_swap m2 buf (j + 1) (i - 1)
      else m)"
  by pat_completeness auto
termination
  by (relation "measure (\<lambda>(m, buf, j, i). i - j)") auto

declare itoa_swap.simps [simp del]

definition itoa :: "mem \<Rightarrow> u32 \<Rightarrow> u32 \<Rightarrow> u32 \<Rightarrow> mem option" where
  "itoa m buf n base =
     (case itoa_digits m buf n base 0 of
        None \<Rightarrow> None
      | Some (m1, i) \<Rightarrow> Some (itoa_swap (m1(buf + i := 0)) buf 0 (unat (i - 1))))"

section \<open>\<open>memcpy\<close>\<close>

lemma memcpy_0 [simp]: "memcpy m dst src 0 = m"
  by (simp add: memcpy.simps)

lemma memcpy_outside:
  "\<not> in_block dst (unat n) a \<Longrightarrow> memcpy m dst src n a = m a"
proof (induction m dst src n rule: memcpy.induct)
  case (1 m dst src n)
  show ?case
  proof (cases "n = 0")
    case False
    then have n: "unat n = Suc (unat (n - 1))" by (rule unat_pred)
    then have "\<not> in_block (dst + 1) (unat (n - 1)) a" "a \<noteq> dst"
      using "1.prems" in_block_Suc [of "unat (n - 1)" dst a] by auto
    with "1.IH" [OF False] False show ?thesis
      by (simp add: memcpy.simps [of m dst src n] fun_upd_def)
  qed simp
qed

text \<open>The copy is right when the source is not overwritten before it is read.\<close>

lemma memcpy_copies:
  "\<lbrakk>i < unat n; \<And>j k. j < k \<Longrightarrow> k < unat n \<Longrightarrow> dst + of_nat j \<noteq> src + of_nat k\<rbrakk> \<Longrightarrow>
    memcpy m dst src n (dst + of_nat i) = m (src + of_nat i)"
proof (induction m dst src n arbitrary: i rule: memcpy.induct)
  case (1 m dst src n)
  from "1.prems"(1) have nz: "n \<noteq> 0" by auto
  then have n: "unat n = Suc (unat (n - 1))" by (rule unat_pred)
  show ?case
  proof (cases i)
    case 0
    have "\<not> in_block (dst + 1) (unat (n - 1)) dst"
      using n unat_lt_2p32 [of n] by (simp add: in_block_def unat_minus_1)
    then have "memcpy (m(dst := m src)) (dst + 1) (src + 1) (n - 1) dst = m src"
      by (simp add: memcpy_outside)
    with 0 nz show ?thesis by (simp add: memcpy.simps [of m dst src n])
  next
    case (Suc j)
    have "memcpy (m(dst := m src)) (dst + 1) (src + 1) (n - 1) (dst + 1 + of_nat j)
            = (m(dst := m src)) (src + 1 + of_nat j)"
    proof (rule "1.IH" [OF nz])
      show "j < unat (n - 1)" using "1.prems"(1) n Suc by simp
      fix k l assume "k < l" "l < unat (n - 1)"
      then show "dst + 1 + of_nat k \<noteq> src + 1 + of_nat l"
        using "1.prems"(2) [of "Suc k" "Suc l"] n by (simp add: add.assoc)
    qed
    moreover have "src + 1 + of_nat j \<noteq> dst"
      using "1.prems"(2) [of 0 "Suc j"] "1.prems"(1) Suc by (auto simp: add.assoc)
    ultimately show ?thesis
      using nz Suc by (simp add: memcpy.simps [of m dst src n] add.assoc)
  qed
qed


section \<open>Strings\<close>

lemma strlen_loop_cstr: "cstr m a s \<Longrightarrow> strlen_loop m a i = Some (i + of_nat (length s))"
proof (induction s arbitrary: a i)
  case Nil
  then show ?case by (subst strlen_loop.simps) simp
next
  case (Cons c s)
  then show ?case by (subst strlen_loop.simps) (simp add: add.assoc)
qed

lemma strlen_cstr: "cstr m a s \<Longrightarrow> strlen m a = Some (of_nat (length s))"
  by (simp add: strlen_def strlen_loop_cstr)

lemma strcmp_loop_cstr:
  "cstr m (dst + i) s \<Longrightarrow> cstr m (src + i) t \<Longrightarrow>
    strcmp_loop m dst src i = Some (if s = t then 0 else 1)"
proof (induction s arbitrary: i t)
  case Nil
  then show ?case by (subst strcmp_loop.simps) (cases t; simp)
next
  case (Cons c s)
  show ?case
  proof (cases t)
    case Nil
    with Cons.prems show ?thesis by (subst strcmp_loop.simps) simp
  next
    case (Cons d t')
    with Cons.prems Cons.IH [of "i + 1" t'] show ?thesis
      by (subst strcmp_loop.simps) (auto simp: add.assoc)
  qed
qed

lemma strcmp_cstr: "cstr m dst s \<Longrightarrow> cstr m src t \<Longrightarrow> strcmp m dst src = Some (if s = t then 0 else 1)"
  using strcmp_loop_cstr [of m dst 0 s src t] by (simp add: strcmp_def)

text \<open>Copying a string is copying its bytes and the terminator.\<close>

definition no_clobber :: "u32 \<Rightarrow> u32 \<Rightarrow> nat \<Rightarrow> bool" where
  "no_clobber dst src n \<longleftrightarrow> (\<forall>j k. j < k \<longrightarrow> k < n \<longrightarrow> dst + of_nat j \<noteq> src + of_nat k)"

lemma no_clobber_Suc: "no_clobber dst src (Suc n) \<Longrightarrow> no_clobber (dst + 1) (src + 1) n"
  unfolding no_clobber_def
proof (intro allI impI)
  fix j k assume a: "\<forall>j k. j < k \<longrightarrow> k < Suc n \<longrightarrow> dst + of_nat j \<noteq> src + of_nat k" and "j < k" "k < n"
  then show "dst + 1 + of_nat j \<noteq> src + 1 + of_nat k"
    using a [rule_format, of "Suc j" "Suc k"] by (simp add: add.assoc)
qed

lemma no_clobber_hd: "no_clobber dst src (Suc n) \<Longrightarrow> k < n \<Longrightarrow> src + 1 + of_nat k \<noteq> dst"
  unfolding no_clobber_def
proof
  assume "\<forall>j k. j < k \<longrightarrow> k < Suc n \<longrightarrow> dst + of_nat j \<noteq> src + of_nat k" and "k < n"
    and eq: "src + 1 + of_nat k = dst"
  then have "dst + of_nat 0 \<noteq> src + of_nat (Suc k)" by blast
  with eq show False by (simp add: add.assoc)
qed

lemma strcpy_loop_memcpy:
  "\<lbrakk>cstr m (src + i) s; Suc (length s) < 2 ^ 32; no_clobber (dst + i) (src + i) (Suc (length s))\<rbrakk> \<Longrightarrow>
    strcpy_loop m dst src i =
      Some (i + of_nat (length s), memcpy m (dst + i) (src + i) (of_nat (Suc (length s))))"
proof (induction s arbitrary: m i)
  case Nil
  then show ?case
    by (subst strcpy_loop.simps) (simp add: memcpy.simps [of m "dst + i" "src + i" 1])
next
  case (Cons c s)
  let ?m = "m(dst + i := m (src + i))"
  have "cstr ?m (src + (i + 1)) s = cstr m (src + (i + 1)) s"
  proof (rule cstr_cong)
    fix k assume "k \<le> length s"
    with no_clobber_hd [OF Cons.prems(3), of k]
    show "?m (src + (i + 1) + of_nat k) = m (src + (i + 1) + of_nat k)"
      by (simp add: add.assoc)
  qed
  with Cons.prems have c: "cstr ?m (src + (i + 1)) s" by (simp add: add.assoc)
  have nc: "no_clobber (dst + (i + 1)) (src + (i + 1)) (Suc (length s))"
    using no_clobber_Suc [OF Cons.prems(3)] by (simp add: add.assoc)
  have l: "Suc (length s) < 2 ^ 32" using Cons.prems(2) by simp
  have IH: "strcpy_loop ?m dst src (i + 1) =
      Some (i + 1 + of_nat (length s), memcpy ?m (dst + (i + 1)) (src + (i + 1)) (of_nat (Suc (length s))))"
    by (rule Cons.IH [OF c l nc])
  have "of_nat (Suc (length (c # s))) \<noteq> (0 :: u32)"
    using Cons.prems(2) by (metis unat_of_nat_u32 unat_0 nat.distinct(1))
  then have "memcpy m (dst + i) (src + i) (of_nat (Suc (length (c # s))))
      = memcpy ?m (dst + (i + 1)) (src + (i + 1)) (of_nat (Suc (length s)))"
    by (subst memcpy.simps) (simp add: add.assoc)
  with IH Cons.prems(1) show ?case
    by (subst strcpy_loop.simps) (simp add: add.assoc)
qed

lemma strcpy_cstr:
  assumes s: "cstr m src s" and len: "Suc (length s) < 2 ^ 32" and nc: "no_clobber dst src (Suc (length s))"
  shows "\<exists>m'. strcpy m dst src = Some (of_nat (length s), m') \<and> cstr m' dst s
    \<and> (\<forall>a. \<not> in_block dst (Suc (length s)) a \<longrightarrow> m' a = m a)"
proof -
  let ?n = "of_nat (Suc (length s)) :: u32"
  let ?m = "memcpy m dst src ?n"
  have n: "unat ?n = Suc (length s)" using len by (rule unat_of_nat_u32)
  have cp: "?m (dst + of_nat i) = m (src + of_nat i)" if "i < Suc (length s)" for i
    using that nc n by (intro memcpy_copies) (auto simp: no_clobber_def)
  have "cstr ?m dst s"
    using cp cstr_nth [OF s] cstr_end [OF s] by (intro cstrI) auto
  moreover have "strcpy m dst src = Some (of_nat (length s), ?m)"
    using strcpy_loop_memcpy [of m src 0 s dst] s len nc by (simp add: strcpy_def)
  moreover have "?m a = m a" if "\<not> in_block dst (Suc (length s)) a" for a
    using that n by (simp add: memcpy_outside)
  ultimately show ?thesis by blast
qed

section \<open>\<open>itoa\<close>\<close>

text \<open>
  The specification: the digits of a number in a base, the least significant first, and their value.
\<close>

fun rdigits :: "nat \<Rightarrow> nat \<Rightarrow> nat list" where
  "rdigits b n = (if b < 2 \<or> n < b then [n] else (n mod b) # rdigits b (n div b))"

declare rdigits.simps [simp del]

fun dval :: "nat \<Rightarrow> nat list \<Rightarrow> nat" where
  "dval b [] = 0"
| "dval b (d # ds) = d + b * dval b ds"

lemma dval_rdigits: "dval b (rdigits b n) = n"
proof (induction b n rule: rdigits.induct)
  case (1 b n)
  then show ?case by (subst rdigits.simps) auto
qed

lemma rdigits_bound: "2 \<le> b \<Longrightarrow> d \<in> set (rdigits b n) \<Longrightarrow> d < b"
proof (induction b n rule: rdigits.induct)
  case (1 b n)
  then show ?case using rdigits.simps [of b n] by (auto split: if_splits)
qed

lemma length_rdigits: "2 \<le> b \<Longrightarrow> n < b ^ Suc k \<Longrightarrow> length (rdigits b n) \<le> Suc k"
proof (induction k arbitrary: n)
  case 0
  then show ?case by (subst rdigits.simps) simp
next
  case (Suc k)
  then have "n div b < b ^ Suc k" by (simp add: less_mult_imp_div_less mult.commute)
  with Suc show ?case by (subst rdigits.simps) auto
qed

lemma rdigits_nonempty: "rdigits b n \<noteq> []"
  by (subst rdigits.simps) simp

abbreviation dchar :: "nat \<Rightarrow> u8" where
  "dchar d \<equiv> itoa_digit (of_nat d)"

lemma dchar_nonzero: "d < 36 \<Longrightarrow> dchar d \<noteq> 0"
proof -
  assume "d < 36"
  then have "d \<in> set [0..<36]" by simp
  moreover have "\<forall>d\<in>set [0..<36]. dchar d \<noteq> 0" by (simp add: upt_rec itoa_digit_def)
  ultimately show ?thesis by blast
qed

lemma itoa_digits_rdigits:
  assumes "2 \<le> base" 
  shows "itoa_digits m buf n base i =
    Some (wr_bytes m (buf + i) (map dchar (rdigits (unat base) (unat n))),
      i + of_nat (length (rdigits (unat base) (unat n))))"
proof (induction "unat n" arbitrary: m n i rule: less_induct)
  case less
  from assms have b: "base \<noteq> 0" "2 \<le> unat base" by (auto simp: word_le_nat_alt)
  have md: "n mod base = of_nat (unat n mod unat base)" by (simp add: word_arith_nat_mod)
  show ?case
  proof (cases "n div base = 0")
    case True
    then have "unat n < unat base"
      using b by (metis div_eq_0_iff unat_0 unat_div not_one_le_zero one_le_numeral order_trans)
    then show ?thesis
      using b md True by (subst itoa_digits.simps) (simp add: rdigits.simps [of "unat base" "unat n"] Let_def)
  next
    case False
    then have nb: "\<not> unat n < unat base"
      by (metis div_less unat_0_iff unat_div)
    then have "unat n div unat base < unat n"
      using b by (intro div_less_dividend) auto
    then have lt: "unat (n div base) < unat n" by (simp add: unat_div)
    show ?thesis
      using b md False nb less [OF lt, of "m(buf + i := itoa_digit (n mod base))" "i + 1"]
      by (subst itoa_digits.simps)
        (simp add: rdigits.simps [of "unat base" "unat n"] Let_def unat_div add.assoc fun_upd_def)
  qed
qed


lemma itoa_swap_reverses:
  assumes "i < 2 ^ 32" "k < 2 ^ 32"
  shows "itoa_swap m buf j i (buf + of_nat k) =
    (if j \<le> k \<and> k \<le> i then m (buf + of_nat (i + j - k)) else m (buf + of_nat k))"
  using assms
proof (induction m buf j i arbitrary: k rule: itoa_swap.induct)
  case (1 m buf j i)
  have inj: "buf + of_nat x = buf + of_nat y \<longleftrightarrow> x = y" if "x < 2 ^ 32" "y < 2 ^ 32" for x y
    using that by (metis add_left_cancel unat_of_nat_u32)
  show ?case
  proof (cases "j < i")
    case False
    then have "i + j - k = k" if "j \<le> k \<and> k \<le> i" using that by linarith
    with False show ?thesis by (subst itoa_swap.simps) (simp del: of_nat_diff of_nat_add)
  next
    case True
    let ?m = "(m(buf + of_nat j := m (buf + of_nat i)))(buf + of_nat i := m (buf + of_nat j))"
    have "itoa_swap ?m buf (j + 1) (i - 1) (buf + of_nat k) =
       (if j + 1 \<le> k \<and> k \<le> i - 1 then ?m (buf + of_nat (i - 1 + (j + 1) - k)) else ?m (buf + of_nat k))"
      using "1.IH" [OF True refl refl refl, of k] "1.prems" by (simp add: fun_upd_def)
    also have "\<dots> = (if j \<le> k \<and> k \<le> i then m (buf + of_nat (i + j - k)) else m (buf + of_nat k))"
      using True "1.prems" inj by auto
    finally show ?thesis using True by (subst itoa_swap.simps) (simp add: Let_def)
  qed
qed

lemma itoa_swap_outside:
  "(\<And>k. k \<le> i \<Longrightarrow> a \<noteq> buf + of_nat k) \<Longrightarrow> itoa_swap m buf j i a = m a"
proof (induction m buf j i rule: itoa_swap.induct)
  case (1 m buf j i)
  show ?case
  proof (cases "j < i")
    case True
    have "itoa_swap ((m(buf + of_nat j := m (buf + of_nat i)))(buf + of_nat i := m (buf + of_nat j))) buf (j + 1) (i - 1) a = m a"
      using "1.IH" [OF True refl refl refl] "1.prems" [of j] "1.prems" [of i] "1.prems" True
      by (simp add: fun_upd_def)
    then show ?thesis using True by (subst itoa_swap.simps) (simp add: Let_def)
  next
    case False
    then show ?thesis by (subst itoa_swap.simps) simp
  qed
qed

lemma itoa_correct:
  fixes n base :: u32
  assumes base: "2 \<le> base" "base \<le> 36"
  defines "ds \<equiv> rdigits (unat base) (unat n)"
  shows "\<exists>m'. itoa m buf n base = Some m' \<and> cstr m' buf (map dchar (rev ds))
    \<and> (\<forall>a. \<not> in_block buf (Suc (length ds)) a \<longrightarrow> m' a = m a)"
proof -
  let ?L = "length ds"
  let ?m1 = "wr_bytes m buf (map dchar ds)"
  let ?m2 = "?m1(buf + of_nat ?L := 0)"
  let ?m3 = "itoa_swap ?m2 buf 0 (?L - 1)"
  have b: "2 \<le> unat base" "unat base \<le> 36" using base by (auto simp: word_le_nat_alt)
  have "unat n < unat base ^ Suc 31"
    using power_mono [OF b(1), of 32] by (intro less_le_trans [OF unat_lt_2p32]) simp
  from length_rdigits [OF b(1) this] have L: "?L \<le> 32" "?L \<noteq> 0"
    by (auto simp: ds_def rdigits_nonempty)
  have inj: "buf + of_nat x = buf + of_nat y \<longleftrightarrow> x = y" if "x < 2 ^ 32" "y < 2 ^ 32" for x y
    using that by (metis add_left_cancel unat_of_nat_u32)
  have "of_nat ?L - 1 = (of_nat (?L - 1) :: u32)" using L by (cases ds) auto
  moreover have "unat (of_nat (?L - 1) :: u32) = ?L - 1"
    using L by (intro unat_of_nat_u32) simp
  ultimately have "unat (of_nat ?L - 1 :: u32) = ?L - 1" by (simp only:)
  then have it: "itoa m buf n base = Some ?m3"
    using itoa_digits_rdigits [OF base(1), of m buf n 0] by (simp add: itoa_def ds_def)
  have m2: "?m2 (buf + of_nat k) = dchar (ds ! k)" if "k < ?L" for k
    using that L inj [of k ?L] wr_bytes_nth [of "map dchar ds" k m buf] by simp
  have "cstr ?m3 buf (map dchar (rev ds))"
  proof (rule cstrI)
    fix i assume i: "i < length (map dchar (rev ds))"
    with L have "?m3 (buf + of_nat i) = ?m2 (buf + of_nat (?L - 1 - i))"
      by (subst itoa_swap_reverses) auto
    also have "\<dots> = map dchar (rev ds) ! i"
      using i m2 [of "?L - 1 - i"] by (simp add: rev_nth)
    finally have "?m3 (buf + of_nat i) = map dchar (rev ds) ! i" .
    moreover have "ds ! (?L - Suc i) < 36"
      using i rdigits_bound [OF b(1), of "ds ! (?L - Suc i)" "unat n"] b(2) by (simp add: ds_def)
    ultimately show "?m3 (buf + of_nat i) = map dchar (rev ds) ! i \<and> map dchar (rev ds) ! i \<noteq> 0"
      using i dchar_nonzero by (simp add: rev_nth)
  next
    show "?m3 (buf + of_nat (length (map dchar (rev ds)))) = 0"
      using L by (subst itoa_swap_reverses) (auto simp: Suc_le_eq dest: leD)
  qed
  moreover have "?m3 a = m a" if "\<not> in_block buf (Suc ?L) a" for a
  proof -
    have ne: "a \<noteq> buf + of_nat k" if "k \<le> ?L" for k
      using \<open>\<not> in_block buf (Suc ?L) a\<close> in_block_offset [of k "Suc ?L" buf] that L by auto
    have "\<not> in_block buf ?L a" using that by (simp add: in_block_def)
    then have "?m2 a = m a" using ne [of ?L] L by (simp add: wr_bytes_outside)
    moreover have "?m3 a = ?m2 a" using ne L by (intro itoa_swap_outside) auto
    ultimately show ?thesis by simp
  qed
  ultimately show ?thesis using it by blast
qed

section \<open>Properties\<close>

text \<open>\<open>memcpy\<close> of \<open>n\<close> bytes whose source is not overwritten before it is read leaves at the
  destination what was at the source and changes no other byte.\<close>

theorem memcpy_correct:
  assumes "no_clobber dst src (unat n)"
  shows "(\<forall>i < unat n. memcpy m dst src n (dst + of_nat i) = m (src + of_nat i))
    \<and> (\<forall>a. \<not> in_block dst (unat n) a \<longrightarrow> memcpy m dst src n a = m a)"
  using assms memcpy_copies [of _ n dst src m] memcpy_outside by (auto simp: no_clobber_def)

theorem memcpy_correct_witness:
  "no_clobber 10 20 (unat (3 :: u32)) \<and> memcpy (\<lambda>a. ucast a) 10 20 3 (10 + of_nat 2) = 22"
proof -
  have nc: "no_clobber 10 20 (unat (3 :: u32))"
    unfolding no_clobber_def
  proof (intro allI impI)
    fix j k :: nat assume "j < k" "k < unat (3 :: u32)"
    then have "j = 0 \<or> j = 1" "k = 1 \<or> k = 2" by auto
    then show "10 + of_nat j \<noteq> (20 + of_nat k :: u32)" by auto
  qed
  then show ?thesis using memcpy_correct [OF nc, of "\<lambda>a. ucast a"] by (auto dest: spec [of _ 2])
qed

text \<open>On C strings \<open>strcmp\<close> returns, with 0 exactly when the strings are equal, and \<open>strlen\<close> returns
  the length.\<close>

theorem strcmp_strlen_correct:
  assumes "cstr m a s" "cstr m b t"
  shows "\<exists>r. strcmp m a b = Some r \<and> (r = 0 \<longleftrightarrow> s = t) \<and> strlen m a = Some (of_nat (length s))"
  using strcmp_cstr [OF assms] strlen_cstr [OF assms(1)] by auto

theorem strcmp_strlen_correct_witness:
  "\<exists>r. strcmp ((\<lambda>_. 0)(5 := 97, 9 := 97, 10 := 98)) 5 9 = Some r \<and> r \<noteq> 0"
  using strcmp_strlen_correct [of "(\<lambda>_. 0)(5 := 97, 9 := 97, 10 := 98)" 5 "[97]" 9 "[97, 98]"] by auto

text \<open>\<open>strcpy\<close> of a string onto memory that does not overlap it returns its length, leaves an equal
  string at the destination and changes only its bytes and the terminator.\<close>

theorem strcpy_correct:
  assumes "cstr m src s" "Suc (length s) < 2 ^ 32" "no_clobber dst src (Suc (length s))"
  shows "\<exists>m'. strcpy m dst src = Some (of_nat (length s), m') \<and> cstr m' dst s
    \<and> (\<forall>a. \<not> in_block dst (Suc (length s)) a \<longrightarrow> m' a = m a)"
  using strcpy_cstr [OF assms] .

theorem strcpy_correct_witness:
  "\<exists>m'. strcpy ((\<lambda>_. 0)(9 := 104, 10 := 105)) 50 9 = Some (2, m') \<and> cstr m' 50 [104, 105]"
proof -
  let ?m = "(\<lambda>_. 0)(9 := 104, 10 := 105) :: mem"
  have nc: "no_clobber 50 9 (Suc (length [104, 105 :: u8]))"
    unfolding no_clobber_def
  proof (intro allI impI)
    fix j k :: nat assume "j < k" "k < Suc (length [104, 105 :: u8])"
    then have "j = 0 \<or> j = 1" "k = 1 \<or> k = 2" by auto
    then show "50 + of_nat j \<noteq> (9 + of_nat k :: u32)" by auto
  qed
  have "cstr ?m 9 [104, 105]" by simp
  from strcpy_correct [OF this _ nc] show ?thesis by auto
qed

text \<open>\<open>itoa\<close> in a base from 2 to 36 returns, and the string it leaves at \<open>buf\<close> is the numeral of \<open>n\<close>
  in that base: its digits, read back from the most significant one, have the value \<open>n\<close>. It writes at
  most 33 bytes and nothing outside the numeral and its terminator.\<close>

theorem itoa_numeral:
  assumes "2 \<le> base" "base \<le> 36"
  shows "\<exists>m' ds. itoa m buf n base = Some m' \<and> cstr m' buf (map dchar (rev ds))
    \<and> dval (unat base) ds = unat n \<and> (\<forall>d \<in> set ds. d < unat base) \<and> length ds \<le> 32
    \<and> (\<forall>a. \<not> in_block buf (Suc (length ds)) a \<longrightarrow> m' a = m a)"
proof -
  have b: "2 \<le> unat base" using assms(1) by (simp add: word_le_nat_alt)
  have "unat n < unat base ^ Suc 31"
    using power_mono [OF b, of 32] by (intro less_le_trans [OF unat_lt_2p32]) simp
  from length_rdigits [OF b this] have "length (rdigits (unat base) (unat n)) \<le> 32" by simp
  with itoa_correct [OF assms, of m buf n] dval_rdigits rdigits_bound [OF b] show ?thesis by blast
qed

theorem itoa_numeral_witness:
  "\<exists>m' ds. itoa (\<lambda>_. 0) 1000 255 16 = Some m' \<and> cstr m' 1000 (map dchar (rev ds)) \<and> dval 16 ds = 255"
  using itoa_numeral [of 16 "\<lambda>_. 0" 1000 255] by auto

end
