(* ===== verification/Heap_Data.thy ===== *)
theory Heap_Data
  imports Kmalloc Lib
begin

text \<open>
  What the users of the kernel heap need besides the contract of theory \<open>Kmalloc\<close>: writing into an allocated
  block keeps the heap, copying between two blocks copies the bytes, and a block that is freed leaves room
  for the next request of its size, so that a loop that allocates and frees a buffer needs room only once.
\<close>

section \<open>Data in the heap\<close>

text \<open>Writing into a block in use keeps the heap.\<close>

lemma kheap_write:
  assumes cs: "kheap s cs" and "(p, n) \<in> used_blocks heap_base cs" "agree_outside p (p + n) (kmem s) m"
  shows "kheap (s\<lparr>kmem := m\<rparr>) cs"
proof -
  from assms(2) used_blocks_split [of p n heap_base cs] obtain xs sz ys where
    x: "cs = xs @ (sz, True) # ys" "p = heap_base + heap_bytes xs + 4" "n = sz - 4" by auto
  let ?b = "heap_base + heap_bytes xs" and ?e = "unat (kern_heap s)"
  have ch: "chunks (kmem s) heap_base (xs @ [(sz, True)] @ ys) ?e" and e: "?e \<le> 2 ^ 32"
    using cs x(1) by (simp_all add: kheap_def)
  then have h: "unat (hdr_size (kmem s) (of_nat ?b)) = sz" "hdr_used (kmem s) (of_nat ?b)" "MINSIZE \<le> sz"
    by (simp_all add: chunks_append)
  have be: "?b + sz \<le> ?e" using chunks_end [OF ch] by simp
  have ag: "agree_outside ?b (?b + sz) (kmem s) m"
    using assms(3) x(2,3) h(3) by (auto simp: agree_outside_def)
  have "rd32 m (of_nat ?b) = rd32 (kmem s) (of_nat ?b)"
    by (rule agree_outside_rd32 [OF assms(3)]) (use x(2) be e h(3) in auto)
  then have "chunks m ?b [(sz, True)] (?b + sz)"
    using h by (simp add: hdr_size_def hdr_used_def)
  from chunks_replace [OF ch e refl _ ag this] have "chunks m heap_base cs ?e" using x(1) by simp
  moreover have "walk (s\<lparr>kmem := m\<rparr>) = walk s" "kspace (s\<lparr>kmem := m\<rparr>) = kspace s"
    by (rule walk_cong kspace_cong; simp)+
  moreover have "frame_used (s\<lparr>kmem := m\<rparr>) f = frame_used s f" for f by (rule frame_used_cong) simp
  ultimately show "kheap (s\<lparr>kmem := m\<rparr>) cs"
    using cs by (simp add: kheap_def heap_mapped_def heap_pages_def)
qed

lemma kblocks_write:
  assumes "kblocks s B" "(p, n) \<in> B" "agree_outside p (p + n) (kmem s) m"
  shows "kblocks (s\<lparr>kmem := m\<rparr>) B"
  using assms kheap_write unfolding kblocks_def by blast

lemma kblocks_bounds:
  assumes "kblocks s B" "(p, n) \<in> B"
  shows "heap_base + 4 \<le> p" "p + n \<le> 0x40000000" "12 \<le> n"
proof -
  from assms obtain cs where "chunks (kmem s) heap_base cs (unat (kern_heap s))" "(p, n) \<in> used_blocks heap_base cs"
    "unat (kern_heap s) \<le> 0x40000000" by (auto simp: kblocks_def kheap_def)
  with used_blocks_bounds show "heap_base + 4 \<le> p" "p + n \<le> 0x40000000" "12 \<le> n" by fastforce+
qed

text \<open>A change that stays in \<open>c\<close> bytes from \<open>b\<close> on.\<close>

lemma agree_outside_block:
  assumes "\<And>a. \<not> in_block b c a \<Longrightarrow> m' a = m a" "p \<le> unat b" "unat b + c \<le> p + n" "p + n \<le> 2 ^ 32"
  shows "agree_outside p (p + n) m m'"
  unfolding agree_outside_def
proof (intro allI impI)
  fix x :: nat assume x: "x < 2 ^ 32" "x < p \<or> p + n \<le> x"
  then have "\<not> in_block (of_nat (unat b)) c (of_nat x)"
    using assms(2-4) in_block_nat [of "unat b" c x] by auto
  then show "m' (of_nat x) = m (of_nat x)" by (intro assms(1)) simp
qed

text \<open>The copy out of the block buffer: source and destination lie in different blocks.\<close>

lemma memcpy_blocks:
  assumes dst: "q \<le> unat dst" "unat dst + c \<le> q + k" "q + k \<le> 2 ^ 32"
    and src: "p \<le> unat src" "unat src + c \<le> p + n" "p + n \<le> 2 ^ 32"
    and apart: "p + n \<le> q \<or> q + k \<le> p" and i: "i < c"
  shows "memcpy m dst src (of_nat c) (dst + of_nat i) = m (src + of_nat i)"
proof -
  have c: "c < 2 ^ 32" using apart src dst i by (elim disjE) linarith+
  show ?thesis
  proof (rule memcpy_copies)
    show "i < unat (of_nat c :: u32)" using unat_of_nat_u32 [OF c] i by simp
    fix j l assume jl: "j < l" "l < unat (of_nat c :: u32)"
    then have l: "l < c" using unat_of_nat_u32 [OF c] by simp
    have "unat (of_nat j :: u32) = j" "unat (of_nat l :: u32) = l" using jl l c by (auto intro!: unat_of_nat_u32)
    then have "unat (dst + of_nat j) = unat dst + j" "unat (src + of_nat l) = unat src + l"
      using dst src jl l by (auto intro!: unat_add_nowrap [THEN trans])
    moreover have "unat dst + j \<noteq> unat src + l" using apart dst src jl l by (elim disjE) linarith+
    ultimately show "dst + of_nat j \<noteq> src + of_nat l" by metis
  qed
qed

text \<open>The bytes of the blocks \<open>B\<close> outside of \<open>c\<close> bytes from \<open>b\<close> on are the same.\<close>

definition same_but :: "(nat \<times> nat) set \<Rightarrow> nat \<Rightarrow> nat \<Rightarrow> mem \<Rightarrow> mem \<Rightarrow> bool" where
  "same_but B b c m m' \<longleftrightarrow>
     (\<forall>(p, n) \<in> B. \<forall>i < n. p + i < b \<or> b + c \<le> p + i \<longrightarrow> m' (of_nat (p + i)) = m (of_nat (p + i)))"

lemma same_dataD: "same_data B m m' \<Longrightarrow> (p, n) \<in> B \<Longrightarrow> i < n \<Longrightarrow> m' (of_nat (p + i)) = m (of_nat (p + i))"
  unfolding same_data_def by blast

section \<open>Room\<close>

text \<open>A number of pages that the heap can still grow by: enough for a sequence of requests if it covers the
  sum of their pages.\<close>

definition pages_of :: "u32 \<Rightarrow> nat" where
  "pages_of sz = real_size sz div 4096 + 1"

definition budget :: "nat \<Rightarrow> 'a kheap_state_scheme \<Rightarrow> bool" where
  "budget k s \<longleftrightarrow> unat (kern_heap s) + 4096 * k \<le> 0x40000000 \<and> k \<le> card (frames.free_frames s)"

lemma budget_mono: "budget k s \<Longrightarrow> j \<le> k \<Longrightarrow> budget j s"
  by (auto simp: budget_def)

lemma budget_room: "budget (pages_of sz) s \<longleftrightarrow> room (real_size sz) s"
  by (auto simp: room_def budget_def pages_of_def growth_def)

lemma budget_spent: "budget (pages_of sz + k) s \<Longrightarrow> spent (real_size sz) s s' \<Longrightarrow> budget k s'"
  by (auto simp: spent_def budget_def pages_of_def growth_def)

lemma budget_write [simp]: "budget k (s\<lparr>kmem := m\<rparr>) = budget k s"
  by (simp add: budget_def frames.free_frames_def frame_used_def)

lemma budget_same_heap:
  "budget k s \<Longrightarrow> \<exists>m u. s' = s\<lparr>kmem := m, kmalloc_used := u\<rparr> \<Longrightarrow> budget k s'"
  by (auto simp: budget_def frames.free_frames_def frame_used_def)

text \<open>A request can be served, and \<open>k\<close> pages are left for others: a free chunk is large enough, or the heap can
  grow by \<open>k\<close> pages more than the request takes.\<close>

definition avail :: "u32 \<Rightarrow> nat \<Rightarrow> 'a kheap_state_scheme \<Rightarrow> bool" where
  "avail sz k s \<longleftrightarrow>
     (\<exists>cs. kheap s cs \<and> budget (if list_all (unfit (real_size sz)) cs then pages_of sz + k else k) s)"

lemma budget_avail: "budget (pages_of sz + k) s \<Longrightarrow> kblocks s B \<Longrightarrow> avail sz k s"
  unfolding avail_def kblocks_def by (fastforce intro: budget_mono)

lemma availI_fits: "kheap s cs \<Longrightarrow> \<not> list_all (unfit (real_size sz)) cs \<Longrightarrow> budget k s \<Longrightarrow> avail sz k s"
  unfolding avail_def by (intro exI [of _ cs]) simp

lemma avail_budget: "avail sz k s \<Longrightarrow> budget k s"
  by (auto simp: avail_def intro: budget_mono split: if_splits)

lemma room_avail: "kblocks s B \<Longrightarrow> room (real_size sz) s \<Longrightarrow> avail sz 0 s"
  by (rule budget_avail) (simp_all add: budget_room)

lemma avail_write:
  assumes "kblocks s B" "(p, n) \<in> B" "agree_outside p (p + n) (kmem s) m" "avail sz k s"
  shows "avail sz k (s\<lparr>kmem := m\<rparr>)"
proof -
  from assms(4) obtain cs where cs: "kheap s cs" "budget (if list_all (unfit (real_size sz)) cs then pages_of sz + k else k) s"
    by (auto simp: avail_def)
  then have "kblocks s (used_blocks heap_base cs)" by (auto simp: kblocks_def)
  with assms(1,2) kblocks_unique have "(p, n) \<in> used_blocks heap_base cs" by blast
  from kheap_write [OF cs(1) this assms(3)] cs(2) show ?thesis unfolding avail_def budget_write by blast
qed

lemma kmalloc_avail:
  assumes "kblocks s B" and av: "avail sz k s"
  shows "\<exists>p n s'. kmalloc sz s = Some (Inr (of_nat p, s')) \<and> kblocks s' (insert (p, n) B) \<and> (p, n) \<notin> B
    \<and> unat sz \<le> n \<and> same_data B (kmem s) (kmem s') \<and> grown s s' \<and> budget k s'"
proof -
  obtain cs where cs: "kheap s cs" "budget (if list_all (unfit (real_size sz)) cs then pages_of sz + k else k) s"
    using av by (auto simp: avail_def)
  then have B: "B = used_blocks heap_base cs" using assms(1) kblocks_unique by (auto simp: kblocks_def)
  have rm: "list_all (unfit (real_size sz)) cs \<longrightarrow> room (real_size sz) s"
    using cs(2) budget_mono [of "pages_of sz + k" s "pages_of sz"] by (auto simp flip: budget_room)
  from kmalloc_refines_fits [OF cs(1) rm] obtain s' where
    s': "kmalloc sz s = Some (Inr (of_nat (abs_addr (real_size sz) cs), s'))"
    "kheap s' (abs_kmalloc (real_size sz) cs)" "same_data B (kmem s) (kmem s')" "grown s s'"
    "spent (real_size sz) s s'"
    "\<not> list_all (unfit (real_size sz)) cs \<longrightarrow> kern_heap s' = kern_heap s \<and> frames.free_frames s' = frames.free_frames s"
    unfolding B by blast
  have rs: "MINSIZE \<le> real_size sz" "unat sz \<le> real_size sz - 4" by (simp_all add: real_size_def)
  obtain n where n: "used_blocks heap_base (abs_kmalloc (real_size sz) cs) = insert (abs_addr (real_size sz) cs, n) B"
    "real_size sz - 4 \<le> n" "(abs_addr (real_size sz) cs, n) \<notin> B"
    using kblocks_kmalloc [OF s'(2) rs(1)] unfolding B by blast
  then have "kblocks s' (insert (abs_addr (real_size sz) cs, n) B)" using s'(2) unfolding kblocks_def by blast
  moreover have "unat sz \<le> n" using rs(2) n(2) by (rule order_trans)
  moreover have "budget k s'"
  proof (cases "list_all (unfit (real_size sz)) cs")
    case True
    with cs(2) show ?thesis by (intro budget_spent [OF _ s'(5)]) simp
  next
    case False
    with cs(2) s'(6) show ?thesis by (simp add: budget_def)
  qed
  ultimately show ?thesis using s' n by blast
qed

lemma absorb_hd: "\<exists>k zs. absorb sz ys = (k, False) # zs \<and> sz \<le> k"
proof (induction sz ys rule: absorb.induct)
  case (1 sz k cs)
  then obtain l zs where "absorb (sz + k) cs = (l, False) # zs" "sz + k \<le> l" by blast
  then show ?case by (intro exI [of _ l] exI [of _ zs]) simp
qed auto

lemma kfree_avail:
  assumes "kblocks s B" and pn: "(p, n) \<in> B"
  shows "\<exists>s'. kfree (of_nat p) s = Some (Inr s') \<and> kblocks s' (B - {(p, n)})
    \<and> same_data (B - {(p, n)}) (kmem s) (kmem s') \<and> (\<exists>m k. s' = s\<lparr>kmem := m, kmalloc_used := k\<rparr>)
    \<and> (\<forall>sz k. unat sz \<le> n \<longrightarrow> budget k s \<longrightarrow> avail sz k s')"
proof -
  obtain s' where s': "kfree (of_nat p) s = Some (Inr s')" "kblocks s' (B - {(p, n)})"
    "same_data (B - {(p, n)}) (kmem s) (kmem s')" "\<exists>m k. s' = s\<lparr>kmem := m, kmalloc_used := k\<rparr>"
    using kfree_kblocks [OF assms] by blast
  obtain cs where cs: "kheap s cs" "B = used_blocks heap_base cs" using assms(1) by (auto simp: kblocks_def)
  from used_blocks_split pn cs(2) obtain xs z ys where
    x: "cs = xs @ (z, True) # ys" "p = heap_base + heap_bytes xs + 4" "n = z - 4" by blast
  have n12: "12 \<le> n" using kblocks_bounds(3) [OF assms] .
  from kfree_refines [OF cs(1) [unfolded x(1)] refl] x s'(1) have k: "kheap s' (xs @ absorb z ys)" by auto
  obtain l zs where l: "absorb z ys = (l, False) # zs" "z \<le> l" using absorb_hd by blast
  have "avail sz k s'" if "unat sz \<le> n" "budget k s" for sz k
  proof -
    have "real_size sz \<le> l" using that(1) l(2) x(3) n12 unfolding real_size_def by auto
    then have "\<not> list_all (unfit (real_size sz)) (xs @ absorb z ys)" unfolding l by (simp add: unfit_def)
    moreover have "budget k s'" by (rule budget_same_heap [OF that(2) s'(4)])
    ultimately show ?thesis using k by (intro availI_fits)
  qed
  with s' show ?thesis by blast
qed

lemma kmalloc_budget:
  assumes "kblocks s B" "budget (pages_of sz + k) s"
  shows "\<exists>p n s'. kmalloc sz s = Some (Inr (of_nat p, s')) \<and> kblocks s' (insert (p, n) B) \<and> (p, n) \<notin> B
    \<and> unat sz \<le> n \<and> same_data B (kmem s) (kmem s') \<and> grown s s' \<and> budget k s'"
  using kmalloc_avail [OF assms(1) budget_avail [OF assms(2,1)]] .

end
