(* ===== verification/Disk.thy ===== *)
theory Disk
  imports Heap_Data "HOL-Library.Signed_Division"
begin

text \<open>
  The disk driver of \<^verbatim>\<open>kern/disk.c\<close>. The drive is a parameter: \<open>dev ws i\<close> is the \<open>i\<close>-th word that the
  data port gives after the register writes \<open>ws\<close>, and \<open>st i\<close> is the \<open>i\<close>-th byte of the status port. The
  documented behaviour of an ATA drive is the hypothesis \<open>ata_reads\<close>, stated on the registers as the drive
  decodes them. C ints are HOL ints here; they stay far from their limits.
\<close>

section \<open>The code\<close>

type_synonym port_writes = "(u16 \<times> u8) list"

definition bl_common :: "int \<Rightarrow> int \<Rightarrow> int \<Rightarrow> port_writes" where
  "bl_common drive numblock count =
     [(0x1F1, 0x00),
      (0x1F2, word_of_int count),
      (0x1F3, word_of_int numblock),
      (0x1F4, word_of_int (drop_bit 8 numblock)),
      (0x1F5, word_of_int (drop_bit 16 numblock)),
      (0x1F6, word_of_int (0xE0 OR push_bit 4 drive OR (drop_bit 24 numblock AND 0x0F)))]"

partial_function (option) bl_wait :: "(nat \<Rightarrow> u8) \<Rightarrow> nat \<Rightarrow> nat option" where
  "bl_wait st n = (if st n AND 0x08 = 0 then bl_wait st (n + 1) else Some n)"

text \<open>The loop over the words of the data port.\<close>

function read_words :: "(nat \<Rightarrow> u16) \<Rightarrow> u32 \<Rightarrow> nat \<Rightarrow> nat \<Rightarrow> mem \<Rightarrow> mem" where
  "read_words w buf idx n m =
     (if idx < n
      then let tmpword = w idx
           in read_words w buf (idx + 1) n
                (m(buf + of_nat (idx * 2) := ucast tmpword, buf + of_nat (idx * 2 + 1) := ucast (drop_bit 8 tmpword)))
      else m)"
  by pat_completeness auto
termination
  by (relation "measure (\<lambda>(w, buf, idx, n, m). n - idx)") auto

declare read_words.simps [simp del]

definition bl_read ::
    "(port_writes \<Rightarrow> nat \<Rightarrow> u16) \<Rightarrow> (nat \<Rightarrow> u8) \<Rightarrow> int \<Rightarrow> int \<Rightarrow> int \<Rightarrow> u32 \<Rightarrow> mem \<Rightarrow> (int \<times> mem) option" where
  "bl_read dev st drive numblock count buf m =
     (let ws = bl_common drive numblock count @ [(0x1F7, 0x20)]
      in Option.bind (bl_wait st 0) (\<lambda>_. Some (count, read_words (dev ws) buf 0 (nat (256 * count)) m)))"

text \<open>The word that \<open>bl_write\<close> makes of two bytes: a byte is a signed char, so it is extended with its
  sign before the two are combined.\<close>

definition out_word :: "u8 \<Rightarrow> u8 \<Rightarrow> u16" where
  "out_word lo hi = word_of_int (push_bit 8 (sint hi) OR sint lo)"

text \<open>\<open>bl_write\<close>: the register writes and the words sent to the data port.\<close>

definition bl_write :: "(nat \<Rightarrow> u8) \<Rightarrow> int \<Rightarrow> int \<Rightarrow> int \<Rightarrow> u32 \<Rightarrow> mem \<Rightarrow> (int \<times> port_writes \<times> u16 list) option" where
  "bl_write st drive numblock count buf m =
     (let ws = bl_common drive numblock count @ [(0x1F7, 0x30)]
      in Option.bind (bl_wait st 0) (\<lambda>_. Some (count, ws,
           map (\<lambda>idx. out_word (m (buf + of_nat (idx * 2))) (m (buf + of_nat (idx * 2 + 1)))) [0..<nat (256 * count)])))"

definition disk_write :: "(nat \<Rightarrow> u8) \<Rightarrow> int \<Rightarrow> int \<Rightarrow> u32 \<Rightarrow> int \<Rightarrow> mem \<Rightarrow> (int \<times> port_writes \<times> u16 list) option" where
  "disk_write st drive offset buf count m =
     (let bl_begin = offset sdiv 512;
          bl_end = (offset + count) sdiv 512;
          blocks = bl_end - bl_begin + 1
      in Option.bind (bl_write st drive bl_begin blocks buf m) (\<lambda>(_, ws, d). Some (count, ws, d)))"

definition disk_read ::
    "(port_writes \<Rightarrow> nat \<Rightarrow> u16) \<Rightarrow> (nat \<Rightarrow> u8) \<Rightarrow> int \<Rightarrow> int \<Rightarrow> u32 \<Rightarrow> int \<Rightarrow> 'a kheap_state_scheme
       \<Rightarrow> (int \<times> 'a kheap_state_scheme) out" where
  "disk_read dev st drive offset buf count s =
     (let bl_begin = offset sdiv 512;
          bl_end = (offset + count) sdiv 512;
          blocks = bl_end - bl_begin + 1
      in bind_out (kmalloc (word_of_int (blocks * 512)) s) (\<lambda>(bl_buffer, s1).
         Option.bind (bl_read dev st drive bl_begin blocks bl_buffer (kmem s1)) (\<lambda>(_, m1).
         let m2 = memcpy m1 buf (bl_buffer + word_of_int (offset smod 512)) (word_of_int count)
         in bind_out (kfree bl_buffer (s1\<lparr>kmem := m2\<rparr>)) (\<lambda>s2. Some (Inr (count, s2))))))"

section \<open>The drive\<close>

text \<open>The registers that the drive has after some writes, and what they mean to it: 28 bits of block
  number, a count in which 0 stands for 256, and the drive bit.\<close>

definition ata_reg :: "port_writes \<Rightarrow> u16 \<Rightarrow> nat" where
  "ata_reg ws p = (case map_of (rev ws) p of None \<Rightarrow> 0 | Some v \<Rightarrow> unat v)"

definition ata_lba :: "port_writes \<Rightarrow> nat" where
  "ata_lba ws = ata_reg ws 0x1F3 + 2 ^ 8 * ata_reg ws 0x1F4 + 2 ^ 16 * ata_reg ws 0x1F5 + 2 ^ 24 * (ata_reg ws 0x1F6 mod 16)"

definition ata_count :: "port_writes \<Rightarrow> nat" where
  "ata_count ws = (if ata_reg ws 0x1F2 = 0 then 256 else ata_reg ws 0x1F2)"

definition ata_drive :: "port_writes \<Rightarrow> nat" where
  "ata_drive ws = ata_reg ws 0x1F6 div 16 mod 2"

text \<open>After the read command the data port gives the bytes of the blocks in order, two at a time.
  \<open>img\<close> are the bytes on the drives.\<close>

definition img_word :: "(nat \<Rightarrow> u8) \<Rightarrow> nat \<Rightarrow> u16" where
  "img_word b i = ucast (b i) OR push_bit 8 (ucast (b (i + 1)))"

definition ata_reads :: "(port_writes \<Rightarrow> nat \<Rightarrow> u16) \<Rightarrow> (nat \<Rightarrow> nat \<Rightarrow> u8) \<Rightarrow> bool" where
  "ata_reads dev img \<longleftrightarrow> (\<forall>ws i. ata_reg ws 0x1F7 = 0x20 \<and> i < 256 * ata_count ws \<longrightarrow>
     dev ws i = img_word (img (ata_drive ws)) (512 * ata_lba ws + 2 * i))"

definition status_ready :: "(nat \<Rightarrow> u8) \<Rightarrow> bool" where
  "status_ready st \<longleftrightarrow> (\<exists>n. st n AND 0x08 \<noteq> 0)"

section \<open>Reading blocks\<close>

lemma bl_wait_from: "st (k + n) AND 8 \<noteq> 0 \<Longrightarrow> \<exists>j. bl_wait st k = Some j"
proof (induction n arbitrary: k)
  case 0
  then show ?case by (subst bl_wait.simps) simp
next
  case (Suc n)
  with Suc.IH [of "k + 1"] show ?case by (subst bl_wait.simps) simp
qed

lemma bl_wait_ready: "status_ready st \<Longrightarrow> \<exists>j. bl_wait st 0 = Some j"
  using bl_wait_from [of st 0] by (auto simp: status_ready_def)

text \<open>The registers decode to the arguments.\<close>

lemma unat_byte: "0 \<le> i \<Longrightarrow> unat (word_of_int i :: u8) = nat i mod 256"
  by (simp add: unsigned_of_int nat_mod_distrib take_bit_eq_mod)

lemma sel_byte:
  assumes "drive = 0 \<or> drive = 1" "0 \<le> h" "h < 16"
  shows "unat (word_of_int (0xE0 OR push_bit 4 drive OR (h AND 0x0F)) :: u8) = 0xE0 + 16 * nat drive + nat h"
proof -
  have "h \<in> {0,1,2,3,4,5,6,7,8,9,10,11,12,13,14,15}" using assms(2,3) by simp presburger
  with assms(1) show ?thesis by (auto simp: push_bit_eq_mult)
qed

lemma bytes_of_28:
  assumes "k < 268435456"
  shows "k mod 256 + 256 * (k div 256 mod 256) + 65536 * (k div 65536 mod 256)
    + 16777216 * ((224 + 16 * d + k div 16777216) mod 16) = (k :: nat)"
proof -
  have "k div 16777216 < 16" using assms by auto
  then have "((14 + d) * 16 + k div 16777216) mod 16 = k div 16777216" by (simp only: mod_mult_self3 mod_less)
  then have a: "(224 + 16 * d + k div 16777216) mod 16 = k div 16777216" by (simp add: algebra_simps)
  have b: "256 * (k div 65536) + k div 256 mod 256 = k div 256"
    using div_mult_mod_eq [of "k div 256" 256] by (simp add: div_mult2_eq [of k 256 256, simplified, symmetric])
  have c: "256 * (k div 16777216) + k div 65536 mod 256 = k div 65536"
    using div_mult_mod_eq [of "k div 65536" 256] by (simp add: div_mult2_eq [of k 65536 256, simplified, symmetric])
  have d: "256 * (k div 256) + k mod 256 = k" by simp
  show ?thesis unfolding a using b c d by linarith
qed

lemma bl_common_decodes:
  assumes "drive = 0 \<or> drive = 1" "0 \<le> n" "n < 2 ^ 28" "1 \<le> c" "c \<le> 256"
    and ws: "ws = bl_common drive n c @ [(0x1F7, cmd)]"
  shows "ata_lba ws = nat n" "ata_count ws = nat c" "ata_drive ws = nat drive" "ata_reg ws 0x1F7 = unat cmd"
proof -
  have h: "0 \<le> n div 2 ^ 24" "n div 2 ^ 24 < 16" using assms(2,3) by auto
  have r: "ata_reg ws 0x1F2 = nat c mod 256" "ata_reg ws 0x1F3 = nat n mod 256"
    "ata_reg ws 0x1F4 = nat (n div 2 ^ 8) mod 256" "ata_reg ws 0x1F5 = nat (n div 2 ^ 16) mod 256"
    "ata_reg ws 0x1F6 = 0xE0 + 16 * nat drive + nat (n div 2 ^ 24)" "ata_reg ws 0x1F7 = unat cmd"
    using sel_byte [OF assms(1) h] assms(2-5)
    by (simp_all add: ws ata_reg_def bl_common_def unat_byte drop_bit_eq_div)
  obtain k where k: "n = int k" using assms(2) nonneg_int_cases by blast
  have q: "nat (n div 2 ^ 8) = k div 2 ^ 8" "nat (n div 2 ^ 16) = k div 2 ^ 16" "nat (n div 2 ^ 24) = k div 2 ^ 24"
    by (simp_all add: k nat_div_distrib)
  show "ata_lba ws = nat n"
    unfolding ata_lba_def r q using bytes_of_28 [of k "nat drive"] assms(3) k by simp
  show "ata_count ws = nat c"
  proof (cases "c = 256")
    case False
    then have "nat c mod 256 = nat c" "nat c \<noteq> 0" using assms(4,5) by simp_all
    then show ?thesis by (simp add: ata_count_def r)
  qed (simp add: ata_count_def r)
  have "(14 * 16 + 16 * nat drive + nat (n div 2 ^ 24)) div 16 = 14 + nat drive" using h by simp
  then show "ata_drive ws = nat drive" unfolding ata_drive_def r using assms(1) by auto
  show "ata_reg ws 0x1F7 = unat cmd" by (rule r)
qed

text \<open>The loop stores the low byte of every word at an even offset and the high byte behind it.\<close>

definition byte_of :: "(nat \<Rightarrow> u16) \<Rightarrow> nat \<Rightarrow> u8" where
  "byte_of w i = (if even i then ucast (w (i div 2)) else ucast (drop_bit 8 (w (i div 2))))"

lemma read_words_spec:
  assumes "2 * n < 2 ^ 32" "idx \<le> n"
  shows "read_words w buf idx n m a =
    (if 2 * idx \<le> unat (a - buf) \<and> unat (a - buf) < 2 * n then byte_of w (unat (a - buf)) else m a)"
  using assms(2)
proof (induction "n - idx" arbitrary: idx m)
  case 0
  then show ?case by (subst read_words.simps) auto
next
  case (Suc k)
  then have lt: "idx < n" by simp
  let ?o = "unat (a - buf)"
  let ?m = "m(buf + of_nat (idx * 2) := ucast (w idx), buf + of_nat (idx * 2 + 1) := ucast (drop_bit 8 (w idx)))"
  have pos: "a = buf + of_nat i \<longleftrightarrow> ?o = i" if "i < 2 ^ 32" for i
    using unat_of_nat_u32 [OF that] by (auto simp: algebra_simps)
  have "2 * idx + 1 < 2 ^ 32" using lt assms(1) by linarith
  then have p0: "a = buf + of_nat (idx * 2) \<longleftrightarrow> ?o = 2 * idx" and p1: "a = buf + of_nat (idx * 2 + 1) \<longleftrightarrow> ?o = 2 * idx + 1"
    by (subst pos; simp add: mult.commute)+
  have e: "read_words w buf idx n m a = read_words w buf (idx + 1) n ?m a"
    by (subst read_words.simps) (simp add: lt Let_def)
  have ih: "read_words w buf (idx + 1) n ?m a =
    (if 2 * (idx + 1) \<le> ?o \<and> ?o < 2 * n then byte_of w ?o else ?m a)"
    using Suc.hyps(2) lt by (intro Suc.hyps(1)) simp_all
  have m: "?m a = (if ?o = 2 * idx + 1 then ucast (drop_bit 8 (w idx)) else if ?o = 2 * idx then ucast (w idx) else m a)"
    by (simp only: fun_upd_apply p0 p1)
  consider "?o = 2 * idx" | "?o = 2 * idx + 1" | "?o < 2 * idx" | "2 * (idx + 1) \<le> ?o" by (atomize_elim, arith)
  then show ?case unfolding e ih m using lt by cases (simp_all add: byte_of_def)
qed

lemma byte_of_img: "byte_of (\<lambda>i. img_word b (k + 2 * i)) j = b (k + j)"
proof -
  have lo: "ucast (ucast x OR push_bit 8 (ucast y) :: u16) = (x :: u8)"
    and hi: "ucast (drop_bit 8 (ucast x OR push_bit 8 (ucast y) :: u16)) = (y :: u8)" for x y :: u8
    by (rule bit_word_eqI; auto simp: bit_simps dest: bit_imp_le_length)+
  show ?thesis
  proof (cases "even j")
    case True
    then have "2 * (j div 2) = j" by simp
    with True show ?thesis by (simp add: byte_of_def img_word_def lo)
  next
    case False
    then have "k + 2 * (j div 2) + 1 = k + j" by simp
    moreover have "byte_of (\<lambda>i. img_word b (k + 2 * i)) j = ucast (drop_bit 8 (img_word b (k + 2 * (j div 2))))"
      using False by (simp add: byte_of_def)
    ultimately show ?thesis by (simp only: img_word_def hi)
  qed
qed

text \<open>\<open>bl_read\<close> stores the blocks in the buffer and nothing else.\<close>

lemma bl_read_ok:
  assumes "ata_reads dev img" "status_ready st" "drive = 0 \<or> drive = 1" "0 \<le> n" "n < 2 ^ 28" "1 \<le> c" "c \<le> 256"
  shows "\<exists>m'. bl_read dev st drive n c buf m = Some (c, m')
    \<and> (\<forall>a. m' a = (if unat (a - buf) < 512 * nat c then img (nat drive) (512 * nat n + unat (a - buf)) else m a))"
proof -
  obtain j where j: "bl_wait st 0 = Some j" using bl_wait_ready [OF assms(2)] by blast
  let ?ws = "bl_common drive n c @ [(0x1F7, 0x20)]"
  note d = bl_common_decodes [OF assms(3-7) refl, of "0x20"]
  have w: "dev ?ws i = img_word (img (nat drive)) (512 * nat n + 2 * i)" if "i < 256 * nat c" for i
    using assms(1) that unfolding ata_reads_def by (auto simp: d)
  have len: "2 * nat (256 * c) = 512 * nat c" "2 * nat (256 * c) < 2 ^ 32" using assms(6,7) by (simp_all add: nat_mult_distrib)
  have b: "byte_of (dev ?ws) i = img (nat drive) (512 * nat n + i)" if "i < 512 * nat c" for i
  proof -
    have "i div 2 < 256 * nat c" using that by simp
    then have "byte_of (dev ?ws) i = byte_of (\<lambda>i. img_word (img (nat drive)) (512 * nat n + 2 * i)) i"
      by (simp add: byte_of_def w)
    then show ?thesis by (simp add: byte_of_img)
  qed
  have "bl_read dev st drive n c buf m = Some (c, read_words (dev ?ws) buf 0 (nat (256 * c)) m)"
    using j by (simp add: bl_read_def Let_def)
  moreover have "read_words (dev ?ws) buf 0 (nat (256 * c)) m a =
      (if unat (a - buf) < 512 * nat c then img (nat drive) (512 * nat n + unat (a - buf)) else m a)" for a
    by (subst read_words_spec) (use len b in auto)
  ultimately show ?thesis by blast
qed

section \<open>Reading bytes\<close>

lemma sdiv_nat: "int a sdiv int b = int (a div b)"
  by (cases "a = 0"; cases "b = 0") (simp_all add: signed_divide_int_def zdiv_int)

lemma smod_nat: "int a smod int b = int (a mod b)"
  by (cases "a = 0"; cases "b = 0") (simp_all add: signed_modulo_int_def zmod_int)

lemma disk_read_ok:
  fixes s :: "'a kheap_state_scheme"
  assumes hw: "ata_reads dev img" "status_ready st" "drive = 0 \<or> drive = 1"
    and heap: "kblocks s B" "(q, k) \<in> B" "q \<le> unat buf" "unat buf + c \<le> q + k"
    and off: "(o' + c) div 512 < 2 ^ 28"
    and nb: "nb = (o' + c) div 512 - o' div 512 + 1" "nb \<le> 256"
    and rm: "avail (of_nat (nb * 512)) bu s"
  shows "\<exists>s'. disk_read dev st drive (int o') buf (int c) s = Some (Inr (int c, s')) \<and> kblocks s' B
    \<and> (\<forall>i < c. kmem s' (buf + of_nat i) = img (nat drive) (o' + i))
    \<and> same_but B (unat buf) c (kmem s) (kmem s')
    \<and> kheap_state.more s' = kheap_state.more s \<and> avail (of_nat (nb * 512)) bu s'"
proof -
  let ?sz = "of_nat (nb * 512) :: u32" and ?lo = "o' mod 512"
  have nb1: "1 \<le> nb" "o' div 512 \<le> (o' + c) div 512" using nb(1) by (simp_all add: div_le_mono)
  have sz: "unat ?sz = nb * 512" using nb(2) by (intro unat_of_nat_u32) simp
  have span: "?lo + c \<le> nb * 512"
  proof -
    have "o' + c < 512 * ((o' + c) div 512) + 512" using mod_less_divisor [of 512 "o' + c"] div_mult_mod_eq [of "o' + c" 512] by linarith
    moreover have "o' = 512 * (o' div 512) + ?lo" by simp
    moreover have "nb * 512 + 512 * (o' div 512) = 512 * ((o' + c) div 512) + 512"
      using nb1(2) unfolding nb(1) by (simp add: algebra_simps)
    ultimately show ?thesis by linarith
  qed
  have sd: "int o' sdiv 512 = int (o' div 512)" "(int o' + int c) sdiv 512 = int ((o' + c) div 512)" "int o' smod 512 = int ?lo"
    using sdiv_nat [of o' 512] sdiv_nat [of "o' + c" 512] smod_nat [of o' 512] by simp_all
  have bl: "int ((o' + c) div 512) - int (o' div 512) + 1 = int nb" using nb1 nb(1) by simp
  from kmalloc_avail [OF heap(1) rm] obtain p n s1 where a: "kmalloc ?sz s = Some (Inr (of_nat p, s1))"
    "kblocks s1 (insert (p, n) B)" "(p, n) \<notin> B" "nb * 512 \<le> n" "same_data B (kmem s) (kmem s1)" "grown s s1"
    "budget bu s1" unfolding sz by blast
  have pb: "heap_base + 4 \<le> p" "p + n \<le> 0x40000000" using kblocks_bounds [OF a(2), of p n] by auto
  have qb: "heap_base + 4 \<le> q" "q + k \<le> 0x40000000" using kblocks_bounds [OF heap(1,2)] by auto
  have apart: "p + n \<le> r \<or> r + l \<le> p" if "(r, l) \<in> B" for r l
    using kblocks_apart [OF a(2), of p n r l] that a(3) by auto
  let ?b = "of_nat p :: u32"
  have ub: "unat ?b = p" using pb by (intro unat_of_nat_u32) simp
  from bl_read_ok [OF hw, of "int (o' div 512)" "int nb" ?b "kmem s1"] off nb1 nb(2) obtain m1 where
    m1: "bl_read dev st drive (int (o' div 512)) (int nb) ?b (kmem s1) = Some (int nb, m1)"
    "\<And>x. m1 x = (if in_block ?b (512 * nb) x then img (nat drive) (512 * (o' div 512) + unat (x - ?b)) else kmem s1 x)"
    by (auto simp: in_block_def)
  define m2 where "m2 = memcpy m1 buf (?b + of_nat ?lo) (of_nat c)"
  have ag1: "agree_outside p (p + n) (kmem s1) m1"
    by (rule agree_outside_block [where b = ?b and c = "512 * nb"]) (use m1(2) ub a(4) pb in simp_all)
  have k1: "kblocks (s1\<lparr>kmem := m1\<rparr>) (insert (p, n) B)" by (rule kblocks_write [OF a(2) _ ag1]) simp
  have uc: "unat (of_nat c :: u32) = c" using heap(3,4) qb by (intro unat_of_nat_u32) simp
  have out2: "m2 x = m1 x" if "\<not> in_block buf c x" for x
    unfolding m2_def using that uc by (intro memcpy_outside) simp
  have ag2: "agree_outside q (q + k) m1 m2"
    by (rule agree_outside_block [where b = buf and c = c]) (use out2 heap(3,4) qb in simp_all)
  have k2: "kblocks (s1\<lparr>kmem := m2\<rparr>) (insert (p, n) B)"
    using kblocks_write [OF k1, of q k m2] heap(2) ag2 by simp
  obtain s2 where f: "kfree ?b (s1\<lparr>kmem := m2\<rparr>) = Some (Inr s2)"
    "kblocks s2 B" "same_data B m2 (kmem s2)" "\<exists>m u. s2 = s1\<lparr>kmem := m, kmalloc_used := u\<rparr>" "avail ?sz bu s2"
  proof -
    obtain t where t: "kfree ?b (s1\<lparr>kmem := m2\<rparr>) = Some (Inr t)" "kblocks t (insert (p, n) B - {(p, n)})"
      "same_data (insert (p, n) B - {(p, n)}) (kmem (s1\<lparr>kmem := m2\<rparr>)) (kmem t)"
      "\<exists>m u. t = s1\<lparr>kmem := m2\<rparr>\<lparr>kmem := m, kmalloc_used := u\<rparr>" "\<forall>sz k. unat sz \<le> n \<longrightarrow> budget k (s1\<lparr>kmem := m2\<rparr>) \<longrightarrow> avail sz k t"
      using kfree_avail [OF k2, of p n] by blast
    have B: "insert (p, n) B - {(p, n)} = B" using a(3) by blast
    have "avail ?sz bu t" using t(5) a(4,7) sz by (simp del: of_nat_mult)
    moreover have "\<exists>m u. t = s1\<lparr>kmem := m, kmalloc_used := u\<rparr>" using t(4) by auto
    ultimately show thesis using that t(1-3) unfolding B by simp
  qed
  have run: "disk_read dev st drive (int o') buf (int c) s = Some (Inr (int c, s2))"
    unfolding disk_read_def Let_def sd bl using a(1) m1(1) f(1) by (simp add: m2_def)
  have "kmem s2 (buf + of_nat i) = img (nat drive) (o' + i)" if i: "i < c" for i
  proof -
    have "q + (unat buf - q + i) = unat buf + i" using heap(3) by simp
    then have bi: "buf + of_nat i = of_nat (q + (unat buf - q + i))" by (simp only: of_nat_add of_nat_unat ucast_id)
    have "kmem s2 (buf + of_nat i) = m2 (buf + of_nat i)"
      unfolding bi by (rule same_dataD [OF f(3) heap(2)]) (use heap(3,4) i in simp)
    also have "\<dots> = m1 (?b + of_nat ?lo + of_nat i)"
    proof -
      have "unat (?b + of_nat ?lo) = p + ?lo"
        using pb ub span a(4) by (subst unat_add_nowrap) (auto simp: unat_of_nat_u32)
      then show ?thesis unfolding m2_def
        using heap(3,4) qb pb span a(4) apart [OF heap(2)] i
        by (intro memcpy_blocks [where q = q and k = k and p = p and n = n]) auto
    qed
    also have "\<dots> = m1 (?b + of_nat (?lo + i))" by (simp add: add.assoc)
    also have "\<dots> = img (nat drive) (512 * (o' div 512) + (?lo + i))"
    proof -
      have "unat (of_nat (?lo + i) :: u32) = ?lo + i" using span i nb(2) by (intro unat_of_nat_u32) simp
      then show ?thesis unfolding m1(2) using span i by (simp add: in_block_def)
    qed
    also have "512 * (o' div 512) + (?lo + i) = o' + i" by simp
    finally show ?thesis .
  qed
  moreover have "same_but B (unat buf) c (kmem s) (kmem s2)"
    unfolding same_but_def
  proof (clarify)
    fix r l i assume r: "(r, l) \<in> B" "i < l" and o: "r + i < unat buf \<or> unat buf + c \<le> r + i"
    have rb: "r + l \<le> 0x40000000" using kblocks_bounds [OF heap(1) r(1)] by simp
    have "kmem s2 (of_nat (r + i)) = m2 (of_nat (r + i))" by (rule same_dataD [OF f(3) r])
    also have "\<dots> = m1 (of_nat (r + i))"
    proof (rule out2)
      show "\<not> in_block buf c (of_nat (r + i))"
        using in_block_nat [of "unat buf" c "r + i"] o heap(4) qb rb r(2) by auto
    qed
    also have "\<dots> = kmem s1 (of_nat (r + i))"
    proof -
      have "\<not> in_block ?b (512 * nb) (of_nat (r + i))"
        using in_block_nat [of p "512 * nb" "r + i"] apart [OF r(1)] a(4) pb rb r(2) by auto
      then show ?thesis unfolding m1(2) by simp
    qed
    also have "\<dots> = kmem s (of_nat (r + i))" by (rule same_dataD [OF a(5) r])
    finally show "kmem s2 (of_nat (r + i)) = kmem s (of_nat (r + i))" .
  qed
  moreover have "kheap_state.more s2 = kheap_state.more s"
    using a(6) f(4) by (auto simp: grown_def)
  ultimately show ?thesis using run f(2,5) by blast
qed

lemma byte_sign: "lo < 128 \<longleftrightarrow> \<not> bit (lo :: u8) 7"
proof -
  have "unat lo < 256" using unsigned_less [of lo] by simp
  then have "unat lo div 128 = 0 \<or> unat lo div 128 = 1" by auto
  moreover have "bit lo 7 \<longleftrightarrow> odd (unat lo div 128)" using bit_unsigned_iff [of lo 7, where 'a = nat] by (simp add: bit_iff_odd)
  ultimately show ?thesis by (auto simp: word_less_nat_alt)
qed

lemma out_word_bytes: "out_word lo hi = ucast lo OR push_bit 8 (ucast (if lo < 128 then hi else 0xFF))"
proof -
  have s: "lo < 128 \<longleftrightarrow> \<not> bit lo 7" by (rule byte_sign)
  have b: "(0xFF :: u8) = mask 8" by (simp add: mask_eq_exp_minus_1)
  show ?thesis
  proof (rule bit_word_eqI)
    fix n assume "n < LENGTH(16)"
    then consider "n < 7" | "n = 7" | "8 \<le> n" "n < 15" | "n = 15" by fastforce
    then show "bit (out_word lo hi) n = bit (ucast lo OR push_bit 8 (ucast (if lo < 128 then hi else 0xFF)) :: u16) n"
      by cases (auto simp: out_word_def bit_simps s b min_def dest: bit_imp_le_length)
  qed
qed

section \<open>Properties\<close>

text \<open>A drive for the witnesses: it decodes its registers and gives the words of the image.\<close>

definition demo_dev :: "(nat \<Rightarrow> nat \<Rightarrow> u8) \<Rightarrow> port_writes \<Rightarrow> nat \<Rightarrow> u16" where
  "demo_dev img ws i = img_word (img (ata_drive ws)) (512 * ata_lba ws + 2 * i)"

lemma demo_dev_reads: "ata_reads (demo_dev img) img"
  by (simp add: ata_reads_def demo_dev_def)



text \<open>C40. What \<open>bl_write\<close> sends: the registers select the drive, the first block and the number of blocks,
  one word is sent for every two bytes of the buffer, and a word is its two bytes as long as the low byte is
  below 128; otherwise the sign of the low byte overwrites the high byte with 0xFF.\<close>

theorem bl_write_words:
  assumes "status_ready st" "drive = 0 \<or> drive = 1" "0 \<le> n" "n < 2 ^ 28" "1 \<le> c" "c \<le> 256"
  shows "\<exists>ws d. bl_write st drive n c buf m = Some (c, ws, d)
    \<and> ata_reg ws 0x1F7 = 0x30 \<and> ata_lba ws = nat n \<and> ata_count ws = nat c \<and> ata_drive ws = nat drive
    \<and> length d = 256 * nat c
    \<and> (\<forall>i < 256 * nat c.
          (let lo = m (buf + of_nat (2 * i)); hi = m (buf + of_nat (2 * i + 1))
           in d ! i = ucast lo OR push_bit 8 (ucast (if lo < 128 then hi else 0xFF))))"
proof -
  obtain j where "bl_wait st 0 = Some j" using bl_wait_ready [OF assms(1)] by blast
  let ?ws = "bl_common drive n c @ [(0x1F7, 0x30)]"
  let ?d = "map (\<lambda>i. out_word (m (buf + of_nat (i * 2))) (m (buf + of_nat (i * 2 + 1)))) [0..<nat (256 * c)]"
  have "bl_write st drive n c buf m = Some (c, ?ws, ?d)" using \<open>bl_wait st 0 = Some j\<close> by (simp add: bl_write_def Let_def)
  moreover have "length ?d = 256 * nat c" using assms(5) by (simp add: nat_mult_distrib)
  moreover have "?d ! i = ucast lo OR push_bit 8 (ucast (if lo < 128 then hi else 0xFF))"
    if "i < 256 * nat c" "lo = m (buf + of_nat (2 * i))" "hi = m (buf + of_nat (2 * i + 1))" for i lo hi
    using that assms(5) by (simp add: out_word_bytes nat_mult_distrib mult.commute)
  ultimately show ?thesis using bl_common_decodes [OF assms(2-6) refl, of "0x30"] by (auto simp: Let_def)
qed

theorem bl_write_words_witness:
  "\<exists>ws d. bl_write (\<lambda>_. 8) 0 5 1 0 (\<lambda>_. 0x80) = Some (1, ws, d) \<and> ata_lba ws = 5 \<and> d ! 0 = 0xFF80"
  using bl_write_words [of "\<lambda>_. 8" 0 5 1 0 "\<lambda>_. 0x80"] by (auto simp: status_ready_def Let_def)

end
