(* ===== verification/Ext2.thy ===== *)
theory Ext2
  imports Disk
begin

text \<open>
  The file system of \<^verbatim>\<open>kern/ext2.c\<close> on the structures of \<^verbatim>\<open>kern/ext2.h\<close>: superblock, group
  descriptors and inodes lie in the kernel heap as they come from the disk and are read field by field at
  their offsets. The structure \<open>disk\<close>, which the kernel builds itself, is a record. A division by a zero
  field of the superblock raises the divide error, whose handler returns to the division: \<open>None\<close>.
\<close>

section \<open>The structures\<close>

definition rd16 :: "mem \<Rightarrow> u32 \<Rightarrow> u16" where
  "rd16 m a = ucast (m a) OR push_bit 8 (ucast (m (a + 1)))"

text \<open>The fields of \<open>struct ext2_super_block\<close> that the code uses.\<close>

definition s_inodes_count :: "mem \<Rightarrow> u32 \<Rightarrow> u32" where "s_inodes_count m sb = rd32 m sb"
definition s_blocks_count :: "mem \<Rightarrow> u32 \<Rightarrow> u32" where "s_blocks_count m sb = rd32 m (sb + 4)"
definition s_log_block_size :: "mem \<Rightarrow> u32 \<Rightarrow> u32" where "s_log_block_size m sb = rd32 m (sb + 24)"
definition s_blocks_per_group :: "mem \<Rightarrow> u32 \<Rightarrow> u32" where "s_blocks_per_group m sb = rd32 m (sb + 32)"
definition s_inodes_per_group :: "mem \<Rightarrow> u32 \<Rightarrow> u32" where "s_inodes_per_group m sb = rd32 m (sb + 40)"
definition s_inode_size :: "mem \<Rightarrow> u32 \<Rightarrow> u16" where "s_inode_size m sb = rd16 m (sb + 88)"

abbreviation (input) SIZEOF_sb :: u32 where "SIZEOF_sb \<equiv> 1024"

text \<open>\<open>struct partition\<close>, \<open>struct ext2_group_desc\<close> and \<open>struct ext2_inode\<close>.\<close>

definition s_lba :: "mem \<Rightarrow> u32 \<Rightarrow> u32" where "s_lba m part = rd32 m (part + 8)"

abbreviation (input) SIZEOF_gd :: u32 where "SIZEOF_gd \<equiv> 32"
definition bg_inode_bitmap :: "mem \<Rightarrow> u32 \<Rightarrow> u32 \<Rightarrow> u32" where "bg_inode_bitmap m gd i = rd32 m (gd + SIZEOF_gd * i + 4)"
definition bg_inode_table :: "mem \<Rightarrow> u32 \<Rightarrow> u32 \<Rightarrow> u32" where "bg_inode_table m gd i = rd32 m (gd + SIZEOF_gd * i + 8)"

abbreviation (input) SIZEOF_inode :: u32 where "SIZEOF_inode \<equiv> 128"
definition i_mode :: "mem \<Rightarrow> u32 \<Rightarrow> u16" where "i_mode m inode = rd16 m inode"
definition i_size :: "mem \<Rightarrow> u32 \<Rightarrow> u32" where "i_size m inode = rd32 m (inode + 4)"
definition i_block :: "mem \<Rightarrow> u32 \<Rightarrow> nat \<Rightarrow> u32" where "i_block m inode i = rd32 m (inode + 40 + 4 * of_nat i)"

record disk =
  d_device :: int
  d_part :: u32
  d_sb :: u32
  d_blocksize :: u32
  d_groups :: u16
  d_gd :: u32

section \<open>Mounting\<close>

type_synonym drive_io = "(port_writes \<Rightarrow> nat \<Rightarrow> u16) \<times> (nat \<Rightarrow> u8)"

definition io_read :: "drive_io \<Rightarrow> int \<Rightarrow> int \<Rightarrow> u32 \<Rightarrow> int \<Rightarrow> 'a kheap_state_scheme \<Rightarrow> (int \<times> 'a kheap_state_scheme) out" where
  "io_read io drive offset buf count s = disk_read (fst io) (snd io) drive offset buf count s"

definition ext2_read_sb :: "drive_io \<Rightarrow> int \<Rightarrow> u32 \<Rightarrow> 'a kheap_state_scheme \<Rightarrow> (u32 \<times> 'a kheap_state_scheme) out" where
  "ext2_read_sb io device s_part s =
     bind_out (kmalloc SIZEOF_sb s) (\<lambda>(sb, s1).
     bind_out (io_read io device (sint (s_part + 1024)) sb (uint SIZEOF_sb) s1) (\<lambda>(_, s2).
     Some (Inr (sb, s2))))"

definition gd_offset :: "u32 \<Rightarrow> u32" where
  "gd_offset blocksize = (if blocksize = 1024 then 2048 else blocksize)"

definition ext2_read_gd :: "drive_io \<Rightarrow> int \<Rightarrow> u32 \<Rightarrow> u16 \<Rightarrow> u32 \<Rightarrow> 'a kheap_state_scheme \<Rightarrow> (u32 \<times> 'a kheap_state_scheme) out" where
  "ext2_read_gd io device blocksize groups s_part s =
     (let gd_size = ucast groups * SIZEOF_gd
      in bind_out (kmalloc gd_size s) (\<lambda>(gd, s1).
         bind_out (io_read io device (sint (s_part + gd_offset blocksize)) gd (sint gd_size) s1) (\<lambda>(_, s2).
         Some (Inr (gd, s2)))))"

text \<open>Rounded-up division, as the code writes it.\<close>

definition div_up :: "u32 \<Rightarrow> u32 \<Rightarrow> u32" where
  "div_up a b = a div b + (if a mod b \<noteq> 0 then 1 else 0)"

definition ext2_get_disk_info :: "drive_io \<Rightarrow> int \<Rightarrow> u32 \<Rightarrow> 'a kheap_state_scheme \<Rightarrow> (u32 \<times> disk \<times> 'a kheap_state_scheme) out" where
  "ext2_get_disk_info io device part s =
     bind_out (kmalloc 24 s) (\<lambda>(dk, s1).
     bind_out (ext2_read_sb io device (s_lba (kmem s1) part * 512) s1) (\<lambda>(sb, s2).
     let m = kmem s2;
         blocksize = push_bit (unat (s_log_block_size m sb AND 31)) 1024
     in if s_blocks_per_group m sb = 0 \<or> s_inodes_per_group m sb = 0 then None
        else let i = sint (div_up (s_blocks_count m sb) (s_blocks_per_group m sb));
                 j = sint (div_up (s_inodes_count m sb) (s_inodes_per_group m sb));
                 groups = word_of_int (if i > j then i else j)
             in bind_out (ext2_read_gd io device blocksize groups (s_lba m part * 512) s2) (\<lambda>(gd, s3).
                Some (Inr (dk, \<lparr>d_device = device, d_part = part, d_sb = sb, d_blocksize = blocksize,
                                d_groups = groups, d_gd = gd\<rparr>, s3)))))"

definition ext2_write_gd :: "(nat \<Rightarrow> u8) \<Rightarrow> disk \<Rightarrow> u32 \<Rightarrow> u32 \<Rightarrow> mem \<Rightarrow> (int \<times> port_writes \<times> u16 list) option" where
  "ext2_write_gd st dk gd s_part m =
     disk_write st (d_device dk) (sint (s_part + gd_offset (d_blocksize dk))) gd (sint (ucast (d_groups dk) * SIZEOF_gd)) m"

section \<open>Inodes\<close>

text \<open>The search of \<open>ext2_create_inode\<close>, which takes the number of the bitmap's block for an address: the
  first group and index whose word is 1. Whatever it finds, the function returns -1; the statements behind
  the return are never reached.\<close>

definition create_scan :: "disk \<Rightarrow> mem \<Rightarrow> (nat \<times> nat) option" where
  "create_scan dk m =
     find (\<lambda>(i, j). rd32 m (bg_inode_bitmap m (d_gd dk) (of_nat i) + 4 * of_nat j) = 1)
       (List.product [0..<unat (d_groups dk) + 1] [0..<unat (s_inodes_per_group m (d_sb dk))])"

definition ext2_create_inode :: "disk \<Rightarrow> int \<Rightarrow> mem \<Rightarrow> int" where
  "ext2_create_inode dk md m = (case create_scan dk m of None \<Rightarrow> - 1 | Some (gr, index) \<Rightarrow> - 1)"

definition inode_offset :: "disk \<Rightarrow> u32 \<Rightarrow> mem \<Rightarrow> u32" where
  "inode_offset dk i_num m =
     (let ipg = s_inodes_per_group m (d_sb dk);
          gr_num = (i_num - 1) div ipg;
          index = (i_num - 1) mod ipg
      in bg_inode_table m (d_gd dk) gr_num * d_blocksize dk + index * ucast (s_inode_size m (d_sb dk)))"

definition ext2_read_inode :: "drive_io \<Rightarrow> disk \<Rightarrow> u32 \<Rightarrow> 'a kheap_state_scheme \<Rightarrow> (u32 \<times> 'a kheap_state_scheme) out" where
  "ext2_read_inode io dk i_num s =
     bind_out (kmalloc SIZEOF_inode s) (\<lambda>(inode, s1).
     let m = kmem s1
     in if s_inodes_per_group m (d_sb dk) = 0 then None
        else bind_out (io_read io (d_device dk) (sint (s_lba m (d_part dk) * 512 + inode_offset dk i_num m)) inode
               (uint (s_inode_size m (d_sb dk))) s1) (\<lambda>(_, s2).
             Some (Inr (inode, s2))))"

section \<open>Files\<close>

lemma bind_out_cong [fundef_cong]:
  "r = r' \<Longrightarrow> (\<And>x. r' = Some (Inr x) \<Longrightarrow> f x = g x) \<Longrightarrow> bind_out r f = bind_out r' g"
  by (auto simp: bind_out_def split: option.split sum.split)

text \<open>One block of the disk into a buffer.\<close>

definition read_blk :: "drive_io \<Rightarrow> disk \<Rightarrow> u32 \<Rightarrow> u32 \<Rightarrow> 'a kheap_state_scheme \<Rightarrow> (int \<times> 'a kheap_state_scheme) out" where
  "read_blk io dk b buf s =
     io_read io (d_device dk) (sint (s_lba (kmem s) (d_part dk) * 512 + b * d_blocksize dk)) buf (sint (d_blocksize dk)) s"

text \<open>The state of \<open>ext2_read_file\<close>: \<open>mmap_head\<close>, the size left, and the rest.\<close>

type_synonym 's reader = "u32 \<times> u32 \<times> 's"

text \<open>The body of every innermost loop.\<close>

definition copy_block :: "drive_io \<Rightarrow> disk \<Rightarrow> u32 \<Rightarrow> u32 \<Rightarrow> 'a kheap_state_scheme reader \<Rightarrow> 'a kheap_state_scheme reader out" where
  "copy_block io dk buf b = (\<lambda>(head, size, s).
     bind_out (read_blk io dk b buf s) (\<lambda>(_, s1).
     let n = (if size > d_blocksize dk then d_blocksize dk else size)
     in Some (Inr (head + n, size - n, s1\<lparr>kmem := memcpy (kmem s1) head buf n\<rparr>))))"

text \<open>A loop over an array of block numbers that stops at a 0.\<close>

function blocks_loop ::
    "(u32 \<Rightarrow> 'a kheap_state_scheme reader \<Rightarrow> 'a kheap_state_scheme reader out) \<Rightarrow> u32 \<Rightarrow> nat \<Rightarrow> nat \<Rightarrow>
       'a kheap_state_scheme reader \<Rightarrow> 'a kheap_state_scheme reader out" where
  "blocks_loop body arr i lim r =
     (let b = rd32 (kmem (snd (snd r))) (arr + 4 * of_nat i)
      in if i < lim \<and> b \<noteq> 0 then bind_out (body b r) (\<lambda>r'. blocks_loop body arr (i + 1) lim r')
         else Some (Inr r))"
  by pat_completeness auto
termination
  by (relation "measure (\<lambda>(body, arr, i, lim, r). lim - i)") auto

declare blocks_loop.simps [simp del]

text \<open>A table of block numbers: it is read into its buffer, then its entries are visited.\<close>

definition indirect ::
    "drive_io \<Rightarrow> disk \<Rightarrow> u32 \<Rightarrow> (u32 \<Rightarrow> 'a kheap_state_scheme reader \<Rightarrow> 'a kheap_state_scheme reader out) \<Rightarrow> u32 \<Rightarrow>
       'a kheap_state_scheme reader \<Rightarrow> 'a kheap_state_scheme reader out" where
  "indirect io dk tab body b = (\<lambda>(head, size, s).
     bind_out (read_blk io dk b tab s) (\<lambda>(_, s1).
     blocks_loop body tab 0 (unat (d_blocksize dk) div 4) (head, size, s1)))"

text \<open>\<open>if (inode->i_block[k]) { ... }\<close>\<close>

definition when_block ::
    "u32 \<Rightarrow> nat \<Rightarrow> (u32 \<Rightarrow> 'a kheap_state_scheme reader \<Rightarrow> 'a kheap_state_scheme reader out) \<Rightarrow>
       'a kheap_state_scheme reader \<Rightarrow> 'a kheap_state_scheme reader out" where
  "when_block inode k body r =
     (let b = i_block (kmem (snd (snd r))) inode k in if b \<noteq> 0 then body b r else Some (Inr r))"

definition ext2_read_file :: "drive_io \<Rightarrow> disk \<Rightarrow> u32 \<Rightarrow> 'a kheap_state_scheme \<Rightarrow> (u32 \<times> 'a kheap_state_scheme) out" where
  "ext2_read_file io dk inode s0 =
     bind_out (kmalloc (d_blocksize dk) s0) (\<lambda>(buf, s1).
     bind_out (kmalloc (d_blocksize dk) s1) (\<lambda>(p, s2).
     bind_out (kmalloc (d_blocksize dk) s2) (\<lambda>(pp, s3).
     bind_out (kmalloc (d_blocksize dk) s3) (\<lambda>(ppp, s4).
     let size = i_size (kmem s4) inode; copy = copy_block io dk buf
     in bind_out (kmalloc size s4) (\<lambda>(mmap_base, s5).
        bind_out (blocks_loop copy (inode + 40) 0 12 (mmap_base, size, s5)) (\<lambda>r1.
        bind_out (when_block inode 12 (indirect io dk p copy) r1) (\<lambda>r2.
        bind_out (when_block inode 13 (indirect io dk p (indirect io dk pp copy)) r2) (\<lambda>r3.
        bind_out (when_block inode 14 (indirect io dk p (indirect io dk pp (indirect io dk ppp copy))) r3) (\<lambda>(_, _, s6).
        bind_out (kfree buf s6) (\<lambda>s7.
        bind_out (kfree p s7) (\<lambda>s8.
        bind_out (kfree pp s8) (\<lambda>s9.
        bind_out (kfree ppp s9) (\<lambda>s10.
        Some (Inr (mmap_base, s10)))))))))))))))"

section \<open>What is on the disk\<close>

text \<open>The bytes of a block, the words of a table of blocks up to the first 0, and the bytes that a block
  stands for at a depth of indirection.\<close>

definition block_bytes :: "(nat \<Rightarrow> u8) \<Rightarrow> nat \<Rightarrow> nat \<Rightarrow> u32 \<Rightarrow> u8 list" where
  "block_bytes b base bs k = map (\<lambda>i. b (base + unat k * bs + i)) [0..<bs]"

definition word_at :: "u8 list \<Rightarrow> nat \<Rightarrow> u32" where
  "word_at xs i = ucast (xs ! i) OR push_bit 8 (ucast (xs ! (i + 1)))
     OR push_bit 16 (ucast (xs ! (i + 2))) OR push_bit 24 (ucast (xs ! (i + 3)))"

definition entries :: "u8 list \<Rightarrow> u32 list" where
  "entries xs = takeWhile (\<lambda>b. b \<noteq> 0) (map (\<lambda>i. word_at xs (4 * i)) [0..<length xs div 4])"

primrec tree_bytes :: "(u32 \<Rightarrow> u8 list) \<Rightarrow> nat \<Rightarrow> u32 \<Rightarrow> u8 list" where
  "tree_bytes blk 0 b = blk b"
| "tree_bytes blk (Suc d) b = concat (map (tree_bytes blk d) (entries (blk b)))"

text \<open>The bytes of the file whose block numbers are \<open>bs\<close>.\<close>

definition file_bytes :: "(u32 \<Rightarrow> u8 list) \<Rightarrow> (nat \<Rightarrow> u32) \<Rightarrow> u8 list" where
  "file_bytes blk ib =
     concat (map blk (takeWhile (\<lambda>b. b \<noteq> 0) (map ib [0..<12])))
     @ (if ib 12 \<noteq> 0 then tree_bytes blk 1 (ib 12) else [])
     @ (if ib 13 \<noteq> 0 then tree_bytes blk 2 (ib 13) else [])
     @ (if ib 14 \<noteq> 0 then tree_bytes blk 3 (ib 14) else [])"

text \<open>All blocks of it satisfy \<open>ok\<close>.\<close>

primrec tree_valid :: "(u32 \<Rightarrow> bool) \<Rightarrow> (u32 \<Rightarrow> u8 list) \<Rightarrow> nat \<Rightarrow> u32 \<Rightarrow> bool" where
  "tree_valid ok blk 0 b = ok b"
| "tree_valid ok blk (Suc d) b = (ok b \<and> list_all (tree_valid ok blk d) (entries (blk b)))"

definition file_ok :: "(u32 \<Rightarrow> bool) \<Rightarrow> (u32 \<Rightarrow> u8 list) \<Rightarrow> (nat \<Rightarrow> u32) \<Rightarrow> bool" where
  "file_ok ok blk ib \<longleftrightarrow>
     list_all ok (takeWhile (\<lambda>b. b \<noteq> 0) (map ib [0..<12]))
     \<and> (ib 12 \<noteq> 0 \<longrightarrow> tree_valid ok blk 1 (ib 12))
     \<and> (ib 13 \<noteq> 0 \<longrightarrow> tree_valid ok blk 2 (ib 13))
     \<and> (ib 14 \<noteq> 0 \<longrightarrow> tree_valid ok blk 3 (ib 14))"

text \<open>The file system lies on a working drive with blocks of whole sectors, at most 255 of them; a block is
  in range when its bytes end below 2 GiB, where the offset is still a positive int.\<close>

definition mounted :: "drive_io \<Rightarrow> (nat \<Rightarrow> nat \<Rightarrow> u8) \<Rightarrow> disk \<Rightarrow> bool" where
  "mounted io img dk \<longleftrightarrow> ata_reads (fst io) img \<and> status_ready (snd io) \<and> (d_device dk = 0 \<or> d_device dk = 1)
     \<and> 512 dvd unat (d_blocksize dk) \<and> 0 < unat (d_blocksize dk) \<and> unat (d_blocksize dk) < 255 * 512"

definition blk_in_range :: "disk \<Rightarrow> u32 \<Rightarrow> u32 \<Rightarrow> bool" where
  "blk_in_range dk lba b \<longleftrightarrow> 512 * unat lba + unat b * unat (d_blocksize dk) + unat (d_blocksize dk) < 2 ^ 31"

definition blk_of :: "(nat \<Rightarrow> nat \<Rightarrow> u8) \<Rightarrow> disk \<Rightarrow> u32 \<Rightarrow> u32 \<Rightarrow> u8 list" where
  "blk_of img dk lba = block_bytes (img (nat (d_device dk))) (512 * unat lba) (unat (d_blocksize dk))"

text \<open>The size of the buffer that reading a block takes and gives back.\<close>

definition blk_request :: "disk \<Rightarrow> u32" where
  "blk_request dk = of_nat ((unat (d_blocksize dk) div 512 + 1) * 512)"

lemma length_blk_of [simp]: "length (blk_of img dk lba b) = unat (d_blocksize dk)"
  by (simp add: blk_of_def block_bytes_def)

end
