(* ===== verification/Ext2_Read.thy ===== *)
theory Ext2_Read
  imports Ext2
begin

text \<open>
  Reading files: every loop of \<open>ext2_read_file\<close> appends the blocks it visits to the file in memory, so the file
  is the concatenation of the blocks its block numbers stand for, cut at its size. The loops share one body, whose
  contract is \<open>appends\<close>: it holds for the innermost body and is passed from a body to the loop around it.
\<close>

section \<open>Reading a block\<close>

lemma same_but_data:
  assumes "same_but B q c m m'" "kblocks s B" "(q, k) \<in> B" "c \<le> k"
  shows "same_data (B - {(q, k)}) m m'"
proof -
  have "m' (of_nat (p + i)) = m (of_nat (p + i))" if p: "(p, n) \<in> B" "(p, n) \<noteq> (q, k)" "i < n" for p n i
  proof -
    from p have "p + i < q \<or> q + c \<le> p + i" using kblocks_apart [OF assms(2) p(1) assms(3)] assms(4) by auto
    with assms(1) p show ?thesis unfolding same_but_def by blast
  qed
  then show ?thesis unfolding same_data_def by blast
qed

lemma sint_u32: "unat (x :: u32) < 2 ^ 31 \<Longrightarrow> sint x = int (unat x)"
proof -
  assume a: "unat x < 2 ^ 31"
  have "int (unat x) < int (2 ^ 31)" using a by (simp only: of_nat_less_iff)
  then have u: "uint x < 2 ^ 31" by simp
  have l: "- (2 ^ 31) \<le> uint x" by (rule order_trans [of _ 0]) simp_all
  from signed_take_bit_int_eq_self [OF l u] sint_uint [of x] show ?thesis by simp
qed

lemma blk_offset:
  assumes "blk_in_range dk lba b"
  shows "sint (lba * 512 + b * d_blocksize dk) = int (512 * unat lba + unat b * unat (d_blocksize dk))"
proof -
  have "unat (lba * 512 + b * d_blocksize dk) = 512 * unat lba + unat b * unat (d_blocksize dk)"
    using assms by (simp add: blk_in_range_def unat_word_ariths)
  then show ?thesis using assms by (simp add: sint_u32 blk_in_range_def)
qed

lemma read_blk_ok:
  fixes s :: "'a kheap_state_scheme"
  assumes mt: "mounted io img dk" and heap: "kblocks s B" "(q, k) \<in> B" "unat (d_blocksize dk) \<le> k"
    and lba: "s_lba (kmem s) (d_part dk) = lba" and rng: "blk_in_range dk lba b" and av: "avail (blk_request dk) bu s"
  shows "\<exists>s'. read_blk io dk b (of_nat q) s = Some (Inr (int (unat (d_blocksize dk)), s')) \<and> kblocks s' B
    \<and> (\<forall>i < unat (d_blocksize dk). kmem s' (of_nat (q + i)) = blk_of img dk lba b ! i)
    \<and> same_data (B - {(q, k)}) (kmem s) (kmem s')
    \<and> kheap_state.more s' = kheap_state.more s \<and> avail (blk_request dk) bu s'"
proof -
  let ?bs = "unat (d_blocksize dk)"
  let ?o = "512 * unat lba + unat b * ?bs"
  have hw: "ata_reads (fst io) img" "status_ready (snd io)" "d_device dk = 0 \<or> d_device dk = 1"
    and bs: "512 dvd ?bs" "?bs < 255 * 512" using mt by (auto simp: mounted_def)
  obtain j where j: "?bs = 512 * j" using bs(1) by blast
  have q: "unat (of_nat q :: u32) = q" using kblocks_bounds [OF heap(1,2)] by (intro unat_of_nat_u32) simp
  have oe: "?o = 512 * (unat lba + unat b * j)" by (simp add: j algebra_simps)
  have d: "?o div 512 = unat lba + unat b * j" "(?o + ?bs) div 512 = unat lba + unat b * j + j" "?bs div 512 = j"
    unfolding oe j by simp_all
  have rd: "sint (d_blocksize dk) = int ?bs" using bs(2) by (intro sint_u32) simp
  have nb: "j + 1 = (?o + ?bs) div 512 - ?o div 512 + 1" unfolding d by simp
  have "\<exists>s'. disk_read (fst io) (snd io) (d_device dk) (int ?o) (of_nat q) (int ?bs) s = Some (Inr (int ?bs, s')) \<and> kblocks s' B
    \<and> (\<forall>i < ?bs. kmem s' (of_nat q + of_nat i) = img (nat (d_device dk)) (?o + i))
    \<and> same_but B (unat (of_nat q :: u32)) ?bs (kmem s) (kmem s')
    \<and> kheap_state.more s' = kheap_state.more s \<and> avail (of_nat ((j + 1) * 512)) bu s'"
  proof (rule disk_read_ok [OF hw heap(1,2) _ _ _ nb])
    show "q \<le> unat (of_nat q :: u32)" "unat (of_nat q :: u32) + ?bs \<le> q + k" using q heap(3) by simp_all
    show "(?o + ?bs) div 512 < 2 ^ 28" using rng unfolding blk_in_range_def by simp
    show "j + 1 \<le> 256" using bs(2) j by simp
    show "avail (of_nat ((j + 1) * 512)) bu s" using av by (simp add: blk_request_def d(3))
  qed
  then obtain s' where s': "disk_read (fst io) (snd io) (d_device dk) (int ?o) (of_nat q) (int ?bs) s = Some (Inr (int ?bs, s'))"
    "kblocks s' B" "\<forall>i < ?bs. kmem s' (of_nat q + of_nat i) = img (nat (d_device dk)) (?o + i)"
    "same_but B q ?bs (kmem s) (kmem s')" "kheap_state.more s' = kheap_state.more s" "avail (of_nat ((j + 1) * 512)) bu s'"
    unfolding q by blast
  have "read_blk io dk b (of_nat q) s = Some (Inr (int ?bs, s'))"
    unfolding read_blk_def io_read_def lba blk_offset [OF rng] rd by (rule s'(1))
  moreover have "kmem s' (of_nat (q + i)) = blk_of img dk lba b ! i" if "i < ?bs" for i
    using s'(3) that by (simp add: blk_of_def block_bytes_def)
  moreover have "avail (blk_request dk) bu s'" using s'(6) by (simp add: blk_request_def d(3))
  ultimately show ?thesis using s'(2,5) same_but_data [OF s'(4) heap] by blast
qed

section \<open>The loops\<close>

text \<open>What holds between two iterations: of the file of \<open>sz\<close> bytes at \<open>q\<close>, the first bytes are those of the
  blocks \<open>acc\<close> read so far, \<open>mmap_head\<close> points behind them, and the size left is what is missing.\<close>

definition copied ::
    "disk \<Rightarrow> nat \<Rightarrow> u32 \<Rightarrow> (nat \<times> nat) set \<Rightarrow> nat \<Rightarrow> nat \<Rightarrow> 'a \<Rightarrow> u8 list \<Rightarrow> 'a kheap_state_scheme reader \<Rightarrow> bool" where
  "copied dk bu lba B q sz mo acc = (\<lambda>(head, size, s).
     kblocks s B \<and> avail (blk_request dk) bu s \<and> s_lba (kmem s) (d_part dk) = lba \<and> kheap_state.more s = mo
     \<and> head = of_nat (q + min sz (length acc)) \<and> unat size = sz - length acc
     \<and> (\<forall>i < min sz (length acc). kmem s (of_nat (q + i)) = acc ! i))"

text \<open>A body that appends \<open>f b\<close> for every \<open>b\<close> that satisfies \<open>g\<close> and keeps the bytes of the blocks \<open>D\<close>.\<close>

definition appends where
  "appends R D f g body \<longleftrightarrow> (\<forall>b acc r. R acc r \<and> g b \<longrightarrow>
     (\<exists>r'. body b r = Some (Inr r') \<and> R (acc @ f b) r' \<and> same_data D (kmem (snd (snd r))) (kmem (snd (snd r')))))"

lemma appendsD:
  assumes "appends R D f g body" "R acc r" "g b"
  obtains r' where "body b r = Some (Inr r')" "R (acc @ f b) r'" "same_data D (kmem (snd (snd r))) (kmem (snd (snd r')))"
  using assms unfolding appends_def by blast

text \<open>A word inside a block that keeps its bytes.\<close>

definition held :: "(nat \<times> nat) set \<Rightarrow> u32 \<Rightarrow> nat \<Rightarrow> bool" where
  "held D x c \<longleftrightarrow> (\<exists>(a, l) \<in> D. a \<le> unat x \<and> unat x + c \<le> a + l \<and> a + l \<le> 2 ^ 32)"

lemma held_byte:
  assumes "same_data D m m'" "held D x c" "i < c"
  shows "m' (x + of_nat i) = m (x + of_nat i)"
proof -
  from assms(2) obtain a l where a: "(a, l) \<in> D" "a \<le> unat x" "unat x + c \<le> a + l" by (auto simp: held_def)
  then have "a + (unat x - a + i) = unat x + i" by simp
  then have e: "of_nat (a + (unat x - a + i)) = x + of_nat i" by (simp only: of_nat_add of_nat_unat ucast_id)
  have "m' (of_nat (a + (unat x - a + i))) = m (of_nat (a + (unat x - a + i)))"
    by (rule same_dataD [OF assms(1) a(1)]) (use a assms(3) in linarith)
  then show ?thesis unfolding e .
qed

lemma held_rd32: "same_data D m m' \<Longrightarrow> held D x 4 \<Longrightarrow> rd32 m' x = rd32 m x"
  using held_byte [of D m m' x 4 0] held_byte [of D m m' x 4 1] held_byte [of D m m' x 4 2] held_byte [of D m m' x 4 3]
  by (simp add: rd32_def)

lemma held_at:
  assumes "held D x n" "j + c \<le> n" "0 < c"
  shows "held D (x + of_nat j) c"
proof -
  from assms(1) obtain a l where a: "(a, l) \<in> D" "a \<le> unat x" "unat x + n \<le> a + l" "a + l \<le> 2 ^ 32"
    by (auto simp: held_def)
  have "unat (x + of_nat j) = unat x + j" using a assms(2,3) by (subst unat_add_nowrap) (auto simp: unat_of_nat_u32)
  then show ?thesis unfolding held_def using a assms(2) by (intro bexI [of _ "(a, l)"]) auto
qed

text \<open>One block: it goes behind the bytes read so far, cut at the size of the file.\<close>

lemma copy_block_appends:
  assumes mt: "mounted io img dk" and buf: "(p, k) \<in> B" "unat (d_blocksize dk) \<le> k"
    and fl: "(q, n) \<in> B" "sz \<le> n" "(q, n) \<noteq> (p, k)" and part: "held (B - {(p, k), (q, n)}) (d_part dk + 8) 4"
  shows "appends (copied dk bu lba B q sz mo) (B - {(p, k), (q, n)}) (blk_of img dk lba) (blk_in_range dk lba)
    (copy_block io dk (of_nat p))"
  unfolding appends_def
proof (intro allI impI, elim conjE)
  fix b acc and r :: "'a kheap_state_scheme reader"
  assume R: "copied dk bu lba B q sz mo acc r" and rng: "blk_in_range dk lba b"
  obtain head sz' s where r: "r = (head, sz', s)" by (cases r) auto
  let ?bs = "unat (d_blocksize dk)" and ?D = "B - {(p, k), (q, n)}" and ?l = "min sz (length acc)"
  have s: "kblocks s B" "avail (blk_request dk) bu s" "s_lba (kmem s) (d_part dk) = lba" "kheap_state.more s = mo"
    and hs: "head = of_nat (q + ?l)" "unat sz' = sz - length acc"
    and old: "\<And>i. i < ?l \<Longrightarrow> kmem s (of_nat (q + i)) = acc ! i"
    using R unfolding r copied_def by auto
  from read_blk_ok [OF mt s(1) buf s(3) rng s(2)] obtain s1 where
    s1: "read_blk io dk b (of_nat p) s = Some (Inr (int ?bs, s1))" "kblocks s1 B"
      "\<And>i. i < ?bs \<Longrightarrow> kmem s1 (of_nat (p + i)) = blk_of img dk lba b ! i"
      "same_data (B - {(p, k)}) (kmem s) (kmem s1)" "kheap_state.more s1 = kheap_state.more s" "avail (blk_request dk) bu s1"
    by blast
  define w where "w = (if d_blocksize dk < sz' then d_blocksize dk else sz')"
  let ?c = "unat w"
  have c: "?c = min ?bs (sz - length acc)" unfolding w_def using hs(2) by (auto simp: word_less_nat_alt)
  define m where "m = memcpy (kmem s1) head (of_nat p) w"
  have run: "copy_block io dk (of_nat p) b r = Some (Inr (head + w, sz' - w, s1\<lparr>kmem := m\<rparr>))"
    unfolding r copy_block_def using s1(1) by (simp add: Let_def w_def m_def)
  have qb: "q + n \<le> 0x40000000" and pb: "p + k \<le> 0x40000000"
    using kblocks_bounds [OF s(1) fl(1)] kblocks_bounds [OF s(1) buf(1)] by auto
  have uh: "unat head = q + ?l" unfolding hs(1) using qb fl(2) by (intro unat_of_nat_u32) simp
  have up: "unat (of_nat p :: u32) = p" using pb by (intro unat_of_nat_u32) simp
  have apart: "p + k \<le> q \<or> q + n \<le> p" using kblocks_apart [OF s(1) buf(1) fl(1)] fl(3) by auto
  have new: "m (of_nat (q + ?l + i)) = blk_of img dk lba b ! i" if i: "i < ?c" for i
  proof -
    have "memcpy (kmem s1) head (of_nat p) (of_nat ?c) (head + of_nat i) = kmem s1 (of_nat p + of_nat i)"
    proof (rule memcpy_blocks [where q = q and k = n and p = p and n = k])
      show "unat head + ?c \<le> q + n" "unat (of_nat p :: u32) + ?c \<le> p + k" using uh up c fl(2) buf(2) by linarith+
    qed (use uh up qb pb apart i in simp_all)
    then have "m (head + of_nat i) = kmem s1 (of_nat p + of_nat i)" unfolding m_def by simp
    moreover have "of_nat (q + ?l + i) = head + of_nat i" "of_nat (p + i) = (of_nat p + of_nat i :: u32)"
      unfolding hs(1) by (simp_all only: of_nat_add)
    moreover have "kmem s1 (of_nat (p + i)) = blk_of img dk lba b ! i" using i c by (intro s1(3)) simp
    ultimately show ?thesis by simp
  qed
  have out: "m x = kmem s1 x" if "\<not> in_block head ?c x" for x unfolding m_def using that by (rule memcpy_outside)
  have ag: "agree_outside q (q + n) (kmem s1) m"
    by (rule agree_outside_block [where b = head and c = ?c]) (use out uh c fl(2) qb in simp_all)
  have k2: "kblocks (s1\<lparr>kmem := m\<rparr>) B" "avail (blk_request dk) bu (s1\<lparr>kmem := m\<rparr>)"
    by (rule kblocks_write [OF s1(2) fl(1) ag], rule avail_write [OF s1(2) fl(1) ag s1(6)])
  have keep: "m (of_nat (q + i)) = acc ! i" if i: "i < ?l" for i
  proof -
    have "\<not> in_block head ?c (of_nat (q + i))"
      using in_block_nat [of "q + ?l" ?c "q + i"] hs(1) qb fl(2) c i by auto
    then have "m (of_nat (q + i)) = kmem s1 (of_nat (q + i))" by (rule out)
    also have "\<dots> = kmem s (of_nat (q + i))"
      by (rule same_dataD [OF s1(4), of q n]) (use fl i in auto)
    finally show ?thesis using old i by simp
  qed
  have D: "same_data ?D (kmem s) m"
  proof (rule same_data_trans)
    show "same_data ?D (kmem s) (kmem s1)" by (rule same_data_mono [OF s1(4)]) blast
    have "same_but B (unat head) ?c (kmem s1) m"
      unfolding same_but_def
    proof clarify
      fix r l i assume r: "(r, l) \<in> B" "i < l" "r + i < unat head \<or> unat head + ?c \<le> r + i"
      have "unat head + ?c \<le> 2 ^ 32" "r + i < 2 ^ 32" using kblocks_bounds(2) [OF s(1) r(1)] r(2) qb uh c fl(2) by simp_all
      from in_block_nat [OF this] r(3) have "\<not> in_block head ?c (of_nat (r + i))" by auto
      then show "m (of_nat (r + i)) = kmem s1 (of_nat (r + i))" by (rule out)
    qed
    then have "same_but B q n (kmem s1) m" using uh c fl(2) unfolding same_but_def by fastforce
    from same_but_data [OF this s(1) fl(1) order_refl] show "same_data ?D (kmem s1) m" by (rule same_data_mono) blast
  qed
  have lba: "s_lba m (d_part dk) = lba" using held_rd32 [OF D part] s(3) by (simp add: s_lba_def)
  have "copied dk bu lba B q sz mo (acc @ blk_of img dk lba b) (head + w, sz' - w, s1\<lparr>kmem := m\<rparr>)"
  proof -
    have len: "min sz (length (acc @ blk_of img dk lba b)) = ?l + ?c" unfolding c by simp
    have h: "head + w = of_nat (q + (?l + ?c))" unfolding hs(1) by (simp add: add.assoc)
    have z: "unat (sz' - w) = sz - length (acc @ blk_of img dk lba b)"
      using hs(2) c by (subst unat_sub_nowrap) (auto simp: word_le_nat_alt)
    have "m (of_nat (q + i)) = (acc @ blk_of img dk lba b) ! i" if "i < ?l + ?c" for i
    proof (cases "i < ?l")
      case True
      then show ?thesis using keep by (simp add: nth_append)
    next
      case False
      then have "length acc \<le> i" "i - length acc < ?c" "q + ?l + (i - length acc) = q + i" using that c by auto
      then show ?thesis using new [of "i - length acc"] by (simp add: nth_append del: of_nat_add)
    qed
    then show ?thesis unfolding copied_def using k2 lba s(4) s1(5) z by (simp only: len h) simp
  qed
  with run D show "\<exists>r'. copy_block io dk (of_nat p) b r = Some (Inr r') \<and> copied dk bu lba B q sz mo (acc @ blk_of img dk lba b) r'
      \<and> same_data ?D (kmem (snd (snd r))) (kmem (snd (snd r')))"
    unfolding r by (intro exI [of _ "(head + w, sz' - w, s1\<lparr>kmem := m\<rparr>)"]) simp
qed

text \<open>The loop over an array that keeps its bytes appends what its body appends for the entries in front of
  the first 0.\<close>

lemma blocks_loop_appends:
  assumes body: "appends R D f g body" and arr: "held D arr (4 * lim)" and "i \<le> lim"
    and es: "es = takeWhile (\<lambda>b. b \<noteq> 0) (map (\<lambda>j. rd32 (kmem (snd (snd r))) (arr + 4 * of_nat j)) [i..<lim])"
    and "R acc r" "list_all g es"
  shows "\<exists>r'. blocks_loop body arr i lim r = Some (Inr r') \<and> R (acc @ concat (map f es)) r'
    \<and> same_data D (kmem (snd (snd r))) (kmem (snd (snd r')))"
  using assms(3-6)
proof (induction "lim - i" arbitrary: i acc r es)
  case 0
  then have "blocks_loop body arr i lim r = Some (Inr r)" by (subst blocks_loop.simps) simp
  moreover have "es = []" using 0 by simp
  ultimately show ?case using 0 by (simp add: same_data_def)
next
  case (Suc k)
  then have lt: "i < lim" by simp
  let ?b = "rd32 (kmem (snd (snd r))) (arr + 4 * of_nat i)"
  let ?rest = "\<lambda>r. takeWhile (\<lambda>b. b \<noteq> 0) (map (\<lambda>j. rd32 (kmem (snd (snd r))) (arr + 4 * of_nat j)) [i + 1..<lim])"
  have es: "es = (if ?b \<noteq> 0 then ?b # ?rest r else [])" using Suc.prems(2) lt by (simp add: upt_conv_Cons)
  show ?case
  proof (cases "?b = 0")
    case True
    then have "blocks_loop body arr i lim r = Some (Inr r)" by (subst blocks_loop.simps) simp
    with True es Suc.prems(3) show ?thesis by (simp add: same_data_def)
  next
    case False
    then have e: "es = ?b # ?rest r" and g: "g ?b" "list_all g (?rest r)" using es Suc.prems(4) by simp_all
    obtain r1 where r1: "body ?b r = Some (Inr r1)" "R (acc @ f ?b) r1"
      "same_data D (kmem (snd (snd r))) (kmem (snd (snd r1)))" using appendsD [OF body Suc.prems(3) g(1)] .
    have "rd32 (kmem (snd (snd r1))) (arr + 4 * of_nat j) = rd32 (kmem (snd (snd r))) (arr + 4 * of_nat j)"
      if "j < lim" for j
    proof -
      have "held D (arr + of_nat (4 * j)) 4" by (rule held_at [OF arr]) (use that in auto)
      from held_rd32 [OF r1(3) this] show ?thesis by simp
    qed
    then have rest: "?rest r1 = ?rest r" by (intro arg_cong [where f = "takeWhile _"]) simp
    have "\<exists>r'. blocks_loop body arr (i + 1) lim r1 = Some (Inr r') \<and> R ((acc @ f ?b) @ concat (map f (?rest r))) r'
        \<and> same_data D (kmem (snd (snd r1))) (kmem (snd (snd r')))"
      by (rule Suc.hyps(1)) (use Suc.hyps(2) lt rest r1(2) g(2) in simp_all)
    then obtain r' where r': "blocks_loop body arr (i + 1) lim r1 = Some (Inr r')"
      "R ((acc @ f ?b) @ concat (map f (?rest r))) r'" "same_data D (kmem (snd (snd r1))) (kmem (snd (snd r')))" by blast
    have "blocks_loop body arr i lim r = Some (Inr r')"
      by (subst blocks_loop.simps) (use lt False r1(1) r'(1) in \<open>simp add: Let_def\<close>)
    moreover have "R (acc @ concat (map f es)) r'" using r'(2) unfolding e by simp
    ultimately show ?thesis using same_data_trans [OF r1(3) r'(3)] by blast
  qed
qed

text \<open>A table of blocks.\<close>

lemma entries_read:
  assumes "\<And>i. i < length xs \<Longrightarrow> m (of_nat (q + i)) = xs ! i" "lim = length xs div 4"
  shows "takeWhile (\<lambda>b. b \<noteq> 0) (map (\<lambda>j. rd32 m (of_nat q + 4 * of_nat j)) [0..<lim]) = entries xs"
proof -
  have "rd32 m (of_nat q + 4 * of_nat j) = word_at xs (4 * j)" if "j < lim" for j
  proof -
    have l: "4 * j + 3 < length xs" using that assms(2) by linarith
    show ?thesis
      using assms(1) [of "4 * j"] assms(1) [of "4 * j + 1"] assms(1) [of "4 * j + 2"] assms(1) [of "4 * j + 3"] l
      by (simp add: rd32_def word_at_def add_ac)
  qed
  then show ?thesis unfolding entries_def assms(2) by (intro arg_cong [where f = "takeWhile _"]) simp
qed

lemma indirect_appends:
  assumes mt: "mounted io img dk" and tab: "(p, k) \<in> D" "D \<subseteq> B" "unat (d_blocksize dk) \<le> k"
    and fl: "(q, n) \<in> B" "(q, n) \<notin> D" "sz \<le> n" and part: "held (D - {(p, k)}) (d_part dk + 8) 4"
    and body: "appends (copied dk bu lba B q sz mo) D f g body"
  shows "appends (copied dk bu lba B q sz mo) (D - {(p, k)}) (\<lambda>b. concat (map f (entries (blk_of img dk lba b))))
    (\<lambda>b. blk_in_range dk lba b \<and> list_all g (entries (blk_of img dk lba b))) (indirect io dk (of_nat p) body)"
  unfolding appends_def
proof (intro allI impI, elim conjE)
  fix b acc and r :: "'a kheap_state_scheme reader"
  assume R: "copied dk bu lba B q sz mo acc r" and rng: "blk_in_range dk lba b"
    and g: "list_all g (entries (blk_of img dk lba b))"
  obtain head sz' s where r: "r = (head, sz', s)" by (cases r) auto
  let ?bs = "unat (d_blocksize dk)" and ?D = "D - {(p, k)}" and ?l = "min sz (length acc)"
  have s: "kblocks s B" "avail (blk_request dk) bu s" "s_lba (kmem s) (d_part dk) = lba" "kheap_state.more s = mo"
    and hs: "head = of_nat (q + ?l)" "unat sz' = sz - length acc"
    and old: "\<And>i. i < ?l \<Longrightarrow> kmem s (of_nat (q + i)) = acc ! i"
    using R unfolding r copied_def by auto
  have pB: "(p, k) \<in> B" using tab by blast
  from read_blk_ok [OF mt s(1) pB tab(3) s(3) rng s(2)] obtain s1 where
    s1: "read_blk io dk b (of_nat p) s = Some (Inr (int ?bs, s1))" "kblocks s1 B"
      "\<And>i. i < ?bs \<Longrightarrow> kmem s1 (of_nat (p + i)) = blk_of img dk lba b ! i"
      "same_data (B - {(p, k)}) (kmem s) (kmem s1)" "kheap_state.more s1 = kheap_state.more s" "avail (blk_request dk) bu s1"
    by blast
  have D1: "same_data ?D (kmem s) (kmem s1)" by (rule same_data_mono [OF s1(4)]) (use tab in blast)
  have lba: "s_lba (kmem s1) (d_part dk) = lba" using held_rd32 [OF D1 part] s(3) by (simp add: s_lba_def)
  have "kmem s1 (of_nat (q + i)) = acc ! i" if i: "i < ?l" for i
    using same_dataD [OF s1(4), of q n i] fl tab(1) i old by (auto simp: fl(1))
  then have R1: "copied dk bu lba B q sz mo acc (head, sz', s1)"
    unfolding copied_def using s1(2,5,6) s(4) lba hs by simp
  have "p + k \<le> 2 ^ 32" and up: "unat (of_nat p :: u32) = p"
    using kblocks_bounds [OF s(1) pB] by (simp_all add: unat_of_nat_u32)
  then have arr: "held D (of_nat p) (4 * (?bs div 4))" unfolding held_def using tab
    by (intro bexI [of _ "(p, k)"]) auto
  from blocks_loop_appends [OF body arr le0 refl R1] entries_read [of "blk_of img dk lba b" "kmem s1" p "?bs div 4"] s1(3) g
  obtain r' where r': "blocks_loop body (of_nat p) 0 (?bs div 4) (head, sz', s1) = Some (Inr r')"
    "copied dk bu lba B q sz mo (acc @ concat (map f (entries (blk_of img dk lba b)))) r'"
    "same_data D (kmem s1) (kmem (snd (snd r')))" by auto
  have "indirect io dk (of_nat p) body b r = Some (Inr r')"
    unfolding r indirect_def using s1(1) r'(1) by simp
  moreover have "same_data ?D (kmem (snd (snd r))) (kmem (snd (snd r')))"
    unfolding r using same_data_trans [OF D1 same_data_mono [OF r'(3)]] by auto
  ultimately show "\<exists>r'. indirect io dk (of_nat p) body b r = Some (Inr r')
      \<and> copied dk bu lba B q sz mo (acc @ concat (map f (entries (blk_of img dk lba b)))) r'
      \<and> same_data ?D (kmem (snd (snd r))) (kmem (snd (snd r')))" using r'(2) by blast
qed

lemma appends_mono: "appends R D f g body \<Longrightarrow> C \<subseteq> D \<Longrightarrow> appends R C f g body"
  unfolding appends_def by (blast intro: same_data_mono)

lemma when_block_appends:
  assumes "appends R D f g body" "R acc r" "b = i_block (kmem (snd (snd r))) inode k" "b \<noteq> 0 \<longrightarrow> g b"
  shows "\<exists>r'. when_block inode k body r = Some (Inr r') \<and> R (acc @ (if b \<noteq> 0 then f b else [])) r'
    \<and> same_data D (kmem (snd (snd r))) (kmem (snd (snd r')))"
proof (cases "b = 0")
  case True
  with assms(2,3) show ?thesis by (simp add: when_block_def same_data_def)
next
  case False
  with assms(4) have "g b" by simp
  from appendsD [OF assms(1,2) this] obtain r' where "body b r = Some (Inr r')" "R (acc @ f b) r'"
    "same_data D (kmem (snd (snd r))) (kmem (snd (snd r')))" .
  with False assms(3) show ?thesis by (simp add: when_block_def Let_def)
qed

text \<open>The four parts of the file, one after the other.\<close>

lemma parts_append:
  assumes body: "appends R D (tree_bytes blk 0) (tree_valid ok blk 0) b0" "appends R D (tree_bytes blk 1) (tree_valid ok blk 1) b1"
      "appends R D (tree_bytes blk 2) (tree_valid ok blk 2) b2" "appends R D (tree_bytes blk 3) (tree_valid ok blk 3) b3"
    and inode: "held D inode 128" and ib: "ib = i_block (kmem (snd (snd r))) inode" "file_ok ok blk ib" and R: "R [] r"
  shows "\<exists>r'. bind_out (blocks_loop b0 (inode + 40) 0 12 r) (\<lambda>r1. bind_out (when_block inode 12 b1 r1) (\<lambda>r2.
      bind_out (when_block inode 13 b2 r2) (when_block inode 14 b3))) = Some (Inr r')
    \<and> R (file_bytes blk ib) r' \<and> same_data D (kmem (snd (snd r))) (kmem (snd (snd r')))"
proof -
  have keep: "i_block m' inode k = i_block m inode k" if "same_data D m m'" "k < 15" for m m' k
  proof -
    have "held D (inode + of_nat (40 + 4 * k)) 4" by (rule held_at [OF inode]) (use that(2) in auto)
    from held_rd32 [OF that(1) this] show ?thesis by (simp add: i_block_def add.assoc)
  qed
  have ok: "list_all ok (takeWhile (\<lambda>b. b \<noteq> 0) (map ib [0..<12]))" "ib 12 \<noteq> 0 \<longrightarrow> tree_valid ok blk 1 (ib 12)"
    "ib 13 \<noteq> 0 \<longrightarrow> tree_valid ok blk 2 (ib 13)" "ib 14 \<noteq> 0 \<longrightarrow> tree_valid ok blk 3 (ib 14)"
    using ib(2) unfolding file_ok_def by blast+
  let ?es = "takeWhile (\<lambda>b. b \<noteq> 0) (map ib [0..<12])"
  have arr: "held D (inode + 40) (4 * 12)" using held_at [OF inode, of 40 "4 * 12"] by simp
  have es: "?es = takeWhile (\<lambda>b. b \<noteq> 0) (map (\<lambda>j. rd32 (kmem (snd (snd r))) (inode + 40 + 4 * of_nat j)) [0..<12])"
    unfolding ib(1) i_block_def ..
  have "list_all (tree_valid ok blk 0) ?es" using ok(1) by (simp add: list_all_iff)
  from blocks_loop_appends [OF body(1) arr le0 es R this] obtain r1 where
    r1: "blocks_loop b0 (inode + 40) 0 12 r = Some (Inr r1)" "R ([] @ concat (map (tree_bytes blk 0) ?es)) r1"
      "same_data D (kmem (snd (snd r))) (kmem (snd (snd r1)))" by blast
  have i1: "ib 12 = i_block (kmem (snd (snd r1))) inode 12" unfolding ib(1) using keep [OF r1(3)] by simp
  from when_block_appends [OF body(2) r1(2) i1 ok(2)] obtain r2 where
    r2: "when_block inode 12 b1 r1 = Some (Inr r2)"
      "R (([] @ concat (map (tree_bytes blk 0) ?es)) @ (if ib 12 \<noteq> 0 then tree_bytes blk 1 (ib 12) else [])) r2"
      "same_data D (kmem (snd (snd r1))) (kmem (snd (snd r2)))" by blast
  note d2 = same_data_trans [OF r1(3) r2(3)]
  have i2: "ib 13 = i_block (kmem (snd (snd r2))) inode 13" unfolding ib(1) using keep [OF d2] by simp
  from when_block_appends [OF body(3) r2(2) i2 ok(3)] obtain r3 where
    r3: "when_block inode 13 b2 r2 = Some (Inr r3)"
      "R ((([] @ concat (map (tree_bytes blk 0) ?es)) @ (if ib 12 \<noteq> 0 then tree_bytes blk 1 (ib 12) else []))
        @ (if ib 13 \<noteq> 0 then tree_bytes blk 2 (ib 13) else [])) r3"
      "same_data D (kmem (snd (snd r2))) (kmem (snd (snd r3)))" by blast
  note d3 = same_data_trans [OF d2 r3(3)]
  have i3: "ib 14 = i_block (kmem (snd (snd r3))) inode 14" unfolding ib(1) using keep [OF d3] by simp
  from when_block_appends [OF body(4) r3(2) i3 ok(4)] obtain r4 where
    r4: "when_block inode 14 b3 r3 = Some (Inr r4)"
      "R (((([] @ concat (map (tree_bytes blk 0) ?es)) @ (if ib 12 \<noteq> 0 then tree_bytes blk 1 (ib 12) else []))
        @ (if ib 13 \<noteq> 0 then tree_bytes blk 2 (ib 13) else [])) @ (if ib 14 \<noteq> 0 then tree_bytes blk 3 (ib 14) else [])) r4"
      "same_data D (kmem (snd (snd r3))) (kmem (snd (snd r4)))" by blast
  have t0: "map (tree_bytes blk 0) ?es = map blk ?es" by simp
  have "R (file_bytes blk ib) r4" using r4(2) unfolding t0 file_bytes_def by (simp only: append_assoc append_Nil)
  then show ?thesis using r1(1) r2(1) r3(1) r4(1) same_data_trans [OF d3 r4(3)] by simp
qed

section \<open>Reading a file\<close>

lemma kfree_block:
  assumes "kblocks s (insert b B)" "b \<notin> B"
  shows "\<exists>s'. kfree (of_nat (fst b)) s = Some (Inr s') \<and> kblocks s' B \<and> same_data B (kmem s) (kmem s')
    \<and> (\<exists>m k. s' = s\<lparr>kmem := m, kmalloc_used := k\<rparr>)"
proof -
  obtain p n where b: "b = (p, n)" by (cases b)
  have "insert b B - {(p, n)} = B" using assms(2) b by blast
  with kfree_avail [OF assms(1), of p n] b show ?thesis by auto
qed

lemma when_blocks_eq:
  "ext2_read_file io dk inode s0 =
     bind_out (kmalloc (d_blocksize dk) s0) (\<lambda>(buf, s1).
     bind_out (kmalloc (d_blocksize dk) s1) (\<lambda>(p, s2).
     bind_out (kmalloc (d_blocksize dk) s2) (\<lambda>(pp, s3).
     bind_out (kmalloc (d_blocksize dk) s3) (\<lambda>(ppp, s4).
     bind_out (kmalloc (i_size (kmem s4) inode) s4) (\<lambda>(mmap_base, s5).
     bind_out (bind_out (blocks_loop (copy_block io dk buf) (inode + 40) 0 12 (mmap_base, i_size (kmem s4) inode, s5)) (\<lambda>r1.
        bind_out (when_block inode 12 (indirect io dk p (copy_block io dk buf)) r1) (\<lambda>r2.
        bind_out (when_block inode 13 (indirect io dk p (indirect io dk pp (copy_block io dk buf))) r2)
          (when_block inode 14 (indirect io dk p (indirect io dk pp (indirect io dk ppp (copy_block io dk buf))))))))
     (\<lambda>(_, _, s6). bind_out (kfree buf s6) (\<lambda>s7. bind_out (kfree p s7) (\<lambda>s8. bind_out (kfree pp s8) (\<lambda>s9.
        bind_out (kfree ppp s9) (\<lambda>s10. Some (Inr (mmap_base, s10))))))))))))"
proof -
  have a: "bind_out (bind_out r f) g = bind_out r (\<lambda>x. bind_out (f x) g)" for r :: "'x out" and f :: "'x \<Rightarrow> 'y out" and g :: "'y \<Rightarrow> 'z out"
    by (auto simp: bind_out_def split: option.split sum.split)
  show ?thesis unfolding ext2_read_file_def Let_def a ..
qed

lemma held_mono: "held D x c \<Longrightarrow> D \<subseteq> E \<Longrightarrow> held E x c"
  unfolding held_def by blast

text \<open>The four bodies append the blocks of their depth.\<close>

lemma bodies_append:
  assumes mt: "mounted io img dk" and B: "B5 = insert y (insert x3 (insert x2 (insert x1 (insert x0 B))))"
    and new: "x0 \<notin> B" "x1 \<notin> insert x0 B" "x2 \<notin> insert x1 (insert x0 B)" "x3 \<notin> insert x2 (insert x1 (insert x0 B))"
      "y \<notin> insert x3 (insert x2 (insert x1 (insert x0 B)))"
    and big: "unat (d_blocksize dk) \<le> snd x0" "unat (d_blocksize dk) \<le> snd x1" "unat (d_blocksize dk) \<le> snd x2"
      "unat (d_blocksize dk) \<le> snd x3" "sz \<le> snd y"
    and part: "held B (d_part dk + 8) 4"
    and R_def: "R = copied dk bu lba B5 (fst y) sz mo" and blk_def: "blk = blk_of img dk lba"
    and ok_def: "ok = blk_in_range dk lba" and c_def: "c = copy_block io dk (of_nat (fst x0))"
  shows "appends R B (tree_bytes blk 0) (tree_valid ok blk 0) c"
    "appends R B (tree_bytes blk 1) (tree_valid ok blk 1) (indirect io dk (of_nat (fst x1)) c)"
    "appends R B (tree_bytes blk 2) (tree_valid ok blk 2) (indirect io dk (of_nat (fst x1)) (indirect io dk (of_nat (fst x2)) c))"
    "appends R B (tree_bytes blk 3) (tree_valid ok blk 3)
       (indirect io dk (of_nat (fst x1)) (indirect io dk (of_nat (fst x2)) (indirect io dk (of_nat (fst x3)) c)))"
proof -
  have t: "tree_bytes blk 0 = blk" "tree_valid ok blk 0 = ok"
    "tree_bytes blk 1 = (\<lambda>b. concat (map (tree_bytes blk 0) (entries (blk b))))"
    "tree_bytes blk 2 = (\<lambda>b. concat (map (tree_bytes blk 1) (entries (blk b))))"
    "tree_bytes blk 3 = (\<lambda>b. concat (map (tree_bytes blk 2) (entries (blk b))))"
    "tree_valid ok blk 1 = (\<lambda>b. ok b \<and> list_all (tree_valid ok blk 0) (entries (blk b)))"
    "tree_valid ok blk 2 = (\<lambda>b. ok b \<and> list_all (tree_valid ok blk 1) (entries (blk b)))"
    "tree_valid ok blk 3 = (\<lambda>b. ok b \<and> list_all (tree_valid ok blk 2) (entries (blk b)))"
    by (simp_all add: fun_eq_iff numeral_2_eq_2 numeral_3_eq_3)
  have h: "held E (d_part dk + 8) 4" if "B \<subseteq> E" for E using held_mono [OF part that] .
  have q: "(fst y, snd y) \<in> B5" unfolding B by simp
  let ?D = "insert x3 (insert x2 (insert x1 B))"
  have D: "B5 - {(fst x0, snd x0), (fst y, snd y)} = ?D" unfolding B using new by auto
  have a0: "appends R ?D (tree_bytes blk 0) (tree_valid ok blk 0) c"
    unfolding t(1,2) unfolding R_def blk_def ok_def c_def D [symmetric]
  proof (rule copy_block_appends [OF mt _ big(1) q big(5)])
    show "(fst x0, snd x0) \<in> B5" "(fst y, snd y) \<noteq> (fst x0, snd x0)" using new by (simp_all add: B)
    show "held (B5 - {(fst x0, snd x0), (fst y, snd y)}) (d_part dk + 8) 4" unfolding D by (rule h) blast
  qed
  have ind: "appends R D (\<lambda>b. concat (map f (entries (blk b)))) (\<lambda>b. ok b \<and> list_all g (entries (blk b)))
      (indirect io dk (of_nat (fst x)) body)"
    if "appends R (insert x D) f g body" "x \<notin> D" "insert x D \<subseteq> B5 - {y}" "B \<subseteq> D" "unat (d_blocksize dk) \<le> snd x" for D x f g body
  proof -
    have e: "insert x D - {(fst x, snd x)} = D" using that(2) by simp
    have "held (insert x D - {(fst x, snd x)}) (d_part dk + 8) 4" unfolding e by (rule h [OF that(4)])
    from indirect_appends [OF mt _ _ that(5) q _ big(5) this, where bu = bu and lba = lba and mo = mo and f = f and g = g and body = body] that(1,3) show ?thesis
      unfolding e R_def blk_def ok_def by auto
  qed
  have m: "appends R (insert x B) f g body" if "appends R ?D f g body" "x \<in> ?D" for x f g body
    by (rule appends_mono [OF that(1)]) (use that(2) in blast)
  have b: "B \<subseteq> B5 - {y}" "x1 \<in> B5 - {y}" "x2 \<in> B5 - {y}" "x3 \<in> B5 - {y}" using new unfolding B by auto
  have a1: "appends R B (tree_bytes blk 1) (tree_valid ok blk 1) (indirect io dk (of_nat (fst x1)) c)"
    unfolding t(3,6) by (rule ind [OF m [OF a0]]) (use new b big in simp_all)
  have a2: "appends R (insert x1 B) (tree_bytes blk 1) (tree_valid ok blk 1) (indirect io dk (of_nat (fst x2)) c)"
    unfolding t(3,6) by (rule ind, rule appends_mono [OF a0]) (use new b big in auto)
  have a3: "appends R (insert x2 (insert x1 B)) (tree_bytes blk 1) (tree_valid ok blk 1) (indirect io dk (of_nat (fst x3)) c)"
    unfolding t(3,6) by (rule ind, rule appends_mono [OF a0]) (use new b big in auto)
  have a21: "appends R B (tree_bytes blk 2) (tree_valid ok blk 2)
      (indirect io dk (of_nat (fst x1)) (indirect io dk (of_nat (fst x2)) c))"
    unfolding t(4,7) by (rule ind [OF a2]) (use new b big in simp_all)
  have a32: "appends R (insert x1 B) (tree_bytes blk 2) (tree_valid ok blk 2)
      (indirect io dk (of_nat (fst x2)) (indirect io dk (of_nat (fst x3)) c))"
    unfolding t(4,7) by (rule ind [OF a3]) (use new b big in auto)
  have a321: "appends R B (tree_bytes blk 3) (tree_valid ok blk 3)
      (indirect io dk (of_nat (fst x1)) (indirect io dk (of_nat (fst x2)) (indirect io dk (of_nat (fst x3)) c)))"
    unfolding t(5,8) by (rule ind [OF a32]) (use new b big in simp_all)
  show "appends R B (tree_bytes blk 0) (tree_valid ok blk 0) c" by (rule appends_mono [OF a0]) blast
  show "appends R B (tree_bytes blk 1) (tree_valid ok blk 1) (indirect io dk (of_nat (fst x1)) c)" by (rule a1)
  show "appends R B (tree_bytes blk 2) (tree_valid ok blk 2)
      (indirect io dk (of_nat (fst x1)) (indirect io dk (of_nat (fst x2)) c))" by (rule a21)
  show "appends R B (tree_bytes blk 3) (tree_valid ok blk 3)
      (indirect io dk (of_nat (fst x1)) (indirect io dk (of_nat (fst x2)) (indirect io dk (of_nat (fst x3)) c)))" by (rule a321)
qed

text \<open>The five allocations.\<close>

lemma kmalloc_next:
  assumes "kblocks s B" "budget (pages_of sz + k) s"
  shows "\<exists>x s'. kmalloc sz s = Some (Inr (of_nat (fst x), s')) \<and> kblocks s' (insert x B) \<and> x \<notin> B
    \<and> unat sz \<le> snd x \<and> same_data B (kmem s) (kmem s') \<and> kheap_state.more s' = kheap_state.more s \<and> budget k s'"
  using kmalloc_budget [OF assms] unfolding grown_def by (metis fst_conv snd_conv)

definition read_file_pages :: "disk \<Rightarrow> u32 \<Rightarrow> nat" where
  "read_file_pages dk sz = 4 * pages_of (d_blocksize dk) + pages_of sz + pages_of (blk_request dk)"

lemma read_file_allocs:
  fixes s :: "'a kheap_state_scheme"
  assumes heap: "kblocks s B" and bud: "budget (read_file_pages dk sz + bu) s"
  obtains x0 x1 x2 x3 y s1 s2 s3 s4 s5 where
    "kmalloc (d_blocksize dk) s = Some (Inr (of_nat (fst x0), s1))" "kmalloc (d_blocksize dk) s1 = Some (Inr (of_nat (fst x1), s2))"
    "kmalloc (d_blocksize dk) s2 = Some (Inr (of_nat (fst x2), s3))" "kmalloc (d_blocksize dk) s3 = Some (Inr (of_nat (fst x3), s4))"
    "kmalloc sz s4 = Some (Inr (of_nat (fst y), s5))" "x0 \<notin> B" "x1 \<notin> insert x0 B" "x2 \<notin> insert x1 (insert x0 B)"
    "x3 \<notin> insert x2 (insert x1 (insert x0 B))" "y \<notin> insert x3 (insert x2 (insert x1 (insert x0 B)))"
    "unat (d_blocksize dk) \<le> snd x0" "unat (d_blocksize dk) \<le> snd x1" "unat (d_blocksize dk) \<le> snd x2"
    "unat (d_blocksize dk) \<le> snd x3" "unat sz \<le> snd y" "kblocks s5 (insert y (insert x3 (insert x2 (insert x1 (insert x0 B)))))"
    "same_data B (kmem s) (kmem s4)" "same_data B (kmem s) (kmem s5)" "kheap_state.more s5 = kheap_state.more s"
    "avail (blk_request dk) bu s5"
proof -
  let ?bs = "d_blocksize dk" and ?pb = "pages_of (d_blocksize dk)" and ?pz = "pages_of sz" and ?pr = "pages_of (blk_request dk)"
  have "read_file_pages dk sz + bu = ?pb + (?pb + (?pb + (?pb + (?pz + (?pr + bu)))))" by (simp add: read_file_pages_def)
  with bud have b0: "budget (?pb + (?pb + (?pb + (?pb + (?pz + (?pr + bu)))))) s" by simp
  from kmalloc_next [OF heap b0] obtain x0 s1 where s1: "kmalloc ?bs s = Some (Inr (of_nat (fst x0), s1))"
    "kblocks s1 (insert x0 B)" "x0 \<notin> B" "unat ?bs \<le> snd x0" "same_data B (kmem s) (kmem s1)"
    "kheap_state.more s1 = kheap_state.more s" "budget (?pb + (?pb + (?pb + (?pz + (?pr + bu))))) s1" by blast
  from kmalloc_next [OF s1(2,7)] obtain x1 s2 where s2: "kmalloc ?bs s1 = Some (Inr (of_nat (fst x1), s2))"
    "kblocks s2 (insert x1 (insert x0 B))" "x1 \<notin> insert x0 B" "unat ?bs \<le> snd x1" "same_data (insert x0 B) (kmem s1) (kmem s2)"
    "kheap_state.more s2 = kheap_state.more s1" "budget (?pb + (?pb + (?pz + (?pr + bu)))) s2" by blast
  from kmalloc_next [OF s2(2,7)] obtain x2 s3 where s3: "kmalloc ?bs s2 = Some (Inr (of_nat (fst x2), s3))"
    "kblocks s3 (insert x2 (insert x1 (insert x0 B)))" "x2 \<notin> insert x1 (insert x0 B)" "unat ?bs \<le> snd x2"
    "same_data (insert x1 (insert x0 B)) (kmem s2) (kmem s3)"
    "kheap_state.more s3 = kheap_state.more s2" "budget (?pb + (?pz + (?pr + bu))) s3" by blast
  from kmalloc_next [OF s3(2,7)] obtain x3 s4 where s4: "kmalloc ?bs s3 = Some (Inr (of_nat (fst x3), s4))"
    "kblocks s4 (insert x3 (insert x2 (insert x1 (insert x0 B))))" "x3 \<notin> insert x2 (insert x1 (insert x0 B))" "unat ?bs \<le> snd x3"
    "same_data (insert x2 (insert x1 (insert x0 B))) (kmem s3) (kmem s4)"
    "kheap_state.more s4 = kheap_state.more s3" "budget (?pz + (?pr + bu)) s4" by blast
  let ?B4 = "insert x3 (insert x2 (insert x1 (insert x0 B)))"
  from kmalloc_next [OF s4(2,7)] obtain y s5 where s5: "kmalloc sz s4 = Some (Inr (of_nat (fst y), s5))"
    "kblocks s5 (insert y ?B4)" "y \<notin> ?B4" "unat sz \<le> snd y" "same_data ?B4 (kmem s4) (kmem s5)"
    "kheap_state.more s5 = kheap_state.more s4" "budget (?pr + bu) s5" by blast
  have d4: "same_data B (kmem s) (kmem s4)"
    by (intro same_data_trans [OF s1(5)] same_data_trans [OF same_data_mono [OF s2(5)]]
        same_data_trans [OF same_data_mono [OF s3(5)]] same_data_mono [OF s4(5)]) blast+
  have d5: "same_data B (kmem s) (kmem s5)" by (rule same_data_trans [OF d4 same_data_mono [OF s5(5)]]) blast
  have mo: "kheap_state.more s5 = kheap_state.more s" using s1(6) s2(6) s3(6) s4(6) s5(6) by simp
  show thesis
    by (rule that [OF s1(1) s2(1) s3(1) s4(1) s5(1) s1(3) s2(3) s3(3) s4(3) s5(3) s1(4) s2(4) s3(4) s4(4) s5(4) s5(2) d4 d5 mo
          budget_avail [OF s5(7,2)]])
qed

text \<open>And the four releases.\<close>

lemma read_file_frees:
  fixes s :: "'a kheap_state_scheme"
  assumes "kblocks s (insert y (insert x3 (insert x2 (insert x1 (insert x0 B)))))"
    and "x0 \<notin> B" "x1 \<notin> insert x0 B" "x2 \<notin> insert x1 (insert x0 B)" "x3 \<notin> insert x2 (insert x1 (insert x0 B))"
      "y \<notin> insert x3 (insert x2 (insert x1 (insert x0 B)))"
  shows "\<exists>s'. bind_out (kfree (of_nat (fst x0)) s) (\<lambda>s. bind_out (kfree (of_nat (fst x1)) s) (\<lambda>s.
      bind_out (kfree (of_nat (fst x2)) s) (\<lambda>s. bind_out (kfree (of_nat (fst x3)) s) (\<lambda>s. Some (Inr (a, s)))))) = Some (Inr (a, s'))
    \<and> kblocks s' (insert y B) \<and> same_data (insert y B) (kmem s) (kmem s') \<and> kheap_state.more s' = kheap_state.more s
    \<and> (\<forall>k. budget k s \<longrightarrow> budget k s')"
proof -
  let ?C = "insert y B"
  have k: "kblocks s (insert x0 (insert x1 (insert x2 (insert x3 ?C))))" using assms(1) by (simp add: insert_commute)
  have new: "x0 \<notin> insert x1 (insert x2 (insert x3 ?C))" "x1 \<notin> insert x2 (insert x3 ?C)" "x2 \<notin> insert x3 ?C" "x3 \<notin> ?C"
    using assms(2-6) by blast+
  from kfree_block [OF k new(1)] obtain t1 where
    t1: "kfree (of_nat (fst x0)) s = Some (Inr t1)" "kblocks t1 (insert x1 (insert x2 (insert x3 ?C)))"
      "same_data (insert x1 (insert x2 (insert x3 ?C))) (kmem s) (kmem t1)" "\<exists>m k. t1 = s\<lparr>kmem := m, kmalloc_used := k\<rparr>" by blast
  from kfree_block [OF t1(2) new(2)] obtain t2 where
    t2: "kfree (of_nat (fst x1)) t1 = Some (Inr t2)" "kblocks t2 (insert x2 (insert x3 ?C))"
      "same_data (insert x2 (insert x3 ?C)) (kmem t1) (kmem t2)" "\<exists>m k. t2 = t1\<lparr>kmem := m, kmalloc_used := k\<rparr>" by blast
  from kfree_block [OF t2(2) new(3)] obtain t3 where
    t3: "kfree (of_nat (fst x2)) t2 = Some (Inr t3)" "kblocks t3 (insert x3 ?C)"
      "same_data (insert x3 ?C) (kmem t2) (kmem t3)" "\<exists>m k. t3 = t2\<lparr>kmem := m, kmalloc_used := k\<rparr>" by blast
  from kfree_block [OF t3(2) new(4)] obtain t4 where
    t4: "kfree (of_nat (fst x3)) t3 = Some (Inr t4)" "kblocks t4 ?C"
      "same_data ?C (kmem t3) (kmem t4)" "\<exists>m k. t4 = t3\<lparr>kmem := m, kmalloc_used := k\<rparr>" by blast
  have "same_data ?C (kmem s) (kmem t4)"
    by (intro same_data_trans [OF same_data_mono [OF t1(3)]] same_data_trans [OF same_data_mono [OF t2(3)]]
        same_data_trans [OF same_data_mono [OF t3(3)]] t4(3)) blast+
  moreover have "kheap_state.more t4 = kheap_state.more s" using t1(4) t2(4) t3(4) t4(4) by auto
  moreover have "\<forall>k. budget k s \<longrightarrow> budget k t4"
    by (intro allI impI, rule budget_same_heap [OF _ t4(4)], rule budget_same_heap [OF _ t3(4)],
        rule budget_same_heap [OF _ t2(4)], rule budget_same_heap [OF _ t1(4)])
  ultimately show ?thesis using t1(1) t2(1) t3(1) t4(1,2) by simp
qed

lemma i_block_keep:
  assumes "same_data B m m'" "held B inode 128" "k < 15"
  shows "i_block m' inode k = i_block m inode k"
proof -
  have "held B (inode + of_nat (40 + 4 * k)) 4" by (rule held_at [OF assms(2)]) (use assms(3) in auto)
  from held_rd32 [OF assms(1) this] show ?thesis by (simp add: i_block_def add.assoc)
qed

lemma file_cong:
  assumes "\<And>k. k < 15 \<Longrightarrow> ib k = ib' k"
  shows "file_bytes blk ib = file_bytes blk ib'" "file_ok ok blk ib = file_ok ok blk ib'"
proof -
  have "map ib [0..<12] = map ib' [0..<12]" by (rule map_cong [OF refl]) (use assms in simp)
  moreover have "ib 12 = ib' 12" "ib 13 = ib' 13" "ib 14 = ib' 14" using assms by simp_all
  ultimately show "file_bytes blk ib = file_bytes blk ib'" "file_ok ok blk ib = file_ok ok blk ib'"
    unfolding file_bytes_def file_ok_def by (simp_all only:)
qed

lemma ext2_read_file_ok:
  fixes s :: "'a kheap_state_scheme"
  assumes mt: "mounted io img dk" and heap: "kblocks s B" "held B (d_part dk) 16" "held B inode 128"
    and lba: "lba = s_lba (kmem s) (d_part dk)" and sz: "sz = i_size (kmem s) inode"
    and ib: "ib = i_block (kmem s) inode" "file_ok (blk_in_range dk lba) (blk_of img dk lba) ib"
    and bud: "budget (read_file_pages dk sz + bu) s"
  shows "\<exists>y s'. ext2_read_file io dk inode s = Some (Inr (of_nat (fst y), s')) \<and> kblocks s' (insert y B) \<and> y \<notin> B
    \<and> unat sz \<le> snd y
    \<and> (\<forall>i < min (unat sz) (length (file_bytes (blk_of img dk lba) ib)).
          kmem s' (of_nat (fst y + i)) = file_bytes (blk_of img dk lba) ib ! i)
    \<and> same_data B (kmem s) (kmem s') \<and> kheap_state.more s' = kheap_state.more s \<and> budget bu s'"
proof -
  from read_file_allocs [OF heap(1) bud] obtain x0 x1 x2 x3 y s1 s2 s3 s4 s5 where
    a: "kmalloc (d_blocksize dk) s = Some (Inr (of_nat (fst x0), s1))" "kmalloc (d_blocksize dk) s1 = Some (Inr (of_nat (fst x1), s2))"
    "kmalloc (d_blocksize dk) s2 = Some (Inr (of_nat (fst x2), s3))" "kmalloc (d_blocksize dk) s3 = Some (Inr (of_nat (fst x3), s4))"
    "kmalloc sz s4 = Some (Inr (of_nat (fst y), s5))"
    and new: "x0 \<notin> B" "x1 \<notin> insert x0 B" "x2 \<notin> insert x1 (insert x0 B)"
    "x3 \<notin> insert x2 (insert x1 (insert x0 B))" "y \<notin> insert x3 (insert x2 (insert x1 (insert x0 B)))"
    and big: "unat (d_blocksize dk) \<le> snd x0" "unat (d_blocksize dk) \<le> snd x1" "unat (d_blocksize dk) \<le> snd x2"
    "unat (d_blocksize dk) \<le> snd x3" "unat sz \<le> snd y"
    and s5: "kblocks s5 (insert y (insert x3 (insert x2 (insert x1 (insert x0 B)))))"
    "same_data B (kmem s) (kmem s4)" "same_data B (kmem s) (kmem s5)" "kheap_state.more s5 = kheap_state.more s"
    "avail (blk_request dk) bu s5" .
  let ?B5 = "insert y (insert x3 (insert x2 (insert x1 (insert x0 B))))"
  have part: "held B (d_part dk + 8) 4" and isz: "held B (inode + 4) 4"
    using held_at [OF heap(2), of 8 4] held_at [OF heap(3), of 4 4] by simp_all
  have sz4: "i_size (kmem s4) inode = sz" using held_rd32 [OF s5(2) isz] by (simp add: sz i_size_def)
  have lba5: "s_lba (kmem s5) (d_part dk) = lba" using held_rd32 [OF s5(3) part] by (simp add: lba s_lba_def)
  let ?R = "copied dk bu lba ?B5 (fst y) (unat sz) (kheap_state.more s)" and ?ib = "i_block (kmem s5) inode"
  note bodies = bodies_append [OF mt refl new big part refl refl refl refl, where bu = bu and lba = lba and mo = "kheap_state.more s"]
  have R0: "?R [] (of_nat (fst y), sz, s5)" unfolding copied_def using s5(1,4,5) lba5 by simp
  have ib5: "?ib k = ib k" if "k < 15" for k unfolding ib(1) by (rule i_block_keep [OF s5(3) heap(3) that])
  have fb: "file_bytes blk ?ib = file_bytes blk ib" "file_ok rng blk ?ib = file_ok rng blk ib" for blk rng
    by (rule file_cong, rule ib5, assumption)+
  have ok: "file_ok (blk_in_range dk lba) (blk_of img dk lba) ?ib" using ib(2) fb by simp
  have ibr: "?ib = i_block (kmem (snd (snd (of_nat (fst y) :: u32, sz, s5)))) inode" by simp
  from parts_append [OF bodies heap(3) ibr ok R0] obtain h z s6 where
    r: "bind_out (blocks_loop (copy_block io dk (of_nat (fst x0))) (inode + 40) 0 12 (of_nat (fst y), sz, s5)) (\<lambda>r1.
        bind_out (when_block inode 12 (indirect io dk (of_nat (fst x1)) (copy_block io dk (of_nat (fst x0)))) r1) (\<lambda>r2.
        bind_out (when_block inode 13 (indirect io dk (of_nat (fst x1)) (indirect io dk (of_nat (fst x2)) (copy_block io dk (of_nat (fst x0))))) r2)
          (when_block inode 14 (indirect io dk (of_nat (fst x1)) (indirect io dk (of_nat (fst x2)) (indirect io dk (of_nat (fst x3)) (copy_block io dk (of_nat (fst x0)))))))))
      = Some (Inr (h, z, s6))" "?R (file_bytes (blk_of img dk lba) ?ib) (h, z, s6)" "same_data B (kmem s5) (kmem s6)"
    by (elim exE conjE) (metis (no_types, lifting) prod.collapse snd_conv)
  have "?R (file_bytes (blk_of img dk lba) ib) (h, z, s6)" using r(2) by (simp only: fb(1))
  then have s6: "kblocks s6 ?B5" "kheap_state.more s6 = kheap_state.more s"
    "\<forall>i < min (unat sz) (length (file_bytes (blk_of img dk lba) ib)).
      kmem s6 (of_nat (fst y + i)) = file_bytes (blk_of img dk lba) ib ! i" "budget bu s6"
    unfolding copied_def by (auto intro: avail_budget)
  from read_file_frees [OF s6(1) new, of "of_nat (fst y) :: u32"] obtain s' where
    s': "bind_out (kfree (of_nat (fst x0)) s6) (\<lambda>s. bind_out (kfree (of_nat (fst x1)) s) (\<lambda>s.
      bind_out (kfree (of_nat (fst x2)) s) (\<lambda>s. bind_out (kfree (of_nat (fst x3)) s) (\<lambda>s. Some (Inr (of_nat (fst y) :: u32, s))))))
        = Some (Inr (of_nat (fst y), s'))" "kblocks s' (insert y B)" "same_data (insert y B) (kmem s6) (kmem s')"
      "kheap_state.more s' = kheap_state.more s6" "\<forall>k. budget k s6 \<longrightarrow> budget k s'" by (elim exE conjE) (rule that)
  have "ext2_read_file io dk inode s = Some (Inr (of_nat (fst y), s'))"
    unfolding when_blocks_eq using a r(1) s'(1) sz4 by simp
  moreover have "kmem s' (of_nat (fst y + i)) = file_bytes (blk_of img dk lba) ib ! i"
    if "i < min (unat sz) (length (file_bytes (blk_of img dk lba) ib))" for i
    using same_dataD [OF s'(3), of "fst y" "snd y" i] s6(3) that big(5) by auto
  moreover have "same_data B (kmem s) (kmem s')"
    by (rule same_data_trans [OF s5(3) same_data_trans [OF r(3) same_data_mono [OF s'(3)]]]) blast
  moreover have "y \<notin> B" using new(5) by blast
  ultimately show ?thesis using s'(2,4,5) s6(2,4) big(5) by (intro exI [of _ y] exI [of _ s']) simp
qed

end
