(* ===== verification/Ext2_Files.thy ===== *)
theory Ext2_Files
  imports Ext2_Read
begin

text \<open>
  Finding an inode on the disk, and the contents of a file from its inode number.
\<close>

section \<open>Inodes\<close>

lemma held_rd16: "same_data D m m' \<Longrightarrow> held D x 2 \<Longrightarrow> rd16 m' x = rd16 m x"
  using held_byte [of D m m' x 2 0] held_byte [of D m m' x 2 1] by (simp add: rd16_def)

lemma unat_u16_lt: "unat (x :: u16) < 65536"
  using unsigned_less [of x] by simp

text \<open>Where inode \<open>i\<close> is on the disk, from the superblock and the group descriptors in memory.\<close>

definition inode_group :: "disk \<Rightarrow> u32 \<Rightarrow> mem \<Rightarrow> u32" where
  "inode_group dk i m = (i - 1) div s_inodes_per_group m (d_sb dk)"

definition inode_pos :: "disk \<Rightarrow> u32 \<Rightarrow> mem \<Rightarrow> nat" where
  "inode_pos dk i m = 512 * unat (s_lba m (d_part dk))
     + unat (bg_inode_table m (d_gd dk) (inode_group dk i m)) * unat (d_blocksize dk)
     + unat ((i - 1) mod s_inodes_per_group m (d_sb dk)) * unat (s_inode_size m (d_sb dk))"

definition inode_bytes :: "(nat \<Rightarrow> nat \<Rightarrow> u8) \<Rightarrow> disk \<Rightarrow> u32 \<Rightarrow> mem \<Rightarrow> u8 list" where
  "inode_bytes img dk i m =
     map (\<lambda>k. img (nat (d_device dk)) (inode_pos dk i m + k)) [0..<unat (s_inode_size m (d_sb dk))]"

text \<open>The superblock, the descriptor of the group and the partition lie in blocks of the heap.\<close>

definition fs_loaded :: "(nat \<times> nat) set \<Rightarrow> disk \<Rightarrow> u32 \<Rightarrow> mem \<Rightarrow> bool" where
  "fs_loaded B dk i m \<longleftrightarrow> held B (d_part dk) 16 \<and> held B (d_sb dk) 1024
     \<and> held B (d_gd dk + SIZEOF_gd * inode_group dk i m + 8) 4"

lemma fs_loaded_keep:
  assumes "same_data B m m'" "fs_loaded B dk i m"
  shows "s_lba m' (d_part dk) = s_lba m (d_part dk)" "s_inodes_per_group m' (d_sb dk) = s_inodes_per_group m (d_sb dk)"
    "s_inode_size m' (d_sb dk) = s_inode_size m (d_sb dk)" "inode_pos dk i m' = inode_pos dk i m"
    "inode_offset dk i m' = inode_offset dk i m"
proof -
  note h = assms(2) [unfolded fs_loaded_def]
  have p: "held B (d_part dk + 8) 4" "held B (d_sb dk + 40) 4" "held B (d_sb dk + 88) 2"
    using h held_at [of B "d_part dk" 16 8 4] held_at [of B "d_sb dk" 1024 40 4] held_at [of B "d_sb dk" 1024 88 2] by simp_all
  show a: "s_lba m' (d_part dk) = s_lba m (d_part dk)" "s_inodes_per_group m' (d_sb dk) = s_inodes_per_group m (d_sb dk)"
    "s_inode_size m' (d_sb dk) = s_inode_size m (d_sb dk)"
    using held_rd32 [OF assms(1) p(1)] held_rd32 [OF assms(1) p(2)] held_rd16 [OF assms(1) p(3)]
    by (simp_all add: s_lba_def s_inodes_per_group_def s_inode_size_def)
  have b: "inode_group dk i m' = inode_group dk i m" unfolding inode_group_def a ..
  have c: "bg_inode_table m' (d_gd dk) (inode_group dk i m) = bg_inode_table m (d_gd dk) (inode_group dk i m)"
    using held_rd32 [OF assms(1)] h by (simp add: bg_inode_table_def)
  show "inode_pos dk i m' = inode_pos dk i m" unfolding inode_pos_def a b c ..
  show "inode_offset dk i m' = inode_offset dk i m"
    using c unfolding inode_offset_def inode_group_def Let_def a by simp
qed

lemma inode_offset_pos:
  assumes "inode_pos dk i m < 2 ^ 31"
  shows "sint (s_lba m (d_part dk) * 512 + inode_offset dk i m) = int (inode_pos dk i m)"
proof -
  let ?l = "s_lba m (d_part dk)" and ?t = "bg_inode_table m (d_gd dk) (inode_group dk i m)" and ?bs = "d_blocksize dk"
  let ?x = "(i - 1) mod s_inodes_per_group m (d_sb dk)" and ?z = "ucast (s_inode_size m (d_sb dk)) :: u32"
  have z: "unat ?z = unat (s_inode_size m (d_sb dk))"
    using unat_u16_lt [of "s_inode_size m (d_sb dk)"] by (simp add: unsigned_ucast_eq take_bit_nat_eq_self)
  have lt: "512 * unat ?l + unat ?t * unat ?bs + unat ?x * unat ?z < 2 ^ 31" using assms unfolding inode_pos_def z .
  have m1: "unat (?l * 512) = 512 * unat ?l" and m2: "unat (?t * ?bs) = unat ?t * unat ?bs" and m3: "unat (?x * ?z) = unat ?x * unat ?z"
    using lt by (subst unat_word_ariths, simp)+
  have "unat (?l * 512 + (?t * ?bs + ?x * ?z)) = 512 * unat ?l + (unat ?t * unat ?bs + unat ?x * unat ?z)"
    using lt by (subst unat_add_nowrap; (subst unat_add_nowrap)?) (simp_all add: m1 m2 m3)
  then have "unat (?l * 512 + inode_offset dk i m) = inode_pos dk i m"
    unfolding inode_pos_def inode_offset_def inode_group_def Let_def by (simp add: z)
  then show ?thesis using sint_u32 [of "?l * 512 + inode_offset dk i m"] assms by (simp only:)
qed

text \<open>A new block, filled from the disk.\<close>

lemma alloc_read:
  fixes s :: "'a kheap_state_scheme"
  assumes hw: "ata_reads (fst io) img" "status_ready (snd io)" "drive = 0 \<or> drive = 1" and heap: "kblocks s B"
    and c: "c \<le> unat sz" and off: "(off + c) div 512 < 2 ^ 28"
    and nb: "nb = (off + c) div 512 - off div 512 + 1" "nb \<le> 256"
    and bud: "budget (pages_of sz + (pages_of (of_nat (nb * 512)) + k)) s"
  shows "\<exists>x s1 s'. kmalloc sz s = Some (Inr (of_nat (fst x), s1)) \<and> same_data B (kmem s) (kmem s1)
    \<and> io_read io drive (int off) (of_nat (fst x)) (int c) s1 = Some (Inr (int c, s'))
    \<and> kblocks s' (insert x B) \<and> x \<notin> B \<and> unat sz \<le> snd x
    \<and> (\<forall>j < c. kmem s' (of_nat (fst x + j)) = img (nat drive) (off + j))
    \<and> same_data B (kmem s) (kmem s') \<and> kheap_state.more s' = kheap_state.more s \<and> budget k s'"
proof -
  from kmalloc_next [OF heap bud] obtain x s1 where x: "kmalloc sz s = Some (Inr (of_nat (fst x), s1))"
    "kblocks s1 (insert x B)" "x \<notin> B" "unat sz \<le> snd x" "same_data B (kmem s) (kmem s1)"
    "kheap_state.more s1 = kheap_state.more s" "budget (pages_of (of_nat (nb * 512)) + k) s1" by blast
  have ux: "unat (of_nat (fst x) :: u32) = fst x"
    using kblocks_bounds [OF x(2), of "fst x" "snd x"] by (intro unat_of_nat_u32) simp
  have "avail (of_nat (nb * 512)) k s1" by (rule budget_avail [OF x(7,2)])
  then have "\<exists>s'. disk_read (fst io) (snd io) drive (int off) (of_nat (fst x)) (int c) s1 = Some (Inr (int c, s'))
    \<and> kblocks s' (insert x B) \<and> (\<forall>j < c. kmem s' (of_nat (fst x) + of_nat j) = img (nat drive) (off + j))
    \<and> same_but (insert x B) (unat (of_nat (fst x) :: u32)) c (kmem s1) (kmem s')
    \<and> kheap_state.more s' = kheap_state.more s1 \<and> avail (of_nat (nb * 512)) k s'"
    by (intro disk_read_ok [OF hw x(2) _ _ _ off nb, where q = "fst x" and k = "snd x"]) (use ux c x(4) in simp_all)
  then obtain s' where
    s': "disk_read (fst io) (snd io) drive (int off) (of_nat (fst x)) (int c) s1 = Some (Inr (int c, s'))"
    "kblocks s' (insert x B)" "\<forall>j < c. kmem s' (of_nat (fst x) + of_nat j) = img (nat drive) (off + j)"
    "same_but (insert x B) (fst x) c (kmem s1) (kmem s')" "kheap_state.more s' = kheap_state.more s1"
    "avail (of_nat (nb * 512)) k s'" unfolding ux by blast
  have "same_data (insert x B - {(fst x, snd x)}) (kmem s1) (kmem s')"
    by (rule same_but_data [OF s'(4) x(2)]) (use x(4) c in simp_all)
  then have "same_data B (kmem s1) (kmem s')" by (rule same_data_mono) (use x(3) in auto)
  then have "same_data B (kmem s) (kmem s')" by (rule same_data_trans [OF x(5)])
  moreover have "budget k s'" by (rule avail_budget [OF s'(6)])
  ultimately show ?thesis using x s' unfolding io_read_def by (intro exI [of _ x] exI [of _ s1] exI [of _ s']) simp
qed

text \<open>The pages that a read of at most 3000 bytes needs for its block buffer.\<close>

lemma buffer_one_page:
  assumes "nb = (off + c) div 512 - off div 512 + 1" "c \<le> 3000"
  shows "nb \<le> 256" "pages_of (of_nat (nb * 512)) = 1"
proof -
  have "(off + c) div 512 \<le> off div 512 + 6" using assms(2) by linarith
  then have nb: "nb \<le> 7" unfolding assms(1) by simp
  then show "nb \<le> 256" by simp
  have "unat (of_nat (nb * 512) :: u32) = nb * 512" using nb by (intro unat_of_nat_u32) simp
  then show "pages_of (of_nat (nb * 512)) = 1" using nb by (simp add: pages_of_def real_size_def)
qed

lemma ext2_read_inode_ok:
  fixes s :: "'a kheap_state_scheme"
  assumes mt: "mounted io img dk" and heap: "kblocks s B" "fs_loaded B dk i (kmem s)"
    and ipg: "s_inodes_per_group (kmem s) (d_sb dk) \<noteq> 0"
    and isz: "isz = unat (s_inode_size (kmem s) (d_sb dk))" "isz \<le> 128" and pos: "inode_pos dk i (kmem s) + isz < 2 ^ 31"
    and bud: "budget (pages_of 128 + (1 + k)) s"
  shows "\<exists>x s'. ext2_read_inode io dk i s = Some (Inr (of_nat (fst x), s')) \<and> kblocks s' (insert x B) \<and> x \<notin> B
    \<and> 128 \<le> snd x \<and> (\<forall>j < isz. kmem s' (of_nat (fst x + j)) = inode_bytes img dk i (kmem s) ! j)
    \<and> same_data B (kmem s) (kmem s') \<and> kheap_state.more s' = kheap_state.more s \<and> budget k s'"
proof -
  let ?p = "inode_pos dk i (kmem s)"
  have hw: "ata_reads (fst io) img" "status_ready (snd io)" "d_device dk = 0 \<or> d_device dk = 1" using mt by (auto simp: mounted_def)
  define nb where "nb = (?p + isz) div 512 - ?p div 512 + 1"
  have nb: "nb \<le> 256" "pages_of (of_nat (nb * 512)) = 1" using buffer_one_page [OF nb_def] isz(2) by simp_all
  have c: "isz \<le> unat (128 :: u32)" and o': "(?p + isz) div 512 < 2 ^ 28" using isz(2) pos by simp_all
  from alloc_read [OF hw heap(1) c o' nb_def nb(1), of k] bud nb(2) obtain x s1 s' where
    x: "kmalloc 128 s = Some (Inr (of_nat (fst x), s1))" "same_data B (kmem s) (kmem s1)"
      "io_read io (d_device dk) (int ?p) (of_nat (fst x)) (int isz) s1 = Some (Inr (int isz, s'))"
      "kblocks s' (insert x B)" "x \<notin> B" "unat (128 :: u32) \<le> snd x"
      "\<forall>j < isz. kmem s' (of_nat (fst x + j)) = img (nat (d_device dk)) (?p + j)"
      "same_data B (kmem s) (kmem s')" "kheap_state.more s' = kheap_state.more s" "budget k s'"
    by (simp only:) blast
  note keep = fs_loaded_keep [OF x(2) heap(2)]
  have "ext2_read_inode io dk i s = Some (Inr (of_nat (fst x), s'))"
    unfolding ext2_read_inode_def
    using x(1,3) ipg inode_offset_pos [of dk i "kmem s1"] pos by (simp add: Let_def keep isz(1))
  moreover have "kmem s' (of_nat (fst x + j)) = inode_bytes img dk i (kmem s) ! j" if "j < isz" for j
    using x(7) that by (simp add: inode_bytes_def isz(1))
  ultimately show ?thesis using x(4-6,8-10) by (intro exI [of _ x] exI [of _ s']) simp
qed

lemma ext2_file_ok:
  fixes s :: "'a kheap_state_scheme"
  assumes "mounted io img dk" "kblocks s B" "fs_loaded B dk i (kmem s)" "s_inodes_per_group (kmem s) (d_sb dk) \<noteq> 0"
    and "isz = unat (s_inode_size (kmem s) (d_sb dk))" "100 \<le> isz" "isz \<le> 128" "inode_pos dk i (kmem s) + isz < 2 ^ 31"
    and "ino = inode_bytes img dk i (kmem s)" "sz = word_at ino 4" "ib = (\<lambda>k. word_at ino (40 + 4 * k))"
    and "lba = s_lba (kmem s) (d_part dk)" "file_ok (blk_in_range dk lba) (blk_of img dk lba) ib"
    and "budget (pages_of 128 + (1 + (read_file_pages dk sz + bu))) s"
  shows "\<exists>x y s1 s2. ext2_read_inode io dk i s = Some (Inr (of_nat (fst x), s1))
    \<and> ext2_read_file io dk (of_nat (fst x)) s1 = Some (Inr (of_nat (fst y), s2))
    \<and> kblocks s2 (insert y (insert x B)) \<and> x \<notin> B \<and> y \<notin> insert x B \<and> unat sz \<le> snd y
    \<and> (\<forall>j < min (unat sz) (length (file_bytes (blk_of img dk lba) ib)).
          kmem s2 (of_nat (fst y + j)) = file_bytes (blk_of img dk lba) ib ! j)
    \<and> same_data B (kmem s) (kmem s2) \<and> kheap_state.more s2 = kheap_state.more s \<and> budget bu s2"
proof -
  from ext2_read_inode_ok [OF assms(1-5,7,8,14)] obtain x s1 where
    x: "ext2_read_inode io dk i s = Some (Inr (of_nat (fst x), s1))" "kblocks s1 (insert x B)" "x \<notin> B" "128 \<le> snd x"
      "\<And>j. j < isz \<Longrightarrow> kmem s1 (of_nat (fst x + j)) = ino ! j" "same_data B (kmem s) (kmem s1)" "budget (read_file_pages dk sz + bu) s1"
      "kheap_state.more s1 = kheap_state.more s"
    unfolding assms(9) by blast
  have b: "fst x + snd x \<le> 0x40000000" using kblocks_bounds [OF x(2), of "fst x" "snd x"] by simp
  then have "unat (of_nat (fst x) :: u32) = fst x" by (intro unat_of_nat_u32) simp
  then have hx: "held (insert x B) (of_nat (fst x)) 128"
    unfolding held_def using x(4) b by (intro bexI [of _ x]) (auto simp: case_prod_beta)
  have hp: "held (insert x B) (d_part dk) 16" using assms(3) held_mono [of B "d_part dk" 16] by (auto simp: fs_loaded_def)
  have rd: "rd32 (kmem s1) (of_nat (fst x) + of_nat k) = word_at ino k" if "k + 4 \<le> isz" for k
    using x(5) [of k] x(5) [of "k + 1"] x(5) [of "k + 2"] x(5) [of "k + 3"] that by (simp add: rd32_def word_at_def add_ac)
  have sz: "sz = i_size (kmem s1) (of_nat (fst x))" using rd [of 4] assms(6) by (simp add: i_size_def assms(10))
  have "ib k = i_block (kmem s1) (of_nat (fst x)) k" if "k < 15" for k
    using rd [of "40 + 4 * k"] that assms(6) by (simp add: i_block_def assms(11) add_ac)
  then have fb: "file_bytes (blk_of img dk lba) (i_block (kmem s1) (of_nat (fst x))) = file_bytes (blk_of img dk lba) ib"
    "file_ok (blk_in_range dk lba) (blk_of img dk lba) (i_block (kmem s1) (of_nat (fst x)))"
    using file_cong [of "i_block (kmem s1) (of_nat (fst x))" ib] assms(13) by simp_all
  have lba: "lba = s_lba (kmem s1) (d_part dk)" unfolding assms(12) using fs_loaded_keep(1) [OF x(6) assms(3)] by simp
  from ext2_read_file_ok [OF assms(1) x(2) hp hx lba sz refl fb(2) x(7)] obtain y s2 where
    y: "ext2_read_file io dk (of_nat (fst x)) s1 = Some (Inr (of_nat (fst y), s2))" "kblocks s2 (insert y (insert x B))"
      "y \<notin> insert x B" "unat sz \<le> snd y" "\<forall>j < min (unat sz) (length (file_bytes (blk_of img dk lba) ib)).
          kmem s2 (of_nat (fst y + j)) = file_bytes (blk_of img dk lba) ib ! j" "same_data (insert x B) (kmem s1) (kmem s2)"
      "kheap_state.more s2 = kheap_state.more s1" "budget bu s2"
    unfolding fb(1) by blast
  have "same_data B (kmem s) (kmem s2)" by (rule same_data_trans [OF x(6) same_data_mono [OF y(6)]]) blast
  with x(1,3,8) y show ?thesis by (intro exI [of _ x] exI [of _ y] exI [of _ s1] exI [of _ s2]) simp
qed

section \<open>Properties\<close>

text \<open>From an inode number to the bytes of the file: reading the inode and then its file returns, and the
  buffer of the size in the inode holds the blocks of the file in their order (the direct blocks, then those
  behind the three levels of indirection), cut at the size. Nothing else in the heap changes, and only the
  inode and the file stay allocated. The inode on the disk has 100 to 128 bytes, all blocks of the file end
  below 2 GiB, and the heap has room for the buffers.\<close>

theorem ext2_file_contents:
  fixes s :: "'a kheap_state_scheme"
  assumes "mounted io img dk" "kblocks s B" "fs_loaded B dk i (kmem s)" "s_inodes_per_group (kmem s) (d_sb dk) \<noteq> 0"
    and "isz = unat (s_inode_size (kmem s) (d_sb dk))" "100 \<le> isz" "isz \<le> 128" "inode_pos dk i (kmem s) + isz < 2 ^ 31"
    and "ino = inode_bytes img dk i (kmem s)" "sz = word_at ino 4" "ib = (\<lambda>k. word_at ino (40 + 4 * k))"
    and "lba = s_lba (kmem s) (d_part dk)" "file_ok (blk_in_range dk lba) (blk_of img dk lba) ib"
    and "budget (pages_of 128 + (1 + read_file_pages dk sz)) s"
  shows "\<exists>x y s1 s2. ext2_read_inode io dk i s = Some (Inr (of_nat (fst x), s1))
    \<and> ext2_read_file io dk (of_nat (fst x)) s1 = Some (Inr (of_nat (fst y), s2))
    \<and> kblocks s2 (insert y (insert x B)) \<and> x \<notin> B \<and> y \<notin> insert x B \<and> unat sz \<le> snd y
    \<and> (\<forall>j < min (unat sz) (length (file_bytes (blk_of img dk lba) ib)).
          kmem s2 (of_nat (fst y + j)) = file_bytes (blk_of img dk lba) ib ! j)
    \<and> same_data B (kmem s) (kmem s2)"
  using ext2_file_ok [where bu = 0, unfolded add_0_right, OF assms] by (elim exE conjE, intro exI conjI) assumption+

text \<open>A heap with one block of chosen contents.\<close>

lemma demo_block:
  "\<exists>s :: kheap_state. kblocks s {(0x10000004, 1200)} \<and> (\<forall>k < 1200. kmem s (of_nat (0x10000004 + k)) = f k) \<and> budget 100 s"
proof -
  obtain s0 :: kheap_state where s0: "kheap s0 [(4096, False)]" "unat (kern_heap s0) = heap_base + 4096"
    "1000 \<le> card (frames.free_frames s0)" using demo_kheap_page by blast
  have "\<not> unfit 1204 (4096, False)" "real_size 1200 = 1204" by (simp_all add: unfit_def real_size_def)
  with kmalloc_refines [OF s0(1), of 1200] obtain s1 :: kheap_state where
    s1: "kheap s1 [(1204, True), (2892, False)]" "spent 1204 s0 s1"
    by (auto simp: abs_kmalloc_def ready_def carve_def)
  have k: "kblocks s1 {(0x10000004, 1200)}"
    unfolding kblocks_def by (intro exI [of _ "[(1204, True), (2892, False)]"]) (simp add: s1(1))
  define m where "m = (\<lambda>a. if in_block (of_nat 0x10000004) 1200 a then f (unat a - 0x10000004) else kmem s1 a)"
  let ?s = "s1\<lparr>kmem := m\<rparr>"
  have "agree_outside 0x10000004 (0x10000004 + 1200) (kmem s1) m"
    by (rule agree_outside_block [where b = "of_nat 0x10000004" and c = 1200]) (simp_all add: m_def)
  from kblocks_write [OF k _ this] have "kblocks ?s {(0x10000004, 1200)}" by simp
  moreover have "m (of_nat (0x10000004 + k)) = f k" if "k < 1200" for k
  proof -
    have "unat (of_nat (0x10000004 + k) :: u32) = 0x10000004 + k" using that by (intro unat_of_nat_u32) simp
    moreover have "in_block (of_nat 0x10000004) 1200 (of_nat (0x10000004 + k))"
      using that in_block_nat [of "0x10000004" 1200 "0x10000004 + k"] by simp
    ultimately show ?thesis by (simp only: m_def if_True diff_add_inverse)
  qed
  moreover have "budget 100 ?s"
    using s0(2,3) s1(2) by (simp add: budget_def spent_def growth_def frames.free_frames_def frame_used_def)
  ultimately show ?thesis by (intro exI [of _ ?s]) simp
qed

text \<open>A disk with one file: inode 2 in the second block, its only block is block 3.\<close>

definition demo_img :: "nat \<Rightarrow> nat \<Rightarrow> u8" where
  "demo_img d i = (if i = 1156 then 5 else if i = 1192 then 3 else if 3072 \<le> i then of_nat i else 0)"

definition demo_fs :: "nat \<Rightarrow> u8" where
  "demo_fs k = (if k = 56 then 8 else if k = 104 then 128 else if k = 1048 then 1 else 0)"

definition demo_disk :: disk where
  "demo_disk = \<lparr>d_device = 0, d_part = 0x10000004, d_sb = 0x10000014, d_blocksize = 1024, d_groups = 1, d_gd = 0x10000414\<rparr>"

theorem ext2_file_contents_witness:
  "\<exists>(s :: kheap_state) (x :: nat \<times> nat) (y :: nat \<times> nat) s1 s2. ext2_read_inode (demo_dev demo_img, \<lambda>_. 8) demo_disk 2 s = Some (Inr (of_nat (fst x), s1))
    \<and> ext2_read_file (demo_dev demo_img, \<lambda>_. 8) demo_disk (of_nat (fst x)) s1 = Some (Inr (of_nat (fst y), s2))
    \<and> kmem s2 (of_nat (fst y + 4)) = 4"
proof -
  obtain s :: kheap_state where s: "kblocks s {(0x10000004, 1200)}"
    "\<And>k. k < 1200 \<Longrightarrow> kmem s (of_nat (0x10000004 + k)) = demo_fs k" "budget 100 s"
    using demo_block [of demo_fs] by blast
  have rd: "rd32 (kmem s) (of_nat (0x10000004 + k)) = word_at (map demo_fs [0..<1200]) k" if "k + 4 \<le> 1200" for k
    using s(2) [of k] s(2) [of "k + 1"] s(2) [of "k + 2"] s(2) [of "k + 3"] that
    by (simp add: rd32_def word_at_def add_ac)
  have m: "mounted (demo_dev demo_img, \<lambda>_. 8) demo_img demo_disk"
    using demo_dev_reads [of demo_img] by (simp add: mounted_def demo_disk_def status_ready_def)
  have lba: "s_lba (kmem s) (d_part demo_disk) = 0" and ipg: "s_inodes_per_group (kmem s) (d_sb demo_disk) = 8"
    using rd [of 8] rd [of 56] by (simp_all add: s_lba_def s_inodes_per_group_def demo_disk_def word_at_def demo_fs_def)
  have isz: "s_inode_size (kmem s) (d_sb demo_disk) = 128"
    using s(2) [of 104] s(2) [of 105] by (simp add: s_inode_size_def rd16_def demo_disk_def demo_fs_def)
  have gr: "inode_group demo_disk 2 (kmem s) = 0" by (simp add: inode_group_def ipg)
  have tab: "bg_inode_table (kmem s) (d_gd demo_disk) 0 = 1"
    using rd [of 1048] by (simp add: bg_inode_table_def demo_disk_def word_at_def demo_fs_def)
  have pos: "inode_pos demo_disk 2 (kmem s) = 1152"
    unfolding inode_pos_def gr tab lba ipg isz by (simp add: demo_disk_def)
  have ld: "fs_loaded {(0x10000004, 1200)} demo_disk 2 (kmem s)"
    unfolding fs_loaded_def gr held_def by (simp add: demo_disk_def)
  let ?ino = "inode_bytes demo_img demo_disk 2 (kmem s)"
  have ino: "?ino ! k = demo_img 0 (1152 + k)" if "k < 128" for k
    using that unfolding inode_bytes_def pos isz by (simp add: demo_disk_def)
  have w4: "word_at ?ino 4 = 5" by (simp add: word_at_def ino demo_img_def)
  have w40: "word_at ?ino (40 + 4 * k) = (if k = 0 then 3 else 0)" if "k < 15" for k
    using that by (auto simp: word_at_def ino demo_img_def)
  let ?ib = "\<lambda>k. word_at ?ino (40 + 4 * k)" and ?blk = "blk_of demo_img demo_disk 0"
  have es: "takeWhile (\<lambda>b. b \<noteq> 0) (map ?ib [0..<12]) = [3]" 
  proof -
    have "map ?ib [0..<12] = map (\<lambda>k. if k = 0 then 3 else 0) [0..<12]" by (rule map_cong [OF refl]) (use w40 in simp)
    then show ?thesis by (simp add: upt_rec)
  qed
  have w: "?ib 12 = 0" "?ib 13 = 0" "?ib 14 = 0" by (subst w40; simp)+
  have fb: "file_bytes ?blk ?ib = ?blk 3" "file_ok (blk_in_range demo_disk 0) ?blk ?ib"
    unfolding file_bytes_def file_ok_def es w by (simp_all add: blk_in_range_def demo_disk_def)
  have b4: "?blk 3 ! 4 = 4" "length (?blk 3) = 1024"
    by (simp_all add: blk_of_def block_bytes_def demo_disk_def demo_img_def)
  have "read_file_pages demo_disk 5 = 6" "pages_of 128 = 1"
    by (simp_all add: read_file_pages_def pages_of_def real_size_def demo_disk_def blk_request_def)
  then have bud: "budget (pages_of 128 + (1 + read_file_pages demo_disk (word_at ?ino 4))) s"
    using budget_mono [OF s(3), of 8] by (simp add: w4)
  note contents = ext2_file_contents [OF m s(1) ld _ refl _ _ _ refl refl refl refl _ bud]
  have "\<exists>x y s1 s2. ext2_read_inode (demo_dev demo_img, \<lambda>_. 8) demo_disk 2 s = Some (Inr (of_nat (fst x), s1))
    \<and> ext2_read_file (demo_dev demo_img, \<lambda>_. 8) demo_disk (of_nat (fst x)) s1 = Some (Inr (of_nat (fst y), s2))
    \<and> kblocks s2 (insert y (insert x {(0x10000004, 1200)})) \<and> x \<notin> {(0x10000004, 1200)} \<and> y \<notin> insert x {(0x10000004, 1200)}
    \<and> unat (word_at ?ino 4) \<le> snd y
    \<and> (\<forall>j < min (unat (word_at ?ino 4)) (length (file_bytes (blk_of demo_img demo_disk (s_lba (kmem s) (d_part demo_disk))) ?ib)).
          kmem s2 (of_nat (fst y + j)) = file_bytes (blk_of demo_img demo_disk (s_lba (kmem s) (d_part demo_disk))) ?ib ! j)
    \<and> same_data {(0x10000004, 1200)} (kmem s) (kmem s2)"
    by (rule contents) (use fb(2) in \<open>simp_all add: ipg isz pos lba\<close>)
  then obtain x y :: "nat \<times> nat" and s1 s2 where "ext2_read_inode (demo_dev demo_img, \<lambda>_. 8) demo_disk 2 s = Some (Inr (of_nat (fst x), s1))"
    "ext2_read_file (demo_dev demo_img, \<lambda>_. 8) demo_disk (of_nat (fst x)) s1 = Some (Inr (of_nat (fst y), s2))"
    "\<forall>j < min (unat (5 :: u32)) 1024. kmem s2 (of_nat (fst y + j)) = ?blk 3 ! j"
    unfolding lba fb(1) b4(2) w4 by (elim exE conjE) (rule that, assumption+)
  moreover from this(3) [rule_format, of 4] have "kmem s2 (of_nat (fst y + 4)) = 4" by (simp add: b4(1))
  ultimately show ?thesis by (intro exI conjI)
qed

end
