(* ===== verification/Linked_List.thy ===== *)
theory Linked_List
  imports Prelude
begin

text \<open>
  The circular doubly linked lists of \<^verbatim>\<open>kern/list.h\<close>. A \<open>struct list_head\<close> lives at an address; the
  two fields are two maps from addresses to addresses, so that aliasing between nodes is explicit.
  The representation predicate \<open>dlist\<close> relates the pointers to a HOL list, the locale \<open>list_impl\<close>
  states what the users of the lists rely on, and its interpretation shows that the pointer code
  provides it. The other components then keep their lists as HOL lists.
\<close>

section \<open>The code\<close>

record list_store =
  next_of :: "u32 \<Rightarrow> u32"
  prev_of :: "u32 \<Rightarrow> u32"

definition set_next :: "u32 \<Rightarrow> u32 \<Rightarrow> list_store \<Rightarrow> list_store" where
  "set_next p v s = s\<lparr>next_of := (next_of s)(p := v)\<rparr>"

definition set_prev :: "u32 \<Rightarrow> u32 \<Rightarrow> list_store \<Rightarrow> list_store" where
  "set_prev p v s = s\<lparr>prev_of := (prev_of s)(p := v)\<rparr>"

definition INIT_LIST_HEAD :: "u32 \<Rightarrow> list_store \<Rightarrow> list_store" where
  "INIT_LIST_HEAD l s = set_prev l l (set_next l l s)"

definition list_add :: "u32 \<Rightarrow> u32 \<Rightarrow> list_store \<Rightarrow> list_store" where
  "list_add new head s =
     (let s1 = set_next new (next_of s head) s;
          s2 = set_prev new head s1;
          s3 = set_prev (next_of s2 head) new s2
      in set_next head new s3)"

definition list_del :: "u32 \<Rightarrow> list_store \<Rightarrow> list_store" where
  "list_del p s =
     (let s1 = set_prev (next_of s p) (prev_of s p) s;
          s2 = set_next (prev_of s1 p) (next_of s1 p) s1;
          s3 = set_next p 0 s2
      in set_prev p 0 s3)"

definition list_empty :: "u32 \<Rightarrow> list_store \<Rightarrow> bool" where
  "list_empty head s \<longleftrightarrow> next_of s head = head"

text \<open>
  \<open>list_for_each (p, head)\<close> with a body that only looks: the nodes it visits, in order.
  \<open>None\<close> when the walk never comes back to \<open>head\<close>.
\<close>

partial_function (option) list_for_each :: "list_store \<Rightarrow> u32 \<Rightarrow> u32 \<Rightarrow> u32 list option" where
  "list_for_each s head p =
     (if p = head then Some []
      else Option.bind (list_for_each s head (next_of s p)) (\<lambda>r. Some (p # r)))"

text \<open>
  \<open>list_for_each_safe (p, n, head)\<close>: the successor is read before the body runs on \<open>p\<close>. The state
  that the body transforms holds the store (\<open>store\<close>) and whatever else the body changes.
\<close>

partial_function (option) list_for_each_safe ::
  "('s \<Rightarrow> list_store) \<Rightarrow> (u32 \<Rightarrow> 's \<Rightarrow> 's) \<Rightarrow> u32 \<Rightarrow> u32 \<Rightarrow> u32 \<Rightarrow> 's \<Rightarrow> 's option" where
  "list_for_each_safe store body head p n s =
     (if p = head then Some s
      else let s' = body p s in list_for_each_safe store body head n (next_of (store s') n) s')"

section \<open>Representation\<close>

fun links :: "list_store \<Rightarrow> u32 \<Rightarrow> u32 list \<Rightarrow> u32 \<Rightarrow> bool" where
  "links s a [] h \<longleftrightarrow> next_of s a = h \<and> prev_of s h = a"
| "links s a (x # xs) h \<longleftrightarrow> next_of s a = x \<and> prev_of s x = a \<and> links s x xs h"

definition dlist :: "list_store \<Rightarrow> u32 \<Rightarrow> u32 list \<Rightarrow> bool" where
  "dlist s h xs \<longleftrightarrow> distinct (h # xs) \<and> links s h xs h"

lemma set_next_sel [simp, mem_simps]:
  "next_of (set_next p v s) = (next_of s)(p := v)" "prev_of (set_next p v s) = prev_of s"
  by (simp_all add: set_next_def)

lemma set_prev_sel [simp, mem_simps]:
  "prev_of (set_prev p v s) = (prev_of s)(p := v)" "next_of (set_prev p v s) = next_of s"
  by (simp_all add: set_prev_def)

lemma links_append: "links s a (xs @ y # ys) h \<longleftrightarrow> links s a xs y \<and> links s y ys h"
  by (induction xs arbitrary: a) auto

lemma links_cong:
  "(\<And>x. x \<in> set (a # xs) \<Longrightarrow> next_of s x = next_of s' x) \<Longrightarrow>
   (\<And>x. x \<in> set (xs @ [h]) \<Longrightarrow> prev_of s x = prev_of s' x) \<Longrightarrow>
   links s a xs h = links s' a xs h"
  by (induction xs arbitrary: a) auto

lemma links_prev_last: "links s a xs h \<Longrightarrow> prev_of s h = last (a # xs)"
  by (induction xs arbitrary: a) auto

lemma links_next_hd: "links s a xs h \<Longrightarrow> next_of s a = hd (xs @ [h])"
  by (cases xs) auto

lemma list_add_sel:
  "next_of (list_add new head s) = (next_of s)(new := next_of s head, head := new)"
  if "new \<noteq> head"
  using that by (simp add: list_add_def Let_def)

lemma list_add_prev_sel:
  "prev_of (list_add new head s) = (prev_of s)(new := head, next_of s head := new)"
  if "new \<noteq> head"
  using that by (simp add: list_add_def Let_def)

lemma list_del_sel:
  "next_of (list_del p s) =
     (next_of s)(prev_of s p := next_of s p, p := 0)"
  "prev_of (list_del p s) = (prev_of s)(next_of s p := prev_of s p, p := 0)"
  by (simp_all add: list_del_def Let_def)

lemma dlist_INIT: "dlist (INIT_LIST_HEAD h s) h []"
  by (simp add: dlist_def INIT_LIST_HEAD_def)

lemma dlist_empty: "dlist s h xs \<Longrightarrow> list_empty h s \<longleftrightarrow> xs = []"
  by (cases xs) (auto simp: dlist_def list_empty_def)

lemma dlist_list_add:
  assumes "dlist s h xs" "new \<notin> set (h # xs)"
  shows "dlist (list_add new h s) h (new # xs)"
proof -
  let ?s = "list_add new h s"
  from assms have ne: "new \<noteq> h" by auto
  have "links ?s new xs h"
  proof (cases xs)
    case Nil
    with assms ne show ?thesis by (simp add: dlist_def list_add_sel list_add_prev_sel)
  next
    case (Cons x ys)
    with assms have nx: "next_of s h = x" and l: "links s x ys h" and d: "distinct (h # x # ys)"
      by (auto simp: dlist_def)
    have "links ?s x ys h = links s x ys h"
      using assms Cons d ne nx by (intro links_cong) (auto simp: list_add_sel list_add_prev_sel)
    with l nx ne Cons show ?thesis
      using d assms by (auto simp: list_add_sel list_add_prev_sel)
  qed
  moreover from ne assms have "next_of ?s h = new" by (simp add: list_add_sel)
  moreover have "prev_of ?s new = h"
    using assms ne by (cases xs) (auto simp: list_add_prev_sel dlist_def)
  ultimately show ?thesis
    using assms by (auto simp: dlist_def)
qed

lemma links_retarget:
  assumes "links s a xs c"
    and "\<And>x. x \<in> set (butlast (a # xs)) \<Longrightarrow> next_of s' x = next_of s x"
    and "\<And>x. x \<in> set xs \<Longrightarrow> prev_of s' x = prev_of s x"
    and "next_of s' (last (a # xs)) = d" "prev_of s' d = last (a # xs)"
  shows "links s' a xs d"
  using assms
proof (induction xs arbitrary: a)
  case (Cons x xs)
  have "links s' x xs d"
    using Cons.prems by (intro Cons.IH) (auto split: if_splits)
  with Cons.prems show ?case by auto
qed simp

lemma dlist_list_del:
  assumes "dlist s h (xs @ p # ys)"
  shows "dlist (list_del p s) h (xs @ ys)"
proof -
  let ?s = "list_del p s"
  define a where "a = last (h # xs)"
  define b where "b = hd (ys @ [h])"
  from assms have d: "distinct (h # xs @ p # ys)"
    and l1: "links s h xs p" and l2: "links s p ys h"
    by (auto simp: dlist_def links_append)
  have "prev_of s p = a" "next_of s p = b"
    using l1 l2 by (auto simp: a_def b_def dest: links_prev_last links_next_hd)
  then have sel: "next_of ?s = (next_of s)(a := b, p := 0)" "prev_of ?s = (prev_of s)(b := a, p := 0)"
    by (simp_all add: list_del_sel)
  have ab: "a \<in> set (h # xs)" "b \<in> set (ys @ [h])"
    by (auto simp: a_def b_def hd_append)
  have fwd: "links ?s h xs b"
  proof (rule links_retarget [OF l1])
    fix x assume "x \<in> set (butlast (h # xs))"
    then have "x \<noteq> last (h # xs)"
      using d distinct_butlast [of "h # xs"] append_butlast_last_id [of "h # xs"]
      by (metis distinct.simps(2) distinct_append distinct_butlast not_distinct_conv_prefix
          list.distinct(1) append_Cons append.assoc)
    moreover from \<open>x \<in> set (butlast (h # xs))\<close> have "x \<in> set (h # xs)" by (rule in_set_butlastD)
    ultimately show "next_of ?s x = next_of s x" using d by (auto simp: sel a_def)
  qed (use d ab in \<open>auto simp: sel a_def\<close>)
  show ?thesis
  proof (cases ys)
    case Nil
    with fwd d show ?thesis by (auto simp: dlist_def b_def)
  next
    case (Cons y zs)
    then have "links ?s y zs h = links s y zs h"
      using d ab by (intro links_cong) (auto simp: sel b_def)
    with l2 fwd Cons d show ?thesis by (auto simp: dlist_def links_append b_def)
  qed
qed

text \<open>An operation on one list does not disturb a list with no node in common.\<close>

lemma dlist_list_add_other:
  assumes "dlist s h xs" "dlist s k ys" "set (h # xs) \<inter> set (k # ys) = {}" "new \<notin> set (k # ys)" "new \<noteq> h"
  shows "dlist (list_add new h s) k ys"
proof -
  have "next_of s h \<in> set (h # xs)" using assms(1) by (cases xs) (auto simp: dlist_def)
  then have "links (list_add new h s) k ys k = links s k ys k"
    using assms by (intro links_cong) (auto simp: list_add_sel list_add_prev_sel)
  with assms show ?thesis by (simp add: dlist_def)
qed

lemma dlist_list_del_other:
  assumes "dlist s h (xs @ p # ys)" "dlist s k zs" "set (h # xs @ p # ys) \<inter> set (k # zs) = {}"
  shows "dlist (list_del p s) k zs"
proof -
  have "links s h xs p" "links s p ys h" using assms by (auto simp: dlist_def links_append)
  then have "prev_of s p = last (h # xs)" "next_of s p = hd (ys @ [h])"
    by (blast dest: links_prev_last links_next_hd)+
  then have "prev_of s p \<in> set (h # xs)" "next_of s p \<in> set (ys @ [h])"
    by (auto simp: hd_append)
  then have "links (list_del p s) k zs k = links s k zs k"
    using assms by (intro links_cong) (auto simp: list_del_sel)
  with assms show ?thesis by (simp add: dlist_def)
qed

section \<open>Iteration\<close>

lemma list_for_each_links:
  "links s a xs h \<Longrightarrow> distinct (h # xs) \<Longrightarrow> list_for_each s h (next_of s a) = Some xs"
proof (induction xs arbitrary: a)
  case Nil
  then show ?case by (subst list_for_each.simps) simp
next
  case (Cons x xs)
  then show ?case by (subst list_for_each.simps) auto
qed

lemma list_for_each_dlist: "dlist s h xs \<Longrightarrow> list_for_each s h (next_of s h) = Some xs"
  by (simp add: dlist_def list_for_each_links)

text \<open>
  The safe iteration runs its body on every node in list order and ends, provided the body on a node
  unlinks that node and leaves the rest of the list as it is. \<open>I todo s\<close> is the loop invariant.
\<close>

lemma list_for_each_safe_fold:
  assumes step: "\<And>p ps s. I (p # ps) s \<Longrightarrow> I ps (body p s)"
    and rep: "\<And>ps s. I ps s \<Longrightarrow> dlist (store s) h ps"
    and I: "I ps s"
  shows "list_for_each_safe store body h (next_of (store s) h)
           (next_of (store s) (next_of (store s) h)) s = Some (fold body ps s)
         \<and> I [] (fold body ps s)"
  using I
proof (induction ps arbitrary: s)
  case Nil
  with rep have "dlist (store s) h []" by blast
  with Nil show ?case by (subst list_for_each_safe.simps) (simp add: dlist_def)
next
  case (Cons p ps)
  have d: "dlist (store s) h (p # ps)" and d': "dlist (store (body p s)) h ps"
    using rep Cons.prems step by blast+
  have "next_of (store s) h = p" "p \<noteq> h" and n: "next_of (store s) p = hd (ps @ [h])"
    using d by (cases ps; auto simp: dlist_def)+
  moreover have "next_of (store (body p s)) h = hd (ps @ [h])"
    using d' by (cases ps) (auto simp: dlist_def)
  ultimately show ?case
    using Cons.IH [of "body p s"] step [OF Cons.prems]
    by (subst list_for_each_safe.simps) (simp add: Let_def)
qed

lemma list_drain:
  assumes "dlist s h xs"
  shows "list_for_each_safe (\<lambda>s. s) list_del h (next_of s h) (next_of s (next_of s h)) s
           = Some (fold list_del xs s)"
    and "dlist (fold list_del xs s) h []"
proof -
  have "list_for_each_safe (\<lambda>s. s) list_del h (next_of s h) (next_of s (next_of s h)) s
           = Some (fold list_del xs s) \<and> dlist (fold list_del xs s) h []"
    using assms dlist_list_del [where xs = "[]"]
    by (intro list_for_each_safe_fold [where I = "\<lambda>ps s. dlist s h ps"]) auto
  then show "list_for_each_safe (\<lambda>s. s) list_del h (next_of s h) (next_of s (next_of s h)) s
           = Some (fold list_del xs s)" "dlist (fold list_del xs s) h []"
    by blast+
qed

definition list_move :: "u32 \<Rightarrow> u32 \<Rightarrow> list_store \<Rightarrow> list_store" where
  "list_move k p s = list_add p k (list_del p s)"

lemma list_move_step:
  assumes "dlist s h (p # ps)" "dlist s k ys" "set (h # p # ps) \<inter> set (k # ys) = {}"
  shows "dlist (list_move k p s) h ps" "dlist (list_move k p s) k (p # ys)"
proof -
  have h: "dlist (list_del p s) h ps" using dlist_list_del [where xs = "[]"] assms(1) by simp
  have k: "dlist (list_del p s) k ys"
    using dlist_list_del_other [where xs = "[]"] assms by simp
  show "dlist (list_move k p s) k (p # ys)"
    using assms unfolding list_move_def by (intro dlist_list_add k) auto
  show "dlist (list_move k p s) h ps"
    using assms h unfolding list_move_def
    by (intro dlist_list_add_other [OF k h]) (auto simp: dlist_def)
qed

lemma list_move_all:
  assumes "dlist s h xs" "dlist s k ys" "set (h # xs) \<inter> set (k # ys) = {}"
  shows "list_for_each_safe (\<lambda>s. s) (list_move k) h (next_of s h) (next_of s (next_of s h)) s
           = Some (fold (list_move k) xs s)"
    and "dlist (fold (list_move k) xs s) h []"
    and "dlist (fold (list_move k) xs s) k (rev xs @ ys)"
proof -
  let ?I = "\<lambda>ps s. \<exists>vs. xs = vs @ ps \<and> dlist s h ps \<and> dlist s k (rev vs @ ys)"
  have step: "?I ps (list_move k p s)" if "?I (p # ps) s" for p ps s
  proof -
    from that obtain vs where dn: "xs = vs @ p # ps" "dlist s h (p # ps)" "dlist s k (rev vs @ ys)"
      by blast
    then have "set (h # p # ps) \<inter> set (k # rev vs @ ys) = {}"
      using assms by (auto simp: dlist_def)
    from list_move_step [OF dn(2,3) this] dn(1) show ?thesis
      by (intro exI [of _ "vs @ [p]"]) simp
  qed
  have "list_for_each_safe (\<lambda>s. s) (list_move k) h (next_of s h) (next_of s (next_of s h)) s
           = Some (fold (list_move k) xs s) \<and> ?I [] (fold (list_move k) xs s)"
    using assms by (intro list_for_each_safe_fold [where I = ?I, OF step]) auto
  then show "list_for_each_safe (\<lambda>s. s) (list_move k) h (next_of s h) (next_of s (next_of s h)) s
           = Some (fold (list_move k) xs s)"
    "dlist (fold (list_move k) xs s) h []" "dlist (fold (list_move k) xs s) k (rev xs @ ys)"
    by auto
qed

section \<open>The interface the other components rely on\<close>

text \<open>A sequence of insertions and removals, on HOL lists and through an implementation.\<close>

datatype list_op = Add u32 | Del u32

primrec abs_op :: "list_op \<Rightarrow> u32 list \<Rightarrow> u32 list" where
  "abs_op (Add x) xs = x # xs"
| "abs_op (Del x) xs = remove1 x xs"

primrec exec_op :: "(u32 \<Rightarrow> u32 \<Rightarrow> 's \<Rightarrow> 's) \<Rightarrow> (u32 \<Rightarrow> 's \<Rightarrow> 's) \<Rightarrow> u32 \<Rightarrow> list_op \<Rightarrow> 's \<Rightarrow> 's" where
  "exec_op add del h (Add x) s = add x h s"
| "exec_op add del h (Del x) s = del x s"

fun ops_ok :: "u32 \<Rightarrow> list_op list \<Rightarrow> u32 list \<Rightarrow> bool" where
  "ops_ok h [] xs = True"
| "ops_ok h (Add x # ops) xs = (x \<noteq> h \<and> x \<notin> set xs \<and> ops_ok h ops (x # xs))"
| "ops_ok h (Del x # ops) xs = (x \<in> set xs \<and> ops_ok h ops (remove1 x xs))"

locale list_impl =
  fixes init :: "u32 \<Rightarrow> 's \<Rightarrow> 's"
    and add :: "u32 \<Rightarrow> u32 \<Rightarrow> 's \<Rightarrow> 's"
    and del :: "u32 \<Rightarrow> 's \<Rightarrow> 's"
    and is_empty :: "u32 \<Rightarrow> 's \<Rightarrow> bool"
    and walk :: "'s \<Rightarrow> u32 \<Rightarrow> u32 list option"
    and rep :: "'s \<Rightarrow> u32 \<Rightarrow> u32 list \<Rightarrow> bool"
  assumes rep_init: "rep (init h s) h []"
    and rep_add: "rep s h xs \<Longrightarrow> x \<notin> set (h # xs) \<Longrightarrow> rep (add x h s) h (x # xs)"
    and rep_del: "rep s h (xs @ x # ys) \<Longrightarrow> rep (del x s) h (xs @ ys)"
    and rep_empty: "rep s h xs \<Longrightarrow> is_empty h s \<longleftrightarrow> xs = []"
    and rep_walk: "rep s h xs \<Longrightarrow> walk s h = Some xs"
    and rep_distinct: "rep s h xs \<Longrightarrow> distinct (h # xs)"
begin

lemma rep_remove1: "rep s h xs \<Longrightarrow> x \<in> set xs \<Longrightarrow> rep (del x s) h (remove1 x xs)"
proof -
  assume r: "rep s h xs" and "x \<in> set xs"
  then obtain ys zs where xs: "xs = ys @ x # zs" "x \<notin> set ys" by (meson split_list_first)
  with r rep_del show ?thesis by (simp add: remove1_append)
qed

lemma rep_ops: "rep s h xs \<Longrightarrow> ops_ok h ops xs \<Longrightarrow>
  rep (fold (exec_op add del h) ops s) h (fold abs_op ops xs)"
proof (induction ops arbitrary: s xs)
  case (Cons op ops)
  then show ?case by (cases op) (auto simp: rep_add rep_remove1)
qed simp

lemma walk_ops: "rep s h xs \<Longrightarrow> ops_ok h ops xs \<Longrightarrow>
  walk (fold (exec_op add del h) ops s) h = Some (fold abs_op ops xs)"
  by (intro rep_walk rep_ops)

end

interpretation klist: list_impl INIT_LIST_HEAD list_add list_del list_empty
  "\<lambda>s h. list_for_each s h (next_of s h)" dlist
  by unfold_locales
    (auto simp: dlist_INIT dlist_list_add dlist_list_del dlist_empty list_for_each_dlist, auto simp: dlist_def)

section \<open>Properties\<close>

text \<open>C34. Any sequence of insertions of fresh nodes and removals of present nodes, run by the pointer
  code on a list, leaves the pointers in the state that represents the list computed on HOL lists, and a
  \<open>list_for_each\<close> over the result ends and visits exactly those nodes in that order.\<close>

theorem list_ops_refine:
  assumes "dlist s h xs" "ops_ok h ops xs"
  shows "dlist (fold (exec_op list_add list_del h) ops s) h (fold abs_op ops xs)
    \<and> list_for_each (fold (exec_op list_add list_del h) ops s) h
        (next_of (fold (exec_op list_add list_del h) ops s) h) = Some (fold abs_op ops xs)"
  using klist.rep_ops [OF assms] klist.walk_ops [OF assms] by simp

definition demo_list :: list_store where
  "demo_list = INIT_LIST_HEAD 100 \<lparr>next_of = (\<lambda>_. 0), prev_of = (\<lambda>_. 0)\<rparr>"

lemma demo_list_dlist: "dlist demo_list 100 []"
  by (simp add: demo_list_def dlist_INIT)

theorem list_ops_refine_witness:
  "dlist demo_list 100 [] \<and> ops_ok 100 [Add 4, Add 8, Add 12, Del 8] []
    \<and> dlist (fold (exec_op list_add list_del 100) [Add 4, Add 8, Add 12, Del 8] demo_list) 100 [12, 4]"
  using list_ops_refine [of demo_list 100 "[]" "[Add 4, Add 8, Add 12, Del 8]"] demo_list_dlist by simp

text \<open>C35. The loop of \<open>pd_destroy\<close> and \<open>sys_exit\<close> that unlinks each node with \<open>list_del\<close> inside
  \<open>list_for_each_safe\<close> ends, has run \<open>list_del\<close> once on every node in order, and leaves the list
  empty.\<close>

theorem list_drain_empties:
  assumes "dlist s h xs"
  shows "\<exists>s'. list_for_each_safe (\<lambda>s. s) list_del h (next_of s h) (next_of s (next_of s h)) s = Some s'
    \<and> s' = fold list_del xs s \<and> dlist s' h [] \<and> list_empty h s'"
  using list_drain [OF assms] dlist_empty by blast

theorem list_drain_empties_witness:
  "dlist (list_add 8 100 (list_add 4 100 demo_list)) 100 [8, 4]
    \<and> (\<exists>s'. list_for_each_safe (\<lambda>s. s) list_del 100 8 4 (list_add 8 100 (list_add 4 100 demo_list)) = Some s'
        \<and> list_empty 100 s')"
proof -
  let ?s = "list_add 8 100 (list_add 4 100 demo_list)"
  have d: "dlist ?s 100 [8, 4]" by (intro dlist_list_add demo_list_dlist) simp_all
  then have "next_of ?s 100 = 8" "next_of ?s 8 = 4" by (simp_all add: dlist_def)
  with list_drain_empties [OF d] d show ?thesis by auto
qed

text \<open>The loop of \<open>sys_exit\<close> that moves every node of one list (the children of the exiting process)
  to another (the children of its parent) with \<open>list_del\<close> and \<open>list_add\<close> inside \<open>list_for_each_safe\<close>
  ends, empties the first list and puts its nodes, in reverse order, in front of the second.\<close>

theorem list_move_moves_all:
  assumes "dlist s h xs" "dlist s k ys" "set (h # xs) \<inter> set (k # ys) = {}"
  shows "\<exists>s'. list_for_each_safe (\<lambda>s. s) (list_move k) h (next_of s h) (next_of s (next_of s h)) s = Some s'
    \<and> dlist s' h [] \<and> dlist s' k (rev xs @ ys)"
  using list_move_all [OF assms] by blast

theorem list_move_moves_all_witness:
  "\<exists>s'. list_for_each_safe (\<lambda>s. s) (list_move 200) 100 4 100
      (list_add 4 100 (INIT_LIST_HEAD 200 demo_list)) = Some s' \<and> dlist s' 200 [4]"
proof -
  let ?t = "INIT_LIST_HEAD 200 demo_list"
  have "links ?t 100 [] 100" by (simp add: demo_list_def INIT_LIST_HEAD_def)
  then have t: "dlist ?t 100 []" "dlist ?t 200 []" by (simp_all add: dlist_def dlist_INIT INIT_LIST_HEAD_def)
  have d: "dlist (list_add 4 100 ?t) 100 [4]" using dlist_list_add [OF t(1)] by simp
  have k: "dlist (list_add 4 100 ?t) 200 []" by (rule dlist_list_add_other [OF t]) simp_all
  have "next_of (list_add 4 100 ?t) 100 = 4" "next_of (list_add 4 100 ?t) 4 = 100"
    using d by (simp_all add: dlist_def)
  with list_move_moves_all [OF d k] show ?thesis by auto
qed

end
