(* ===== verification/Page_Heap.thy ===== *)
theory Page_Heap
  imports Kmalloc Linked_List
begin

text \<open>
  The rest of \<^verbatim>\<open>kern/mm.c\<close>: \<open>init_mm\<close>, the heap of kernel pages (\<open>get_page_from_heap\<close>,
  \<open>release_page_from_heap\<close>) over the sorted list \<open>kern_free_vm\<close> of free virtual ranges, and the page
  directories of processes (\<open>pd_create\<close>, \<open>pd_destroy\<close>, \<open>pd_add_page\<close>). The fields of the kernel's
  structures are maps from the address of the structure; the links are the store of theory
  \<open>Linked_List\<close>, keyed by the address of the \<open>list_head\<close> (8 bytes into \<open>vm_area\<close> and \<open>page\<close>).
\<close>

section \<open>State\<close>

record vm_state = kheap_state +
  vm_start :: "u32 \<Rightarrow> u32"
  vm_end :: "u32 \<Rightarrow> u32"
  pg_v_addr :: "u32 \<Rightarrow> u32"
  pg_p_addr :: "u32 \<Rightarrow> u32"
  pd_base :: "u32 \<Rightarrow> u32"
  lists :: list_store
  kern_free_vm :: u32

text \<open>\<open>kern_free_vm\<close> is the address of the global list head. The three structures have 16, 16 and 12
  bytes; \<open>pt\<close> is 4 bytes into \<open>page_directory\<close>.\<close>

abbreviation (input) KERN_PG_HEAP :: u32 where "KERN_PG_HEAP \<equiv> 0x800000"
abbreviation (input) KERN_PG_HEAP_LIM :: u32 where "KERN_PG_HEAP_LIM \<equiv> 0x10000000"

section \<open>Pages of the kernel\<close>

definition get_page_from_heap :: "'a vm_state_scheme \<Rightarrow> (u32 \<times> 'a vm_state_scheme) out" where
  "get_page_from_heap s =
     (case get_page_frame s of (p_addr, s1) \<Rightarrow>
        if p_addr < 0 then Some (Inl Halt)
        else if list_empty (kern_free_vm s1) (lists s1) then Some (Inl Halt)
        else let area = next_of (lists s1) (kern_free_vm s1) - 8;
                 v_addr = vm_start s1 area;
                 s2 = s1\<lparr>vm_start := (vm_start s1)(area := v_addr + PAGESIZE)\<rparr>
             in bind_out
                  (if vm_start s2 area = vm_end s2 area
                   then kfree area (s2\<lparr>lists := list_del (area + 8) (lists s2)\<rparr>)
                   else Some (Inr s2)) (\<lambda>s3.
                bind_out (Some (pd0_add_page v_addr p_addr 0 s3)) (\<lambda>s4.
                bind_out (kmalloc 16 s4) (\<lambda>(pg, s5).
                  Some (Inr (pg, s5\<lparr>pg_v_addr := (pg_v_addr s5)(pg := v_addr),
                                     pg_p_addr := (pg_p_addr s5)(pg := p_addr),
                                     lists := set_prev (pg + 8) 0 (set_next (pg + 8) 0 (lists s5))\<rparr>))))))"

text \<open>The search loop of \<open>release_page_from_heap\<close>: the first node whose area starts behind \<open>v_addr\<close>, or
  the list head when there is none.\<close>

partial_function (option) find_area :: "'a vm_state_scheme \<Rightarrow> u32 \<Rightarrow> u32 \<Rightarrow> u32 option" where
  "find_area s v_addr node =
     (if node = kern_free_vm s then Some node
      else if vm_start s (node - 8) > v_addr then Some node
      else find_area s v_addr (next_of (lists s) node))"

text \<open>The last part of \<open>release_page_from_heap\<close>: putting the page back between two areas.\<close>

definition insert_vm :: "u32 \<Rightarrow> u32 \<Rightarrow> u32 \<Rightarrow> 'a vm_state_scheme \<Rightarrow> 'a vm_state_scheme out" where
  "insert_vm v_addr prev_area next_area s =
     (if vm_end s prev_area = v_addr
      then let s1 = s\<lparr>vm_end := (vm_end s)(prev_area := vm_end s prev_area + PAGESIZE)\<rparr>
           in if vm_end s1 prev_area = vm_start s1 next_area
              then kfree next_area
                     (s1\<lparr>vm_end := (vm_end s1)(prev_area := vm_end s1 next_area),
                         lists := list_del (next_area + 8) (lists s1)\<rparr>)
              else Some (Inr s1)
      else if vm_start s next_area = v_addr + PAGESIZE
      then Some (Inr (s\<lparr>vm_start := (vm_start s)(next_area := v_addr)\<rparr>))
      else if vm_start s next_area > v_addr + PAGESIZE
      then bind_out (kmalloc 16 s) (\<lambda>(new_area, s1).
             Some (Inr (s1\<lparr>vm_start := (vm_start s1)(new_area := v_addr),
                           vm_end := (vm_end s1)(new_area := v_addr + PAGESIZE),
                           lists := list_add (new_area + 8) (prev_area + 8) (lists s1)\<rparr>)))
      else Some (Inl Halt))"

definition release_page_from_heap :: "u32 \<Rightarrow> 'a vm_state_scheme \<Rightarrow> (u32 \<times> 'a vm_state_scheme) out" where
  "release_page_from_heap v_addr s =
     bind_out (Some (get_p_addr s v_addr)) (\<lambda>p_addr.
       if p_addr = 0 then Some (Inr (1, s))
       else bind_out (Some (pd_remove_page v_addr (release_page_frame p_addr s))) (\<lambda>s1.
              Option.bind (find_area s1 v_addr (next_of (lists s1) (kern_free_vm s1))) (\<lambda>node.
                bind_out (insert_vm v_addr (prev_of (lists s1) node - 8) (node - 8) s1) (\<lambda>s2.
                  Some (Inr (0, s2))))))"

section \<open>Initialisation\<close>

definition init_mm :: "u32 \<Rightarrow> 'a vm_state_scheme \<Rightarrow> 'a vm_state_scheme out" where
  "init_mm high_mem s =
     (let s1 = init_pd0 (init_bitmap high_mem s);
          s2 = s1\<lparr>kern_heap := KERN_HEAP\<rparr>
      in bind_out (Some (ksbrk 1 s2)) (\<lambda>(_, s3).
         bind_out (kmalloc 16 s3) (\<lambda>(p, s4).
           let s5 = s4\<lparr>vm_start := (vm_start s4)(p := KERN_PG_HEAP),
                       vm_end := (vm_end s4)(p := KERN_PG_HEAP_LIM),
                       lists := INIT_LIST_HEAD (kern_free_vm s4) (lists s4)\<rparr>
           in Some (Inr (s5\<lparr>lists := list_add (p + 8) (kern_free_vm s5) (lists s5)\<rparr>)))))"

section \<open>Page directories\<close>

text \<open>\<open>pd0\<close> is read at its virtual address, which the first 4 MB page maps to itself.\<close>

definition copy_pde :: "u32 \<Rightarrow> nat \<Rightarrow> 'a mmu_state_scheme \<Rightarrow> 'a mmu_state_scheme res" where
  "copy_pde pdir i s =
     bind_res (vread s (KERN_PDIR + 4 * of_nat i)) (\<lambda>w. vwrite (pdir + 4 * of_nat i) w s)"

definition pd_create :: "'a vm_state_scheme \<Rightarrow> (u32 \<times> 'a vm_state_scheme) out" where
  "pd_create s =
     bind_out (kmalloc 12 s) (\<lambda>(pd, s1).
     bind_out (get_page_from_heap s1) (\<lambda>(base, s2).
       let s3 = s2\<lparr>pd_base := (pd_base s2)(pd := base)\<rparr>;
           pdir = pg_v_addr s3 base
       in bind_out (Some (iter_res (copy_pde pdir) [0..<256] s3)) (\<lambda>s4.
          bind_out (Some (iter_res (\<lambda>i. vwrite (pdir + 4 * of_nat i) 0) [256..<1023] s4)) (\<lambda>s5.
          bind_out (Some (vwrite (pdir + 4 * 1023) (pg_p_addr s5 base OR (PG_PRESENT OR PG_WRITE)) s5)) (\<lambda>s6.
            Some (Inr (pd, s6\<lparr>lists := INIT_LIST_HEAD (pd + 4) (lists s6)\<rparr>)))))))"

partial_function (option) pd_destroy_loop ::
    "u32 \<Rightarrow> u32 \<Rightarrow> u32 \<Rightarrow> 'a vm_state_scheme \<Rightarrow> 'a vm_state_scheme out" where
  "pd_destroy_loop head p n s =
     (if p = head then Some (Inr s)
      else let pg = p - 8
           in bind_out (release_page_from_heap (pg_v_addr s pg) s) (\<lambda>(_, s1).
              bind_out (kfree pg (s1\<lparr>lists := list_del p (lists s1)\<rparr>)) (\<lambda>s2.
                pd_destroy_loop head n (next_of (lists s2) n) s2)))"

definition pd_destroy :: "u32 \<Rightarrow> 'a vm_state_scheme \<Rightarrow> (u32 \<times> 'a vm_state_scheme) out" where
  "pd_destroy pd s =
     (let first = next_of (lists s) (pd + 4)
      in bind_out (pd_destroy_loop (pd + 4) first (next_of (lists s) first) s) (\<lambda>s1.
         bind_out (release_page_from_heap (pg_v_addr s1 (pd_base s1 pd)) s1) (\<lambda>(_, s2).
         bind_out (kfree pd s2) (\<lambda>s3. Some (Inr (0, s3))))))"

definition pd_add_page ::
    "u32 \<Rightarrow> u32 \<Rightarrow> u32 \<Rightarrow> u32 \<Rightarrow> 'a vm_state_scheme \<Rightarrow> 'a vm_state_scheme out" where
  "pd_add_page v_addr p_addr flags pd s =
     bind_out (Some (vread s (pde_addr v_addr))) (\<lambda>pde.
     bind_out
       (if pde AND PG_PRESENT = 0
        then bind_out (get_page_from_heap s) (\<lambda>(pg, s1).
             let pt = pg_v_addr s1 pg
             in bind_out (Some (iter_res (\<lambda>i. vwrite (pt + 4 * of_nat i) 0) [1..<1024] s1)) (\<lambda>s2.
                bind_out (Some (vwrite (pde_addr v_addr)
                            (pg_p_addr s2 pg OR (PG_PRESENT OR PG_WRITE OR flags)) s2)) (\<lambda>s3.
                  Some (Inr (if pd \<noteq> 0
                             then s3\<lparr>lists := list_add (pg + 8) (pd + 4) (lists s3)\<rparr>
                             else s3)))))
        else Some (Inr s)) (\<lambda>s4.
     Some (vwrite (pte_addr v_addr) (p_addr OR (PG_PRESENT OR PG_WRITE OR flags)) s4)))"

section \<open>The invariant of the page heap\<close>

definition vm_list :: "'a vm_state_scheme \<Rightarrow> u32 list \<Rightarrow> bool" where
  "vm_list s areas \<longleftrightarrow> dlist (lists s) (kern_free_vm s) (map (\<lambda>a. a + 8) areas)
     \<and> sorted_wrt (\<lambda>a b. vm_end s a < vm_start s b) areas
     \<and> (\<forall>a \<in> set areas. KERN_PG_HEAP \<le> vm_start s a \<and> vm_start s a < vm_end s a \<and> vm_end s a \<le> KERN_PG_HEAP_LIM
          \<and> frame_of (vm_start s a) = vm_start s a \<and> frame_of (vm_end s a) = vm_end s a)"

text \<open>The free virtual pages that a list of areas stands for.\<close>

definition free_vm :: "'a vm_state_scheme \<Rightarrow> u32 list \<Rightarrow> u32 set" where
  "free_vm s areas = {v. frame_of v = v \<and> (\<exists>a \<in> set areas. vm_start s a \<le> v \<and> v < vm_end s a)}"

definition page_inv :: "'a vm_state_scheme \<Rightarrow> (nat \<times> nat) set \<Rightarrow> u32 list \<Rightarrow> bool" where
  "page_inv s B areas \<longleftrightarrow> kblocks s B \<and> kmaps s \<and> vm_list s areas
     \<and> (\<forall>a \<in> set areas. \<exists>n. (unat a, n) \<in> B) \<and> (\<forall>v \<in> free_vm s areas. walk s v = None)
     \<and> unat (kern_free_vm s) < heap_base"

lemma more_fields:
  assumes "kheap_state.more s' = kheap_state.more s"
  shows "vm_start s' = vm_start s" "vm_end s' = vm_end s" "pg_v_addr s' = pg_v_addr s" "pg_p_addr s' = pg_p_addr s"
    "pd_base s' = pd_base s" "lists s' = lists s" "kern_free_vm s' = kern_free_vm s"
  using assms by (cases s; cases s'; simp)+

lemmas grown_fields = more_fields [OF grown_def [THEN iffD1, THEN conjunct1]]

lemma kblocks_bound:
  assumes "kblocks s B" "(p, n) \<in> B"
  shows "heap_base + 4 \<le> p" "p + n \<le> 0x40000000" "12 \<le> n"
proof -
  from assms obtain cs where "chunks (kmem s) heap_base cs (unat (kern_heap s))" "unat (kern_heap s) \<le> 0x40000000"
    "B = used_blocks heap_base cs" by (auto simp: kblocks_def kheap_def)
  with used_blocks_bounds [OF this(1), of p n] assms(2)
  show "heap_base + 4 \<le> p" "p + n \<le> 0x40000000" "12 \<le> n" by auto
qed

lemma kblocks_kspace: "kblocks s B \<Longrightarrow> kspace s"
  by (auto simp: kblocks_def kheap_def)

lemma kblocks_lim: "kblocks s B \<Longrightarrow> heap_base < unat (kern_heap s) \<and> unat (kern_heap s) \<le> 0x40000000"
proof -
  assume "kblocks s B"
  then obtain cs where k: "kheap s cs" by (auto simp: kblocks_def)
  then have "MINSIZE \<le> heap_bytes cs" by (cases cs) (auto simp: kheap_def)
  with kheap_end [OF k] k show ?thesis by (auto simp: kheap_def)
qed

lemma kblocks_fields:
  assumes "kblocks s B" "pmem s' = pmem s" "cr3 s' = cr3 s" "mem_bitmap s' = mem_bitmap s" "kmem s' = kmem s"
    "kern_heap s' = kern_heap s"
  shows "kblocks s' B"
  using assms kspace_cong [of s' s] heap_mapped_cong [of s' s] by (auto simp: kblocks_def kheap_def)

text \<open>The heap does not notice a change of the page tables below it, nor frames becoming used.\<close>

lemma kblocks_transfer:
  assumes kb: "kblocks s B" and ks: "kspace s'"
    and w: "\<And>u. kernel_v u \<Longrightarrow> KERN_HEAP \<le> u \<Longrightarrow> walk s' u = walk s u"
    and fu: "\<And>u p. kernel_v u \<Longrightarrow> KERN_HEAP \<le> u \<Longrightarrow> walk s u = Some p \<Longrightarrow> frame_used s' (unat p div 4096)"
    and eq: "kmem s' = kmem s" "kern_heap s' = kern_heap s"
  shows "kblocks s' B"
proof -
  from kb obtain cs where kh: "kheap s cs" and B: "B = used_blocks heap_base cs" by (auto simp: kblocks_def)
  from kh have hm: "heap_mapped s" and lim: "unat (kern_heap s) \<le> 0x40000000" by (auto simp: kheap_def)
  have pg: "heap_pages s' = heap_pages s" by (simp add: heap_pages_def eq)
  from hm obtain fr where fr: "inj_on fr (heap_pages s)" and fk: "\<And>j. j \<in> heap_pages s \<Longrightarrow> fr j < RAM_MAXPAGE
     \<and> frame_used s (fr j) \<and> (\<forall>u. unat u div 4096 = j \<longrightarrow> walk s u = Some (frame_addr (fr j) OR (u AND 0xFFF)))"
    unfolding heap_mapped_def by blast
  have kv: "kernel_v u \<and> KERN_HEAP \<le> u" if "unat u div 4096 \<in> heap_pages s" for u :: u32
  proof -
    from that have "0x10000 \<le> unat u div 4096" "unat u div 4096 * 4096 < unat (kern_heap s)"
      by (auto simp: heap_pages_def)
    then have "0x10000000 \<le> unat u" "unat u div 4096 < 0x40000" using lim by linarith+
    then have "0x10000000 \<le> unat u" "unat u < 0x40000000" by (simp_all add: div_less_iff_less_mult)
    then show ?thesis by (simp add: kernel_v_def word_le_nat_alt word_less_nat_alt)
  qed
  have "heap_mapped s'" unfolding heap_mapped_def pg
  proof (intro exI [of _ fr] conjI ballI allI impI)
    fix j assume j: "j \<in> heap_pages s"
    show "fr j < RAM_MAXPAGE" using fk [OF j] by blast
    have "j < 0x100000" using j lim by (auto simp: heap_pages_def)
    then have u: "unat (frame_addr j) div 4096 = j" using of_nat_frame(1) [of j] by simp
    have "kernel_v (frame_addr j) \<and> KERN_HEAP \<le> frame_addr j" using kv u j by simp
    moreover have "walk s (frame_addr j) = Some (frame_addr (fr j) OR (frame_addr j AND 0xFFF))"
      using fk [OF j] u by blast
    ultimately have "frame_used s' (unat (frame_addr (fr j) OR (frame_addr j AND 0xFFF)) div 4096)"
      using fu by blast
    then show "frame_used s' (fr j)" using frame_addr_offset [of "fr j"] fk [OF j] by (simp only:)
    fix v :: u32 assume v: "unat v div 4096 = j"
    then show "walk s' v = Some (frame_addr (fr j) OR (v AND 0xFFF))"
      using w kv j fk [OF j] by metis
  qed (rule fr)
  with kh ks have "kheap s' cs" by (simp add: kheap_def eq)
  with B show ?thesis by (auto simp: kblocks_def)
qed

section \<open>Alignment\<close>

lemma unat_frame_of: "unat (frame_of w) = unat w div 4096 * 4096"
proof -
  have "frame_of w = push_bit 12 (drop_bit 12 w)"
    unfolding word_masks by (rule bit_word_eqI) (auto simp: bit_simps dest: bit_imp_le_length)
  moreover have "unat w div 4096 < 2 ^ 20" by (simp add: div_less_iff_less_mult)
  ultimately show ?thesis
    by (simp add: push_bit_eq_mult drop_bit_eq_div unat_word_ariths(2) unat_div)
qed

lemma aligned_nat: "frame_of w = w \<longleftrightarrow> unat w mod 4096 = 0"
proof -
  have "frame_of w = w \<longleftrightarrow> unat w div 4096 * 4096 = unat w" by (simp add: word_unat_eq_iff unat_frame_of)
  also have "\<dots> \<longleftrightarrow> unat w mod 4096 = 0" using div_mult_mod_eq [of "unat w" 4096] by linarith
  finally show ?thesis .
qed

lemma aligned_step_nat: "(v :: nat) mod 4096 = 0 \<Longrightarrow> w mod 4096 = 0 \<Longrightarrow> v < w \<Longrightarrow> v + 4096 \<le> w"
  by (auto simp: mod_eq_0_iff_dvd elim!: dvdE)

lemma aligned_eq_page: "frame_of v = v \<Longrightarrow> frame_of w = w \<Longrightarrow> vpage v = vpage w \<Longrightarrow> v = w"
  unfolding vpage_nat by (metis unat_frame_of word_unat_eq_iff)

lemma aligned_offset: "frame_of v = v \<Longrightarrow> v AND 0xFFF = 0"
  unfolding word_masks by (rule bit_word_eqI) (metis bit_and_iff bit_push_bit_iff bit_mask_iff not_le bit_0_eq bot_apply bot_bool_def)

lemma dlist_set_other:
  "x \<notin> set (h # xs) \<Longrightarrow> dlist (set_prev x v (set_next x w s)) h xs = dlist s h xs"
proof -
  assume "x \<notin> set (h # xs)"
  then have "links (set_prev x v (set_next x w s)) h xs h = links s h xs h" by (intro links_cong) auto
  then show ?thesis by (simp add: dlist_def)
qed

text \<open>The first free page leaves the list.\<close>

lemma free_vm_take:
  assumes vl: "vm_list s (a # as)" and v: "v = vm_start s a"
    and s': "vm_start s' = (vm_start s)(a := v + PAGESIZE)" "vm_end s' = vm_end s"
    and areas: "areas' = (if v + PAGESIZE = vm_end s a then as else a # as)"
  shows "free_vm s' areas' = free_vm s (a # as) - {v}" "v \<in> free_vm s (a # as)"
    "sorted_wrt (\<lambda>a b. vm_end s' a < vm_start s' b) areas'"
    "\<forall>b \<in> set areas'. KERN_PG_HEAP \<le> vm_start s' b \<and> vm_start s' b < vm_end s' b \<and> vm_end s' b \<le> KERN_PG_HEAP_LIM
          \<and> frame_of (vm_start s' b) = vm_start s' b \<and> frame_of (vm_end s' b) = vm_end s' b"
proof -
  from vl have a: "KERN_PG_HEAP \<le> v" "v < vm_end s a" "vm_end s a \<le> KERN_PG_HEAP_LIM" "frame_of v = v"
    "frame_of (vm_end s a) = vm_end s a" and srt: "sorted_wrt (\<lambda>a b. vm_end s a < vm_start s b) as"
    and hd: "\<And>b. b \<in> set as \<Longrightarrow> vm_end s a < vm_start s b"
    and nd: "a \<notin> set as"
    and all: "\<And>b. b \<in> set as \<Longrightarrow> KERN_PG_HEAP \<le> vm_start s b \<and> vm_start s b < vm_end s b \<and> vm_end s b \<le> KERN_PG_HEAP_LIM
          \<and> frame_of (vm_start s b) = vm_start s b \<and> frame_of (vm_end s b) = vm_end s b"
    unfolding vm_list_def v by (auto simp: dlist_def)
  have vn: "unat v mod 4096 = 0" "unat (vm_end s a) mod 4096 = 0" using a(4,5) aligned_nat by blast+
  have va: "unat (v + PAGESIZE) = unat v + 4096"
    using a(2,3) by (subst unat_add_nowrap) (simp_all add: word_less_nat_alt word_le_nat_alt)
  have le: "v + PAGESIZE \<le> vm_end s a"
    using aligned_step_nat [OF vn] a(2) va by (simp add: word_less_nat_alt word_le_nat_alt)
  have al: "frame_of (v + PAGESIZE) = v + PAGESIZE" unfolding aligned_nat va using vn by simp
  have gt: "v < v + PAGESIZE" by (simp add: word_less_nat_alt va)
  show "v \<in> free_vm s (a # as)" using a v by (auto simp: free_vm_def)
  have as': "vm_start s' b = vm_start s b" if "b \<in> set as" for b using that nd s'(1) by auto
  have step: "v < w \<longleftrightarrow> v + PAGESIZE \<le> w" if "frame_of w = w" for w
    using aligned_step_nat [OF vn(1), of "unat w"] that gt
    by (auto simp: aligned_nat word_less_nat_alt word_le_nat_alt va)
  have tail: "v < w" if "b \<in> set as" "vm_start s b \<le> w" for b w
    using hd [OF that(1)] that(2) a(2) by (meson order.strict_trans order.strict_trans2)
  show "free_vm s' areas' = free_vm s (a # as) - {v}"
  proof (intro set_eqI)
    fix w
    have rest: "(\<exists>b \<in> set as. vm_start s' b \<le> w \<and> w < vm_end s' b) \<longleftrightarrow> (\<exists>b \<in> set as. vm_start s b \<le> w \<and> w < vm_end s b)"
      using as' s'(2) by auto
    show "w \<in> free_vm s' areas' \<longleftrightarrow> w \<in> free_vm s (a # as) - {v}"
    proof (cases "frame_of w = w")
      case True
      have fst: "vm_start s a \<le> w \<and> w < vm_end s a \<and> w \<noteq> v \<longleftrightarrow> v + PAGESIZE \<le> w \<and> w < vm_end s a"
        using step [OF True] v by auto
      show ?thesis
      proof (cases "v + PAGESIZE = vm_end s a")
        case True
        then show ?thesis using fst rest tail areas unfolding free_vm_def by fastforce
      next
        case False
        then show ?thesis using fst rest tail areas s' unfolding free_vm_def by fastforce
      qed
    qed (simp add: free_vm_def)
  qed
  have "sorted_wrt (\<lambda>a b. vm_end s' a < vm_start s' b) as"
    by (rule sorted_wrt_mono_rel [OF _ srt]) (simp add: as' s'(2))
  then show "sorted_wrt (\<lambda>a b. vm_end s' a < vm_start s' b) areas'"
    using hd as' s'(2) areas by simp
  show "\<forall>b \<in> set areas'. KERN_PG_HEAP \<le> vm_start s' b \<and> vm_start s' b < vm_end s' b \<and> vm_end s' b \<le> KERN_PG_HEAP_LIM
          \<and> frame_of (vm_start s' b) = vm_start s' b \<and> frame_of (vm_end s' b) = vm_end s' b"
    using all as' s' a al le gt areas by (auto split: if_splits)
qed

section \<open>Taking a page\<close>

lemma get_page_frame_bitmap:
  "get_page_frame s = (p, s1) \<Longrightarrow> s1 = s\<lparr>mem_bitmap := mem_bitmap s1\<rparr>"
  by (auto simp: get_page_frame_def set_page_frame_used_def Let_def split: option.splits)

definition kept_areas :: "'a vm_state_scheme \<Rightarrow> u32 list \<Rightarrow> u32 list" where
  "kept_areas s areas = (if vm_start s (hd areas) + PAGESIZE = vm_end s (hd areas) then tl areas else areas)"

lemma take_area:
  assumes inv: "page_inv s B (a # as)" and s1: "s1 = s\<lparr>mem_bitmap := bm\<rparr>"
    and fu: "\<And>g. frame_used s g \<Longrightarrow> frame_used s1 g"
    and s2: "s2 = s1\<lparr>vm_start := (vm_start s1)(a := vm_start s1 a + PAGESIZE)\<rparr>"
  shows "\<exists>s3 B1. (if vm_start s2 a = vm_end s2 a then kfree a (s2\<lparr>lists := list_del (a + 8) (lists s2)\<rparr>)
        else Some (Inr s2)) = Some (Inr s3)
    \<and> kblocks s3 B1 \<and> B1 \<subseteq> B \<and> (\<forall>b \<in> set (kept_areas s (a # as)). \<exists>n. (unat b, n) \<in> B1)
    \<and> pmem s3 = pmem s \<and> cr3 s3 = cr3 s \<and> mem_bitmap s3 = bm \<and> kern_heap s3 = kern_heap s
    \<and> vm_start s3 = (vm_start s)(a := vm_start s a + PAGESIZE) \<and> vm_end s3 = vm_end s
    \<and> kern_free_vm s3 = kern_free_vm s
    \<and> dlist (lists s3) (kern_free_vm s) (map (\<lambda>a. a + 8) (kept_areas s (a # as)))
    \<and> (\<forall>b \<in> B. fst b \<noteq> unat a \<longrightarrow> b \<in> B1) \<and> pg_v_addr s3 = pg_v_addr s \<and> pg_p_addr s3 = pg_p_addr s \<and> pd_base s3 = pd_base s
    \<and> lists s3 \<in> {lists s, list_del (a + 8) (lists s)}"
proof -
  from inv have kb: "kblocks s B" and km: "kmaps s" and dl: "dlist (lists s) (kern_free_vm s) ([] @ (a + 8) # map (\<lambda>a. a + 8) as)"
    and ab: "\<And>b. b \<in> set (a # as) \<Longrightarrow> \<exists>n. (unat b, n) \<in> B"
    by (auto simp: page_inv_def vm_list_def)
  have nd: "a \<notin> set as" using dl by (auto simp: dlist_def)
  have tr: "kblocks t B" if "pmem t = pmem s" "cr3 t = cr3 s" "mem_bitmap t = bm" "kmem t = kmem s" "kern_heap t = kern_heap s" for t
  proof (rule kblocks_transfer [OF kb])
    show "kspace t" using kblocks_kspace [OF kb] kspace_cong [of t s] that by simp
    have w: "walk t = walk s" using walk_cong [of t s] that by simp
    show "walk t u = walk s u" for u by (simp add: w)
    have "frame_used t g = frame_used s1 g" for g using frame_used_cong [of t s1] that s1 by simp
    then show "frame_used t (unat p div 4096)" if "kernel_v u" "walk s u = Some p" for u p
      using that fu km unfolding kmaps_def by blast
  qed (use that in simp_all)
  have e: "vm_start s2 a = vm_end s2 a \<longleftrightarrow> vm_start s a + PAGESIZE = vm_end s a" by (simp add: s1 s2)
  show ?thesis
  proof (cases "vm_start s a + PAGESIZE = vm_end s a")
    case True
    obtain n where n: "(unat a, n) \<in> B" using ab by auto
    have "kblocks (s2\<lparr>lists := list_del (a + 8) (lists s2)\<rparr>) B" by (rule tr) (simp_all add: s1 s2)
    from kfree_kblocks [OF this n] obtain s3 where s3: "kfree a (s2\<lparr>lists := list_del (a + 8) (lists s2)\<rparr>) = Some (Inr s3)"
      "kblocks s3 (B - {(unat a, n)})" "\<exists>m k. s3 = (s2\<lparr>lists := list_del (a + 8) (lists s2)\<rparr>)\<lparr>kmem := m, kmalloc_used := k\<rparr>"
      by auto
    have "\<exists>n'. (unat b, n') \<in> B - {(unat a, n)}" if "b \<in> set as" for b
    proof -
      from ab that obtain n' where "(unat b, n') \<in> B" by auto
      moreover have "unat b \<noteq> unat a" using that nd by (auto simp flip: word_unat_eq_iff)
      ultimately show ?thesis by blast
    qed
    moreover have "dlist (list_del (a + 8) (lists s)) (kern_free_vm s) (map (\<lambda>a. a + 8) as)"
      using dlist_list_del [OF dl] by simp
    ultimately show ?thesis using True e s3 by (intro exI [of _ s3] exI [of _ "B - {(unat a, n)}"])
      (auto simp: kept_areas_def s1 s2)
  next
    case False
    have "kblocks s2 B" by (rule tr) (simp_all add: s1 s2)
    with False e ab dl show ?thesis
      by (intro exI [of _ s2] exI [of _ B]) (auto simp: kept_areas_def s1 s2)
  qed
qed

lemma room_20: "room (real_size 16) s \<longleftrightarrow> unat (kern_heap s) + 4096 \<le> 0x40000000 \<and> 1 \<le> card (frames.free_frames s)"
  by (simp add: room_def real_size_def growth_def)

lemma fresh_node:
  assumes kb: "kblocks s' (insert (p, n) B)" and new: "(p, n) \<notin> B"
    and areas: "\<forall>b \<in> set areas. \<exists>n. (unat (b :: u32), n) \<in> B" and h: "unat h < heap_base"
  shows "of_nat p + 8 \<notin> set (h # map (\<lambda>a. a + 8) areas)" "of_nat p \<notin> set areas"
proof -
  note bd = kblocks_bound [OF kb, of p n]
  have up: "unat (of_nat p :: u32) = p" using bd by (intro unat_of_nat_u32) simp
  show na: "of_nat p \<notin> set areas"
  proof
    assume "of_nat p \<in> set areas"
    with areas obtain n' where "(unat (of_nat p :: u32), n') \<in> B" by blast
    then have n': "(p, n') \<in> B" by (simp only: up)
    with kblocks_apart [OF kb, of p n p n'] new bd kblocks_bound [OF kb, of p n'] show False by auto
  qed
  have "unat (of_nat p + 8 :: u32) = p + 8" using bd up by (subst unat_add_nowrap) simp_all
  then have "of_nat p + 8 \<noteq> h" using h bd by auto
  with na show "of_nat p + 8 \<notin> set (h # map (\<lambda>a. a + 8) areas)" by auto
qed

lemma free_vm_range:
  assumes "vm_list s areas" "w \<in> free_vm s areas"
  shows "kernel_v w" "w < KERN_HEAP" "KERN_PG_HEAP \<le> w" "frame_of w = w"
proof -
  from assms obtain a where "KERN_PG_HEAP \<le> vm_start s a" "vm_start s a \<le> w" "w < vm_end s a"
    "vm_end s a \<le> KERN_PG_HEAP_LIM" "frame_of w = w" by (auto simp: vm_list_def free_vm_def)
  then show "w < KERN_HEAP" "KERN_PG_HEAP \<le> w" "frame_of w = w" by (auto intro: order_trans order.strict_trans2)
  then show "kernel_v w" by (simp add: kernel_v_def word_le_nat_alt word_less_nat_alt)
qed

text \<open>What taking a page leaves alone besides the mappings: the current directory, physical memory outside
  of the kernel's tables, and every other list.\<close>

definition rest_kept :: "'a vm_state_scheme \<Rightarrow> u32 list \<Rightarrow> 'a vm_state_scheme \<Rightarrow> u32 \<Rightarrow> bool" where
  "rest_kept s areas s' pg \<longleftrightarrow> cr3 s' = cr3 s \<and> kern_free_vm s' = kern_free_vm s \<and> pd_base s' = pd_base s
     \<and> (\<forall>x. x \<noteq> pg \<longrightarrow> pg_v_addr s' x = pg_v_addr s x \<and> pg_p_addr s' x = pg_p_addr s x)
     \<and> (\<forall>g. frame_used s g \<longrightarrow> frame_used s' g)
     \<and> (\<forall>x. x < 0x400000 \<or> 0x500000 \<le> x \<longrightarrow> pmem s' x = pmem s x)
     \<and> (\<forall>k ys. dlist (lists s) k ys \<and> set (k # ys) \<inter> set (kern_free_vm s # map (\<lambda>a. a + 8) areas) = {}
          \<and> pg + 8 \<notin> set (k # ys) \<longrightarrow> dlist (lists s') k ys)"

lemma get_page_from_heap_ok:
  assumes inv: "page_inv s B areas" and ne: "areas \<noteq> []"
    and lim: "unat (kern_heap s) + 4096 \<le> 0x40000000" and free: "2 \<le> card (frames.free_frames s)"
  shows "\<exists>pg s' B' v f. get_page_from_heap s = Some (Inr (pg, s')) \<and> page_inv s' B' (kept_areas s areas)
    \<and> v \<in> free_vm s areas \<and> free_vm s' (kept_areas s areas) = free_vm s areas - {v}
    \<and> pg_v_addr s' pg = v \<and> pg_p_addr s' pg = frame_addr f \<and> walk s' v = Some (frame_addr f)
    \<and> f < RAM_MAXPAGE \<and> \<not> frame_used s f \<and> frame_used s' f
    \<and> (\<forall>u. kernel_v u \<and> u < kern_heap s \<and> vpage u \<noteq> vpage v \<longrightarrow> walk s' u = walk s u)
    \<and> rest_kept s areas s' pg \<and> (\<exists>n. (unat pg, n) \<in> B')
    \<and> (\<forall>b \<in> B. fst b \<notin> unat ` set areas \<longrightarrow> b \<in> B' \<and> fst b \<noteq> unat pg)"
proof -
  obtain a as where as: "areas = a # as" using ne by (cases areas) auto
  let ?v = "vm_start s a" and ?ka = "kept_areas s areas"
  note inv' = inv [unfolded as]
  from inv' have kb: "kblocks s B" and km: "kmaps s" and vl: "vm_list s (a # as)"
    and head: "unat (kern_free_vm s) < heap_base" and un: "\<And>w. w \<in> free_vm s (a # as) \<Longrightarrow> walk s w = None"
    by (auto simp: page_inv_def)
  obtain p s1 where g: "get_page_frame s = (p, s1)" by fastforce
  define bm where "bm = mem_bitmap s1"
  have s1: "s1 = s\<lparr>mem_bitmap := bm\<rparr>" unfolding bm_def by (rule get_page_frame_bitmap [OF g])
  have "frames.free_frames s \<noteq> {}" using free by auto
  from frames.alloc_step [OF this g] obtain f where f: "f \<in> frames.free_frames s" "p = frame_addr f"
    "frames.free_frames s1 = frames.free_frames s - {f}" "\<And>g. frame_used s1 g \<longleftrightarrow> g = f \<or> frame_used s g"
    by blast
  have f': "f < RAM_MAXPAGE" "\<not> frame_used s f" using f(1) by (auto simp: frames.free_frames_def)
  define s2 where "s2 = s1\<lparr>vm_start := (vm_start s1)(a := vm_start s1 a + PAGESIZE)\<rparr>"
  obtain s3 B1 where s3: "(if vm_start s2 a = vm_end s2 a then kfree a (s2\<lparr>lists := list_del (a + 8) (lists s2)\<rparr>)
        else Some (Inr s2)) = Some (Inr s3)" "kblocks s3 B1" "B1 \<subseteq> B" "\<forall>b \<in> set ?ka. \<exists>n. (unat b, n) \<in> B1"
    "pmem s3 = pmem s" "cr3 s3 = cr3 s" "mem_bitmap s3 = bm" "kern_heap s3 = kern_heap s"
    "vm_start s3 = (vm_start s)(a := ?v + PAGESIZE)" "vm_end s3 = vm_end s" "kern_free_vm s3 = kern_free_vm s"
    "dlist (lists s3) (kern_free_vm s) (map (\<lambda>a. a + 8) ?ka)" "\<forall>b \<in> B. fst b \<noteq> unat a \<longrightarrow> b \<in> B1"
    "pg_v_addr s3 = pg_v_addr s" "pg_p_addr s3 = pg_p_addr s" "pd_base s3 = pd_base s"
    "lists s3 \<in> {lists s, list_del (a + 8) (lists s)}"
    using take_area [OF inv' s1 _ s2_def] f(4) unfolding as by (elim meta_impE exE conjE; blast)
  have ka: "?ka = (if ?v + PAGESIZE = vm_end s a then as else a # as)" by (simp add: kept_areas_def as)
  note ft = free_vm_take [OF vl refl s3(9,10) ka]
  have vb: "KERN_PG_HEAP \<le> ?v" "?v < KERN_HEAP" "frame_of ?v = ?v"
    using vl unfolding vm_list_def by (auto intro: order.strict_trans2)
  have kv: "kernel_v ?v" using vb by (simp add: kernel_v_def word_le_nat_alt word_less_nat_alt)
  define s4 where "s4 = set_pte ?v (frame_addr f OR (PG_PRESENT OR PG_WRITE OR 0)) s3"
  have fu3: "frame_used s3 g \<longleftrightarrow> g = f \<or> frame_used s g" for g
    using f(4) frame_used_cong [of s3 s1] s3(7) s1 by simp
  note mf = map_fresh [OF kblocks_kspace [OF kb] kv f' s3(5,6) fu3 s4_def]
  have add: "pd0_add_page ?v p 0 s3 = Inr s4"
    using pd0_add_page_set_pte [of s3 ?v p 0] kblocks_kspace [OF s3(2)] kv f(2) by (simp add: s4_def)
  have above: "vpage u \<noteq> vpage ?v" if "KERN_HEAP \<le> u" for u
  proof
    assume "vpage u = vpage ?v"
    then have "unat u div 4096 = unat ?v div 4096" by (simp only: vpage_nat)
    moreover have "0x10000000 div 4096 \<le> unat u div 4096" using that by (intro div_le_mono) (simp add: word_le_nat_alt)
    moreover have "unat ?v div 4096 < 0x10000000 div 4096"
      using vb(2) by (simp add: word_less_nat_alt div_less_iff_less_mult)
    ultimately show False by simp
  qed
  have w3: "walk s3 = walk s" using walk_cong [of s3 s] s3 by simp
  have kb4: "kblocks s4 B1"
  proof (rule kblocks_transfer [OF s3(2) mf(1)])
    fix u assume u: "kernel_v u" "KERN_HEAP \<le> u"
    show "walk s4 u = walk s3 u" using mf(2) [OF u(1)] above [OF u(2)] by (simp add: w3)
    show "frame_used s4 (unat q div 4096)" if "walk s3 u = Some q" for q
      using that u km unfolding mf(3) w3 kmaps_def by blast
  qed (simp_all add: s4_def)
  have "card (frames.free_frames s4) = card (frames.free_frames s1)"
    using free_frames_cong [of s4 s1] s3(7) s1 by (simp add: s4_def)
  then have "room (real_size 16) s4" using lim free f(1,3) s3(8) unfolding room_20 by (simp add: s4_def)
  from kmalloc_kblocks [OF kb4 this] obtain q n s5 where
    s5: "kmalloc 16 s4 = Some (Inr (of_nat q, s5))" "kblocks s5 (insert (q, n) B1)" "(q, n) \<notin> B1" "grown s4 s5"
    by blast
  let ?pg = "of_nat q :: u32"
  define s' where "s' = s5\<lparr>pg_v_addr := (pg_v_addr s5)(?pg := ?v), pg_p_addr := (pg_p_addr s5)(?pg := p),
     lists := set_prev (?pg + 8) 0 (set_next (?pg + 8) 0 (lists s5))\<rparr>"
  note gf = grown_fields [OF s5(4)]
  have f4: "vm_start s4 = vm_start s3" "vm_end s4 = vm_end s3" "lists s4 = lists s3"
    "kern_free_vm s4 = kern_free_vm s3" "kern_heap s4 = kern_heap s"
    using s3(8) by (simp_all add: s4_def set_pte_def)
  have f5: "vm_start s' = vm_start s3" "vm_end s' = vm_end s3" "kern_free_vm s' = kern_free_vm s"
    using gf f4 s3(11) by (simp_all add: s'_def)
  have kspc': "pmem s' = pmem s5" "cr3 s' = cr3 s5" "mem_bitmap s' = mem_bitmap s5" by (simp_all add: s'_def)
  have w': "walk s' = walk s5" using walk_cong kspc' by blast
  have wlow: "walk s' u = walk s4 u" if "kernel_v u" "u < kern_heap s" for u
    using s5(4) that unfolding w' grown_def f4(5) by blast
  have "kblocks s' (insert (q, n) B1)"
    using kblocks_fields [OF s5(2), of s'] kspc' by (simp add: s'_def)
  moreover have "kmaps s'"
    using s5(4) mf(4) [OF km] kmaps_cong [OF kspc'] unfolding grown_def by blast
  moreover have "dlist (lists s') (kern_free_vm s') (map (\<lambda>a. a + 8) ?ka)"
    using s3(12) fresh_node(1) [OF s5(2,3) s3(4)] head gf f4 unfolding f5 by (simp add: s'_def dlist_set_other)
  moreover have fv: "free_vm s' ?ka = free_vm s areas - {?v}"
    using ft(1) unfolding as by (simp add: free_vm_def f5)
  have "walk s' w = None" if "w \<in> free_vm s' ?ka" for w
  proof -
    from that have w: "w \<in> free_vm s (a # as)" "w \<noteq> ?v" unfolding fv unfolding as by auto
    have wr: "kernel_v w" "w < KERN_HEAP" "frame_of w = w" using free_vm_range [OF vl w(1)] by auto
    have "w < kern_heap s" using wr(2) kblocks_lim [OF kb] by (simp add: word_less_nat_alt)
    moreover have "vpage w \<noteq> vpage ?v" using aligned_eq_page [OF wr(3) vb(3)] w(2) by blast
    ultimately show ?thesis using wlow [OF wr(1)] mf(2) [OF wr(1)] un [OF w(1)] by simp
  qed
  ultimately have "page_inv s' (insert (q, n) B1) ?ka"
    using ft(3,4) s3(4) head by (auto simp: page_inv_def vm_list_def f5)
  moreover have "walk s' ?v = Some (frame_addr f)"
  proof -
    have "?v < kern_heap s" using vb(2) kblocks_lim [OF kb] by (simp add: word_less_nat_alt)
    with wlow [OF kv] mf(2) [OF kv] aligned_offset [OF vb(3)] show ?thesis by simp
  qed
  moreover have "frame_used s' f"
    using s5(4) mf(3) [of f] frame_used_cong [OF kspc'(3), of f] unfolding grown_def by blast
  moreover have "walk s' u = walk s u" if "kernel_v u" "u < kern_heap s" "vpage u \<noteq> vpage ?v" for u
    using wlow [OF that(1,2)] mf(2) [OF that(1)] that(3) by simp
  moreover have "rest_kept s areas s' ?pg"
    unfolding rest_kept_def
  proof (intro conjI allI impI)
    show "cr3 s' = cr3 s" using s5(4) s3(6) kspc'(2) by (simp add: grown_def s4_def)
    show "kern_free_vm s' = kern_free_vm s" by (rule f5(3))
    have g: "pd_base s5 = pd_base s" "pg_v_addr s5 = pg_v_addr s" "pg_p_addr s5 = pg_p_addr s"
      using gf(3-5) s3(14-16) by (simp_all add: s4_def set_pte_def)
    then show "pd_base s' = pd_base s" by (simp add: s'_def)
    show "pg_v_addr s' x = pg_v_addr s x" "pg_p_addr s' x = pg_p_addr s x" if "x \<noteq> ?pg" for x
      using g that by (simp_all add: s'_def)
    show "frame_used s' g" if "frame_used s g" for g
      using that s5(4) fu3 [of g] mf(3) [of g] frame_used_cong [OF kspc'(3), of g] unfolding grown_def by blast
    fix x :: u32 assume x: "x < 0x400000 \<or> 0x500000 \<le> x"
    then have "pmem s' x = pmem s4 x" using s5(4) unfolding grown_def kspc'(1) by blast
    moreover have "x \<noteq> pte_at s3 ?v"
      using pte_at_bounds [OF kblocks_kspace [OF s3(2)] kv] x by (auto simp: word_le_nat_alt word_less_nat_alt)
    ultimately show "pmem s' x = pmem s x" using s3(5) by (simp add: s4_def set_pte_def)
  next
    fix k ys
    assume o: "dlist (lists s) k ys \<and> set (k # ys) \<inter> set (kern_free_vm s # map (\<lambda>a. a + 8) areas) = {} \<and> ?pg + 8 \<notin> set (k # ys)"
    have "dlist (lists s) (kern_free_vm s) ([] @ (a + 8) # map (\<lambda>a. a + 8) as)" using vl by (simp add: vm_list_def)
    moreover have "set (kern_free_vm s # [] @ (a + 8) # map (\<lambda>a. a + 8) as) \<inter> set (k # ys) = {}" using o as by auto
    ultimately have "dlist (list_del (a + 8) (lists s)) k ys" using dlist_list_del_other o by blast
    with o s3(17) have "dlist (lists s3) k ys" by auto
    then show "dlist (lists s') k ys" using o gf(6) by (simp add: s'_def f4 dlist_set_other)
  qed
  moreover have uq: "unat ?pg = q" using kblocks_bound [OF s5(2), of q n] by (intro unat_of_nat_u32) simp
  then have "\<exists>n'. (unat ?pg, n') \<in> insert (q, n) B1" by auto
  moreover have "\<forall>b \<in> B. fst b \<notin> unat ` set areas \<longrightarrow> b \<in> insert (q, n) B1 \<and> fst b \<noteq> unat ?pg"
  proof (intro ballI impI conjI)
    fix b assume b: "b \<in> B" "fst b \<notin> unat ` set areas"
    then have b1: "b \<in> B1" using s3(13) by (auto simp: as)
    then show "b \<in> insert (q, n) B1" by simp
    obtain n' where "b = (fst b, n')" by (cases b) simp
    with b1 kblocks_apart [OF s5(2), of q n "fst b" n'] kblocks_bound [OF s5(2), of q n] kblocks_bound [OF s5(2), of "fst b" n'] s5(3)
    show "fst b \<noteq> unat ?pg" unfolding uq by auto
  qed
  moreover have "get_page_from_heap s = Some (Inr (?pg, s'))"
  proof -
    have nx: "next_of (lists s1) (kern_free_vm s1) = a + 8" and em: "\<not> list_empty (kern_free_vm s1) (lists s1)"
      using vl by (auto simp: s1 vm_list_def dlist_def list_empty_def)
    have v1: "vm_start s1 a = ?v" by (simp add: s1)
    have s2': "s1\<lparr>vm_start := (vm_start s1)(a := ?v + PAGESIZE)\<rparr> = s2" by (simp add: s2_def v1)
    show ?thesis
      unfolding get_page_from_heap_def g prod.case Let_def nx add_diff_cancel_right' v1
      unfolding s2' unfolding s3(1) bind_out_simps add s5(1) s'_def using em by simp
  qed
  moreover have "pg_v_addr s' ?pg = ?v" "pg_p_addr s' ?pg = frame_addr f" using f(2) by (simp_all add: s'_def)
  moreover have "?v \<in> free_vm s areas" using ft(2) by (simp add: as)
  ultimately show ?thesis using fv f' by (intro exI [of _ ?pg] exI [of _ s'] exI [of _ "insert (q, n) B1"] exI [of _ ?v] exI [of _ f]) simp
qed

section \<open>Initialisation establishes the invariant\<close>

text \<open>At boot the frames of the kernel's page tables are clear, memory reaches beyond them, and the
  kernel's data lies below its heap.\<close>

definition boot_ok :: "u32 \<Rightarrow> 'a vm_state_scheme \<Rightarrow> bool" where
  "boot_ok high_mem s \<longleftrightarrow> 2056 \<le> unat (high_mem * 1024 div PAGESIZE)
     \<and> (\<forall>a. 0x400000 \<le> a \<and> a < 0x500000 \<longrightarrow> pmem s a = 0) \<and> unat (kern_free_vm s) < heap_base"

lemma fold_used_fields:
  "pmem (fold (\<lambda>pg. set_page_frame_used (of_nat pg)) xs s) = pmem s"
  "kheap_state.more (fold (\<lambda>pg. set_page_frame_used (of_nat pg)) xs t) = kheap_state.more t"
  by (induction xs arbitrary: s t) (simp_all add: set_page_frame_used_def Let_def)

lemma init_bitmap_fields:
  "pmem (init_bitmap high_mem s) = pmem s"
  "kheap_state.more (init_bitmap high_mem t) = kheap_state.more t"
  by (simp_all add: init_bitmap_def Let_def fold_used_fields)

lemma init_pd0_more [simp]: "kheap_state.more (init_pd0 s) = kheap_state.more s"
  by (simp add: init_pd0_def Let_def del: upt_rec_numeral)

lemma init_mm_pages:
  assumes boot: "boot_ok high_mem s"
    and s2: "s2 = (init_pd0 (init_bitmap high_mem s))\<lparr>kern_heap := KERN_HEAP\<rparr>"
  shows "kheap_pages s2"
    "\<And>k. 2048 + 8 * k \<le> unat (high_mem * 1024 div PAGESIZE) \<Longrightarrow> 2048 + 8 * k \<le> RAM_MAXPAGE \<Longrightarrow> 8 * k \<le> card (frames.free_frames s2)"
    "kheap_state.more s2 = kheap_state.more s"
    "\<And>u. kernel_v u \<Longrightarrow> walk s2 u = None" "kmaps s2"
proof -
  let ?s1 = "init_pd0 (init_bitmap high_mem s)"
  have ks: "kspace s2" using init_pd0_kspace [of "init_bitmap high_mem s"] kspace_cong [of s2 ?s1] by (simp add: s2)
  show w: "walk s2 u = None" if "kernel_v u" for u
  proof -
    note b = pte_at_bounds [OF ks that]
    then have "pmem s2 (pte_at s2 u) = pmem ?s1 (pte_at s2 u)" by (simp add: s2)
    also have "\<dots> = pmem s (pte_at s2 u)"
      using b init_pd0_outside [of "pte_at s2 u" "init_bitmap high_mem s"] init_bitmap_fields(1) [of high_mem s]
      by (auto simp: word_le_nat_alt word_less_nat_alt)
    also have "\<dots> = 0" using boot b by (simp add: boot_ok_def)
    finally show ?thesis using walk_kernel [OF ks that] by simp
  qed
  then show "kmaps s2" by (auto simp: kmaps_def)
  have "heap_pages s2 = {}" by (auto simp: heap_pages_def s2)
  then have "heap_mapped s2" by (simp add: heap_mapped_def)
  then show "kheap_pages s2" using ks by (simp add: kheap_pages_def s2)
  show "8 * k \<le> card (frames.free_frames s2)"
    if l: "2048 + 8 * k \<le> unat (high_mem * 1024 div PAGESIZE)" and m: "2048 + 8 * k \<le> RAM_MAXPAGE" for k
  proof -
    have "\<not> frame_used (init_bitmap high_mem s) f" if "2048 \<le> f" "f < 2048 + 8 * k" for f
      using init_bitmap_used [of f high_mem s] div_le_mono [OF l, of 8] that m by simp
    then have "{2048..<2048 + 8 * k} \<subseteq> frames.free_frames s2" using m by (auto simp: frames.free_frames_def frame_used_def s2)
    from card_mono [OF frames.finite_free this] show ?thesis by simp
  qed
  show "kheap_state.more s2 = kheap_state.more s" by (simp add: s2 init_bitmap_fields)
qed

lemma init_mm_ok:
  assumes boot: "boot_ok high_mem s"
  shows "\<exists>s'. init_mm high_mem s = Some (Inr s') \<and> page_inv s' {(heap_base + 4, 16)} [KERN_HEAP + 4]
    \<and> free_vm s' [KERN_HEAP + 4] = {v. frame_of v = v \<and> KERN_PG_HEAP \<le> v \<and> v < KERN_PG_HEAP_LIM}
    \<and> kern_heap s' = KERN_HEAP + PAGESIZE \<and> vm_state.more s' = vm_state.more s
    \<and> (\<forall>k. 2048 + 8 * k \<le> unat (high_mem * 1024 div PAGESIZE) \<longrightarrow> 2048 + 8 * k \<le> RAM_MAXPAGE \<longrightarrow> 8 * k \<le> card (frames.free_frames s') + 2)"
proof -
  define s2 where "s2 = (init_pd0 (init_bitmap high_mem s))\<lparr>kern_heap := KERN_HEAP\<rparr>"
  note p = init_mm_pages [OF boot s2_def]
  have h2: "kern_heap s2 = KERN_HEAP" by (simp add: s2_def)
  have c8: "8 \<le> card (frames.free_frames s2)" using p(2) [of 1] boot by (simp add: boot_ok_def)
  from first_chunk [OF p(1) h2] c8 obtain s3 where
    s3: "ksbrk 1 s2 = Inr (KERN_HEAP, s3)" "kheap s3 [(4096, False)]" "grown s2 s3"
    "card (frames.free_frames s3) + 1 = card (frames.free_frames s2)" by auto
  have rs: "real_size 16 = 20" by (simp add: real_size_def)
  have fit: "\<not> unfit 20 (4096, False)" by (simp add: unfit_def)
  from kmalloc_refines [OF s3(2), of 16] fit obtain s4 where
    s4: "kmalloc 16 s3 = Some (Inr (of_nat (abs_addr 20 [(4096, False)]), s4))"
    "kheap s4 (abs_kmalloc 20 [(4096, False)])" "grown s3 s4" "spent 20 s3 s4" unfolding rs by auto
  have ab: "abs_addr 20 [(4096, False)] = heap_base + 4" "abs_kmalloc 20 [(4096, False)] = [(20, True), (4076, False)]"
    using fit by (simp_all add: abs_addr_def abs_kmalloc_def ready_def carve_def)
  have g: "grown s2 s4" using s3(3) s4(3) by (rule grown_trans)
  let ?p = "KERN_HEAP + 4 :: u32"
  have pw: "of_nat (heap_base + 4) = ?p" by simp
  define s' where "s' = s4\<lparr>vm_start := (vm_start s4)(?p := KERN_PG_HEAP), vm_end := (vm_end s4)(?p := KERN_PG_HEAP_LIM),
     lists := list_add (?p + 8) (kern_free_vm s4) (INIT_LIST_HEAD (kern_free_vm s4) (lists s4))\<rparr>"
  have "init_mm high_mem s = Some (Inr s')"
    unfolding init_mm_def Let_def s2_def [symmetric] s3(1) bind_out_simps prod.case s4(1) [unfolded ab(1) pw] s'_def
    by simp
  moreover have "kblocks s' {(heap_base + 4, 16)}"
  proof -
    have "kblocks s4 {(heap_base + 4, 16)}"
      using s4(2) unfolding ab(2) kblocks_def by (intro exI [of _ "[(20, True), (4076, False)]"]) simp
    then show ?thesis by (rule kblocks_fields) (simp_all add: s'_def)
  qed
  moreover have w: "walk s' u = None" if "kernel_v u" "u < KERN_HEAP" for u
    using g p(4) [OF that(1)] that walk_cong [of s' s4] h2 unfolding grown_def by (simp add: s'_def)
  moreover have "kmaps s'" using g p(5) kmaps_cong [of s' s4] unfolding grown_def by (simp add: s'_def)
  moreover have kf: "kern_free_vm s' = kern_free_vm s" "unat (kern_free_vm s) < heap_base"
    using boot more_fields(7) [OF p(3)] grown_fields(7) [OF g] by (simp_all add: s'_def boot_ok_def)
  moreover have fv: "free_vm s' [?p] = {v. frame_of v = v \<and> KERN_PG_HEAP \<le> v \<and> v < KERN_PG_HEAP_LIM}"
    by (auto simp: free_vm_def s'_def)
  moreover have "vm_list s' [?p]"
  proof -
    have "?p + 8 \<noteq> kern_free_vm s4" using kf by (auto simp: s'_def)
    then have "dlist (lists s') (kern_free_vm s4) [?p + 8]"
      using dlist_list_add [OF dlist_INIT, of "?p + 8" "kern_free_vm s4" "lists s4"] by (simp add: s'_def)
    then show ?thesis by (simp add: vm_list_def s'_def)
  qed
  moreover have "kern_heap s' = KERN_HEAP + PAGESIZE"
    using kern_heap_nat [OF s4(2)] unfolding ab(2) by (simp add: s'_def)
  moreover have "walk s' v = None" if "v \<in> free_vm s' [?p]" for v
    using w free_vm_range [OF \<open>vm_list s' [?p]\<close> that] by blast
  ultimately have "page_inv s' {(heap_base + 4, 16)} [?p]" by (simp add: page_inv_def)
  moreover have "vm_state.more s' = vm_state.more s"
  proof -
    have "vm_state.more s4 = vm_state.more s" using p(3) g unfolding grown_def by (cases s; cases s4; cases s2; simp)
    then show ?thesis by (simp add: s'_def)
  qed
  moreover have "8 * k \<le> card (frames.free_frames s') + 2"
    if "2048 + 8 * k \<le> unat (high_mem * 1024 div PAGESIZE)" "2048 + 8 * k \<le> RAM_MAXPAGE" for k
    using s3(4) s4(4) p(2) [OF that] free_frames_cong [of s' s4] by (simp add: spent_def s'_def)
  ultimately show ?thesis
    using \<open>init_mm high_mem s = Some (Inr s')\<close> fv \<open>kern_heap s' = KERN_HEAP + PAGESIZE\<close> by blast
qed

section \<open>Properties\<close>

definition demo_boot :: vm_state where
  "demo_boot = \<lparr>mem_bitmap = (\<lambda>_. 0), pmem = (\<lambda>_. 0), cr3 = 0, kmem = (\<lambda>_. 0), kern_heap = 0,
     kmalloc_used = 0, vm_start = (\<lambda>_. 0), vm_end = (\<lambda>_. 0), pg_v_addr = (\<lambda>_. 0), pg_p_addr = (\<lambda>_. 0),
     pd_base = (\<lambda>_. 0), lists = \<lparr>next_of = (\<lambda>_. 0), prev_of = (\<lambda>_. 0)\<rparr>, kern_free_vm = 0x108000\<rparr>"

lemma demo_boot_ok: "boot_ok 65536 demo_boot"
  by (simp add: boot_ok_def demo_boot_def)

text \<open>C15. \<open>init_mm\<close> on a machine with enough memory and clear page tables returns and establishes the
  invariant of the memory manager: a well-formed kernel address space that maps itself, no frame mapped
  twice, a kernel heap with one block in use (the descriptor of the free range), and all pages from
  \<open>KERN_PG_HEAP\<close> to \<open>KERN_PG_HEAP_LIM\<close> free and unmapped.\<close>

theorem init_mm_establishes:
  assumes "boot_ok high_mem s"
  shows "\<exists>s'. init_mm high_mem s = Some (Inr s') \<and> page_inv s' {(heap_base + 4, 16)} [KERN_HEAP + 4]
    \<and> free_vm s' [KERN_HEAP + 4] = {v. frame_of v = v \<and> KERN_PG_HEAP \<le> v \<and> v < KERN_PG_HEAP_LIM}
    \<and> kern_heap s' = KERN_HEAP + PAGESIZE"
  using init_mm_ok [OF assms] by (elim exE conjE, intro exI conjI) assumption+

theorem init_mm_establishes_witness:
  "\<exists>s'. init_mm 65536 demo_boot = Some (Inr s') \<and> page_inv s' {(heap_base + 4, 16)} [KERN_HEAP + 4]"
  using init_mm_establishes [OF demo_boot_ok] by (elim exE conjE, intro exI conjI) assumption+

text \<open>C16. \<open>get_page_from_heap\<close>, under the invariant and with two free frames, a free page and a page of
  heap space left, returns a page structure whose virtual page was free and no longer is (and no other
  page leaves the free set), mapped to a frame that was free and is now marked; all other mappings below
  the end of the heap stay, and so does the invariant.\<close>

theorem get_page_from_heap_correct:
  assumes "page_inv s B areas" "areas \<noteq> []" "unat (kern_heap s) + 4096 \<le> 0x40000000"
    "2 \<le> card (frames.free_frames s)"
  shows "\<exists>pg s' B' areas' v f. get_page_from_heap s = Some (Inr (pg, s')) \<and> page_inv s' B' areas'
    \<and> v \<in> free_vm s areas \<and> free_vm s' areas' = free_vm s areas - {v}
    \<and> pg_v_addr s' pg = v \<and> pg_p_addr s' pg = frame_addr f \<and> walk s' v = Some (frame_addr f)
    \<and> f < RAM_MAXPAGE \<and> \<not> frame_used s f \<and> frame_used s' f
    \<and> (\<forall>u. kernel_v u \<and> u < kern_heap s \<and> vpage u \<noteq> vpage v \<longrightarrow> walk s' u = walk s u)"
  using get_page_from_heap_ok [OF assms] by (elim exE conjE, intro exI conjI) assumption+

theorem get_page_from_heap_correct_witness:
  "\<exists>s0 pg s'. init_mm 65536 demo_boot = Some (Inr s0) \<and> get_page_from_heap s0 = Some (Inr (pg, s'))
    \<and> KERN_PG_HEAP \<le> pg_v_addr s' pg \<and> walk s' (pg_v_addr s' pg) = Some (pg_p_addr s' pg)"
proof -
  from init_mm_ok [OF demo_boot_ok] obtain s0 where s0: "init_mm 65536 demo_boot = Some (Inr s0)"
    "page_inv s0 {(heap_base + 4, 16)} [KERN_HEAP + 4]"
    "free_vm s0 [KERN_HEAP + 4] = {v. frame_of v = v \<and> KERN_PG_HEAP \<le> v \<and> v < KERN_PG_HEAP_LIM}"
    "kern_heap s0 = KERN_HEAP + PAGESIZE"
    "\<forall>k. 2048 + 8 * k \<le> unat (65536 * 1024 div PAGESIZE :: u32) \<longrightarrow> 2048 + 8 * k \<le> RAM_MAXPAGE \<longrightarrow> 8 * k \<le> card (frames.free_frames s0) + 2"
    by (elim exE conjE) (rule that, assumption+)
  have "unat (kern_heap s0) + 4096 \<le> 0x40000000" by (simp add: s0(4))
  moreover have "2 \<le> card (frames.free_frames s0)" using s0(5) [rule_format, of 1] by simp
  ultimately obtain pg s' v f where r: "get_page_from_heap s0 = Some (Inr (pg, s'))" "v \<in> free_vm s0 [KERN_HEAP + 4]"
    "pg_v_addr s' pg = v" "pg_p_addr s' pg = frame_addr f" "walk s' v = Some (frame_addr f)"
    using get_page_from_heap_correct [OF s0(2) list.distinct(2)]
    by (elim meta_impE exE conjE) (assumption | rule that, assumption+)+
  have "KERN_PG_HEAP \<le> v" using r(2) unfolding s0(3) by (elim CollectE conjE)
  with r have "KERN_PG_HEAP \<le> pg_v_addr s' pg" "walk s' (pg_v_addr s' pg) = Some (pg_p_addr s' pg)"
    by (simp_all only:)
  with s0(1) r(1) show ?thesis by (intro exI conjI)
qed

end
