(* ===== verification/Signal.thy ===== *)
theory Signal
  imports Prelude
begin

text \<open>
  The signal masks of \<^verbatim>\<open>kern/signal.h\<close> and \<open>dequeue_signal\<close> of \<^verbatim>\<open>kern/signal.c\<close>. Signal \<open>sig\<close> is bit
  \<open>sig - 1\<close> of the mask; a shift count is reduced modulo 32, as the processor does.
\<close>

section \<open>The code\<close>

abbreviation (input) SIGHUP :: u32 where "SIGHUP \<equiv> 1"
abbreviation (input) SIGINT :: u32 where "SIGINT \<equiv> 2"
abbreviation (input) SIGQUIT :: u32 where "SIGQUIT \<equiv> 3"
abbreviation (input) SIGCHLD :: u32 where "SIGCHLD \<equiv> 17"
abbreviation (input) SIG_DFL :: u32 where "SIG_DFL \<equiv> 0"
abbreviation (input) SIG_IGN :: u32 where "SIG_IGN \<equiv> 1"

definition sig_bit :: "u32 \<Rightarrow> u32" where
  "sig_bit sig = push_bit (unat ((sig - 1) AND 31)) 1"

definition set_signal :: "u32 \<Rightarrow> u32 \<Rightarrow> u32" where
  "set_signal msk sig = msk OR sig_bit sig"

definition clear_signal :: "u32 \<Rightarrow> u32 \<Rightarrow> u32" where
  "clear_signal msk sig = msk AND NOT (sig_bit sig)"

definition is_signal :: "u32 \<Rightarrow> u32 \<Rightarrow> u32" where
  "is_signal msk sig = msk AND sig_bit sig"

text \<open>The loop shifts a signed \<open>int\<close>, so a set top bit stays set.\<close>

partial_function (option) dequeue_loop :: "u32 \<Rightarrow> u32 \<Rightarrow> u32 option" where
  "dequeue_loop msk sig =
     (if msk AND 1 = 0 then dequeue_loop (signed_drop_bit 1 msk) (sig + 1) else Some sig)"

definition dequeue_signal :: "u32 \<Rightarrow> u32 option" where
  "dequeue_signal msk = (if msk \<noteq> 0 then dequeue_loop msk 1 else Some 0)"

section \<open>Which signal is chosen\<close>

text \<open>The pending signals of a mask, as numbers from 1 to 32.\<close>

definition pending :: "u32 \<Rightarrow> nat set" where
  "pending msk = {k + 1 | k. k < 32 \<and> bit msk k}"

lemma pending_finite [simp]: "finite (pending msk)"
proof -
  have "pending msk \<subseteq> {..32}" by (auto simp: pending_def)
  then show ?thesis by (rule finite_subset) simp
qed

lemma pending_empty: "pending msk = {} \<longleftrightarrow> msk = 0"
  by (auto simp: pending_def bit_eq_iff dest: bit_imp_le_length)

lemma and_1_bit: "(msk :: u32) AND 1 = 0 \<longleftrightarrow> \<not> bit msk 0"
  by (simp add: and_one_eq odd_iff_mod_2_eq_one bit_0 flip: even_iff_mod_2_eq_zero)

lemma dequeue_loop_lowest:
  "k < 32 \<Longrightarrow> bit msk k \<Longrightarrow> (\<forall>j < k. \<not> bit msk j) \<Longrightarrow> dequeue_loop msk sig = Some (sig + of_nat k)"
proof (induction k arbitrary: msk sig)
  case 0
  then have "msk AND 1 \<noteq> 0" using and_1_bit [of msk] by simp
  then show ?case by (subst dequeue_loop.simps) simp
next
  case (Suc k)
  let ?m = "signed_drop_bit 1 msk"
  have b: "bit ?m j = bit msk (Suc j)" if "j < 31" for j
    using that by (simp add: bit_signed_drop_bit_iff)
  have "msk AND 1 = 0" using Suc.prems(3) and_1_bit [of msk] by simp
  moreover have "bit ?m k" "\<forall>j < k. \<not> bit ?m j" using Suc.prems b by simp_all
  with Suc.IH [of ?m "sig + 1"] Suc.prems(1) have "dequeue_loop ?m (sig + 1) = Some (sig + 1 + of_nat k)" by simp
  ultimately show ?case by (subst dequeue_loop.simps) (simp add: add.assoc)
qed

lemma dequeue_signal_min:
  "dequeue_signal msk = Some (if msk = 0 then 0 else of_nat (Min (pending msk)))"
proof (cases "msk = 0")
  case False
  then have ne: "pending msk \<noteq> {}" by (simp add: pending_empty)
  define n where "n = Min (pending msk)"
  have "n \<in> pending msk" unfolding n_def using ne by (intro Min_in) simp_all
  then obtain k where k: "n = k + 1" "k < 32" "bit msk k" by (auto simp: pending_def)
  have "\<not> bit msk j" if "j < k" for j
  proof
    assume "bit msk j"
    then have "j + 1 \<in> pending msk" using that k(2) by (auto simp: pending_def)
    then have "n \<le> j + 1" unfolding n_def by simp
    with that k(1) show False by simp
  qed
  with dequeue_loop_lowest [OF k(2,3), of 1] have "dequeue_loop msk 1 = Some (1 + of_nat k)" by blast
  then show ?thesis using False k(1) by (simp add: dequeue_signal_def n_def [symmetric])
qed (simp add: dequeue_signal_def)

lemma sig_bit_iff:
  assumes "1 \<le> sig" "sig \<le> 32"
  shows "bit (sig_bit (of_nat sig)) k \<longleftrightarrow> k + 1 = sig"
proof -
  have e: "(of_nat sig - 1 :: u32) = of_nat (sig - 1)" using assms(1) by (simp add: of_nat_diff)
  have "take_bit 5 (of_nat (sig - 1) :: u32) = of_nat (sig - 1)"
    using assms by (simp add: take_bit_of_nat take_bit_nat_eq_self del: of_nat_diff)
  moreover have "(31 :: u32) = mask 5" by (simp add: mask_eq_exp_minus_1)
  ultimately have "(of_nat sig - 1 :: u32) AND 31 = of_nat (sig - 1)" unfolding e by (simp add: take_bit_eq_mask del: of_nat_diff)
  then have "unat ((of_nat sig - 1 :: u32) AND 31) = sig - 1"
    using assms by (simp only:) (simp add: unat_of_nat_u32 del: of_nat_diff)
  then show ?thesis using assms by (auto simp: sig_bit_def bit_simps)
qed

lemma pending_set: "1 \<le> sig \<Longrightarrow> sig \<le> 32 \<Longrightarrow> pending (set_signal msk (of_nat sig)) = insert sig (pending msk)"
  using sig_bit_iff [of sig]
  by (auto simp: pending_def set_signal_def bit_simps intro: exI [of _ "sig - 1"])

lemma pending_clear: "1 \<le> sig \<Longrightarrow> sig \<le> 32 \<Longrightarrow> pending (clear_signal msk (of_nat sig)) = pending msk - {sig}"
  using sig_bit_iff [of sig] by (auto simp: pending_def clear_signal_def bit_simps)

lemma is_signal_pending: "1 \<le> sig \<Longrightarrow> sig \<le> 32 \<Longrightarrow> is_signal msk (of_nat sig) \<noteq> 0 \<longleftrightarrow> sig \<in> pending msk"
proof -
  assume s: "1 \<le> sig" "sig \<le> 32"
  have "is_signal msk (of_nat sig) \<noteq> 0 \<longleftrightarrow> (\<exists>k. bit msk k \<and> k + 1 = sig)"
    using sig_bit_iff [OF s] s unfolding is_signal_def bit_eq_iff [of "_ AND _"]
    by (auto simp: bit_simps dest: bit_imp_le_length)
  then show ?thesis using s by (auto simp: pending_def)
qed

section \<open>Properties\<close>

text \<open>\<open>dequeue_signal\<close> returns on every mask, the negative ones included, with the lowest pending
  signal, and with 0 exactly when none is pending.\<close>

theorem dequeue_signal_correct:
  "\<exists>r. dequeue_signal msk = Some r \<and> unat r = (if pending msk = {} then 0 else Min (pending msk))"
proof (cases "msk = 0")
  case False
  then have "Min (pending msk) \<in> pending msk" by (intro Min_in) (simp_all add: pending_empty)
  then have "Min (pending msk) \<le> 32" by (auto simp: pending_def)
  then have "unat (of_nat (Min (pending msk)) :: u32) = Min (pending msk)" by (intro unat_of_nat_u32) simp
  then show ?thesis using False by (simp add: dequeue_signal_min pending_empty)
qed (simp add: dequeue_signal_def pending_empty)

text \<open>On the signals 1 to 32 the three mask macros are insertion, removal and membership in the set of
  pending signals.\<close>

theorem signal_masks_correct:
  assumes "1 \<le> sig" "sig \<le> 32"
  shows "pending (set_signal msk (of_nat sig)) = insert sig (pending msk)
    \<and> pending (clear_signal msk (of_nat sig)) = pending msk - {sig}
    \<and> (is_signal msk (of_nat sig) \<noteq> 0 \<longleftrightarrow> sig \<in> pending msk)"
  using pending_set [OF assms] pending_clear [OF assms] is_signal_pending [OF assms] by blast

theorem signal_masks_correct_witness: "17 \<in> pending (set_signal 0 17)"
  using signal_masks_correct [of 17 0] by simp

end
