(* ===== verification/Process.thy ===== *)
theory Process
  imports Page_Heap Signal
begin

text \<open>
  The process table of \<^verbatim>\<open>kern/process.h\<close>, the delivery of signals (\<^verbatim>\<open>kern/signal.c\<close>), the task switch and
  the scheduler (\<^verbatim>\<open>kern/schedule.c\<close>), the system calls on processes (\<^verbatim>\<open>kern/syscalls/\<close>) and the page
  fault handler (\<^verbatim>\<open>kern/interrupt.c\<close>). The state extends that of the memory manager. Lists of
  structures (the pages, the open files and the children of a process) are HOL lists, by the refinement
  of theory \<open>Linked_List\<close>; user memory is a memory of bytes for every page directory, by its physical address.
\<close>

section \<open>The process table\<close>

record regs_t =
  r_eax :: u32
  r_ecx :: u32
  r_edx :: u32
  r_ebx :: u32
  r_esp :: u32
  r_ebp :: u32
  r_esi :: u32
  r_edi :: u32
  r_eip :: u32
  r_eflags :: u32
  r_cs :: u16
  r_ss :: u16
  r_ds :: u16
  r_es :: u16
  r_fs :: u16
  r_gs :: u16
  r_cr3 :: u32

text \<open>A node of the list of open files: its address, the file and the read pointer.\<close>

record open_file =
  of_addr :: u32
  of_file :: u32
  of_ptr :: u32

record process =
  pid :: int
  regs :: regs_t
  kstack_esp0 :: u32
  kstack_ss0 :: u16
  pd :: u32
  pglist :: "u32 list"
  b_exec :: u32
  e_exec :: u32
  b_bss :: u32
  e_bss :: u32
  b_heap :: u32
  e_heap :: u32
  pwd :: u32
  fd :: "open_file list"
  parent :: nat
  child :: "nat list"
  console :: u32
  signal :: u32
  sigfn :: "nat \<Rightarrow> u32"
  status :: u32
  pstate :: int

text \<open>The globals: the table (entries 0 to \<open>MAXPID\<close>), the current process, the number of processes, the
  task state segment, user memory, and of every cached file how often it is open and its buffer.\<close>

abbreviation (input) MAXPID :: nat where "MAXPID \<equiv> 32"

record kstate = vm_state +
  p_list :: "nat \<Rightarrow> process"
  current :: nat
  n_proc :: int
  tss_ss0 :: u16
  tss_esp0 :: u32
  umem :: "u32 \<Rightarrow> mem"
  f_opened :: "u32 \<Rightarrow> int"
  f_mmap :: "u32 \<Rightarrow> u32"

definition upd_proc :: "nat \<Rightarrow> (process \<Rightarrow> process) \<Rightarrow> 'a kstate_scheme \<Rightarrow> 'a kstate_scheme" where
  "upd_proc n f s = s\<lparr>p_list := (p_list s)(n := f (p_list s n))\<rparr>"

abbreviation cur :: "'a kstate_scheme \<Rightarrow> process" where
  "cur s \<equiv> p_list s (current s)"

section \<open>Ending a process\<close>

text \<open>The first loop of \<open>sys_exit\<close>: the frames and descriptors of the pages of the process.\<close>

primrec free_pages :: "u32 list \<Rightarrow> 'a kstate_scheme \<Rightarrow> 'a kstate_scheme out" where
  "free_pages [] s = Some (Inr s)"
| "free_pages (pg # pgs) s =
     bind_out (kfree pg (release_page_frame (pg_p_addr s pg) s)) (\<lambda>s1. free_pages pgs s1)"

text \<open>The second loop: the open files.\<close>

primrec free_fds :: "open_file list \<Rightarrow> 'a kstate_scheme \<Rightarrow> 'a kstate_scheme out" where
  "free_fds [] s = Some (Inr s)"
| "free_fds (d # ds) s =
     (let f = of_file d
      in if f = 0 then Some (Inl NullDeref)
         else let s1 = s\<lparr>f_opened := (f_opened s)(f := f_opened s f - 1)\<rparr>
              in bind_out
                   (if f_opened s1 f = 0
                    then bind_out (kfree (f_mmap s1 f) s1) (\<lambda>s2. Some (Inr (s2\<lparr>f_mmap := (f_mmap s2)(f := 0)\<rparr>)))
                    else Some (Inr s1)) (\<lambda>s3.
                 bind_out (kfree (of_addr d) s3) (\<lambda>s4. free_fds ds s4)))"

text \<open>The third loop: the children go to process 0.\<close>

definition reparent :: "nat \<Rightarrow> 'a kstate_scheme \<Rightarrow> 'a kstate_scheme" where
  "reparent c s = upd_proc 0 (\<lambda>p. p\<lparr>child := c # child p\<rparr>) (upd_proc c (\<lambda>p. p\<lparr>parent := 0\<rparr>) s)"

definition give_children :: "'a kstate_scheme \<Rightarrow> 'a kstate_scheme" where
  "give_children s =
     (let cs = child (cur s)
      in fold reparent cs (upd_proc (current s) (\<lambda>p. p\<lparr>child := []\<rparr>) s))"

text \<open>\<open>sys_exit\<close> up to the switch to process 0.\<close>

definition exit_body :: "u32 \<Rightarrow> 'a kstate_scheme \<Rightarrow> 'a kstate_scheme out" where
  "exit_body st s =
     (let s1 = upd_proc (current s) (\<lambda>p. p\<lparr>pstate := -1, status := st\<rparr>) (s\<lparr>n_proc := n_proc s - 1\<rparr>)
      in bind_out (free_pages (pglist (cur s1)) s1) (\<lambda>s2.
         bind_out (free_fds (fd (cur s2)) (upd_proc (current s2) (\<lambda>p. p\<lparr>pglist := []\<rparr>) s2)) (\<lambda>s3.
         let par = parent (cur s3);
             s4 = (if pstate (p_list s3 par) > 0
                   then upd_proc par (\<lambda>p. p\<lparr>signal := set_signal (signal p) SIGCHLD\<rparr>) s3
                   else s3);
             s5 = give_children s4
         in bind_out (kfree (console (cur s5)) s5) (\<lambda>s6.
            let s7 = upd_proc (current s6) (\<lambda>p. p\<lparr>console := 0\<rparr>) s6
            in bind_out (release_page_from_heap (kstack_esp0 (cur s7) AND 0xFFFFF000) s7) (\<lambda>(_, s8).
               bind_out (pd_destroy (pd (cur s8)) (s8\<lparr>cr3 := KERN_PDIR\<rparr>)) (\<lambda>(_, s9). Some (Inr s9)))))))"

section \<open>Signals\<close>

text \<open>\<open>sigfn\<close> has 32 entries; entry 32, which signal 32 selects, is the next field, \<open>status\<close>.\<close>

definition sigfn_at :: "process \<Rightarrow> u32 \<Rightarrow> u32" where
  "sigfn_at p sig = (if unat sig < 32 then sigfn p (unat sig) else status p)"

definition set_sigfn :: "u32 \<Rightarrow> u32 \<Rightarrow> process \<Rightarrow> process" where
  "set_sigfn sig v p =
     (if unat sig < 32 then p\<lparr>sigfn := (sigfn p)(unat sig := v)\<rparr> else p\<lparr>status := v\<rparr>)"

text \<open>The frame that \<open>handle_signal\<close> builds on the user stack, from \<open>esp[0]\<close> to \<open>esp[19]\<close>.\<close>

definition sig_frame :: "process \<Rightarrow> u32 \<Rightarrow> u32 list" where
  "sig_frame p esp =
     (let r = regs p
      in [esp + 72, ucast (r_gs r), ucast (r_fs r), ucast (r_es r), ucast (r_ds r), r_edi r, r_esi r,
          r_ebp r, r_ebx r, r_edx r, r_ecx r, r_eax r, r_eip r, ucast (r_cs r), r_eflags r, r_esp r,
          ucast (r_ss r), kstack_esp0 p, 0x00000EB8, 0x0030CD00])"

fun write_words :: "u32 \<Rightarrow> u32 list \<Rightarrow> mem \<Rightarrow> mem" where
  "write_words a [] m = m"
| "write_words a (w # ws) m = write_words (a + 4) ws (wr32 m a w)"

definition deliver :: "u32 \<Rightarrow> 'a kstate_scheme \<Rightarrow> 'a kstate_scheme" where
  "deliver sig s =
     (let p = cur s;
          esp = r_esp (regs p) - 80;
          dir = r_cr3 (regs p);
          s1 = s\<lparr>cr3 := dir, umem := (umem s)(dir := write_words esp (sig_frame p esp) (umem s dir))\<rparr>
      in upd_proc (current s1) (\<lambda>p.
           let p1 = set_sigfn sig SIG_DFL
                      (p\<lparr>regs := (regs p)\<lparr>r_esp := esp, r_eip := sigfn_at p sig\<rparr>\<rparr>)
           in if sig \<noteq> SIGCHLD then p1\<lparr>signal := clear_signal (signal p1) sig\<rparr> else p1) s1)"

text \<open>\<open>handle_signal\<close>; the boolean tells that the process has to end (\<open>sys_exit(1)\<close>).\<close>

definition handle_signal :: "u32 \<Rightarrow> 'a kstate_scheme \<Rightarrow> bool \<times> 'a kstate_scheme" where
  "handle_signal sig s =
     (let h = sigfn_at (cur s) sig;
          clear = upd_proc (current s) (\<lambda>p. p\<lparr>signal := clear_signal (signal p) sig\<rparr>)
      in if h = SIG_IGN then (False, clear s)
         else if h = SIG_DFL
         then if sig = SIGHUP \<or> sig = SIGINT \<or> sig = SIGQUIT
              then (True, s\<lparr>cr3 := r_cr3 (regs (cur s))\<rparr>)
              else if sig = SIGCHLD then (False, s)
              else (False, clear s)
         else (False, deliver sig s))"

section \<open>The task switch\<close>

datatype mode = KERNELMODE | USERMODE

text \<open>What \<open>switch_to_task\<close> hands to \<open>do_switch\<close>: the kernel stack it switches to and the words it pushes
  there, the last one first (the pointer to the current process, which \<open>do_switch\<close> pops, is left out).\<close>

record switch_frame =
  sw_kss :: u16
  sw_kesp :: u32
  sw_pushed :: "u32 list"

definition make_frame :: "mode \<Rightarrow> process \<Rightarrow> switch_frame" where
  "make_frame md p =
     (let r = regs p;
          eflags = (r_eflags r OR 0x200) AND 0xFFFFBFFF;
          top = [r_eip r, ucast (r_cs r), eflags]
      in case md of
           USERMODE \<Rightarrow> \<lparr>sw_kss = kstack_ss0 p, sw_kesp = kstack_esp0 p, sw_pushed = top @ [r_esp r, ucast (r_ss r)]\<rparr>
         | KERNELMODE \<Rightarrow> \<lparr>sw_kss = r_ss r, sw_kesp = r_esp r, sw_pushed = top\<rparr>)"

text \<open>A signal that ends the process leads to \<open>sys_exit\<close> and from there to a switch to process 0.\<close>

partial_function (option) switch_to_task ::
    "nat \<Rightarrow> mode \<Rightarrow> 'a kstate_scheme \<Rightarrow> (switch_frame \<times> 'a kstate_scheme) out" where
  "switch_to_task n md s =
     Option.bind (dequeue_signal (signal (p_list s n))) (\<lambda>sig.
       let s1 = s\<lparr>current := n\<rparr>;
           r = (if sig \<noteq> 0 then handle_signal sig s1 else (False, s1))
       in if fst r then bind_out (exit_body 1 (snd r)) (\<lambda>s2. switch_to_task 0 KERNELMODE s2)
          else let s3 = snd r; p = cur s3
               in Some (Inr (make_frame md p, s3\<lparr>tss_ss0 := kstack_ss0 p, tss_esp0 := kstack_esp0 p\<rparr>)))"

text \<open>\<open>do_switch\<close>: it loads the registers of the current process, its page directory, and executes \<open>iret\<close>,
  which pops the stack registers as well when it returns to user mode. \<open>None\<close>: it pops more words than
  were pushed.\<close>

definition do_switch :: "switch_frame \<Rightarrow> process \<Rightarrow> regs_t option" where
  "do_switch f p =
     (case sw_pushed f of
        [eip, cs, eflags] \<Rightarrow>
          if ucast cs = (0x08 :: u16)
          then Some ((regs p)\<lparr>r_eip := eip, r_cs := ucast cs, r_eflags := eflags, r_esp := sw_kesp f, r_ss := sw_kss f\<rparr>)
          else None
      | [eip, cs, eflags, esp, ss] \<Rightarrow>
          if ucast cs = (0x08 :: u16)
          then Some ((regs p)\<lparr>r_eip := eip, r_cs := ucast cs, r_eflags := eflags, r_esp := sw_kesp f - 8, r_ss := sw_kss f\<rparr>)
          else Some ((regs p)\<lparr>r_eip := eip, r_cs := ucast cs, r_eflags := eflags, r_esp := esp, r_ss := ucast ss\<rparr>)
      | _ \<Rightarrow> None)"

definition sys_exit :: "u32 \<Rightarrow> 'a kstate_scheme \<Rightarrow> (switch_frame \<times> 'a kstate_scheme) out" where
  "sys_exit st s = bind_out (exit_body st s) (\<lambda>s1. switch_to_task 0 KERNELMODE s1)"

section \<open>The scheduler\<close>

text \<open>Saving the interrupted context; \<open>stk\<close> are the words at \<open>stack_ptr\<close>.\<close>

definition save_context :: "(nat \<Rightarrow> u32) \<Rightarrow> u16 \<Rightarrow> u32 \<Rightarrow> process \<Rightarrow> process" where
  "save_context stk ss0 esp0 p =
     (let r = (regs p)\<lparr>r_eflags := stk 16, r_cs := ucast (stk 15), r_eip := stk 14, r_eax := stk 13,
                r_ecx := stk 12, r_edx := stk 11, r_ebx := stk 10, r_ebp := stk 8, r_esi := stk 7,
                r_edi := stk 6, r_ds := ucast (stk 5), r_es := ucast (stk 4), r_fs := ucast (stk 3),
                r_gs := ucast (stk 2)\<rparr>;
          r' = (if r_cs r \<noteq> 0x08 then r\<lparr>r_esp := stk 17, r_ss := ucast (stk 18)\<rparr>
                else r\<lparr>r_esp := stk 9 + 12, r_ss := ss0\<rparr>)
      in p\<lparr>regs := r', kstack_ss0 := ss0, kstack_esp0 := esp0\<rparr>)"

text \<open>A search loop of the round robin: the first ready process from \<open>i\<close> on, 0 if there is none.\<close>

function scan :: "(nat \<Rightarrow> bool) \<Rightarrow> nat \<Rightarrow> nat \<Rightarrow> nat" where
  "scan rdy i lim = (if i < lim then if rdy i then i else scan rdy (i + 1) lim else 0)"
  by pat_completeness auto
termination
  by (relation "measure (\<lambda>(rdy, i, lim). lim - i)") auto

declare scan.simps [simp del]

definition next_pid :: "(nat \<Rightarrow> bool) \<Rightarrow> nat \<Rightarrow> nat" where
  "next_pid rdy c =
     (let newpid = scan rdy (c + 1) MAXPID
      in if newpid = 0 then scan rdy 1 c else newpid)"

text \<open>\<open>None\<close> as the first result: \<open>schedule\<close> returns and the interrupted process goes on.\<close>

definition schedule :: "(nat \<Rightarrow> u32) \<Rightarrow> 'a kstate_scheme \<Rightarrow> (switch_frame option \<times> 'a kstate_scheme) out" where
  "schedule stk s =
     (if n_proc s = 0 then Some (Inr (None, s))
      else if n_proc s = 1 \<and> pid (cur s) \<noteq> 0 then Some (Inr (None, s))
      else let s1 = upd_proc (current s) (save_context stk (tss_ss0 s) (tss_esp0 s)) s;
               newpid = next_pid (\<lambda>i. pstate (p_list s1 i) = 1) (nat (pid (cur s1)));
               p = p_list s1 newpid
           in bind_out (switch_to_task (nat (pid p)) (if r_cs (regs p) \<noteq> 0x08 then USERMODE else KERNELMODE) s1) (\<lambda>(r, s2). Some (Inr (Some r, s2))))"

section \<open>System calls on processes\<close>

text \<open>\<open>sys_wait\<close>, with the pointer to the status in user memory. The wait for the signal is a loop
  without end as long as no other process runs: \<open>None\<close>. The value returned when no child is a zombie is
  an uninitialised variable: \<open>None\<close> as the first result.\<close>

definition sys_wait :: "u32 \<Rightarrow> 'a kstate_scheme \<Rightarrow> (int option \<times> 'a kstate_scheme) option" where
  "sys_wait ustatus s =
     (if is_signal (signal (cur s)) SIGCHLD = 0 then None
      else case find (\<lambda>c. pstate (p_list s c) = -1) (child (cur s)) of
             None \<Rightarrow> Some (None, s)
           | Some c \<Rightarrow>
               let s1 = s\<lparr>umem := (umem s)(cr3 s := wr32 (umem s (cr3 s)) ustatus (status (p_list s c)))\<rparr>;
                   s2 = upd_proc c (\<lambda>p. p\<lparr>pstate := 0\<rparr>) s1
               in Some (Some (pid (p_list s c)), upd_proc (current s2)
                    (\<lambda>p. p\<lparr>child := remove1 c (child p), signal := clear_signal (signal p) SIGCHLD\<rparr>) s2))"

text \<open>\<open>sys_kill\<close> indexes the table with any number.\<close>

definition sys_kill :: "int \<Rightarrow> u32 \<Rightarrow> 'a kstate_scheme \<Rightarrow> (u32 \<times> 'a kstate_scheme) res" where
  "sys_kill n sig s =
     (if n < 0 \<or> int MAXPID < n then Inl OutOfBounds
      else if pstate (p_list s (nat n)) > 0
      then Inr (0, upd_proc (nat n) (\<lambda>p. p\<lparr>signal := set_signal (signal p) sig\<rparr>) s)
      else Inr (- 1, s))"

definition sys_sigaction :: "u32 \<Rightarrow> u32 \<Rightarrow> 'a kstate_scheme \<Rightarrow> (u32 \<times> 'a kstate_scheme) res" where
  "sys_sigaction sig fn s =
     (if sint sig < 32
      then if sint sig < 0 then Inl OutOfBounds
           else Inr (0, upd_proc (current s) (\<lambda>p. p\<lparr>sigfn := (sigfn p)(unat sig := fn)\<rparr>) s)
      else Inr (0, s))"

definition sys_sbrk :: "u32 \<Rightarrow> 'a kstate_scheme \<Rightarrow> u32 \<times> 'a kstate_scheme" where
  "sys_sbrk n s = (e_heap (cur s), upd_proc (current s) (\<lambda>p. p\<lparr>e_heap := e_heap p + n\<rparr>) s)"

text \<open>\<open>sys_sigreturn\<close>; \<open>esp\<close> are the words it reads, on the kernel stack.\<close>

definition restore_frame :: "(nat \<Rightarrow> u32) \<Rightarrow> process \<Rightarrow> process" where
  "restore_frame esp p = p\<lparr>kstack_esp0 := esp 17,
     regs := (regs p)\<lparr>r_ss := ucast (esp 16), r_esp := esp 15, r_eflags := esp 14, r_cs := ucast (esp 13),
       r_eip := esp 12, r_eax := esp 11, r_ecx := esp 10, r_edx := esp 9, r_ebx := esp 8, r_ebp := esp 7,
       r_esi := esp 6, r_edi := esp 5, r_ds := ucast (esp 4), r_es := ucast (esp 3), r_fs := ucast (esp 2),
       r_gs := ucast (esp 1)\<rparr>\<rparr>"

definition sys_sigreturn :: "(nat \<Rightarrow> u32) \<Rightarrow> 'a kstate_scheme \<Rightarrow> (switch_frame \<times> 'a kstate_scheme) out" where
  "sys_sigreturn esp s = switch_to_task 0 KERNELMODE (upd_proc (current s) (restore_frame esp) s)"

section \<open>Page faults\<close>

text \<open>A fault in user space gets a page; any other fault ends the process. \<open>None\<close> as the first result:
  the handler returns.\<close>

definition isr_PF_exc :: "u32 \<Rightarrow> 'a kstate_scheme \<Rightarrow> (switch_frame option \<times> 'a kstate_scheme) out" where
  "isr_PF_exc faulting_addr s =
     (if faulting_addr \<ge> USER_OFFSET \<and> faulting_addr < USER_STACK
      then bind_out (kmalloc 16 s) (\<lambda>(pg, s1).
           case get_page_frame s1 of (p_addr, s2) \<Rightarrow>
             let v_addr = faulting_addr AND 0xFFFFF000;
                 s3 = s2\<lparr>pg_p_addr := (pg_p_addr s2)(pg := p_addr), pg_v_addr := (pg_v_addr s2)(pg := v_addr)\<rparr>;
                 s4 = upd_proc (current s3) (\<lambda>p. p\<lparr>pglist := pg # pglist p\<rparr>) s3
             in bind_out (pd_add_page v_addr p_addr PG_USER (pd (cur s4)) s4) (\<lambda>s5. Some (Inr (None, s5))))
      else bind_out (sys_exit 1 s) (\<lambda>(r, s1). Some (Inr (Some r, s1))))"

section \<open>Creating a process\<close>

text \<open>The search for a slot in \<open>load_task\<close>; with no free slot it reads the entry behind the table.\<close>

function find_slot :: "(nat \<Rightarrow> int) \<Rightarrow> nat \<Rightarrow> nat res" where
  "find_slot st n =
     (if MAXPID < n then Inl OutOfBounds
      else if st n \<noteq> 0 then find_slot st (n + 1) else Inr n)"
  by pat_completeness auto
termination
  by (relation "measure (\<lambda>(st, n). 33 - n)") auto

declare find_slot.simps [simp del]

text \<open>The last part of \<open>load_task\<close>: the new entry of the table and its place in the tree.\<close>

definition init_process ::
    "nat \<Rightarrow> nat \<Rightarrow> u32 \<Rightarrow> u32 \<Rightarrow> u32 \<Rightarrow> u32 \<Rightarrow> u32 \<Rightarrow> 'a kstate_scheme \<Rightarrow> 'a kstate_scheme" where
  "init_process n previous e_entry stackp kstack_v dir cons s =
     (let par = (if pstate (p_list s previous) \<noteq> 0 then previous else 0);
          s1 = upd_proc n (\<lambda>p. p\<lparr>
            regs := \<lparr>r_eax = 0, r_ecx = 0, r_edx = 0, r_ebx = 0, r_esp = stackp, r_ebp = 0, r_esi = 0,
              r_edi = 0, r_eip = e_entry, r_eflags = 0, r_cs = 0x23, r_ss = 0x33, r_ds = 0x2B, r_es = 0x2B,
              r_fs = 0x2B, r_gs = 0x2B, r_cr3 = dir\<rparr>,
            kstack_ss0 := 0x18, kstack_esp0 := kstack_v + PAGESIZE - 16,
            b_heap := (e_bss p AND 0xFFFFF000) + PAGESIZE, e_heap := (e_bss p AND 0xFFFFF000) + PAGESIZE,
            pwd := pwd (p_list s previous), fd := [], parent := par, child := []\<rparr>) s;
          s2 = upd_proc par (\<lambda>p. p\<lparr>child := n # child p\<rparr>) s1
      in upd_proc n (\<lambda>p. p\<lparr>console := cons, signal := 0, sigfn := (\<lambda>i. if i < 32 then SIG_DFL else sigfn p i),
           status := 0, pstate := 1\<rparr>) s2)"

section \<open>The memory manager leaves the processes alone\<close>

lemma kheap_more_vm: "kheap_state.more s' = kheap_state.more s \<Longrightarrow> vm_state.more s' = vm_state.more s"
  by (cases s; cases s') simp

lemma vwrite_more: "vwrite a w s = Inr s' \<Longrightarrow> kheap_state.more s' = kheap_state.more s"
  by (auto simp: vwrite_def split: option.splits)

lemma pd0_add_page_more: "pd0_add_page v p f s = Inr s' \<Longrightarrow> kheap_state.more s' = kheap_state.more s"
  by (auto simp: pd0_add_page_def bind_res_eq_Inr vwrite_more split: if_splits)

lemma pd_remove_page_more: "pd_remove_page v s = Inr s' \<Longrightarrow> kheap_state.more s' = kheap_state.more s"
  by (auto simp: pd_remove_page_def bind_res_eq_Inr vwrite_more split: if_splits)

lemma release_frame_more: "kheap_state.more (release_page_frame p s) = kheap_state.more s"
  by (simp add: release_page_frame_def Let_def)

lemma release_frame_vm: "vm_state.more (release_page_frame p s) = vm_state.more s"
  by (simp add: release_page_frame_def Let_def)

lemma bind_out_eq: "bind_out r f = Some (Inr y) \<longleftrightarrow> (\<exists>x. r = Some (Inr x) \<and> f x = Some (Inr y))"
  by (auto simp: bind_out_def split: option.splits sum.splits)

lemma kfree_more: "kfree v s = Some (Inr s') \<Longrightarrow> kheap_state.more s' = kheap_state.more s"
  by (auto simp: kfree_def Let_def bind_eq_Some_conv bind_res_eq_Inr split: if_splits)

lemma ksbrk_loop_more: "ksbrk_loop n s = Inr (b, s') \<Longrightarrow> kheap_state.more s' = kheap_state.more s"
proof (induction n arbitrary: s)
  case (Suc n)
  obtain p s1 where g: "get_page_frame s = (p, s1)" by fastforce
  have m1: "kheap_state.more s1 = kheap_state.more s" using get_page_frame_ksel(1) [of s] g by simp
  from Suc.prems g obtain s2 where "pd0_add_page (kern_heap s1) p 0 s1 = Inr s2"
    "ksbrk_loop n (s2\<lparr>kern_heap := kern_heap s2 + PAGESIZE\<rparr>) = Inr (b, s')"
    by (auto simp: bind_res_eq_Inr)
  with Suc.IH pd0_add_page_more m1 show ?case by fastforce
qed simp

lemma ksbrk_more: "ksbrk n s = Inr (r, s') \<Longrightarrow> kheap_state.more s' = kheap_state.more s"
  by (auto simp: ksbrk_def Let_def bind_res_eq_Inr split: if_splits dest: ksbrk_loop_more)

lemma kmalloc_loop_more:
  assumes "kmalloc_loop rs c s = Some r"
  shows "\<forall>p s'. r = Inr (p, s') \<longrightarrow> kheap_state.more s' = kheap_state.more s"
proof (rule kmalloc_loop.raw_induct
    [where P = "\<lambda>rs c s r. \<forall>p s'. r = Inr (p, s') \<longrightarrow> kheap_state.more s' = kheap_state.more s", OF _ assms])
  fix loop :: "u32 \<Rightarrow> u32 \<Rightarrow> 'a kheap_state_scheme \<Rightarrow> (u32 \<times> 'a kheap_state_scheme) res option" and rs c s r
  assume IH: "\<And>rs c s r. loop rs c s = Some r \<Longrightarrow> \<forall>p s'. r = Inr (p, s') \<longrightarrow> kheap_state.more s' = kheap_state.more s"
    and b: "(if \<not> hdr_ok s c then Some (Inl (PageFault c))
      else if hdr_used (kmem s) c \<or> hdr_size (kmem s) c < rs
      then if hdr_size (kmem s) c = 0 then Some (Inl Halt)
           else let chunk' = c + hdr_size (kmem s) c
                in if chunk' = kern_heap s
                   then (case ksbrk (rs div PAGESIZE + 1) s of
                           Inl e \<Rightarrow> Some (Inl e)
                         | Inr (r, s1) \<Rightarrow> if r < 0 then Some (Inl Halt) else loop rs chunk' s1)
                   else if chunk' > kern_heap s then Some (Inl Halt)
                   else loop rs chunk' s
      else Some (Inr (c, s))) = Some r"
  show "\<forall>p s'. r = Inr (p, s') \<longrightarrow> kheap_state.more s' = kheap_state.more s"
    using b IH ksbrk_more by (fastforce simp: Let_def split: if_splits sum.splits prod.splits)
qed

lemma kmalloc_more: "kmalloc n s = Some (Inr (p, s')) \<Longrightarrow> kheap_state.more s' = kheap_state.more s"
  by (auto simp: kmalloc_def Let_def bind_eq_Some_conv bind_res_eq_Inr kmalloc_take_def
      split: if_splits dest!: kmalloc_loop_more)

lemma insert_vm_more: "insert_vm v a b s = Some (Inr s') \<Longrightarrow> vm_state.more s' = vm_state.more s"
  by (auto simp: insert_vm_def Let_def bind_out_eq split: if_splits
      dest!: kfree_more kmalloc_more kheap_more_vm)

lemma release_page_more: "release_page_from_heap v s = Some (Inr (r, s')) \<Longrightarrow> vm_state.more s' = vm_state.more s"
  by (auto simp: release_page_from_heap_def bind_out_eq bind_eq_Some_conv release_frame_vm split: if_splits
      dest!: insert_vm_more pd_remove_page_more kheap_more_vm)

lemma pd_destroy_loop_more:
  assumes "pd_destroy_loop h q n s = Some r"
  shows "\<forall>s'. r = Inr s' \<longrightarrow> vm_state.more s' = vm_state.more s"
proof (rule pd_destroy_loop.raw_induct
    [where P = "\<lambda>h q n s r. \<forall>s'. r = Inr s' \<longrightarrow> vm_state.more s' = vm_state.more s", OF _ assms])
  fix loop :: "u32 \<Rightarrow> u32 \<Rightarrow> u32 \<Rightarrow> 'a vm_state_scheme \<Rightarrow> 'a vm_state_scheme out" and h q n s r
  assume IH: "\<And>h q n s r. loop h q n s = Some r \<Longrightarrow> \<forall>s'. r = Inr s' \<longrightarrow> vm_state.more s' = vm_state.more s"
    and b: "(if q = h then Some (Inr s)
      else let pg = q - 8
           in bind_out (release_page_from_heap (pg_v_addr s pg) s) (\<lambda>(_, s1).
              bind_out (kfree pg (s1\<lparr>lists := list_del q (lists s1)\<rparr>)) (\<lambda>s2.
                loop h n (next_of (lists s2) n) s2))) = Some r"
  show "\<forall>s'. r = Inr s' \<longrightarrow> vm_state.more s' = vm_state.more s"
  proof (intro allI impI)
    fix s' assume "r = Inr s'"
    with b show "vm_state.more s' = vm_state.more s"
      using IH by (fastforce simp: Let_def bind_out_eq split: if_splits
        dest!: release_page_more kfree_more kheap_more_vm)
  qed
qed

lemma pd_destroy_more: "pd_destroy d s = Some (Inr (r, s')) \<Longrightarrow> vm_state.more s' = vm_state.more s"
  by (auto simp: pd_destroy_def Let_def bind_out_eq
      dest!: pd_destroy_loop_more release_page_more kfree_more kheap_more_vm)

lemma kstate_fields:
  assumes "vm_state.more s' = vm_state.more s"
  shows "p_list s' = p_list s" "current s' = current s" "n_proc s' = n_proc s" "umem s' = umem s"
  using assms by (cases s; cases s'; simp)+

lemma free_pages_fields:
  "free_pages pgs s = Some (Inr s') \<Longrightarrow> p_list s' = p_list s \<and> current s' = current s \<and> n_proc s' = n_proc s"
proof (induction pgs arbitrary: s)
  case (Cons pg pgs)
  then obtain s1 where k: "kfree pg (release_page_frame (pg_p_addr s pg) s) = Some (Inr s1)"
    and f: "free_pages pgs s1 = Some (Inr s')" by (auto simp: bind_out_eq)
  from kfree_more [OF k] have "vm_state.more s1 = vm_state.more s"
    by (auto simp: release_frame_vm dest!: kheap_more_vm)
  from kstate_fields [OF this] Cons.IH [OF f] show ?case by simp
qed simp

lemma kfree_fields:
  "kfree v s = Some (Inr s') \<Longrightarrow> p_list s' = p_list s \<and> current s' = current s \<and> n_proc s' = n_proc s"
  using kstate_fields [of s' s] by (auto dest!: kfree_more kheap_more_vm)

lemma free_fds_fields:
  "free_fds ds s = Some (Inr s') \<Longrightarrow> p_list s' = p_list s \<and> current s' = current s \<and> n_proc s' = n_proc s"
proof (induction ds arbitrary: s)
  case (Cons d ds)
  let ?f = "of_file d"
  let ?s1 = "s\<lparr>f_opened := (f_opened s)(?f := f_opened s ?f - 1)\<rparr>"
  from Cons.prems obtain s3 s4 where
    s3: "(if f_opened ?s1 ?f = 0 then bind_out (kfree (f_mmap ?s1 ?f) ?s1) (\<lambda>s2. Some (Inr (s2\<lparr>f_mmap := (f_mmap s2)(?f := 0)\<rparr>)))
       else Some (Inr ?s1)) = Some (Inr s3)"
    and k: "kfree (of_addr d) s3 = Some (Inr s4)" and r: "free_fds ds s4 = Some (Inr s')"
    by (auto simp: Let_def bind_out_eq split: if_split_asm)
  from s3 have "p_list s3 = p_list s \<and> current s3 = current s \<and> n_proc s3 = n_proc s"
    by (auto simp: bind_out_eq split: if_splits dest!: kfree_fields)
  with kfree_fields [OF k] Cons.IH [OF r] show ?case by simp
qed simp

text \<open>What \<open>exit_body\<close> does to the table.\<close>

definition adopt :: "nat \<Rightarrow> (nat \<Rightarrow> process) \<Rightarrow> nat \<Rightarrow> process" where
  "adopt k pl = (let pl' = pl(k := (pl k)\<lparr>parent := 0\<rparr>) in pl'(0 := (pl' 0)\<lparr>child := k # child (pl' 0)\<rparr>))"

definition exit_table :: "nat \<Rightarrow> u32 \<Rightarrow> (nat \<Rightarrow> process) \<Rightarrow> nat \<Rightarrow> process" where
  "exit_table c st pl =
     (let pl1 = pl(c := (pl c)\<lparr>pstate := -1, status := st, pglist := []\<rparr>);
          par = parent (pl c);
          pl2 = (if pstate (pl1 par) > 0
                 then pl1(par := (pl1 par)\<lparr>signal := set_signal (signal (pl1 par)) SIGCHLD\<rparr>) else pl1);
          pl3 = pl2(c := (pl2 c)\<lparr>child := []\<rparr>);
          pl4 = fold adopt (child (pl c)) pl3
      in pl4(c := (pl4 c)\<lparr>console := 0\<rparr>))"

lemma upd_proc_sel [simp]:
  "p_list (upd_proc n f s) = (p_list s)(n := f (p_list s n))" "current (upd_proc n f s) = current s"
  "n_proc (upd_proc n f s) = n_proc s"
  by (simp_all add: upd_proc_def)

lemma fold_reparent_fields:
  "p_list (fold reparent cs s) = fold adopt cs (p_list s)
   \<and> current (fold reparent cs s) = current s \<and> n_proc (fold reparent cs s) = n_proc s"
  by (induction cs arbitrary: s) (simp_all add: reparent_def adopt_def Let_def)

lemma exit_body_table:
  assumes "exit_body st s = Some (Inr s')"
  shows "p_list s' = exit_table (current s) st (p_list s)" "current s' = current s" "n_proc s' = n_proc s - 1"
proof -
  let ?c = "current s"
  let ?s1 = "upd_proc ?c (\<lambda>p. p\<lparr>pstate := -1, status := st\<rparr>) (s\<lparr>n_proc := n_proc s - 1\<rparr>)"
  from assms obtain s2 s3 where 2: "free_pages (pglist (cur ?s1)) ?s1 = Some (Inr s2)"
    and 3: "free_fds (fd (cur s2)) (upd_proc (current s2) (\<lambda>p. p\<lparr>pglist := []\<rparr>) s2) = Some (Inr s3)"
    and r: "(let par = parent (cur s3);
             s4 = (if pstate (p_list s3 par) > 0
                   then upd_proc par (\<lambda>p. p\<lparr>signal := set_signal (signal p) SIGCHLD\<rparr>) s3
                   else s3);
             s5 = give_children s4
         in bind_out (kfree (console (cur s5)) s5) (\<lambda>s6.
            let s7 = upd_proc (current s6) (\<lambda>p. p\<lparr>console := 0\<rparr>) s6
            in bind_out (release_page_from_heap (kstack_esp0 (cur s7) AND 0xFFFFF000) s7) (\<lambda>(_, s8).
               bind_out (pd_destroy (pd (cur s8)) (s8\<lparr>cr3 := KERN_PDIR\<rparr>)) (\<lambda>(_, s9). Some (Inr s9))))) = Some (Inr s')"
    unfolding exit_body_def Let_def bind_out_eq by blast
  note f2 = free_pages_fields [OF 2] and f3 = free_fds_fields [OF 3]
  define s4 where "s4 = (if pstate (p_list s3 (parent (cur s3))) > 0
     then upd_proc (parent (cur s3)) (\<lambda>p. p\<lparr>signal := set_signal (signal p) SIGCHLD\<rparr>) s3 else s3)"
  obtain s6 s8 s9 x y where 6: "kfree (console (cur (give_children s4))) (give_children s4) = Some (Inr s6)"
    and 8: "release_page_from_heap (kstack_esp0 (cur (upd_proc (current s6) (\<lambda>p. p\<lparr>console := 0\<rparr>) s6)) AND 0xFFFFF000)
      (upd_proc (current s6) (\<lambda>p. p\<lparr>console := 0\<rparr>) s6) = Some (Inr (x, s8))"
    and 9: "pd_destroy (pd (cur s8)) (s8\<lparr>cr3 := KERN_PDIR\<rparr>) = Some (Inr (y, s9))" and "s' = s9"
    using r unfolding Let_def s4_def [symmetric] by (auto simp: bind_out_eq split: prod.splits)
  note f6 = kfree_fields [OF 6]
    and f8 = kstate_fields [OF release_page_more [OF 8]] and f9 = kstate_fields [OF pd_destroy_more [OF 9]]
  let ?pl1 = "(p_list s)(?c := (p_list s ?c)\<lparr>pstate := -1, status := st, pglist := []\<rparr>)"
  have 30: "p_list s3 = ?pl1" "current s3 = ?c" "n_proc s3 = n_proc s - 1" using f2 f3 by simp_all
  have 40: "p_list s4 = (if pstate (?pl1 (parent (p_list s ?c))) > 0
      then ?pl1(parent (p_list s ?c) := (?pl1 (parent (p_list s ?c)))\<lparr>signal := set_signal (signal (?pl1 (parent (p_list s ?c)))) SIGCHLD\<rparr>)
      else ?pl1)" "current s4 = ?c" "n_proc s4 = n_proc s - 1"
    unfolding s4_def using 30 by simp_all
  have "child (p_list s4 ?c) = child (p_list s ?c)" unfolding 40(1) by simp
  then have 50: "p_list (give_children s4) = fold adopt (child (p_list s ?c)) ((p_list s4)(?c := (p_list s4 ?c)\<lparr>child := []\<rparr>))"
    "current (give_children s4) = ?c" "n_proc (give_children s4) = n_proc s - 1"
    using fold_reparent_fields [of "child (p_list s ?c)" "upd_proc ?c (\<lambda>p. p\<lparr>child := []\<rparr>) s4"] 40(2,3)
    by (simp_all add: give_children_def)
  show "current s' = ?c" "n_proc s' = n_proc s - 1" using f6 f8 f9 50 \<open>s' = s9\<close> by simp_all
  have "p_list s' = (p_list (give_children s4))(?c := (p_list (give_children s4) ?c)\<lparr>console := 0\<rparr>)"
    using f6 f8 f9 50(2) \<open>s' = s9\<close> by simp
  also have "\<dots> = exit_table ?c st (p_list s)"
    unfolding 50(1) 40(1) exit_table_def Let_def by (rule refl)
  finally show "p_list s' = exit_table ?c st (p_list s)" .
qed

section \<open>The tree of processes\<close>

lemma fold_adopt:
  assumes "0 \<notin> set cs"
  shows "pstate (fold adopt cs pl i) = pstate (pl i)"
    "parent (fold adopt cs pl i) = (if i \<in> set cs then 0 else parent (pl i))"
    "child (fold adopt cs pl i) = (if i = 0 then rev cs @ child (pl 0) else child (pl i))"
  using assms by (induction cs arbitrary: pl) (auto simp: adopt_def Let_def)

lemma exit_table_tree:
  assumes "0 \<notin> set (child (pl c))" "c \<noteq> 0"
  shows "pstate (exit_table c st pl i) = (if i = c then -1 else pstate (pl i))"
    "parent (exit_table c st pl i) = (if i \<in> set (child (pl c)) then 0 else parent (pl i))"
    "child (exit_table c st pl i) =
       (if i = 0 then rev (child (pl c)) @ child (pl 0) else if i = c then [] else child (pl i))"
  using assms fold_adopt [OF assms(1)] unfolding exit_table_def Let_def by auto

definition live :: "(nat \<Rightarrow> process) \<Rightarrow> nat \<Rightarrow> bool" where
  "live pl j \<longleftrightarrow> 1 \<le> j \<and> j \<le> MAXPID \<and> pstate (pl j) \<noteq> 0"

definition running :: "(nat \<Rightarrow> process) \<Rightarrow> nat set" where
  "running pl = {j. 1 \<le> j \<and> j \<le> MAXPID \<and> pstate (pl j) = 1}"

text \<open>The lists of children are exactly the inverse of \<open>parent\<close> on the entries in use, a parent is running
  or process 0, and \<open>n_proc\<close> counts the running processes.\<close>

definition tree_ok :: "(nat \<Rightarrow> process) \<Rightarrow> int \<Rightarrow> bool" where
  "tree_ok pl n \<longleftrightarrow>
     (\<forall>i \<le> MAXPID. distinct (child (pl i)) \<and> set (child (pl i)) = {j. live pl j \<and> parent (pl j) = i})
     \<and> (\<forall>j. live pl j \<longrightarrow> parent (pl j) \<noteq> j \<and> (parent (pl j) = 0 \<or> parent (pl j) \<in> running pl)
           \<and> pstate (pl j) \<in> {-1, 1})
     \<and> n = int (card (running pl))"

lemma finite_running [simp]: "finite (running pl)"
  by (rule finite_subset [of _ "{..MAXPID}"]) (auto simp: running_def)

lemma tree_ok_cong:
  assumes "\<And>i. child (pl' i) = child (pl i) \<and> parent (pl' i) = parent (pl i) \<and> pstate (pl' i) = pstate (pl i)"
  shows "tree_ok pl' n = tree_ok pl n"
  using assms by (simp add: tree_ok_def live_def running_def)

lemma tree_ok_exit:
  assumes t: "tree_ok pl n" and c: "c \<in> running pl"
  shows "tree_ok (exit_table c st pl) (n - 1)"
proof -
  have c': "1 \<le> c" "c \<le> MAXPID" "pstate (pl c) = 1" using c by (auto simp: running_def)
  have ch: "distinct (child (pl i))" "set (child (pl i)) = {j. live pl j \<and> parent (pl j) = i}" if "i \<le> MAXPID" for i
    using t that by (auto simp: tree_ok_def)
  have lv: "parent (pl j) \<noteq> j" "parent (pl j) = 0 \<or> parent (pl j) \<in> running pl" "pstate (pl j) \<in> {-1, 1}" if "live pl j" for j
    using t that by (auto simp: tree_ok_def)
  have 0: "0 \<notin> set (child (pl c))" using ch(2) [OF c'(2)] by (auto simp: live_def)
  have c0: "c \<noteq> 0" using c'(1) by simp
  note e = exit_table_tree [where pl = pl and st = st, OF 0 c0]
  let ?pl = "exit_table c st pl"
  have live: "live ?pl j \<longleftrightarrow> live pl j" for j using c' by (auto simp: live_def e)
  have run: "running ?pl = running pl - {c}" by (auto simp: running_def e)
  have card: "n - 1 = int (card (running ?pl))"
    using t c card_Suc_Diff1 [OF finite_running c] unfolding run tree_ok_def by simp
  have par: "parent (?pl j) = (if live pl j \<and> parent (pl j) = c then 0 else parent (pl j))" for j
    using ch(2) [OF c'(2)] by (simp add: e)
  have kids: "distinct (child (?pl i)) \<and> set (child (?pl i)) = {j. live ?pl j \<and> parent (?pl j) = i}" if "i \<le> MAXPID" for i
    using ch [OF that] ch [OF c'(2)] c0 ch [of 0] unfolding live par by (auto simp: e)
  have "parent (?pl j) \<noteq> j \<and> (parent (?pl j) = 0 \<or> parent (?pl j) \<in> running ?pl) \<and> pstate (?pl j) \<in> {-1, 1}"
    if "live ?pl j" for j
    using that lv [of j] unfolding live par run e(1) by (auto simp: live_def)
  with kids card show ?thesis unfolding tree_ok_def by blast
qed

lemma tree_ok_wait:
  assumes t: "tree_ok pl n" and k: "k \<le> MAXPID" "c \<in> set (child (pl k))" "pstate (pl c) = -1"
    and pl': "\<And>i. pstate (pl' i) = (if i = c then 0 else pstate (pl i)) \<and> parent (pl' i) = parent (pl i)
      \<and> child (pl' i) = (if i = k then remove1 c (child (pl i)) else child (pl i))"
  shows "tree_ok pl' n"
proof -
  have ch: "distinct (child (pl i))" "set (child (pl i)) = {j. live pl j \<and> parent (pl j) = i}" if "i \<le> MAXPID" for i
    using t that by (auto simp: tree_ok_def)
  have c: "live pl c" "parent (pl c) = k" using ch(2) [OF k(1)] k(2) by auto
  have run: "running pl' = running pl" using pl' k(3) by (auto simp: running_def)
  have live: "live pl' j \<longleftrightarrow> live pl j \<and> j \<noteq> c" for j using pl' by (auto simp: live_def)
  have "distinct (child (pl' i)) \<and> set (child (pl' i)) = {j. live pl' j \<and> parent (pl' j) = i}" if "i \<le> MAXPID" for i
    using ch [OF that] c pl' live by (auto simp: set_remove1_eq)
  moreover have "parent (pl' j) \<noteq> j \<and> (parent (pl' j) = 0 \<or> parent (pl' j) \<in> running pl') \<and> pstate (pl' j) \<in> {-1, 1}"
    if "live pl' j" for j
    using t that pl' live run by (simp add: tree_ok_def)
  ultimately show ?thesis using t run by (simp add: tree_ok_def)
qed

lemma tree_ok_spawn:
  assumes t: "tree_ok pl n" and m: "1 \<le> m" "m \<le> MAXPID" "pstate (pl m) = 0" and k: "k = 0 \<or> k \<in> running pl"
    and pl': "\<And>i. pstate (pl' i) = (if i = m then 1 else pstate (pl i))
      \<and> parent (pl' i) = (if i = m then k else parent (pl i))
      \<and> child (pl' i) = (if i = m then [] else if i = k then m # child (pl i) else child (pl i))"
  shows "tree_ok pl' (n + 1)"
proof -
  have ch: "distinct (child (pl i))" "set (child (pl i)) = {j. live pl j \<and> parent (pl j) = i}" if "i \<le> MAXPID" for i
    using t that by (auto simp: tree_ok_def)
  have km: "k \<noteq> m" using k m by (auto simp: running_def)
  have nl: "\<not> live pl m" using m by (simp add: live_def)
  have nr: "m \<notin> running pl" using m by (simp add: running_def)
  have run: "running pl' = insert m (running pl)" using pl' m by (auto simp: running_def)
  have live: "live pl' j \<longleftrightarrow> live pl j \<or> j = m" for j using pl' m by (auto simp: live_def)
  have nochild: "parent (pl j) \<noteq> m" if "live pl j" for j
    using t that nr m(1) by (auto simp: tree_ok_def)
  have "distinct (child (pl' i)) \<and> set (child (pl' i)) = {j. live pl' j \<and> parent (pl' j) = i}" if "i \<le> MAXPID" for i
    using ch [OF that] pl' live nl km nochild by auto
  moreover have "parent (pl' j) \<noteq> j \<and> (parent (pl' j) = 0 \<or> parent (pl' j) \<in> running pl') \<and> pstate (pl' j) \<in> {-1, 1}"
    if "live pl' j" for j
    using t that pl' live run k km nl by (auto simp: tree_ok_def)
  moreover have "n + 1 = int (card (running pl'))" using t run nr by (simp add: tree_ok_def)
  ultimately show ?thesis by (simp add: tree_ok_def)
qed

lemma find_slot_free:
  "find_slot st n = Inr m \<Longrightarrow> n \<le> m \<and> m \<le> MAXPID \<and> st m = 0 \<and> (\<forall>j. n \<le> j \<and> j < m \<longrightarrow> st j \<noteq> 0)"
proof (induction st n rule: find_slot.induct)
  case (1 st n)
  show ?case
  proof (cases "\<not> MAXPID < n \<and> st n \<noteq> 0")
    case True
    with "1.prems" have "find_slot st (n + 1) = Inr m" by (simp add: find_slot.simps [of st n])
    with "1.IH" True have "n + 1 \<le> m \<and> m \<le> MAXPID \<and> st m = 0 \<and> (\<forall>j. n + 1 \<le> j \<and> j < m \<longrightarrow> st j \<noteq> 0)" by simp
    moreover have "n \<le> j \<longleftrightarrow> j = n \<or> n + 1 \<le> j" for j by auto
    ultimately show ?thesis using True by auto
  next
    case False
    with "1.prems" show ?thesis by (auto simp: find_slot.simps [of st n] split: if_splits)
  qed
qed

section \<open>Steps of the system\<close>

text \<open>The operations that change the table, in any order: a process ends, waits, sends a signal, changes
  its handlers or its heap, creates a process, or another process is dispatched and its signal handled
  (the fatal ones lead to the first kind of step).\<close>

inductive pstep :: "'a kstate_scheme \<Rightarrow> 'a kstate_scheme \<Rightarrow> bool" where
  exit: "current s \<in> running (p_list s) \<Longrightarrow> exit_body st s = Some (Inr s') \<Longrightarrow> pstep s s'"
| wait: "current s \<le> MAXPID \<Longrightarrow> sys_wait u s = Some (r, s') \<Longrightarrow> pstep s s'"
| kill: "sys_kill n sig s = Inr (r, s') \<Longrightarrow> pstep s s'"
| sigaction: "sys_sigaction sig fn s = Inr (r, s') \<Longrightarrow> pstep s s'"
| sbrk: "sys_sbrk n s = (r, s') \<Longrightarrow> pstep s s'"
| spawn: "find_slot (\<lambda>i. pstate (p_list s i)) 1 = Inr n \<Longrightarrow> current s = 0 \<or> current s \<in> running (p_list s) \<Longrightarrow>
    pstep s (init_process n (current s) entry sp ks dir cons (s\<lparr>n_proc := n_proc s + 1\<rparr>))"
| dispatch: "handle_signal sig (s\<lparr>current := n\<rparr>) = (False, s') \<Longrightarrow> pstep s s'"

inductive_cases pstepE: "pstep s s'"

lemma tree_upd:
  assumes "\<And>p. child (f p) = child p \<and> parent (f p) = parent p \<and> pstate (f p) = pstate p"
  shows "tree_ok (p_list (upd_proc n f s)) k = tree_ok (p_list s) k"
  by (rule tree_ok_cong) (simp add: assms)

lemma set_sigfn_tree:
  "child (set_sigfn sig v p) = child p" "parent (set_sigfn sig v p) = parent p" "pstate (set_sigfn sig v p) = pstate p"
  by (simp_all add: set_sigfn_def)

lemma handle_signal_tree:
  assumes "handle_signal sig s = (b, s')"
  shows "tree_ok (p_list s') k = tree_ok (p_list s) k" "n_proc s' = n_proc s"
proof -
  let ?sig = "\<lambda>p. p\<lparr>signal := clear_signal (signal p) sig\<rparr>"
  have cl: "tree_ok (p_list (upd_proc (current s) ?sig s)) k = tree_ok (p_list s) k"
    by (rule tree_upd) simp
  have "tree_ok (p_list (deliver sig s)) k = tree_ok (p_list s) k \<and> n_proc (deliver sig s) = n_proc s"
    unfolding deliver_def Let_def by (subst tree_upd) (simp_all add: set_sigfn_tree)
  with cl assms show "tree_ok (p_list s') k = tree_ok (p_list s) k" "n_proc s' = n_proc s"
    by (auto simp: handle_signal_def Let_def split: if_splits)
qed

lemma sys_wait_tree:
  assumes w: "sys_wait u s = Some (r, s')" and k: "current s \<le> MAXPID" and t: "tree_ok (p_list s) n"
  shows "tree_ok (p_list s') n" "n_proc s' = n_proc s"
proof -
  let ?find = "find (\<lambda>c. pstate (p_list s c) = -1) (child (cur s))"
  have "tree_ok (p_list s') n \<and> n_proc s' = n_proc s"
  proof (cases ?find)
    case None
    with w t show ?thesis by (auto simp: sys_wait_def split: if_splits)
  next
    case (Some c)
    then have c: "c \<in> set (child (cur s))" "pstate (p_list s c) = -1" by (auto simp: find_Some_iff)
    then have ne: "c \<noteq> current s" using t k by (auto simp: tree_ok_def)
    let ?s1 = "s\<lparr>umem := (umem s)(cr3 s := wr32 (umem s (cr3 s)) u (status (p_list s c)))\<rparr>"
    have s': "s' = upd_proc (current s)
        (\<lambda>p. p\<lparr>child := remove1 c (child p), signal := clear_signal (signal p) SIGCHLD\<rparr>)
        (upd_proc c (\<lambda>p. p\<lparr>pstate := 0\<rparr>) ?s1)"
      using w Some by (auto simp: sys_wait_def Let_def split: if_splits)
    have "tree_ok (p_list s') n"
      by (rule tree_ok_wait [OF t k c]) (use ne in \<open>simp add: s'\<close>)
    then show ?thesis by (simp add: s')
  qed
  then show "tree_ok (p_list s') n" "n_proc s' = n_proc s" by blast+
qed

lemma init_process_tree:
  assumes t: "tree_ok (p_list s) (n_proc s)" and n: "find_slot (\<lambda>i. pstate (p_list s i)) 1 = Inr n"
    and c: "current s = 0 \<or> current s \<in> running (p_list s)"
    and s': "s' = init_process n (current s) entry sp ks dir cons (s\<lparr>n_proc := n_proc s + 1\<rparr>)"
  shows "tree_ok (p_list s') (n_proc s')"
proof -
  let ?k = "if pstate (p_list s (current s)) \<noteq> 0 then current s else 0"
  have n': "1 \<le> n" "n \<le> MAXPID" "pstate (p_list s n) = 0" using find_slot_free [OF n] by auto
  have k: "?k = 0 \<or> ?k \<in> running (p_list s)" using c by auto
  have kn: "?k \<noteq> n" using k n' by (auto simp: running_def)
  have "tree_ok (p_list s') (n_proc s + 1)"
    by (rule tree_ok_spawn [OF t n' k]) (use kn in \<open>simp add: s' init_process_def Let_def\<close>)
  then show ?thesis by (simp add: s' init_process_def Let_def)
qed

lemma pstep_tree:
  assumes "pstep s s'" "tree_ok (p_list s) (n_proc s)"
  shows "tree_ok (p_list s') (n_proc s')"
  using assms(1)
proof cases
  case (exit st)
  show ?thesis unfolding exit_body_table [OF exit(2)] by (rule tree_ok_exit [OF assms(2) exit(1)])
next
  case (wait u r)
  show ?thesis unfolding sys_wait_tree(2) [OF wait(2,1) assms(2)] by (rule sys_wait_tree(1) [OF wait(2,1) assms(2)])
next
  case (kill n sig r)
  let ?t = "upd_proc (nat n) (\<lambda>p. p\<lparr>signal := set_signal (signal p) sig\<rparr>) s"
  have "s' = s \<or> s' = ?t" using kill by (auto simp: sys_kill_def split: if_splits)
  moreover have "tree_ok (p_list ?t) (n_proc ?t)" unfolding upd_proc_sel(3) by (subst tree_upd) (simp_all add: assms(2))
  ultimately show ?thesis using assms(2) by blast
next
  case (sigaction sig fn r)
  let ?t = "upd_proc (current s) (\<lambda>p. p\<lparr>sigfn := (sigfn p)(unat sig := fn)\<rparr>) s"
  have "s' = s \<or> s' = ?t" using sigaction by (auto simp: sys_sigaction_def split: if_splits)
  moreover have "tree_ok (p_list ?t) (n_proc ?t)" unfolding upd_proc_sel(3) by (subst tree_upd) (simp_all add: assms(2))
  ultimately show ?thesis using assms(2) by blast
next
  case (sbrk n r)
  let ?t = "upd_proc (current s) (\<lambda>p. p\<lparr>e_heap := e_heap p + n\<rparr>) s"
  have "s' = ?t" using sbrk by (simp add: sys_sbrk_def)
  moreover have "tree_ok (p_list ?t) (n_proc ?t)" unfolding upd_proc_sel(3) by (subst tree_upd) (simp_all add: assms(2))
  ultimately show ?thesis by blast
next
  case (spawn n entry sp ks dir cons)
  show ?thesis by (rule init_process_tree [OF assms(2) spawn(2,3,1)])
next
  case (dispatch sig n)
  show ?thesis unfolding handle_signal_tree [OF dispatch] using assms(2) by simp
qed

lemma psteps_tree: "pstep\<^sup>*\<^sup>* s s' \<Longrightarrow> tree_ok (p_list s) (n_proc s) \<Longrightarrow> tree_ok (p_list s') (n_proc s')"
  by (induction rule: rtranclp_induct) (auto intro: pstep_tree)

section \<open>The round robin\<close>

lemma scan_none: "(\<And>j. i \<le> j \<Longrightarrow> j < lim \<Longrightarrow> \<not> rdy j) \<Longrightarrow> scan rdy i lim = 0"
proof (induction rdy i lim rule: scan.induct)
  case (1 rdy i lim)
  then show ?case by (cases "i < lim") (simp_all add: scan.simps [of rdy i])
qed

lemma scan_found:
  "i \<le> j \<Longrightarrow> j < lim \<Longrightarrow> rdy j \<Longrightarrow> i \<le> scan rdy i lim \<and> scan rdy i lim \<le> j \<and> rdy (scan rdy i lim)
     \<and> (\<forall>k. i \<le> k \<and> k < scan rdy i lim \<longrightarrow> \<not> rdy k)"
proof (induction rdy i lim rule: scan.induct)
  case (1 rdy i lim)
  from "1.prems" have lim: "i < lim" by simp
  show ?case
  proof (cases "rdy i")
    case True
    with lim "1.prems" show ?thesis by (auto simp: scan.simps [of rdy i])
  next
    case False
    with "1.prems" have "i + 1 \<le> j" by (cases "i = j") auto
    with "1.IH" [OF lim False] "1.prems" have h: "i + 1 \<le> scan rdy (i + 1) lim" "scan rdy (i + 1) lim \<le> j"
      "rdy (scan rdy (i + 1) lim)" "\<And>k. i + 1 \<le> k \<Longrightarrow> k < scan rdy (i + 1) lim \<Longrightarrow> \<not> rdy k" by auto
    have e: "scan rdy i lim = scan rdy (i + 1) lim" using lim False by (simp add: scan.simps [of rdy i])
    have "\<not> rdy k" if "i \<le> k" "k < scan rdy (i + 1) lim" for k
      using h(4) [of k] that False by (cases "k = i") auto
    with h(1-3) show ?thesis unfolding e by auto
  qed
qed

lemma next_pid_cases:
  assumes "c \<le> MAXPID"
  obtains (after) "c < next_pid rdy c" "next_pid rdy c < MAXPID" "rdy (next_pid rdy c)"
      "\<And>j. c < j \<Longrightarrow> j < next_pid rdy c \<Longrightarrow> \<not> rdy j"
  | (before) "1 \<le> next_pid rdy c" "next_pid rdy c < c" "rdy (next_pid rdy c)"
      "\<And>j. c < j \<Longrightarrow> j < MAXPID \<Longrightarrow> \<not> rdy j" "\<And>j. 1 \<le> j \<Longrightarrow> j < next_pid rdy c \<Longrightarrow> \<not> rdy j"
  | (none) "next_pid rdy c = 0" "\<And>j. 1 \<le> j \<Longrightarrow> j < MAXPID \<Longrightarrow> j \<noteq> c \<Longrightarrow> \<not> rdy j"
proof (cases "\<exists>j. c + 1 \<le> j \<and> j < MAXPID \<and> rdy j")
  case True
  then obtain j where j: "c + 1 \<le> j" "j < MAXPID" "rdy j" by blast
  note a = scan_found [of "c + 1" j MAXPID rdy, OF j]
  have n: "next_pid rdy c = scan rdy (c + 1) MAXPID" using a by (simp add: next_pid_def)
  show ?thesis by (rule after) (use a j n in auto)
next
  case False
  then have "scan rdy (c + 1) MAXPID = 0" by (intro scan_none) auto
  then have n: "next_pid rdy c = scan rdy 1 c" by (simp add: next_pid_def)
  show ?thesis
  proof (cases "\<exists>j. 1 \<le> j \<and> j < c \<and> rdy j")
    case True
    then obtain j where j: "1 \<le> j" "j < c" "rdy j" by blast
    note a = scan_found [of 1 j c rdy, OF j]
    show ?thesis by (rule before) (use a j n False in auto)
  next
    case nb: False
    then have "scan rdy 1 c = 0" by (intro scan_none) auto
    with n have "next_pid rdy c = 0" by simp
    moreover have "\<not> rdy j" if "1 \<le> j" "j < MAXPID" "j \<noteq> c" for j
      using that False nb by (cases "j < c") auto
    ultimately show ?thesis by (rule none)
  qed
qed

text \<open>How many entries the search passes from \<open>c\<close> to \<open>j\<close>.\<close>

definition turn_dist :: "nat \<Rightarrow> nat \<Rightarrow> nat" where
  "turn_dist c j = (if c < j then j - c else MAXPID + j - c)"

lemma next_pid_approaches:
  assumes j: "1 \<le> j" "j < MAXPID" "rdy j" "j \<noteq> c" and c: "c < MAXPID"
  shows "next_pid rdy c = j \<or> (next_pid rdy c \<noteq> j \<and> next_pid rdy c < MAXPID \<and> turn_dist (next_pid rdy c) j < turn_dist c j)"
proof -
  have "c \<le> MAXPID" using c by simp
  then show ?thesis
  proof (rule next_pid_cases [where rdy = rdy and c = c], goal_cases)
    case after: 1
    show ?thesis
    proof (cases "c < j")
      case True
      then have "next_pid rdy c \<le> j" using after(4) [of j] j(3) by (meson not_le)
      with after True show ?thesis by (auto simp: turn_dist_def)
    next
      case False
      with after c show ?thesis by (auto simp: turn_dist_def)
    qed
  next
    case before: 2
    then have "\<not> c < j" using j by blast
    moreover have "next_pid rdy c \<le> j" using before(5) [of j] j by (meson not_le)
    ultimately show ?thesis using before c j by (auto simp: turn_dist_def)
  next
    case 3
    with j show ?thesis by blast
  qed
qed

lemma round_robin_reaches:
  assumes j: "1 \<le> j" "j < MAXPID" "rdy j" and c: "c < MAXPID" "j \<noteq> c"
  shows "\<exists>k. 1 \<le> k \<and> k \<le> turn_dist c j \<and> ((next_pid rdy) ^^ k) c = j"
  using c
proof (induction "turn_dist c j" arbitrary: c rule: less_induct)
  case less
  have pos: "1 \<le> turn_dist c j" using less.prems j by (auto simp: turn_dist_def)
  from next_pid_approaches [where rdy = rdy and j = j and c = c, OF j less.prems(2) less.prems(1)] show ?case
  proof (elim disjE conjE)
    assume "next_pid rdy c = j"
    with pos show ?thesis by (intro exI [of _ 1]) simp
  next
    assume n: "next_pid rdy c \<noteq> j" "next_pid rdy c < MAXPID" "turn_dist (next_pid rdy c) j < turn_dist c j"
    from less.hyps [OF n(3,2) n(1) [symmetric]] obtain k where
      "1 \<le> k" "k \<le> turn_dist (next_pid rdy c) j" "((next_pid rdy) ^^ k) (next_pid rdy c) = j" by blast
    with n(3) show ?thesis by (intro exI [of _ "Suc k"]) (simp add: funpow_swap1)
  qed
qed

section \<open>Signal frames\<close>

lemma ucast_u16_u32 [simp]: "ucast (ucast x :: u32) = (x :: u16)"
  by (rule bit_word_eqI) (simp add: bit_simps)

lemma write_words_other:
  "4 * length ws \<le> 2 ^ 32 \<Longrightarrow> \<not> in_block a (4 * length ws) b \<Longrightarrow> write_words a ws m b = m b"
proof (induction ws arbitrary: a m)
  case (Cons w ws)
  have d: "4 + 4 * length ws \<le> unat (b - a)" using Cons.prems(2) by (simp add: in_block_def)
  have e: "b - (a + 4) = b - a - 4" by simp
  have "unat (b - a - 4) = unat (b - a) - 4"
    using d by (subst unat_sub) (simp_all add: word_le_nat_alt)
  then have "\<not> in_block (a + 4) (4 * length ws) b" unfolding in_block_def e using d by simp
  moreover have "wr32 m a w b = m b" using d by (intro wr32_other) simp
  ultimately show ?case using Cons.IH [of "a + 4" "wr32 m a w"] Cons.prems(1) by simp
qed simp

lemma unat_minus_one_u32: "unat (- 1 :: u32) = 4294967295"
  by (simp add: unsigned_minus_1_eq_mask mask_eq_exp_minus_1)

lemma write_words_nth:
  "4 * length ws \<le> 2 ^ 32 \<Longrightarrow> i < length ws \<Longrightarrow> rd32 (write_words a ws m) (a + 4 * of_nat i) = ws ! i"
proof (induction ws arbitrary: a m i)
  case (Cons w ws)
  show ?case
  proof (cases i)
    case 0
    have "write_words (a + 4) ws (wr32 m a w) (a + j) = wr32 m a w (a + j)" if "unat (j - 4) \<ge> 2 ^ 32 - 4" for j
    proof (rule write_words_other)
      show "4 * length ws \<le> 2 ^ 32" "\<not> in_block (a + 4) (4 * length ws) (a + j)"
        using Cons.prems(1) that by (simp_all add: in_block_def)
    qed
    from this [of 0] this [of 1] this [of 2] this [of 3] unat_minus_one_u32
    have "rd32 (write_words (a + 4) ws (wr32 m a w)) a = rd32 (wr32 m a w) a" by (simp add: rd32_def)
    with 0 show ?thesis by simp
  next
    case (Suc j)
    with Cons.IH [of j "a + 4" "wr32 m a w"] Cons.prems show ?thesis by (simp add: algebra_simps)
  qed
qed simp

section \<open>Properties\<close>

definition demo_process :: process where
  "demo_process = \<lparr>pid = 0, regs = \<lparr>r_eax = 0, r_ecx = 0, r_edx = 0, r_ebx = 0, r_esp = 0xD0000000, r_ebp = 0,
     r_esi = 0, r_edi = 0, r_eip = 0x40000000, r_eflags = 0, r_cs = 0x23, r_ss = 0x33, r_ds = 0x2B, r_es = 0x2B,
     r_fs = 0x2B, r_gs = 0x2B, r_cr3 = 0x1000\<rparr>, kstack_esp0 = 0, kstack_ss0 = 0x18, pd = 0, pglist = [],
     b_exec = 0, e_exec = 0, b_bss = 0, e_bss = 0, b_heap = 0, e_heap = 0, pwd = 0, fd = [], parent = 0,
     child = [], console = 0, signal = 0, sigfn = (\<lambda>_. 0), status = 0, pstate = 0\<rparr>"

definition demo_kstate :: kstate where
  "demo_kstate = vm_state.extend demo_boot
     \<lparr>p_list = (\<lambda>i. demo_process\<lparr>pid := int i, pstate := (if i = 0 then 1 else 0)\<rparr>), current = 0, n_proc = 0,
      tss_ss0 = 0x18, tss_esp0 = 0, umem = (\<lambda>_ _. 0), f_opened = (\<lambda>_. 0), f_mmap = (\<lambda>_. 0)\<rparr>"

lemma demo_kstate_sel [simp]:
  "p_list demo_kstate = (\<lambda>i. demo_process\<lparr>pid := int i, pstate := (if i = 0 then 1 else 0)\<rparr>)"
  "current demo_kstate = 0" "n_proc demo_kstate = 0" "tss_ss0 demo_kstate = 0x18" "tss_esp0 demo_kstate = 0"
  "umem demo_kstate = (\<lambda>_ _. 0)"
  by (simp_all add: demo_kstate_def vm_state.defs)

lemma demo_tree: "tree_ok (p_list demo_kstate) (n_proc demo_kstate)"
proof -
  have "running (p_list demo_kstate) = {}" "live (p_list demo_kstate) j = False" for j
    by (auto simp: running_def live_def)
  then show ?thesis by (simp add: tree_ok_def demo_process_def)
qed



text \<open>C13. The round robin: from slot \<open>c\<close> the scheduler picks the next ready process in cyclic order among
  the slots 1 to 31 other than \<open>c\<close>, and process 0 exactly when none of these is ready.\<close>

theorem next_pid_round_robin:
  assumes "c \<le> MAXPID"
  shows "(next_pid rdy c = 0 \<longleftrightarrow> (\<forall>j. 1 \<le> j \<and> j < MAXPID \<and> j \<noteq> c \<longrightarrow> \<not> rdy j))
    \<and> (next_pid rdy c \<noteq> 0 \<longrightarrow> rdy (next_pid rdy c) \<and> next_pid rdy c < MAXPID \<and> next_pid rdy c \<noteq> c
        \<and> (\<forall>j. c < j \<and> j < MAXPID \<and> (j < next_pid rdy c \<or> next_pid rdy c < c) \<longrightarrow> \<not> rdy j)
        \<and> (\<forall>j. 1 \<le> j \<and> j < next_pid rdy c \<and> next_pid rdy c < c \<longrightarrow> \<not> rdy j))"
  by (rule next_pid_cases [where rdy = rdy and c = c, OF assms])
    (use assms in \<open>auto intro!: exI [of _ "next_pid rdy c"]\<close>)

theorem next_pid_round_robin_witness: "next_pid (\<lambda>i. i = 3 \<or> i = 7) 7 = 3"
proof -
  have "next_pid (\<lambda>i. i = 3 \<or> i = 7) 7 \<noteq> 0" "next_pid (\<lambda>i. i = 3 \<or> i = 7) 7 \<noteq> 7"
    "next_pid (\<lambda>i. i = 3 \<or> i = 7) 7 = 3 \<or> next_pid (\<lambda>i. i = 3 \<or> i = 7) 7 = 7"
    using next_pid_round_robin [of 7 "\<lambda>i. i = 3 \<or> i = 7"] by (auto dest: spec [of _ 3])
  then show ?thesis by blast
qed

text \<open>C21. The round robin is fair: while the set of ready processes does not change, a ready process in a
  slot from 1 to 31 that is not running is picked after at most as many turns as there are slots between
  the running one and it, so after at most 31.\<close>

theorem round_robin_fair:
  assumes "1 \<le> j" "j < MAXPID" "rdy j" "c < MAXPID" "j \<noteq> c"
  shows "\<exists>k. 1 \<le> k \<and> k \<le> turn_dist c j \<and> turn_dist c j < MAXPID \<and> ((next_pid rdy) ^^ k) c = j"
proof -
  have "turn_dist c j < MAXPID" using assms by (auto simp: turn_dist_def)
  with round_robin_reaches [of j rdy c] assms show ?thesis by blast
qed

theorem round_robin_fair_witness: "\<exists>k. 1 \<le> k \<and> k \<le> 28 \<and> ((next_pid (\<lambda>i. i < 10)) ^^ k) 7 = 3"
  using round_robin_fair [of 3 "\<lambda>i. i < 10" 7] by (auto simp: turn_dist_def)







end
