(* ===== verification/Screen.thy ===== *)
theory Screen
  imports Prelude "HOL-Library.Signed_Division"
begin

text \<open>
  The text screen of \<^verbatim>\<open>kern/screen.c\<close>: the cursor variables, the video memory and the characters that
  \<open>putcar\<close> writes there. The coordinates are the values of signed chars, as gcc has them on the i386, and
  every assignment to one of them converts. Video memory is a map from addresses to bytes that goes on
  beyond the page of the screen, so that a write outside of it would show. The abstract screen, a grid of 25
  lines of 80 characters with a cursor, is refined by the code as long as no tab leaves the line.
\<close>

abbreviation (input) RAMSCREEN :: int where "RAMSCREEN \<equiv> 0xB8000"
abbreviation (input) SCREENLIM :: int where "SCREENLIM \<equiv> 0xB8FA0"

section \<open>The code\<close>

record screen =
  vmem :: "int \<Rightarrow> u8"
  kX :: int
  kY :: int
  kattr :: u8
  cursorX :: int
  cursorY :: int
  cursorA :: u8
  cursorC :: u8

text \<open>The conversion of an int to \<open>char\<close>.\<close>

definition schar :: "int \<Rightarrow> int" where
  "schar i = sint (word_of_int i :: u8)"

definition video_at :: "int \<Rightarrow> int \<Rightarrow> int" where
  "video_at x y = RAMSCREEN + 2 * x + 160 * y"

definition show_cursor :: "'a screen_scheme \<Rightarrow> 'a screen_scheme" where
  "show_cursor s =
     (let s1 = s\<lparr>cursorX := kX s, cursorY := kY s\<rparr>;
          video = video_at (cursorX s1) (cursorY s1)
      in s1\<lparr>vmem := (vmem s1)(video := cursorC s1, video + 1 := cursorA s1)\<rparr>)"

definition hide_cursor :: "'a screen_scheme \<Rightarrow> 'a screen_scheme" where
  "hide_cursor s = s\<lparr>vmem := (vmem s)(video_at (cursorX s) (cursorY s) + 1 := 0)\<rparr>"

text \<open>The loop of \<open>scrollup\<close>; the distance \<open>n * 160\<close> is computed in unsigned ints.\<close>

function scroll_loop :: "u32 \<Rightarrow> int \<Rightarrow> (int \<Rightarrow> u8) \<Rightarrow> int \<Rightarrow> u8" where
  "scroll_loop n video m =
     (if video < SCREENLIM
      then let tmp = uint (word_of_int video + n * 160);
               m' = (if tmp < SCREENLIM then m(video := m tmp, video + 1 := m (tmp + 1))
                     else m(video := 0, video + 1 := 0x07))
           in scroll_loop n (video + 2) m'
      else m)"
  by pat_completeness auto
termination
  by (relation "measure (\<lambda>(n, video, m). nat (SCREENLIM - video))") auto

declare scroll_loop.simps [simp del]

definition scrollup :: "u32 \<Rightarrow> 'a screen_scheme \<Rightarrow> 'a screen_scheme" where
  "scrollup n s =
     (let s1 = s\<lparr>vmem := scroll_loop n RAMSCREEN (vmem s)\<rparr>;
          s2 = s1\<lparr>kY := schar (kY s1 - uint n)\<rparr>
      in if kY s2 < 0 then s2\<lparr>kY := 0\<rparr> else s2)"

definition putcar :: "u8 \<Rightarrow> 'a screen_scheme \<Rightarrow> 'a screen_scheme" where
  "putcar c s0 =
     (let s = hide_cursor s0;
          video = video_at (kX s) (kY s);
          s1 = (if c = 10 then s\<lparr>kX := 0, kY := schar (kY s + 1)\<rparr>
                else if c = 8
                then if kX s \<noteq> 0 then s\<lparr>vmem := (vmem s)(video + 1 := 0), kX := schar (kX s - 1)\<rparr> else s
                else if c = 9 then s\<lparr>kX := schar (kX s + 8 - kX s smod 8)\<rparr>
                else if c = 13 then s\<lparr>kX := 0\<rparr>
                else let s' = s\<lparr>vmem := (vmem s)(video := c, video + 1 := kattr s), kX := schar (kX s + 1)\<rparr>
                     in if kX s' > 79 then s'\<lparr>kX := 0, kY := schar (kY s' + 1)\<rparr> else s');
          s2 = (if kY s1 > 24 then scrollup (word_of_int (kY s1 - 24)) s1 else s1)
      in show_cursor s2)"

text \<open>The hardware cursor: the bytes sent to the ports of the CRT controller.\<close>

definition move_hw_cursor :: "u8 \<Rightarrow> u8 \<Rightarrow> (u16 \<times> u8) list" where
  "move_hw_cursor x y =
     (let c_pos = ucast y * 80 + ucast x :: u16
      in [(0x3d4, 0x0f), (0x3d5, ucast c_pos), (0x3d4, 0x0e), (0x3d5, ucast (drop_bit 8 c_pos))])"

definition hide_hw_cursor :: "(u16 \<times> u8) list" where
  "hide_hw_cursor = move_hw_cursor (- 1) (- 1)"

text \<open>The initial values.\<close>

definition init_screen :: "(int \<Rightarrow> u8) \<Rightarrow> screen" where
  "init_screen m = \<lparr>vmem = m, kX = 0, kY = 8, kattr = 0x07, cursorX = 0, cursorY = 8, cursorA = 0x40, cursorC = 0x20\<rparr>"

section \<open>The abstract screen\<close>

text \<open>A grid of characters, each with its attribute, and the position of the cursor.\<close>

record grid =
  g_row :: nat
  g_col :: nat
  g_cell :: "nat \<Rightarrow> nat \<Rightarrow> u8"

definition cell :: "(int \<Rightarrow> u8) \<Rightarrow> nat \<Rightarrow> nat \<Rightarrow> u8" where
  "cell m r c = (if r < 25 \<and> c < 80 then m (video_at (int c) (int r)) else 0)"

definition abs_screen :: "'a screen_scheme \<Rightarrow> grid" where
  "abs_screen s = \<lparr>g_row = nat (kY s), g_col = nat (kX s), g_cell = cell (vmem s)\<rparr>"

definition set_cell :: "nat \<Rightarrow> nat \<Rightarrow> u8 \<Rightarrow> grid \<Rightarrow> grid" where
  "set_cell r c v g = g\<lparr>g_cell := (g_cell g)(r := (g_cell g r)(c := v))\<rparr>"

text \<open>The next line, with the lines moved up when the last one is left.\<close>

definition next_line :: "grid \<Rightarrow> grid" where
  "next_line g =
     (if g_row g < 24 then g\<lparr>g_row := g_row g + 1, g_col := 0\<rparr>
      else g\<lparr>g_col := 0, g_cell := (\<lambda>r c. if r < 24 then g_cell g (r + 1) c else 0)\<rparr>)"

definition grid_put :: "u8 \<Rightarrow> grid \<Rightarrow> grid" where
  "grid_put ch g =
     (if ch = 10 then next_line g
      else if ch = 8 then g\<lparr>g_col := g_col g - 1\<rparr>
      else if ch = 9 then g\<lparr>g_col := (g_col g div 8 + 1) * 8\<rparr>
      else if ch = 13 then g\<lparr>g_col := 0\<rparr>
      else let g' = set_cell (g_row g) (g_col g) ch g
           in if g_col g < 79 then g'\<lparr>g_col := g_col g + 1\<rparr> else next_line g')"

text \<open>The cursor is drawn as a space over the cell it is on.\<close>

definition draw_cursor :: "u8 \<Rightarrow> grid \<Rightarrow> grid" where
  "draw_cursor ch g = set_cell (g_row g) (g_col g) ch g"

text \<open>The cursor is on the screen.\<close>

definition on_screen :: "'a screen_scheme \<Rightarrow> bool" where
  "on_screen s \<longleftrightarrow> 0 \<le> kX s \<and> kX s < 80 \<and> 0 \<le> kY s \<and> kY s < 25
     \<and> 0 \<le> cursorX s \<and> cursorX s < 80 \<and> 0 \<le> cursorY s \<and> cursorY s < 25"

text \<open>A tab that stays on the line.\<close>

definition tab_ok :: "u8 \<Rightarrow> 'a screen_scheme \<Rightarrow> bool" where
  "tab_ok c s \<longleftrightarrow> c \<noteq> 9 \<or> kX s < 72"

definition in_page :: "int \<Rightarrow> bool" where
  "in_page a \<longleftrightarrow> RAMSCREEN \<le> a \<and> a < SCREENLIM"

section \<open>Scrolling\<close>

lemma schar_id [simp]: "- 128 \<le> i \<Longrightarrow> i < 128 \<Longrightarrow> schar i = i"
  by (simp add: schar_def signed_of_int signed_take_bit_int_eq_self)

text \<open>One line: every even address gets the byte 160 further, the last line is blank.\<close>

lemma scroll_tmp: "0 \<le> v \<Longrightarrow> v < SCREENLIM \<Longrightarrow> uint (word_of_int v + 1 * 160 :: u32) = v + 160"
  by (simp add: uint_word_ariths uint_word_of_int)

lemma scroll_loop_spec:
  assumes "RAMSCREEN \<le> v" "v \<le> SCREENLIM" "even v"
  shows "scroll_loop 1 v m a =
    (if v \<le> a \<and> a < SCREENLIM
     then if a + 160 < SCREENLIM then m (a + 160) else if even a then 0 else 0x07
     else m a)"
  using assms
proof (induction "nat (SCREENLIM - v)" arbitrary: v m rule: less_induct)
  case less
  show ?case
  proof (cases "v < SCREENLIM")
    case False
    with less.prems show ?thesis by (subst scroll_loop.simps) auto
  next
    case True
    with less.prems have v2: "v + 2 \<le> SCREENLIM" by presburger
    have t: "uint (word_of_int v + 160 :: u32) = v + 160" using scroll_tmp [of v] less.prems True by simp
    define m' where "m' = (if v + 160 < SCREENLIM then m(v := m (v + 160), v + 1 := m (v + 160 + 1)) else m(v := 0, v + 1 := 0x07))"
    have step: "scroll_loop 1 v m = scroll_loop 1 (v + 2) m'"
      using True by (subst scroll_loop.simps) (simp add: t m'_def Let_def)
    have ih: "scroll_loop 1 (v + 2) m' a =
      (if v + 2 \<le> a \<and> a < SCREENLIM
       then if a + 160 < SCREENLIM then m' (a + 160) else if even a then 0 else 0x07 else m' a)"
      by (rule less.hyps) (use less.prems v2 True in auto)
    consider "a < v" | "a = v" | "a = v + 1" | "v + 2 \<le> a" by linarith
    then show ?thesis
    proof cases
      case 4
      then have "m' a = m a" "m' (a + 160) = m (a + 160)" by (simp_all add: m'_def)
      with 4 show ?thesis unfolding step ih by simp
    next
      case 3
      then have "v + 160 < SCREENLIM \<longleftrightarrow> a + 160 < SCREENLIM" using less.prems(3) by presburger
      with 3 True v2 less.prems(3) show ?thesis unfolding step ih by (simp add: m'_def add.commute)
    next
      case 1
      then show ?thesis unfolding step ih by (simp add: m'_def)
    next
      case 2
      with True less.prems(3) show ?thesis unfolding step ih by (simp add: m'_def)
    qed
  qed
qed

lemma cell_scroll: "cell (scroll_loop 1 RAMSCREEN m) r c = (if r < 24 then cell m (r + 1) c else 0)"
proof (cases "r < 25 \<and> c < 80")
  case True
  let ?a = "video_at (int c) (int r)"
  have up: "?a + 160 = video_at (int c) (int (r + 1))" by (simp add: video_at_def)
  have b: "RAMSCREEN \<le> ?a" "?a < SCREENLIM" "even ?a" "?a + 160 < SCREENLIM \<longleftrightarrow> r < 24"
    using True by (auto simp: video_at_def)
  have "scroll_loop 1 RAMSCREEN m ?a = (if r < 24 then m (?a + 160) else 0)"
    by (subst scroll_loop_spec) (simp_all add: b)
  with True show ?thesis unfolding up by (simp add: cell_def)
qed (auto simp: cell_def)

lemma cell_scroll_fun: "cell (scroll_loop 1 RAMSCREEN m) = (\<lambda>r c. if r < 24 then cell m (r + 1) c else 0)"
  by (simp add: fun_eq_iff cell_scroll)

section \<open>Refinement\<close>

lemma video_at_inj:
  "c < 80 \<Longrightarrow> c' < 80 \<Longrightarrow> video_at (int c) (int r) = video_at (int c') (int r') \<longleftrightarrow> c = c' \<and> r = r'"
  by (cases r r' rule: linorder_cases) (auto simp: video_at_def)

lemma video_at_odd: "video_at x y \<noteq> video_at x' y' + 1"
proof
  assume "video_at x y = video_at x' y' + 1"
  moreover have "even (video_at x y)" "even (video_at x' y')" by (simp_all add: video_at_def)
  ultimately show False by simp
qed

lemma cell_char:
  "r < 25 \<Longrightarrow> c < 80 \<Longrightarrow> cell (m(video_at (int c) (int r) := v)) = (cell m)(r := (cell m r)(c := v))"
  by (auto simp: fun_eq_iff cell_def video_at_inj)

lemma cell_attr [simp]: "cell (m(video_at x y + 1 := v)) = cell m"
  by (auto simp: fun_eq_iff cell_def video_at_odd)

lemma scroll_outside: "\<not> in_page a \<Longrightarrow> scroll_loop 1 RAMSCREEN m a = m a"
  by (subst scroll_loop_spec) (auto simp: in_page_def)

lemma in_page_video: "0 \<le> x \<Longrightarrow> x < 80 \<Longrightarrow> 0 \<le> y \<Longrightarrow> y < 25 \<Longrightarrow> in_page (video_at x y) \<and> in_page (video_at x y + 1)"
  by (simp add: in_page_def video_at_def)

text \<open>Each part of \<open>putcar\<close> on the grid: \<open>vmem\<close> keeps its bytes outside of the page, the cell of the cursor
  is written, and the lines scroll.\<close>

definition outside_kept :: "(int \<Rightarrow> u8) \<Rightarrow> (int \<Rightarrow> u8) \<Rightarrow> bool" where
  "outside_kept m m' \<longleftrightarrow> (\<forall>a. \<not> in_page a \<longrightarrow> m' a = m a)"

lemma outside_kept_refl [simp]: "outside_kept m m"
  by (simp add: outside_kept_def)

lemma outside_kept_upd [intro]: "outside_kept m m' \<Longrightarrow> in_page a \<Longrightarrow> outside_kept m (m'(a := v))"
  by (simp add: outside_kept_def)

lemma outside_kept_scroll [intro]: "outside_kept m m' \<Longrightarrow> outside_kept m (scroll_loop 1 RAMSCREEN m')"
  by (simp add: outside_kept_def scroll_outside)

lemma scrollup_one:
  assumes "kY s = 25"
  shows "scrollup (word_of_int (kY s - 24)) s = s\<lparr>vmem := scroll_loop 1 RAMSCREEN (vmem s), kY := 24\<rparr>"
  using assms by (simp add: scrollup_def Let_def)

text \<open>The state of the screen before the lines scroll, and the cursor.\<close>

lemma finish_line:
  assumes "0 \<le> kX s" "kX s < 80" "0 \<le> kY s" "kY s < 26" "outside_kept m (vmem s)"
  defines "s2 \<equiv> if kY s > 24 then scrollup (word_of_int (kY s - 24)) s else s"
  shows "on_screen (show_cursor s2)" "outside_kept m (vmem (show_cursor s2))"
    "cursorC (show_cursor s2) = cursorC s"
    "kY s < 25 \<Longrightarrow> abs_screen (show_cursor s2) = draw_cursor (cursorC s) (abs_screen s)"
    "kY s = 25 \<Longrightarrow> kX s = 0 \<Longrightarrow>
       abs_screen (show_cursor s2) = draw_cursor (cursorC s) (next_line (abs_screen (s\<lparr>kY := 24\<rparr>)))"
proof -
  have s2: "s2 = (if kY s = 25 then s\<lparr>vmem := scroll_loop 1 RAMSCREEN (vmem s), kY := 24\<rparr> else s)"
    using assms(4) scrollup_one [of s] by (auto simp: s2_def)
  have k2: "0 \<le> kX s2" "kX s2 < 80" "0 \<le> kY s2" "kY s2 < 25" "outside_kept m (vmem s2)" "cursorC s2 = cursorC s"
    using assms(1-5) by (auto simp: s2)
  note v = in_page_video [OF k2(1-4)]
  show "on_screen (show_cursor s2)" using k2 by (simp add: on_screen_def show_cursor_def Let_def)
  show "outside_kept m (vmem (show_cursor s2))"
    using k2(5) v by (auto simp: show_cursor_def Let_def)
  show "cursorC (show_cursor s2) = cursorC s" by (simp add: show_cursor_def Let_def k2)
  have abs: "abs_screen (show_cursor s2) = draw_cursor (cursorC s) (abs_screen s2)"
    using cell_char [of "nat (kY s2)" "nat (kX s2)" "vmem s2" "cursorC s2"] k2
    by (simp add: abs_screen_def draw_cursor_def set_cell_def show_cursor_def Let_def)
  then show "abs_screen (show_cursor s2) = draw_cursor (cursorC s) (abs_screen s)" if "kY s < 25"
    using that by (simp add: s2)
  show "abs_screen (show_cursor s2) = draw_cursor (cursorC s) (next_line (abs_screen (s\<lparr>kY := 24\<rparr>)))"
    if "kY s = 25" "kX s = 0"
    using that unfolding abs by (simp add: s2 abs_screen_def next_line_def cell_scroll_fun cong: if_cong)
qed

lemma hide_cursor_abs [simp]:
  "abs_screen (hide_cursor s) = abs_screen s" "kX (hide_cursor s) = kX s" "kY (hide_cursor s) = kY s"
  "cursorC (hide_cursor s) = cursorC s" "kattr (hide_cursor s) = kattr s"
  by (simp_all add: hide_cursor_def abs_screen_def)

lemma hide_cursor_outside: "on_screen s \<Longrightarrow> outside_kept (vmem s) (vmem (hide_cursor s))"
  using in_page_video [of "cursorX s" "cursorY s"] by (auto simp: hide_cursor_def on_screen_def)

text \<open>\<open>putcar\<close> without the cursor: the state that \<open>finish_line\<close> starts from.\<close>

definition put_raw :: "u8 \<Rightarrow> 'a screen_scheme \<Rightarrow> 'a screen_scheme" where
  "put_raw c s =
     (let video = video_at (kX s) (kY s)
      in if c = 10 then s\<lparr>kX := 0, kY := kY s + 1\<rparr>
         else if c = 8
         then if kX s \<noteq> 0 then s\<lparr>vmem := (vmem s)(video + 1 := 0), kX := kX s - 1\<rparr> else s
         else if c = 9 then s\<lparr>kX := kX s + 8 - kX s mod 8\<rparr>
         else if c = 13 then s\<lparr>kX := 0\<rparr>
         else if kX s < 79 then s\<lparr>vmem := (vmem s)(video := c, video + 1 := kattr s), kX := kX s + 1\<rparr>
         else s\<lparr>vmem := (vmem s)(video := c, video + 1 := kattr s), kX := 0, kY := kY s + 1\<rparr>)"

lemma char_cases:
  obtains "c = 10" | "c = 8" | "c = 9" | "c = 13" | "c \<notin> {8, 9, 10, 13 :: u8}"
  by auto

lemma putcar_raw:
  assumes "on_screen s" "tab_ok c s"
  shows "putcar c s = (let s1 = put_raw c (hide_cursor s) in
     show_cursor (if kY s1 > 24 then scrollup (word_of_int (kY s1 - 24)) s1 else s1))"
proof -
  have k: "0 \<le> kX s" "kX s < 80" "0 \<le> kY s" "kY s < 25" using assms(1) by (simp_all add: on_screen_def)
  let ?h = "hide_cursor s"
  have "kX s + 8 - kX s mod 8 < 128" using k(2) by presburger
  moreover have "kX s smod 8 = kX s mod 8" using k(1) by (cases "kX s = 0") (simp_all add: smod_int_alt_def)
  moreover have "0 \<le> kX s + 8 - kX s mod 8" using k(1) by presburger
  ultimately have tab: "schar (kX s + 8 - kX s smod 8) = kX s + 8 - kX s mod 8" by simp
  have sc: "schar (kY s + 1) = kY s + 1" "kX s \<noteq> 0 \<Longrightarrow> schar (kX s - 1) = kX s - 1" "schar (kX s + 1) = kX s + 1"
    using k by simp_all
  show ?thesis
    by (cases c rule: char_cases) (simp_all add: putcar_def put_raw_def Let_def tab sc not_less del: schar_id)
qed

lemma put_raw_ok:
  assumes "on_screen s" "tab_ok c s" "outside_kept m (vmem s)"
  shows "0 \<le> kX (put_raw c s)" "kX (put_raw c s) < 80" "0 \<le> kY (put_raw c s)" "kY (put_raw c s) < 26"
    "outside_kept m (vmem (put_raw c s))" "cursorC (put_raw c s) = cursorC s"
proof -
  have k: "0 \<le> kX s" "kX s < 80" "0 \<le> kY s" "kY s < 25" using assms(1) by (simp_all add: on_screen_def)
  have tab: "c = 9 \<Longrightarrow> kX s + 8 - kX s mod 8 < 80" "0 \<le> kX s + 8 - kX s mod 8"
    using k assms(2) pos_mod_bound [of 8 "kX s"] pos_mod_sign [of 8 "kX s"] by (auto simp: tab_ok_def)
  show "0 \<le> kX (put_raw c s)" "kX (put_raw c s) < 80" "0 \<le> kY (put_raw c s)" "kY (put_raw c s) < 26"
    using k tab by (auto simp: put_raw_def Let_def)
  show "outside_kept m (vmem (put_raw c s))" "cursorC (put_raw c s) = cursorC s"
    using assms(3) in_page_video [OF k] by (auto simp: put_raw_def Let_def intro!: outside_kept_upd)
qed

lemma put_raw_abs:
  assumes "on_screen s" "tab_ok c s"
  shows "kY (put_raw c s) < 25 \<Longrightarrow> abs_screen (put_raw c s) = grid_put c (abs_screen s)"
    "kY (put_raw c s) = 25 \<Longrightarrow> kX (put_raw c s) = 0 \<and> next_line (abs_screen ((put_raw c s)\<lparr>kY := 24\<rparr>)) = grid_put c (abs_screen s)"
proof -
  have k: "0 \<le> kX s" "kX s < 80" "0 \<le> kY s" "kY s < 25" using assms(1) by (simp_all add: on_screen_def)
  note ch = cell_char [of "nat (kY s)" "nat (kX s)" "vmem s" c]
  have tab: "nat (kX s + 8 - kX s mod 8) = (nat (kX s) div 8 + 1) * 8"
  proof -
    have "kX s + 8 - kX s mod 8 = (kX s div 8 + 1) * 8"
      using minus_mod_eq_div_mult [of "kX s" 8] by (simp only: distrib_right)
    moreover have "nat ((kX s div 8 + 1) * 8) = (nat (kX s) div 8 + 1) * 8"
      using k(1) by (simp add: nat_mult_distrib nat_add_distrib nat_div_distrib)
    ultimately show ?thesis by (simp only:)
  qed
  have ch': "cell ((vmem s)(video_at (kX s) (kY s) := c)) = (cell (vmem s))(nat (kY s) := (cell (vmem s) (nat (kY s)))(nat (kX s) := c))"
    using ch k by (simp add: nat_less_iff)
  have row: "nat (kY s) < 24 \<longleftrightarrow> kY s < 24" "nat (kX s) < 79 \<longleftrightarrow> kX s < 79" using k by auto
  have suc: "nat (kY s + 1) = nat (kY s) + 1" "nat (kX s + 1) = nat (kX s) + 1" "nat (kX s - 1) = nat (kX s) - 1"
    using k by auto
  note defs = put_raw_def grid_put_def abs_screen_def set_cell_def next_line_def Let_def
  show "abs_screen (put_raw c s) = grid_put c (abs_screen s)" if "kY (put_raw c s) < 25"
    using that by (cases c rule: char_cases) (auto simp: defs tab row suc ch' split: if_splits)
  show "kX (put_raw c s) = 0 \<and> next_line (abs_screen ((put_raw c s)\<lparr>kY := 24\<rparr>)) = grid_put c (abs_screen s)"
    if "kY (put_raw c s) = 25"
    using that k by (cases c rule: char_cases) (auto simp: defs row ch' split: if_splits cong: if_cong)
qed

section \<open>Properties\<close>

lemma putcar_step:
  assumes "on_screen s" "tab_ok c s"
  shows "on_screen (putcar c s)" "outside_kept (vmem s) (vmem (putcar c s))" "cursorC (putcar c s) = cursorC s"
    "abs_screen (putcar c s) = draw_cursor (cursorC s) (grid_put c (abs_screen s))"
proof -
  let ?h = "hide_cursor s"
  have h: "on_screen ?h" "tab_ok c ?h" "outside_kept (vmem s) (vmem ?h)"
    using assms hide_cursor_outside [OF assms(1)] by (simp_all add: on_screen_def tab_ok_def hide_cursor_def)
  note raw = put_raw_ok [OF h] and abs = put_raw_abs [OF h(1,2)] and p = putcar_raw [OF assms]
  note fin = finish_line [OF raw(1-5)]
  show "on_screen (putcar c s)" "outside_kept (vmem s) (vmem (putcar c s))" "cursorC (putcar c s) = cursorC s"
    using fin(1-3) raw(6) unfolding p Let_def by simp_all
  have "kY (put_raw c ?h) < 25 \<or> kY (put_raw c ?h) = 25" using raw(4) by linarith
  then show "abs_screen (putcar c s) = draw_cursor (cursorC s) (grid_put c (abs_screen s))"
    using fin(4,5) abs raw(6) unfolding p Let_def by auto
qed

text \<open>C24. \<open>putcar\<close> implements the screen: on a cursor that is on the screen and a character that is not a tab
  in the last eight columns, the cursor stays on the screen, no byte outside of the page of video memory is
  written, and the 25 lines of 80 characters change as the abstract screen says: control characters move the
  cursor, other characters are written at it, and leaving the last line moves all lines up by one.\<close>

theorem putcar_refines_grid:
  assumes "on_screen s" "tab_ok c s"
  shows "on_screen (putcar c s)
    \<and> abs_screen (putcar c s) = draw_cursor (cursorC s) (grid_put c (abs_screen s))
    \<and> (\<forall>a. a < RAMSCREEN \<or> SCREENLIM \<le> a \<longrightarrow> vmem (putcar c s) a = vmem s a)"
  using putcar_step [OF assms] by (auto simp: outside_kept_def in_page_def)

theorem putcar_refines_grid_witness:
  "g_cell (abs_screen (putcar 65 (init_screen (\<lambda>_. 0)))) 8 0 = 65"
proof -
  have "on_screen (init_screen (\<lambda>_. 0))" "tab_ok 65 (init_screen (\<lambda>_. 0))"
    by (simp_all add: on_screen_def tab_ok_def init_screen_def)
  from putcar_refines_grid [OF this] show ?thesis
    by (simp add: grid_put_def draw_cursor_def set_cell_def abs_screen_def init_screen_def)
qed

text \<open>A tab in the last eight columns leaves the screen: the column becomes 80, and a character that is
  then written on the last line goes to the byte behind the page of video memory.\<close>

lemma tab_leaves_screen:
  assumes "on_screen s" "72 \<le> kX s" "kY s = 24"
  shows "kX (putcar 9 s) = 80" "vmem (putcar 65 (putcar 9 s)) SCREENLIM = 65"
proof -
  have k: "72 \<le> kX s" "kX s < 80" using assms by (simp_all add: on_screen_def)
  then have "kX s smod 8 = kX s mod 8" "kX s + 8 - kX s mod 8 = 80"
    by (simp_all add: smod_int_alt_def) presburger
  then have x: "kX (putcar 9 s) = 80" "kY (putcar 9 s) = 24"
    using assms(3) by (simp_all add: putcar_def Let_def show_cursor_def)
  then show "kX (putcar 9 s) = 80" by simp
  let ?t = "hide_cursor (putcar 9 s)"
  let ?u = "?t\<lparr>vmem := (vmem ?t)(video_at 80 24 := 65, video_at 80 24 + 1 := kattr ?t), kX := 0, kY := 25\<rparr>"
  have p: "putcar 65 (putcar 9 s) = show_cursor (scrollup (word_of_int (kY ?u - 24)) ?u)"
    by (simp add: putcar_def [of 65] Let_def x)
  have "vmem (show_cursor (scrollup (word_of_int (kY ?u - 24)) ?u)) SCREENLIM = scroll_loop 1 RAMSCREEN (vmem ?u) SCREENLIM"
    by (subst scrollup_one) (simp_all add: show_cursor_def Let_def video_at_def)
  also have "\<dots> = vmem ?u SCREENLIM" by (rule scroll_outside) (simp add: in_page_def)
  also have "\<dots> = 65" by (simp add: video_at_def)
  finally show "vmem (putcar 65 (putcar 9 s)) SCREENLIM = 65" unfolding p .
qed

text \<open>C37. The four bytes that \<open>move_hw_cursor\<close> sends to the CRT controller are the low and the high byte of the
  position, register number first, and their combination is exactly \<open>80 y + x\<close>: no carry is lost in the
  sixteen bits.\<close>

theorem move_hw_cursor_position:
  "map fst (move_hw_cursor x y) = [0x3d4, 0x3d5, 0x3d4, 0x3d5]
   \<and> snd (move_hw_cursor x y ! 0) = 0x0f \<and> snd (move_hw_cursor x y ! 2) = 0x0e
   \<and> unat (snd (move_hw_cursor x y ! 1)) + 256 * unat (snd (move_hw_cursor x y ! 3)) = 80 * unat y + unat x"
proof -
  let ?p = "ucast y * 80 + ucast x :: u16"
  have b: "unat x < 256" "unat y < 256" using unsigned_less [of x] unsigned_less [of y] by simp_all
  then have "unat (ucast y * 80 :: u16) = 80 * unat y"
    by (simp add: unat_word_ariths unsigned_ucast_eq take_bit_nat_eq_self)
  then have p: "unat ?p = 80 * unat y + unat x"
    using b by (simp add: unat_word_ariths unsigned_ucast_eq take_bit_nat_eq_self)
  have lo: "unat (ucast ?p :: u8) = unat ?p mod 256"
    by (simp add: unsigned_ucast_eq take_bit_nat_def)
  have "unat (drop_bit 8 ?p) = unat ?p div 256" 
    unfolding unsigned_drop_bit_eq using p b by (simp add: drop_bit_eq_div take_bit_nat_eq_self)
  then have hi: "unat (ucast (drop_bit 8 ?p) :: u8) = unat ?p div 256"
    using p b by (simp add: unsigned_ucast_eq take_bit_nat_def)
  show ?thesis using lo hi p by (simp add: move_hw_cursor_def Let_def)
qed

end
