(* ===== verification/Console.thy ===== *)
theory Console
  imports Process Screen Lib
begin

text \<open>
  The terminal: the keyboard handler with its table (\<^verbatim>\<open>kern/interrupt.c\<close>, \<^verbatim>\<open>kern/kbd.h\<close>), the line
  discipline of \<^verbatim>\<open>kern/console.c\<close>, the system call that reads a line
  (\<^verbatim>\<open>kern/syscalls/sys_console_read.c\<close>) and the clock handler. The state extends that of the processes
  with the screen, the terminals and the virtual consoles, by their addresses. The main property is that a
  process that reads from the console gets exactly the line that was typed, after editing.
\<close>

section \<open>The code\<close>

abbreviation (input) INBUFSIZE :: int where "INBUFSIZE \<equiv> 4096"

record vconsole =
  v_term :: u32
  inb :: "int \<Rightarrow> u8"
  inlock :: int
  keypos :: int
  vmode :: int

text \<open>\<open>t_pread\<close> is the process that reads from a terminal, \<open>vcons\<close> the console at an address; the two shift
  flags and the counters are the static variables of the handlers.\<close>

record tty_state = kstate +
  scr :: screen
  current_term :: u32
  t_pread :: "u32 \<Rightarrow> nat option"
  vcons :: "u32 \<Rightarrow> vconsole"
  lshift_enable :: bool
  rshift_enable :: bool
  tic :: int
  sec :: int

definition put_scr :: "u8 \<Rightarrow> 'a tty_state_scheme \<Rightarrow> 'a tty_state_scheme" where
  "put_scr c s = s\<lparr>scr := putcar c (scr s)\<rparr>"

definition set_inb :: "int \<Rightarrow> u8 \<Rightarrow> vconsole \<Rightarrow> vconsole res" where
  "set_inb i c v = (if 0 \<le> i \<and> i < INBUFSIZE then Inr (v\<lparr>inb := (inb v)(i := c)\<rparr>) else Inl OutOfBounds)"

text \<open>\<open>term->pread = 0\<close> and \<open>inlock = 0\<close>: the reader may go on.\<close>

definition wake_reader :: "u32 \<Rightarrow> vconsole \<Rightarrow> 'a tty_state_scheme \<Rightarrow> 'a tty_state_scheme res" where
  "wake_reader a v s =
     (if v_term v = 0 then Inl NullDeref
      else Inr (s\<lparr>t_pread := (t_pread s)(v_term v := None), vcons := (vcons s)(a := v\<lparr>inlock := 0\<rparr>)\<rparr>))"

definition putc_console :: "u8 \<Rightarrow> 'a tty_state_scheme \<Rightarrow> 'a tty_state_scheme res" where
  "putc_console c s =
     (case (if current_term s = 0 then None else t_pread s (current_term s)) of
        None \<Rightarrow> Inr (put_scr c s)
      | Some p \<Rightarrow>
          if pstate (p_list s p) < 1 then Inr (put_scr c s)
          else let a = console (p_list s p); v = vcons s a;
                   echo = (if vmode v = 1 then put_scr c s else s)
               in if a = 0 then Inl NullDeref
                  else if vmode v = 0
                  then bind_res (set_inb 0 c v) (\<lambda>v1. wake_reader a v1 (put_scr c s))
                  else if c = 8
                  then if keypos v \<noteq> 0
                       then bind_res (set_inb (keypos v) 0 v) (\<lambda>v1.
                            Inr (echo\<lparr>vcons := (vcons s)(a := v1\<lparr>keypos := keypos v1 - 1\<rparr>)\<rparr>))
                       else Inr s
                  else if c = 10
                  then bind_res (set_inb (keypos v) c v) (\<lambda>v1.
                       let v2 = v1\<lparr>keypos := keypos v1 + 1\<rparr>
                       in bind_res (set_inb (keypos v2) 0 v2) (\<lambda>v3. wake_reader a (v3\<lparr>keypos := 0\<rparr>) echo))
                  else bind_res (set_inb (keypos v) c v) (\<lambda>v1.
                       Inr (echo\<lparr>vcons := (vcons s)(a := v1\<lparr>keypos := keypos v1 + 1\<rparr>)\<rparr>)))"

text \<open>The table of the keyboard: four characters for each key, of which the first two are used.\<close>

definition kbdmap :: "u8 list" where
  "kbdmap = [
   27, 27, 27, 27, 38, 49, 255, 255, 101, 50, 126, 255, 34, 51, 35, 255, 39, 52, 123, 255,
   40, 53, 91, 255, 45, 54, 124, 255, 101, 55, 96, 255, 95, 56, 92, 255, 99, 57, 94, 255,
   97, 48, 64, 255, 41, 32, 93, 255, 61, 43, 125, 255, 8, 8, 127, 8, 9, 9, 9, 9,
   97, 65, 113, 113, 122, 90, 119, 119, 101, 69, 101, 101, 114, 82, 114, 114, 116, 84, 116, 116,
   121, 89, 121, 121, 117, 85, 117, 117, 105, 73, 105, 105, 111, 79, 111, 111, 112, 80, 112, 112,
   94, 32, 255, 255, 36, 32, 255, 255, 10, 10, 10, 10, 255, 255, 255, 255, 113, 81, 97, 97,
   115, 83, 115, 115, 100, 68, 100, 100, 102, 70, 102, 102, 103, 71, 103, 103, 104, 72, 104, 104,
   106, 74, 106, 106, 107, 75, 107, 107, 108, 76, 108, 108, 109, 77, 109, 109, 117, 37, 255, 255,
   42, 117, 255, 255, 255, 255, 255, 255, 42, 117, 255, 255, 119, 87, 119, 119, 120, 88, 120, 120,
   99, 67, 99, 99, 118, 86, 118, 118, 98, 66, 98, 98, 110, 78, 110, 110, 44, 63, 255, 255,
   59, 46, 255, 255, 58, 47, 255, 255, 33, 32, 255, 255, 255, 255, 255, 255, 255, 255, 255, 255,
   255, 255, 255, 255, 32, 32, 32, 32, 255, 255, 255, 255, 255, 255, 255, 255, 255, 255, 255, 255,
   255, 255, 255, 255, 255, 255, 255, 255, 255, 255, 255, 255, 255, 255, 255, 255, 255, 255, 255, 255,
   255, 255, 255, 255, 255, 255, 255, 255, 255, 255, 255, 255, 255, 255, 255, 255, 255, 255, 255, 255,
   255, 255, 255, 255, 255, 255, 255, 255, 255, 255, 255, 255, 255, 255, 255, 255, 255, 255, 255, 255,
   255, 255, 255, 255, 255, 255, 255, 255, 255, 255, 255, 255, 255, 255, 255, 255, 255, 255, 255, 255,
   255, 255, 255, 255, 255, 255, 255, 255, 255, 255, 255, 255, 255, 255, 255, 255, 255, 255, 255, 255,
   60, 62, 255, 255, 255, 255, 255, 255, 255, 255, 255, 255, 255, 255, 255, 255, 255, 255, 255, 255,
   255, 255, 255, 255, 255, 255, 255, 255, 255, 255, 255, 255, 255, 255, 255, 255, 255, 255, 255, 255,
   255, 255, 255, 255, 255, 255, 255, 255
  ]"

text \<open>The wait for the keyboard controller: \<open>st\<close> are the bytes that the status port gives.\<close>

partial_function (option) kbd_wait :: "(nat \<Rightarrow> u8) \<Rightarrow> nat \<Rightarrow> nat option" where
  "kbd_wait st n = (if st n AND 1 = 0 then kbd_wait st (n + 1) else Some n)"

definition kbd_key :: "u8 \<Rightarrow> 'a tty_state_scheme \<Rightarrow> 'a tty_state_scheme res" where
  "kbd_key code s =
     (let i = code - 1
      in if i < 0x80
         then if i = 0x29 then Inr (s\<lparr>lshift_enable := True\<rparr>)
              else if i = 0x35 then Inr (s\<lparr>rshift_enable := True\<rparr>)
              else if i = 0x1C \<or> i = 0x37 then Inr s
              else let k = unat i * 4 + (if lshift_enable s \<or> rshift_enable s then 1 else 0)
                   in if k < length kbdmap then putc_console (kbdmap ! k) s else Inl OutOfBounds
         else let i' = i - 0x80
              in if i' = 0x29 then Inr (s\<lparr>lshift_enable := False\<rparr>)
                 else if i' = 0x35 then Inr (s\<lparr>rshift_enable := False\<rparr>)
                 else Inr s)"

definition isr_kbd_int :: "(nat \<Rightarrow> u8) \<Rightarrow> u8 \<Rightarrow> 'a tty_state_scheme \<Rightarrow> 'a tty_state_scheme out" where
  "isr_kbd_int st code s = Option.bind (kbd_wait st 0) (\<lambda>_. Some (kbd_key code s))"

text \<open>The clock: the counters, then the scheduler.\<close>

definition clock_tick :: "'a tty_state_scheme \<Rightarrow> 'a tty_state_scheme" where
  "clock_tick s =
     (let s1 = s\<lparr>tic := tic s + 1\<rparr>
      in if tic s1 mod 100 = 0 then s1\<lparr>sec := sec s1 + 1, tic := 0\<rparr> else s1)"

definition isr_clock_int ::
    "(nat \<Rightarrow> u32) \<Rightarrow> 'a tty_state_scheme \<Rightarrow> (switch_frame option \<times> 'a tty_state_scheme) out" where
  "isr_clock_int stk s = schedule stk (clock_tick s)"

text \<open>\<open>sys_console_read\<close> waits twice, for the terminal and for the line; other code runs meanwhile, so it
  is three steps: the test whether it may start, the start, and the end once the lock is open.\<close>

datatype read_start = No_term | Busy | Waiting

definition read_begin :: "'a tty_state_scheme \<Rightarrow> (read_start \<times> 'a tty_state_scheme) res" where
  "read_begin s =
     (let a = console (cur s); v = vcons s a
      in if a = 0 then Inl NullDeref
         else if v_term v = 0 then Inr (No_term, s)
         else if current_term s = 0 then Inl NullDeref
         else if t_pread s (current_term s) \<noteq> None then Inr (Busy, s)
         else Inr (Waiting, s\<lparr>t_pread := (t_pread s)(v_term v := Some (current s)),
                              vcons := (vcons s)(a := v\<lparr>inlock := 1\<rparr>)\<rparr>))"

text \<open>\<open>strcpy\<close> from the buffer of the console to user memory.\<close>

partial_function (option) copy_inb :: "(int \<Rightarrow> u8) \<Rightarrow> u32 \<Rightarrow> int \<Rightarrow> mem \<Rightarrow> (int \<times> mem) out" where
  "copy_inb b dst i m =
     (if i < INBUFSIZE
      then let m' = m(dst + word_of_int i := b i)
           in if b i \<noteq> 0 then copy_inb b dst (i + 1) m' else Some (Inr (i, m'))
      else Some (Inl OutOfBounds))"

text \<open>\<open>None\<close>: the process waits. Otherwise the value returned and user memory.\<close>

definition read_end :: "u32 \<Rightarrow> mem \<Rightarrow> 'a tty_state_scheme \<Rightarrow> (u32 \<times> mem) out" where
  "read_end u_buf m s =
     (let v = vcons s (console (cur s))
      in if inlock v = 1 then None
         else bind_out (copy_inb (inb v) u_buf 0 m) (\<lambda>(_, m').
              Option.bind (strlen m' u_buf) (\<lambda>n. Some (Inr (n, m')))))"

section \<open>Lines\<close>

text \<open>What the keys make of a line: backspace removes the last character, every other key is added.\<close>

definition edit_key :: "u8 \<Rightarrow> u8 list \<Rightarrow> u8 list" where
  "edit_key c l = (if c = 8 then butlast l else l @ [c])"

definition edited :: "u8 list \<Rightarrow> u8 list" where
  "edited cs = fold edit_key cs []"

lemma fold_edit_key:
  "length (fold edit_key cs l) \<le> length l + length cs" "set (fold edit_key cs l) \<subseteq> set l \<union> set cs"
proof (induction cs arbitrary: l)
  case (Cons c cs)
  { case 1 with Cons.IH(1) [of "edit_key c l"] show ?case by (simp add: edit_key_def split: if_splits) }
  { case 2 with Cons.IH(2) [of "edit_key c l"] show ?case by (auto simp: edit_key_def dest: in_set_butlastD split: if_splits) }
qed simp_all

text \<open>Process \<open>n\<close> reads from the terminal and has got the line \<open>l\<close> so far.\<close>

definition reading :: "'a tty_state_scheme \<Rightarrow> nat \<Rightarrow> u8 list \<Rightarrow> bool" where
  "reading s n l \<longleftrightarrow>
     (let a = console (p_list s n); v = vcons s a
      in current_term s \<noteq> 0 \<and> t_pread s (current_term s) = Some n \<and> 1 \<le> pstate (p_list s n) \<and> a \<noteq> 0
         \<and> v_term v = current_term s \<and> vmode v \<noteq> 0 \<and> inlock v = 1 \<and> keypos v = int (length l)
         \<and> (\<forall>i < length l. inb v (int i) = l ! i))"

definition same_procs :: "'a tty_state_scheme \<Rightarrow> 'a tty_state_scheme \<Rightarrow> bool" where
  "same_procs s s' \<longleftrightarrow> p_list s' = p_list s \<and> current s' = current s \<and> current_term s' = current_term s"

lemma same_procs_trans: "same_procs s s' \<Longrightarrow> same_procs s' s'' \<Longrightarrow> same_procs s s''"
  by (simp add: same_procs_def)

lemma putc_edits:
  assumes r: "reading s n l" and c: "c \<noteq> 10" and len: "length l < 4095"
  shows "\<exists>s'. putc_console c s = Inr s' \<and> reading s' n (edit_key c l) \<and> same_procs s s'"
proof -
  let ?a = "console (p_list s n)"
  let ?v = "vcons s ?a"
  have v: "vmode ?v \<noteq> 0" "keypos ?v = int (length l)" "\<forall>i < length l. inb ?v (int i) = l ! i"
    using r by (simp_all add: reading_def Let_def)
  let ?e = "if vmode ?v = 1 then put_scr c s else s"
  have p: "putc_console c s =
    (if c = 8 then if keypos ?v \<noteq> 0 then bind_res (set_inb (keypos ?v) 0 ?v) (\<lambda>v1.
         Inr (?e\<lparr>vcons := (vcons s)(?a := v1\<lparr>keypos := keypos v1 - 1\<rparr>)\<rparr>)) else Inr s
     else bind_res (set_inb (keypos ?v) c ?v) (\<lambda>v1. Inr (?e\<lparr>vcons := (vcons s)(?a := v1\<lparr>keypos := keypos v1 + 1\<rparr>)\<rparr>)))"
    using r c by (simp add: putc_console_def reading_def Let_def)
  have e: "current_term ?e = current_term s" "t_pread ?e = t_pread s" "p_list ?e = p_list s" "current ?e = current s"
    by (simp_all add: put_scr_def)
  show ?thesis
  proof (cases "c = 8 \<and> l = []")
    case True
    then have "putc_console c s = Inr s" unfolding p using v(2) by simp
    with True r show ?thesis by (simp add: edit_key_def same_procs_def)
  next
    case False
    define w where "w = (if c = 8 then ?v\<lparr>inb := (inb ?v)(int (length l) := 0), keypos := int (length l) - 1\<rparr>
      else ?v\<lparr>inb := (inb ?v)(int (length l) := c), keypos := int (length l) + 1\<rparr>)"
    have q: "putc_console c s = Inr (?e\<lparr>vcons := (vcons s)(?a := w)\<rparr>)"
      unfolding p w_def using False len v(2) by (auto simp: set_inb_def)
    have w: "v_term w = v_term ?v" "vmode w = vmode ?v" "inlock w = inlock ?v" by (simp_all add: w_def)
    have k: "keypos w = int (length (edit_key c l))"
      using False by (auto simp: w_def edit_key_def of_nat_diff Suc_le_eq)
    have i: "inb w (int i) = edit_key c l ! i" if "i < length (edit_key c l)" for i
      using that v(3) by (auto simp: w_def edit_key_def nth_butlast nth_append split: if_splits)
    have "reading (?e\<lparr>vcons := (vcons s)(?a := w)\<rparr>) n (edit_key c l)"
      using r k i unfolding reading_def by (simp add: e w Let_def)
    then show ?thesis unfolding q by (auto simp: same_procs_def e)
  qed
qed

lemma type_line:
  assumes "reading s n l" "10 \<notin> set cs" "length l + length cs \<le> 4095"
  shows "\<exists>s'. iter_res putc_console cs s = Inr s' \<and> reading s' n (fold edit_key cs l) \<and> same_procs s s'"
  using assms
proof (induction cs arbitrary: s l)
  case Nil
  then show ?case by (simp add: same_procs_def)
next
  case (Cons c cs)
  from putc_edits [of s n l c] Cons.prems obtain s1 where
    s1: "putc_console c s = Inr s1" "reading s1 n (edit_key c l)" "same_procs s s1" by auto
  have "length (edit_key c l) \<le> length l + 1" by (auto simp: edit_key_def)
  with Cons.IH [OF s1(2)] Cons.prems obtain s2 where
    "iter_res putc_console cs s1 = Inr s2" "reading s2 n (fold edit_key cs (edit_key c l))" "same_procs s1 s2" by auto
  with s1 show ?case by (auto intro: same_procs_trans)
qed

text \<open>The newline ends the line.\<close>

lemma newline_wakes:
  assumes r: "reading s n l" and len: "length l \<le> 4094"
  shows "\<exists>s'. putc_console 10 s = Inr s' \<and> same_procs s s' \<and> t_pread s' (current_term s) = None
    \<and> inlock (vcons s' (console (p_list s n))) = 0 \<and> keypos (vcons s' (console (p_list s n))) = 0
    \<and> (\<forall>i \<le> length l. inb (vcons s' (console (p_list s n))) (int i) = (l @ [10]) ! i)
    \<and> inb (vcons s' (console (p_list s n))) (int (length l + 1)) = 0"
proof -
  let ?a = "console (p_list s n)"
  let ?v = "vcons s ?a"
  let ?k = "int (length l)"
  have v: "vmode ?v \<noteq> 0" "keypos ?v = ?k" "\<forall>i < length l. inb ?v (int i) = l ! i" "v_term ?v = current_term s" "v_term ?v \<noteq> 0"
    using r by (simp_all add: reading_def Let_def)
  let ?e = "if vmode ?v = 1 then put_scr 10 s else s"
  let ?w = "?v\<lparr>inb := (inb ?v)(?k := 10, ?k + 1 := 0), keypos := 0, inlock := 0\<rparr>"
  let ?t = "?e\<lparr>t_pread := (t_pread s)(current_term s := None), vcons := (vcons s)(?a := ?w)\<rparr>"
  have "putc_console 10 s = bind_res (set_inb (keypos ?v) 10 ?v) (\<lambda>v1. let v2 = v1\<lparr>keypos := keypos v1 + 1\<rparr>
      in bind_res (set_inb (keypos v2) 0 v2) (\<lambda>v3. wake_reader ?a (v3\<lparr>keypos := 0\<rparr>) ?e))"
    using r by (simp add: putc_console_def reading_def Let_def)
  also have "\<dots> = Inr ?t" using v(2,4,5) len by (simp add: set_inb_def wake_reader_def put_scr_def)
  finally have p: "putc_console 10 s = Inr ?t" .
  have i: "inb ?w (int i) = (l @ [10]) ! i" if "i \<le> length l" for i
    using that v(3) by (cases "i = length l") (simp_all add: nth_append)
  have t: "vcons ?t ?a = ?w" "t_pread ?t (current_term s) = None" "same_procs s ?t"
    by (simp_all add: same_procs_def put_scr_def)
  have w: "inlock ?w = 0" "keypos ?w = 0" "inb ?w (int (length l + 1)) = 0" by simp_all
  show ?thesis by (rule exI [of _ ?t], intro conjI allI impI) (simp_all only: p t w i)
qed

lemma copy_inb_line:
  assumes "\<And>j. j < length l \<Longrightarrow> b (i + int j) = l ! j \<and> l ! j \<noteq> 0" "b (i + int (length l)) = 0"
    "i + int (length l) < 4096" "0 \<le> i"
  shows "copy_inb b dst i m = Some (Inr (i + int (length l), wr_bytes m (dst + word_of_int i) (l @ [0])))"
  using assms
proof (induction l arbitrary: i m)
  case Nil
  then show ?case by (subst copy_inb.simps) simp
next
  case (Cons c l)
  have c: "b i = c" "c \<noteq> 0" using Cons.prems(1) [of 0] by simp_all
  have "copy_inb b dst (i + 1) (m(dst + word_of_int i := c)) =
    Some (Inr (i + 1 + int (length l), wr_bytes (m(dst + word_of_int i := c)) (dst + word_of_int (i + 1)) (l @ [0])))"
  proof (rule Cons.IH)
    fix j assume "j < length l"
    then show "b (i + 1 + int j) = l ! j \<and> l ! j \<noteq> 0" using Cons.prems(1) [of "Suc j"] by (simp add: ac_simps)
  qed (use Cons.prems(2-4) in \<open>simp_all add: ac_simps\<close>)
  with c Cons.prems(3,4) show ?case by (subst copy_inb.simps) (simp add: ac_simps)
qed

lemma wr_bytes_cstr:
  assumes "0 \<notin> set l" "length l + 1 < 2 ^ 32"
  shows "cstr (wr_bytes m a (l @ [0])) a l"
proof (rule cstrI)
  fix i assume "i < length l"
  then have "wr_bytes m a (l @ [0]) (a + of_nat i) = (l @ [0]) ! i"
    using wr_bytes_nth [of "l @ [0]" i m a] assms(2) by simp
  with \<open>i < length l\<close> assms(1) nth_mem [OF \<open>i < length l\<close>] show "wr_bytes m a (l @ [0]) (a + of_nat i) = l ! i \<and> l ! i \<noteq> 0"
    by (metis nth_append)
next
  show "wr_bytes m a (l @ [0]) (a + of_nat (length l)) = 0"
    using wr_bytes_nth [of "l @ [0]" "length l" m a] assms(2) by simp
qed

section \<open>The keyboard\<close>

lemma length_kbdmap: "length kbdmap = 388"
  by (simp add: kbdmap_def)

lemma kbdmap_nonzero: "0 \<notin> set kbdmap"
  by (simp add: kbdmap_def)

lemma kbd_wait_from: "st (k + n) AND 1 \<noteq> 0 \<Longrightarrow> \<exists>j. kbd_wait st k = Some j"
proof (induction n arbitrary: k)
  case 0
  then show ?case by (subst kbd_wait.simps) simp
next
  case (Suc n)
  with Suc.IH [of "k + 1"] show ?case by (subst kbd_wait.simps) simp
qed

lemma kbd_wait_ends: "\<exists>n. st n AND 1 \<noteq> 0 \<Longrightarrow> \<exists>j. kbd_wait st 0 = Some j"
  using kbd_wait_from [of st 0] by auto

lemma unat_code: "unat (c - 1 :: u8) = (if c = 0 then 255 else unat c - 1)"
  by (simp add: unat_minus_one unsigned_minus_1_eq_mask mask_eq_exp_minus_1)

lemma clock_tick_counts:
  "0 \<le> tic s \<Longrightarrow> tic s < 100 \<Longrightarrow> 100 * sec (clock_tick s) + tic (clock_tick s) = 100 * sec s + tic s + 1
    \<and> 0 \<le> tic (clock_tick s) \<and> tic (clock_tick s) < 100"
  by (auto simp: clock_tick_def Let_def) presburger+

section \<open>Properties\<close>

definition demo_tty :: tty_state where
  "demo_tty = kstate.extend (upd_proc 1 (\<lambda>p. p\<lparr>pstate := 1, console := 0x10000004\<rparr>) (demo_kstate\<lparr>current := 1\<rparr>))
     \<lparr>scr = init_screen (\<lambda>_. 0), current_term = 0x9FF00, t_pread = (\<lambda>_. None),
      vcons = (\<lambda>_. \<lparr>v_term = 0x9FF00, inb = (\<lambda>_. 0), inlock = 0, keypos = 0, vmode = 1\<rparr>),
      lshift_enable = False, rshift_enable = False, tic = 0, sec = 0\<rparr>"

lemma demo_tty_sel [simp]:
  "current demo_tty = 1" "pstate (p_list demo_tty (Suc 0)) = 1" "console (p_list demo_tty (Suc 0)) = 0x10000004"
  "current_term demo_tty = 0x9FF00" "t_pread demo_tty = (\<lambda>_. None)"
  "lshift_enable demo_tty = False" "rshift_enable demo_tty = False"
  "vcons demo_tty = (\<lambda>_. \<lparr>v_term = 0x9FF00, inb = (\<lambda>_. 0), inlock = 0, keypos = 0, vmode = 1\<rparr>)"
  by (simp_all add: demo_tty_def kstate.defs upd_proc_def)

text \<open>C12. Reading a line from the console, in a buffered mode: after the reader has started, every key is
  accepted, and the reader keeps waiting, until the newline. Then the terminal is free again, the system call
  returns the length of the line, and the user buffer holds exactly the typed characters, each backspace
  having removed the character before it, with the newline at the end and a terminating zero. No byte of
  memory behind it changes. The bound is that of the input buffer.\<close>

theorem console_read_line:
  assumes "read_begin s = Inr (Waiting, s1)"
    and "v_term (vcons s (console (cur s))) = current_term s" "keypos (vcons s (console (cur s))) = 0"
    "vmode (vcons s (console (cur s))) \<noteq> 0" "1 \<le> pstate (cur s)"
    and cs: "10 \<notin> set cs" "0 \<notin> set cs" "length cs \<le> 4094"
  shows "(\<forall>k \<le> length cs. \<exists>s'. iter_res putc_console (take k cs) s1 = Inr s' \<and> read_end u_buf m s' = None)
    \<and> (\<exists>s2 m'. iter_res putc_console (cs @ [10]) s1 = Inr s2 \<and> t_pread s2 (current_term s) = None
        \<and> read_end u_buf m s2 = Some (Inr (of_nat (length (edited cs) + 1), m'))
        \<and> cstr m' u_buf (edited cs @ [10])
        \<and> (\<forall>a. \<not> in_block u_buf (length (edited cs) + 2) a \<longrightarrow> m' a = m a))"
proof -
  let ?n = "current s" and ?l = "edited cs"
  have r1: "reading s1 ?n []" and c1: "current s1 = ?n" "p_list s1 = p_list s" "current_term s1 = current_term s"
    using assms(1-5) by (auto simp: read_begin_def reading_def Let_def split: if_splits)
  have block: "\<exists>s'. iter_res putc_console (take k cs) s1 = Inr s' \<and> read_end u_buf m s' = None" for k
  proof -
    have "10 \<notin> set (take k cs)" "length [] + length (take k cs) \<le> 4095" using cs by (auto dest: in_set_takeD)
    from type_line [OF r1 this] obtain s' where s': "iter_res putc_console (take k cs) s1 = Inr s'"
      "reading s' ?n (fold edit_key (take k cs) [])" "same_procs s1 s'" by blast
    then have "read_end u_buf m s' = None"
      using c1 by (simp add: reading_def same_procs_def read_end_def Let_def)
    with s'(1) show ?thesis by blast
  qed
  from type_line [OF r1 cs(1)] cs(3) obtain t where t: "iter_res putc_console cs s1 = Inr t" "reading t ?n ?l" "same_procs s1 t"
    unfolding edited_def by auto
  have len: "length ?l \<le> 4094" and nz: "0 \<notin> set (?l @ [10])"
    using fold_edit_key [of cs "[]"] cs(2,3) by (auto simp: edited_def)
  let ?a = "console (p_list t ?n)"
  from newline_wakes [OF t(2) len] obtain s2 where s2: "putc_console 10 t = Inr s2" "same_procs t s2"
    "t_pread s2 (current_term t) = None" "inlock (vcons s2 ?a) = 0"
    "\<And>i. i \<le> length ?l \<Longrightarrow> inb (vcons s2 ?a) (int i) = (?l @ [10]) ! i" "inb (vcons s2 ?a) (int (length ?l + 1)) = 0"
    by blast
  let ?m' = "wr_bytes m u_buf ((?l @ [10]) @ [0])"
  have eq: "current s2 = ?n" "p_list s2 = p_list t" "current_term t = current_term s"
    using s2(2) t(3) c1 by (simp_all add: same_procs_def)
  have "copy_inb (inb (vcons s2 ?a)) u_buf 0 m = Some (Inr (0 + int (length (?l @ [10])), wr_bytes m (u_buf + word_of_int 0) ((?l @ [10]) @ [0])))"
  proof (rule copy_inb_line)
    fix j assume j: "j < length (?l @ [10])"
    then have "(?l @ [10]) ! j \<in> set (?l @ [10])" by (rule nth_mem)
    with nz s2(5) [of j] j show "inb (vcons s2 ?a) (0 + int j) = (?l @ [10]) ! j \<and> (?l @ [10]) ! j \<noteq> 0" by auto
  qed (use s2(6) len in simp_all)
  moreover have str: "cstr ?m' u_buf (?l @ [10])" by (rule wr_bytes_cstr) (use nz len in simp_all)
  ultimately have e: "read_end u_buf m s2 = Some (Inr (of_nat (length ?l + 1), ?m'))"
    using s2(4) by (simp add: read_end_def Let_def eq strlen_cstr)
  have "iter_res putc_console (cs @ [10]) s1 = Inr s2" using t(1) s2(1) by (simp add: iter_res_append)
  moreover have "?m' a = m a" if "\<not> in_block u_buf (length ?l + 2) a" for a
    using that len by (intro wr_bytes_outside) simp_all
  ultimately show ?thesis using block s2(3) e str eq(3) by auto
qed

theorem console_read_line_witness:
  "\<exists>s1 s2 m'. read_begin demo_tty = Inr (Waiting, s1)
    \<and> iter_res putc_console ([108, 120, 8, 115] @ [10]) s1 = Inr s2
    \<and> read_end 0x40000000 (\<lambda>_. 0) s2 = Some (Inr (3, m')) \<and> cstr m' 0x40000000 [108, 115, 10]"
proof -
  obtain s1 where s1: "read_begin demo_tty = Inr (Waiting, s1)" by (simp add: read_begin_def Let_def)
  have e: "edited [108, 120, 8, 115] = [108, 115]" by (simp add: edited_def edit_key_def)
  from console_read_line [OF s1, of "[108, 120, 8, 115]" "0x40000000" "\<lambda>_. 0"] s1 show ?thesis
    unfolding e by auto
qed

text \<open>C36. The keyboard handler: it returns once the controller has a byte, except on the codes 98 to 128, on
  which, and only on which, it reads outside of its table of 97 keys. Here no process reads from the
  terminal; a key of the table then puts its character of the current shift state on the screen.\<close>

theorem kbd_int_outcome:
  assumes "\<exists>n. st n AND 1 \<noteq> 0" and "current_term s = 0 \<or> t_pread s (current_term s) = None"
  shows "(isr_kbd_int st code s = Some (Inl OutOfBounds) \<longleftrightarrow> 98 \<le> unat code \<and> unat code \<le> 128)
    \<and> (unat code < 98 \<or> 128 < unat code \<longrightarrow> (\<exists>s'. isr_kbd_int st code s = Some (Inr s')))
    \<and> (1 \<le> unat code \<and> unat code \<le> 97 \<and> code \<notin> {0x2A, 0x36, 0x1D, 0x38} \<longrightarrow>
        isr_kbd_int st code s = Some (Inr (put_scr
          (kbdmap ! (4 * (unat code - 1) + (if lshift_enable s \<or> rshift_enable s then 1 else 0))) s)))"
proof -
  obtain n where "kbd_wait st 0 = Some n" using kbd_wait_ends assms(1) by blast
  then have k: "isr_kbd_int st code s = Some (kbd_key code s)" by (simp add: isr_kbd_int_def)
  have p: "putc_console c s = Inr (put_scr c s)" for c using assms(2) by (auto simp: putc_console_def)
  have i: "unat (code - 1) = (if code = 0 then 255 else unat code - 1)" by (rule unat_code)
  have lt: "code - 1 < 0x80 \<longleftrightarrow> 1 \<le> unat code \<and> unat code \<le> 128"
    using unat_gt_0 [of code] by (auto simp: word_less_nat_alt i Suc_le_eq)
  have m: "code - 1 = 0x29 \<longleftrightarrow> code = 0x2A" "code - 1 = 0x35 \<longleftrightarrow> code = 0x36"
    "code - 1 = 0x1C \<longleftrightarrow> code = 0x1D" "code - 1 = 0x37 \<longleftrightarrow> code = 0x38"
    by (auto simp: diff_eq_eq)
  let ?k = "unat (code - 1) * 4 + (if lshift_enable s \<or> rshift_enable s then 1 else 0)"
  have b: "?k < 388 \<longleftrightarrow> unat code \<le> 97" if "1 \<le> unat code"
    using that by (auto simp: i)
  show ?thesis
  proof (cases "1 \<le> unat code \<and> unat code \<le> 128 \<and> code \<notin> {0x2A, 0x36, 0x1D, 0x38}")
    case True
    then have "kbd_key code s = (if unat code \<le> 97 then Inr (put_scr (kbdmap ! ?k) s) else Inl OutOfBounds)"
      using lt b by (simp add: kbd_key_def Let_def m p length_kbdmap)
    then show ?thesis unfolding k using True i by (auto simp: mult.commute)
  next
    case False
    then have "\<exists>s'. kbd_key code s = Inr s'" and "unat code \<le> 97 \<or> 128 < unat code"
      using lt by (auto simp: kbd_key_def Let_def m)
    then show ?thesis unfolding k using False by auto
  qed
qed

theorem kbd_int_outcome_witness:
  "isr_kbd_int (\<lambda>_. 1) 0x10 demo_tty = Some (Inr (put_scr (kbdmap ! (4 * (unat (0x10 :: u8) - 1))) demo_tty))"
  using kbd_int_outcome [of "\<lambda>_. 1" demo_tty "0x10"] by simp

end
