(* ===== verification/File.thy ===== *)
theory File
  imports Ext2_Files Console
begin

text \<open>
  The cache of files of \<^verbatim>\<open>kern/file.c\<close>. The structures \<open>struct file\<close> are an object store, one map per field, by
  the address that \<open>kmalloc\<close> returned; the list of the leaves of a directory is a HOL list by the refinement of
  theory \<open>Linked_List\<close>. File names are C strings in the kernel heap. A path lies in memory \<open>pm\<close>, the memory of
  the process that passes it, and is only read.
\<close>

section \<open>The cache\<close>

record fs_state = tty_state +
  f_disk :: "u32 \<Rightarrow> disk"
  f_inum :: "u32 \<Rightarrow> u32"
  f_name :: "u32 \<Rightarrow> u32"
  f_inode :: "u32 \<Rightarrow> u32"
  f_parent :: "u32 \<Rightarrow> u32"
  f_leaf :: "u32 \<Rightarrow> u32 list"
  f_root :: u32

abbreviation (input) SIZEOF_file :: u32 where "SIZEOF_file \<equiv> 44"
abbreviation (input) EXT2_S_IFDIR :: u16 where "EXT2_S_IFDIR \<equiv> 0x4000"
abbreviation (input) EXT2_S_IFREG :: u16 where "EXT2_S_IFREG \<equiv> 0x8000"
abbreviation (input) EXT2_INUM_ROOT :: u32 where "EXT2_INUM_ROOT \<equiv> 2"

text \<open>\<open>if (!fp->inode) fp->inode = ext2_read_inode(...)\<close>\<close>

definition load_inode :: "drive_io \<Rightarrow> u32 \<Rightarrow> 'a fs_state_scheme \<Rightarrow> 'a fs_state_scheme out" where
  "load_inode io fp s =
     (if f_inode s fp = 0
      then bind_out (ext2_read_inode io (f_disk s fp) (f_inum s fp) s) (\<lambda>(p, s1).
           Some (Inr (s1\<lparr>f_inode := (f_inode s1)(fp := p)\<rparr>)))
      else Some (Inr s))"

definition is_directory :: "drive_io \<Rightarrow> u32 \<Rightarrow> 'a fs_state_scheme \<Rightarrow> (bool \<times> 'a fs_state_scheme) out" where
  "is_directory io fp s =
     bind_out (load_inode io fp s) (\<lambda>s1.
     Some (Inr (i_mode (kmem s1) (f_inode s1 fp) AND EXT2_S_IFDIR \<noteq> 0, s1)))"

text \<open>The walk over the leaves; \<open>Some 0\<close>: not in the cache.\<close>

primrec find_leaf :: "mem \<Rightarrow> (u32 \<Rightarrow> u32) \<Rightarrow> u32 \<Rightarrow> u32 list \<Rightarrow> u32 option" where
  "find_leaf m nm filename [] = Some 0"
| "find_leaf m nm filename (leaf # ls) =
     Option.bind (strcmp m (nm leaf) filename) (\<lambda>r. if r = 0 then Some leaf else find_leaf m nm filename ls)"

definition is_cached_leaf :: "u32 \<Rightarrow> u32 \<Rightarrow> 'a fs_state_scheme \<Rightarrow> u32 option" where
  "is_cached_leaf dir filename s = find_leaf (kmem s) (f_name s) filename (f_leaf s dir)"

text \<open>\<open>strcmp(lit, a) == 0\<close> for a string literal.\<close>

primrec eq_lit :: "u8 list \<Rightarrow> mem \<Rightarrow> u32 \<Rightarrow> bool" where
  "eq_lit [] m a \<longleftrightarrow> m a = 0"
| "eq_lit (c # cs) m a \<longleftrightarrow> m a = c \<and> eq_lit cs m (a + 1)"

section \<open>Directories\<close>

text \<open>\<open>struct directory_entry\<close>\<close>

definition d_inode :: "mem \<Rightarrow> u32 \<Rightarrow> u32" where "d_inode m d = rd32 m d"
definition rec_len :: "mem \<Rightarrow> u32 \<Rightarrow> u16" where "rec_len m d = rd16 m (d + 4)"
definition name_len :: "mem \<Rightarrow> u32 \<Rightarrow> u8" where "name_len m d = m (d + 6)"

definition add_leaf :: "u32 \<Rightarrow> u32 \<Rightarrow> u32 \<Rightarrow> 'a fs_state_scheme \<Rightarrow> 'a fs_state_scheme out" where
  "add_leaf dir dentry filename s =
     Option.bind (is_cached_leaf dir filename s) (\<lambda>l.
     if l \<noteq> 0 then Some (Inr s)
     else bind_out (kmalloc SIZEOF_file s) (\<lambda>(leaf, s1).
          bind_out (kmalloc (ucast (name_len (kmem s1) dentry) + 1) s1) (\<lambda>(nm, s2).
          Option.bind (strcpy (kmem s2) nm filename) (\<lambda>(_, m).
          Some (Inr (s2\<lparr>kmem := m, f_mmap := (f_mmap s2)(leaf := 0), f_disk := (f_disk s2)(leaf := f_disk s2 dir),
            f_inum := (f_inum s2)(leaf := d_inode m dentry), f_name := (f_name s2)(leaf := nm),
            f_inode := (f_inode s2)(leaf := 0), f_parent := (f_parent s2)(leaf := dir),
            f_leaf := (f_leaf s2)(leaf := [], dir := leaf # f_leaf s2 dir)\<rparr>))))))"

text \<open>One entry: its name is copied to a buffer, and the entries other than \<open>.\<close> and \<open>..\<close> go to the cache.\<close>

definition read_entry :: "u32 \<Rightarrow> u32 \<Rightarrow> 'a fs_state_scheme \<Rightarrow> 'a fs_state_scheme out" where
  "read_entry dir dentry s =
     bind_out (kmalloc (ucast (name_len (kmem s) dentry) + 1) s) (\<lambda>(filename, s1).
     let n = ucast (name_len (kmem s1) dentry);
         m = memcpy (kmem s1) filename (dentry + 8) n;
         s2 = s1\<lparr>kmem := m(filename + ucast (name_len m dentry) := 0)\<rparr>
     in bind_out (if \<not> eq_lit [46] (kmem s2) filename \<and> \<not> eq_lit [46, 46] (kmem s2) filename
                  then add_leaf dir dentry filename s2 else Some (Inr s2)) (\<lambda>s3.
        kfree filename s3))"

partial_function (option) entries_loop :: "u32 \<Rightarrow> u32 \<Rightarrow> u32 \<Rightarrow> 'a fs_state_scheme \<Rightarrow> 'a fs_state_scheme out" where
  "entries_loop dir dentry dsize s =
     (if d_inode (kmem s) dentry \<noteq> 0 \<and> dsize \<noteq> 0
      then bind_out (read_entry dir dentry s) (\<lambda>s1.
           entries_loop dir (dentry + ucast (rec_len (kmem s1) dentry)) (dsize - ucast (rec_len (kmem s1) dentry)) s1)
      else Some (Inr s))"

text \<open>\<open>get_dir_entries\<close>; \<open>-1\<close> for a file that is not a directory.\<close>

definition get_dir_entries :: "drive_io \<Rightarrow> u32 \<Rightarrow> 'a fs_state_scheme \<Rightarrow> (int \<times> 'a fs_state_scheme) out" where
  "get_dir_entries io dir s =
     bind_out (load_inode io dir s) (\<lambda>s1.
     bind_out (is_directory io dir s1) (\<lambda>(d, s2).
     if \<not> d then Some (Inr (- 1, s2))
     else if f_mmap s2 dir = 0
     then bind_out (ext2_read_file io (f_disk s2 dir) (f_inode s2 dir) s2) (\<lambda>(p, s3).
          bind_out (entries_loop dir p (i_size (kmem s3) (f_inode s3 dir)) (s3\<lparr>f_mmap := (f_mmap s3)(dir := p)\<rparr>)) (\<lambda>s4.
          bind_out (kfree (f_mmap s4 dir) s4) (\<lambda>s5.
          Some (Inr (0, s5\<lparr>f_mmap := (f_mmap s5)(dir := 0)\<rparr>)))))
     else bind_out (entries_loop dir (f_mmap s2 dir) (i_size (kmem s2) (f_inode s2 dir)) s2) (\<lambda>s4.
          Some (Inr (0, s4)))))"

section \<open>Paths\<close>

partial_function (option) skip_slashes :: "mem \<Rightarrow> u32 \<Rightarrow> u32 option" where
  "skip_slashes pm p = (if pm p = 47 then skip_slashes pm (p + 1) else Some p)"

partial_function (option) name_end :: "mem \<Rightarrow> u32 \<Rightarrow> u32 option" where
  "name_end pm p = (if pm p \<noteq> 0 \<and> pm p \<noteq> 47 then name_end pm (p + 1) else Some p)"

text \<open>\<open>memcpy\<close> between the memory of a process (\<open>pm\<close>) and the kernel heap.\<close>

definition copy_across :: "mem \<Rightarrow> u32 \<Rightarrow> u32 \<Rightarrow> u32 \<Rightarrow> mem \<Rightarrow> mem" where
  "copy_across pm dst src n m = (\<lambda>a. if in_block dst (unat n) a then pm (src + (a - dst)) else m a)"

text \<open>One name of the path, in a buffer: \<open>None\<close> as the first result when there is no such file.\<close>

definition visit :: "drive_io \<Rightarrow> u32 \<Rightarrow> u32 \<Rightarrow> 'a fs_state_scheme \<Rightarrow> (u32 option \<times> 'a fs_state_scheme) out" where
  "visit io fp name s =
     (if eq_lit [46, 46] (kmem s) name then Some (Inr (Some (f_parent s fp), s))
      else if eq_lit [46] (kmem s) name then Some (Inr (Some fp, s))
      else bind_out (get_dir_entries io fp s) (\<lambda>(_, s1).
           Option.bind (is_cached_leaf fp name s1) (\<lambda>l. Some (Inr (if l = 0 then None else Some l, s1)))))"

partial_function (option) path_walk :: "drive_io \<Rightarrow> mem \<Rightarrow> u32 \<Rightarrow> u32 \<Rightarrow> 'a fs_state_scheme \<Rightarrow> (u32 \<times> 'a fs_state_scheme) out" where
  "path_walk io pm beg_p fp s =
     (if pm beg_p = 0 then Some (Inr (fp, s))
      else bind_out (load_inode io fp s) (\<lambda>s1.
           bind_out (is_directory io fp s1) (\<lambda>ds.
           if \<not> fst ds then Some (Inr (0, snd ds))
           else Option.bind (name_end pm (beg_p + 1)) (\<lambda>end_p.
                bind_out (kmalloc (end_p - beg_p + 1) (snd ds)) (\<lambda>ns.
                let name = fst ns; s3 = snd ns
                in bind_out (visit io fp name
                     (s3\<lparr>kmem := (copy_across pm name beg_p (end_p - beg_p) (kmem s3))(name + (end_p - beg_p) := 0)\<rparr>)) (\<lambda>vs.
                   case fst vs of
                     None \<Rightarrow> bind_out (kfree name (snd vs)) (\<lambda>s5. Some (Inr (0, s5)))
                   | Some fp' \<Rightarrow> Option.bind (skip_slashes pm end_p) (\<lambda>beg'.
                       bind_out (kfree name (snd vs)) (\<lambda>s5. path_walk io pm beg' fp' s5))))))))"

text \<open>\<open>path_to_file\<close>: the file, or 0.\<close>

definition path_to_file :: "drive_io \<Rightarrow> mem \<Rightarrow> u32 \<Rightarrow> 'a fs_state_scheme \<Rightarrow> (u32 \<times> 'a fs_state_scheme) out" where
  "path_to_file io pm path s =
     (let fp = (if pm path \<noteq> 47 then pwd (cur s) else f_root s)
      in Option.bind (skip_slashes pm path) (\<lambda>beg_p. path_walk io pm beg_p fp s))"

section \<open>The root, and new files\<close>

definition init_root :: "drive_io \<Rightarrow> disk \<Rightarrow> 'a fs_state_scheme \<Rightarrow> (u32 \<times> 'a fs_state_scheme) out" where
  "init_root io dk s =
     bind_out (kmalloc SIZEOF_file s) (\<lambda>(fp, s1).
     bind_out (kmalloc 2 s1) (\<lambda>(nm, s2).
     let s3 = s2\<lparr>kmem := wr_bytes (kmem s2) nm [47, 0], f_name := (f_name s2)(fp := nm), f_disk := (f_disk s2)(fp := dk),
           f_inum := (f_inum s2)(fp := EXT2_INUM_ROOT)\<rparr>
     in bind_out (ext2_read_inode io dk EXT2_INUM_ROOT s3) (\<lambda>(p, s4).
        bind_out (get_dir_entries io fp (s4\<lparr>f_inode := (f_inode s4)(fp := p), f_mmap := (f_mmap s4)(fp := 0),
          f_parent := (f_parent s4)(fp := fp), f_leaf := (f_leaf s4)(fp := [])\<rparr>)) (\<lambda>(_, s5).
        Some (Inr (fp, s5))))))"

text \<open>\<open>add_file\<close>. The loop that looks for the last slash, from the terminating 0 on.\<close>

fun last_slash :: "mem \<Rightarrow> u32 \<Rightarrow> nat \<Rightarrow> nat" where
  "last_slash pm path 0 = 0"
| "last_slash pm path (Suc i) = (if pm (path + of_nat (Suc i)) \<noteq> 47 then last_slash pm path i else Suc i)"

text \<open>The copy of a name out of the array \<open>name\<close> of 512 bytes on the stack, up to its first 0.\<close>

partial_function (option) copy_name :: "(nat \<Rightarrow> u8) \<Rightarrow> u32 \<Rightarrow> nat \<Rightarrow> mem \<Rightarrow> mem out" where
  "copy_name b dst i m =
     (if i < 512
      then let m' = m(dst + of_nat i := b i)
           in if b i \<noteq> 0 then copy_name b dst (i + 1) m' else Some (Inr m')
      else Some (Inl OutOfBounds))"

text \<open>\<open>stk\<close> is what the array holds before. \<open>ext2_create_inode\<close> always returns -1, so that the function always
  ends in its error branch: both blocks are freed again. The statements behind that branch are never
  reached (\<open>add_file_fails\<close>) and stand as \<open>None\<close>.\<close>

definition add_file :: "(nat \<Rightarrow> u8) \<Rightarrow> disk \<Rightarrow> mem \<Rightarrow> u32 \<Rightarrow> bool \<Rightarrow> 'a fs_state_scheme \<Rightarrow> 'a fs_state_scheme out" where
  "add_file stk dk pm path rep s =
     Option.bind (strlen pm path) (\<lambda>len.
     let taille = unat len; i = last_slash pm path taille + 1
     in if 512 < i \<or> 512 < taille - i then Some (Inl OutOfBounds)
        else if taille < i then Some (Inl OutOfBounds)
        else let name = (\<lambda>k. if k < taille - i then pm (path + of_nat (i + k)) else stk k)
             in bind_out (kmalloc SIZEOF_file s) (\<lambda>(fp, s1).
                bind_out (kmalloc (of_nat (taille - i)) s1) (\<lambda>(nm, s2).
                bind_out (copy_name name nm 0 (kmem s2)) (\<lambda>m.
                let s3 = s2\<lparr>kmem := m, f_name := (f_name s2)(fp := nm), f_disk := (f_disk s2)(fp := dk)\<rparr>;
                    inum = ext2_create_inode dk (if rep then uint EXT2_S_IFREG else uint EXT2_S_IFDIR) m
                in if inum = - 1
                   then bind_out (kfree nm (s3\<lparr>f_inum := (f_inum s3)(fp := - 1)\<rparr>)) (\<lambda>s4. kfree fp s4)
                   else None))))"

lemma add_file_fails: "ext2_create_inode dk md m = - 1"
  by (simp add: ext2_create_inode_def split: option.split)

section \<open>Paths as lists of names\<close>

text \<open>The names of a path: what is between its slashes, without the empty ones.\<close>

primrec split_on :: "'a \<Rightarrow> 'a list \<Rightarrow> 'a list list" where
  "split_on c [] = [[]]"
| "split_on c (x # xs) = (if x = c then [] # split_on c xs else (x # hd (split_on c xs)) # tl (split_on c xs))"

definition path_names :: "u8 list \<Rightarrow> u8 list list" where
  "path_names xs = filter (\<lambda>n. n \<noteq> []) (split_on 47 xs)"

text \<open>Looking up one name after the other.\<close>

primrec walk_names :: "drive_io \<Rightarrow> u8 list list \<Rightarrow> u32 \<Rightarrow> 'a fs_state_scheme \<Rightarrow> (u32 \<times> 'a fs_state_scheme) out" where
  "walk_names io [] fp s = Some (Inr (fp, s))"
| "walk_names io (n # ns) fp s =
     bind_out (load_inode io fp s) (\<lambda>s1.
     bind_out (is_directory io fp s1) (\<lambda>(d, s2).
     if \<not> d then Some (Inr (0, s2))
     else bind_out (kmalloc (of_nat (length n + 1)) s2) (\<lambda>(name, s3).
          bind_out (visit io fp name (s3\<lparr>kmem := wr_bytes (kmem s3) name (n @ [0])\<rparr>)) (\<lambda>(v, s4).
          case v of None \<Rightarrow> bind_out (kfree name s4) (\<lambda>s5. Some (Inr (0, s5)))
                  | Some fp' \<Rightarrow> bind_out (kfree name s4) (walk_names io ns fp')))))"

lemma split_on_nonempty: "split_on c xs \<noteq> []"
  by (cases xs) auto

lemma split_on_span: "split_on c xs = takeWhile (\<lambda>x. x \<noteq> c) xs #
    (case dropWhile (\<lambda>x. x \<noteq> c) xs of [] \<Rightarrow> [] | _ # ys \<Rightarrow> split_on c ys)"
  by (induction xs) (auto split: list.split)

lemma path_names_Nil [simp]: "path_names [] = []"
  by (simp add: path_names_def)

lemma path_names_slash [simp]: "path_names (47 # xs) = path_names xs"
  by (simp add: path_names_def)

lemma path_names_slashes: "path_names (dropWhile (\<lambda>x. x = 47) xs) = path_names xs"
  by (induction xs) auto

lemma path_names_name:
  assumes "c \<noteq> 47"
  shows "path_names (c # xs) = (c # takeWhile (\<lambda>x. x \<noteq> 47) xs) # path_names (dropWhile (\<lambda>x. x \<noteq> 47) xs)"
proof -
  let ?d = "dropWhile (\<lambda>x. x \<noteq> 47) xs"
  have "path_names ?d = filter (\<lambda>n. n \<noteq> []) (case ?d of [] \<Rightarrow> [] | _ # ys \<Rightarrow> split_on 47 ys)"
  proof (cases ?d)
    case (Cons y ys)
    then have "y = 47" using hd_dropWhile [of "\<lambda>x. x \<noteq> 47" xs] by simp
    with Cons show ?thesis by (simp add: path_names_def)
  next
    case Nil
    show ?thesis unfolding Nil by simp
  qed
  then show ?thesis using assms split_on_span [of 47 "c # xs"] by (simp add: path_names_def)
qed

text \<open>The two scans of the code.\<close>

lemma skip_slashes_cstr:
  "cstr pm p xs \<Longrightarrow> \<exists>q. skip_slashes pm p = Some q \<and> cstr pm q (dropWhile (\<lambda>x. x = 47) xs)"
proof (induction xs arbitrary: p)
  case Nil
  then show ?case by (subst skip_slashes.simps) simp
next
  case (Cons x xs)
  then show ?case by (subst skip_slashes.simps) (cases "x = 47"; simp)
qed

lemma name_end_cstr:
  "cstr pm p xs \<Longrightarrow> name_end pm p = Some (p + of_nat (length (takeWhile (\<lambda>x. x \<noteq> 47) xs)))
    \<and> cstr pm (p + of_nat (length (takeWhile (\<lambda>x. x \<noteq> 47) xs))) (dropWhile (\<lambda>x. x \<noteq> 47) xs)"
proof (induction xs arbitrary: p)
  case Nil
  then show ?case by (subst name_end.simps) simp
next
  case (Cons x xs)
  then have c: "pm p = x" "x \<noteq> 0" "cstr pm (p + 1) xs" by simp_all
  show ?case
  proof (cases "x = 47")
    case True
    with Cons.prems c(1) show ?thesis by (subst name_end.simps) simp
  next
    case False
    with Cons.IH [OF c(3)] c(1,2) show ?thesis by (subst name_end.simps) (simp add: add.assoc)
  qed
qed

text \<open>The copied name is a C string.\<close>

lemma copy_across_name:
  assumes "\<And>i. i < length n \<Longrightarrow> pm (src + of_nat i) = n ! i" "length n + 1 < 2 ^ 32"
  shows "(copy_across pm dst src (of_nat (length n)) m)(dst + of_nat (length n) := 0) = wr_bytes m dst (n @ [0])"
proof
  fix a
  have u: "unat (of_nat (length n) :: u32) = length n" using assms(2) by (intro unat_of_nat_u32) simp
  define k where "k = unat (a - dst)"
  have a: "a = dst + of_nat k" by (simp add: k_def)
  have ib: "in_block dst l a \<longleftrightarrow> k < l" for l by (simp add: in_block_def k_def)
  have e: "a = dst + of_nat (length n) \<longleftrightarrow> k = length n"
  proof
    assume "a = dst + of_nat (length n)"
    then show "k = length n" using u by (simp add: k_def)
  qed (use a in simp)
  consider "k < length n" | "k = length n" | "length n < k" by linarith
  then show "((copy_across pm dst src (of_nat (length n)) m)(dst + of_nat (length n) := 0)) a = wr_bytes m dst (n @ [0]) a"
  proof cases
    case 1
    have "wr_bytes m dst (n @ [0]) (dst + of_nat k) = (n @ [0]) ! k"
      using 1 assms(2) by (intro wr_bytes_nth) simp_all
    then show ?thesis using 1 assms(1) [OF 1] e u ib unfolding copy_across_def by (simp add: nth_append k_def)
  next
    case 2
    have "wr_bytes m dst (n @ [0]) (dst + of_nat k) = (n @ [0]) ! k"
      using 2 assms(2) by (intro wr_bytes_nth) simp_all
    then show ?thesis using 2 e unfolding a [symmetric] by (simp add: nth_append)
  next
    case 3
    then have "wr_bytes m dst (n @ [0]) a = m a"
      using assms(2) ib [of "length n + 1"] by (intro wr_bytes_outside) simp_all
    then show ?thesis using 3 e u ib unfolding copy_across_def by simp
  qed
qed

lemma takeWhile_dropWhile_same: "takeWhile P (dropWhile P xs) = []"
  by (induction xs) auto

lemma path_walk_names:
  fixes s :: "'a fs_state_scheme"
  shows "cstr pm p xs \<Longrightarrow> length xs + 1 < 2 ^ 32 \<Longrightarrow> takeWhile (\<lambda>x. x = 47) xs = [] \<Longrightarrow>
    path_walk io pm p fp s = walk_names io (path_names xs) fp s"
proof (induction xs arbitrary: p fp s rule: length_induct)
  case (1 xs)
  show ?case
  proof (cases xs)
    case Nil
    with "1.prems"(1) show ?thesis by (subst path_walk.simps) simp
  next
    case (Cons c ys)
    let ?n = "c # takeWhile (\<lambda>x. x \<noteq> 47) ys" and ?zs = "dropWhile (\<lambda>x. x \<noteq> 47) ys"
    let ?e = "p + of_nat (length ?n)"
    have c: "pm p = c" "c \<noteq> 0" "c \<noteq> 47" "cstr pm (p + 1) ys" using "1.prems" Cons by (auto split: if_splits)
    have en: "name_end pm (p + 1) = Some ?e" "cstr pm ?e ?zs"
      using name_end_cstr [OF c(4)] by (simp_all add: add.assoc)
    obtain q where q: "skip_slashes pm ?e = Some q" "cstr pm q (dropWhile (\<lambda>x. x = 47) ?zs)"
      using skip_slashes_cstr [OF en(2)] by blast
    have len: "length (takeWhile (\<lambda>x. x \<noteq> 47) ys) \<le> length ys" "length ?zs \<le> length ys"
      "length (dropWhile (\<lambda>x. x = 47) ?zs) \<le> length ?zs"
      by (rule length_takeWhile_le length_dropWhile_le)+
    have nb: "pm (p + of_nat i) = ?n ! i" if "i < length ?n" for i
    proof -
      have x: "xs = ?n @ ?zs" using Cons by simp
      then have "i < length xs" using that by (simp only: length_append trans_less_add1)
      moreover have "xs ! i = ?n ! i" unfolding x using that by (simp only: nth_append if_True)
      ultimately show ?thesis using cstr_nth [OF "1.prems"(1), of i] by simp
    qed
    have copy: "(copy_across pm name p (?e - p) m)(name + (?e - p) := 0) = wr_bytes m name (?n @ [0])" for name m
      using copy_across_name [of ?n pm p name m] nb "1.prems"(2) len(1) Cons by simp
    have rest: "path_walk io pm q fp' = (walk_names io (path_names ?zs) fp' :: 'a fs_state_scheme \<Rightarrow> _)" for fp'
    proof
      fix s' :: "'a fs_state_scheme"
      have "path_walk io pm q fp' s' = walk_names io (path_names (dropWhile (\<lambda>x. x = 47) ?zs)) fp' s'"
        using "1.IH" [rule_format, of "dropWhile (\<lambda>x. x = 47) ?zs" q fp' s'] q(2) len Cons "1.prems"(2)
        by (simp add: takeWhile_dropWhile_same)
      then show "path_walk io pm q fp' s' = walk_names io (path_names ?zs) fp' s'" by (simp only: path_names_slashes)
    qed
    have sz: "?e - p + 1 = of_nat (length ?n + 1)" by simp
    have pn: "path_names xs = ?n # path_names ?zs" unfolding Cons by (rule path_names_name [OF c(3)])
    show ?thesis
      unfolding pn walk_names.simps
      by (subst path_walk.simps)
        (simp only: c(1,2) if_False en(1) q(1) copy sz rest Let_def bind.bind_lunit case_prod_unfold)
  qed
qed

text \<open>The whole function.\<close>

lemma path_to_file_walk:
  fixes s :: "'a fs_state_scheme"
  assumes "cstr pm path xs" "length xs + 1 < 2 ^ 32"
  shows "path_to_file io pm path s =
    walk_names io (path_names xs) (if xs \<noteq> [] \<and> hd xs = 47 then f_root s else pwd (cur s)) s"
proof -
  obtain q where q: "skip_slashes pm path = Some q" "cstr pm q (dropWhile (\<lambda>x. x = 47) xs)"
    using skip_slashes_cstr [OF assms(1)] by blast
  have "length (dropWhile (\<lambda>x. x = 47) xs) \<le> length xs" by (rule length_dropWhile_le)
  then have "path_walk io pm q fp s = walk_names io (path_names xs) fp s" for fp
    using path_walk_names [OF q(2), of io fp s] assms(2) by (simp add: takeWhile_dropWhile_same path_names_slashes)
  moreover have "pm path \<noteq> 47 \<longleftrightarrow> \<not> (xs \<noteq> [] \<and> hd xs = 47)" using assms(1) by (cases xs) auto
  ultimately show ?thesis by (simp add: path_to_file_def q(1))
qed

section \<open>Properties\<close>

text \<open>C15. \<open>path_to_file\<close> on a path in memory is the lookup of its names one after the other: its pointers cut
  the path exactly into the names between the slashes (any number of slashes in front of, between and behind
  the names), each name is looked up from a terminated copy, and the walk starts at the root for a path that
  begins with a slash and at the working directory otherwise. In particular it returns whenever the lookups
  return.\<close>

theorem path_to_file_names:
  fixes s :: "'a fs_state_scheme"
  assumes "cstr pm path xs" "length xs + 1 < 2 ^ 32"
  shows "path_to_file io pm path s =
    walk_names io (path_names xs) (if xs \<noteq> [] \<and> hd xs = 47 then f_root s else pwd (cur s)) s"
  using path_to_file_walk [OF assms] .

theorem path_to_file_names_witness:
  "\<forall>io (s :: fs_state). path_to_file io (wr_bytes (\<lambda>_. 0) 0 [47, 98, 47, 47, 97, 47]) 0 s = walk_names io [[98], [97]] (f_root s) s"
proof (intro allI)
  fix io and s :: fs_state
  show "path_to_file io (wr_bytes (\<lambda>_. 0) 0 [47, 98, 47, 47, 97, 47]) 0 s = walk_names io [[98], [97]] (f_root s) s"
    using path_to_file_names [of "wr_bytes (\<lambda>_. 0) 0 [47, 98, 47, 47, 97, 47]" 0 "[47, 98, 47, 47, 97, 47]" io s]
    by (simp add: path_names_def)
qed

end
