(* ===== verification/Elf.thy ===== *)
theory Elf
  imports Ext2_Files Console
begin

text \<open>
  The loader of executables, \<^verbatim>\<open>kern/elf.c\<close> on the structures of \<^verbatim>\<open>kern/elf.h\<close>. The file is in the kernel heap;
  the segments go to the memory \<open>um\<close> of the new process. A page of user space that is not mapped yet is
  mapped by the page fault that the first access to it raises.
\<close>

section \<open>The code\<close>

text \<open>The fields of \<open>Elf32_Ehdr\<close> and \<open>Elf32_Phdr\<close> that the code uses.\<close>

definition e_entry :: "mem \<Rightarrow> u32 \<Rightarrow> u32" where "e_entry m h = rd32 m (h + 24)"
definition e_phoff :: "mem \<Rightarrow> u32 \<Rightarrow> u32" where "e_phoff m h = rd32 m (h + 28)"
definition e_phnum :: "mem \<Rightarrow> u32 \<Rightarrow> u16" where "e_phnum m h = rd16 m (h + 44)"

record phdr =
  p_type :: u32
  p_offset :: u32
  p_vaddr :: u32
  p_filesz :: u32
  p_memsz :: u32
  p_flags :: u32

definition phdr_at :: "mem \<Rightarrow> u32 \<Rightarrow> phdr" where
  "phdr_at m p = \<lparr>p_type = rd32 m p, p_offset = rd32 m (p + 4), p_vaddr = rd32 m (p + 8), p_filesz = rd32 m (p + 16),
     p_memsz = rd32 m (p + 20), p_flags = rd32 m (p + 24)\<rparr>"

abbreviation (input) PT_LOAD :: u32 where "PT_LOAD \<equiv> 1"
abbreviation (input) PF_X :: u32 where "PF_X \<equiv> 1"
abbreviation (input) PF_W :: u32 where "PF_W \<equiv> 2"
abbreviation (input) PF_R :: u32 where "PF_R \<equiv> 4"

definition is_elf :: "mem \<Rightarrow> u32 \<Rightarrow> bool" where
  "is_elf m f \<longleftrightarrow> m f = 0x7F \<and> m (f + 1) = 69 \<and> m (f + 2) = 76 \<and> m (f + 3) = 70"

text \<open>An access to user memory: a page that is missing is provided by the page fault handler. A fault that
  ends the process is an error here.\<close>

definition touch :: "u32 \<Rightarrow> 'a kstate_scheme \<Rightarrow> 'a kstate_scheme out" where
  "touch a s =
     (if walk s a \<noteq> None then Some (Inr s)
      else bind_out (isr_PF_exc a s) (\<lambda>(r, s1). if r = None then Some (Inr s1) else Some (Inl (PageFault a))))"

text \<open>\<open>memcpy\<close> to user memory, and the loop that clears the rest of a segment.\<close>

function copy_user :: "u32 \<Rightarrow> u32 \<Rightarrow> u32 \<Rightarrow> 'a kstate_scheme \<Rightarrow> mem \<Rightarrow> ('a kstate_scheme \<times> mem) out" where
  "copy_user dst src n s um =
     (if n = 0 then Some (Inr (s, um))
      else bind_out (touch dst s) (\<lambda>s1. copy_user (dst + 1) (src + 1) (n - 1) s1 (um(dst := kmem s1 src))))"
  by pat_completeness auto
termination
  by (relation "measure (\<lambda>(dst, src, n, s, um). unat n)") (auto simp: unat_minus_one unat_gt_0)

declare copy_user.simps [simp del]

lemma unat_Suc_below: "(i :: u32) < lim \<Longrightarrow> unat (i + 1) = unat i + 1"
proof -
  assume "i < lim"
  then have "unat i < unat lim" by (simp add: word_less_nat_alt)
  then have "unat i + 1 < 4294967296" using unat_lt_2p32 [of lim] by linarith
  then show ?thesis by (subst unat_add_nowrap) simp_all
qed

function zero_user :: "u32 \<Rightarrow> u32 \<Rightarrow> u32 \<Rightarrow> 'a kstate_scheme \<Rightarrow> mem \<Rightarrow> ('a kstate_scheme \<times> mem) out" where
  "zero_user p i lim s um =
     (if i < lim
      then bind_out (touch (p + i) s) (\<lambda>s1. zero_user p (i + 1) lim s1 (um(p + i := 0)))
      else Some (Inr (s, um)))"
  by pat_completeness auto
termination
  by (relation "measure (\<lambda>(p, i, lim, s, um). unat lim - unat i)")
    (auto simp: unat_Suc_below word_less_nat_alt intro!: diff_less_mono2)

declare zero_user.simps [simp del]

text \<open>A segment: \<open>None\<close> as the first result when it is out of user space.\<close>

definition load_segment :: "u32 \<Rightarrow> nat \<Rightarrow> phdr \<Rightarrow> 'a kstate_scheme \<Rightarrow> mem \<Rightarrow> (unit option \<times> 'a kstate_scheme \<times> mem) out" where
  "load_segment f n ph s um =
     (if p_type ph \<noteq> PT_LOAD then Some (Inr (Some (), s, um))
      else let v_begin = p_vaddr ph; v_end = p_vaddr ph + p_memsz ph
           in if v_begin < USER_OFFSET \<or> v_end > USER_STACK then Some (Inr (None, s, um))
              else let s1 = (if p_flags ph = PF_X + PF_R then upd_proc n (\<lambda>p. p\<lparr>b_exec := v_begin, e_exec := v_end\<rparr>) s else s);
                       s2 = (if p_flags ph = PF_W + PF_R then upd_proc n (\<lambda>p. p\<lparr>b_bss := v_begin, e_bss := v_end\<rparr>) s1 else s1)
                   in bind_out (copy_user v_begin (f + p_offset ph) (p_filesz ph) s2 um) (\<lambda>(s3, um1).
                      if p_memsz ph > p_filesz ph
                      then bind_out (zero_user v_begin (p_filesz ph) (p_memsz ph) s3 um1) (\<lambda>r. Some (Inr (Some (), r)))
                      else Some (Inr (Some (), s3, um1))))"

function load_segments :: "u32 \<Rightarrow> u32 \<Rightarrow> nat \<Rightarrow> nat \<Rightarrow> 'a kstate_scheme \<Rightarrow> mem \<Rightarrow> (u32 \<times> 'a kstate_scheme \<times> mem) out" where
  "load_segments f tab n pe s um =
     (if pe < unat (e_phnum (kmem s) f) \<and> pe < 65536
      then bind_out (load_segment f n (phdr_at (kmem s) (tab + 32 * of_nat pe)) s um) (\<lambda>(r, s1, um1).
           if r = None then Some (Inr (0, s1, um1)) else load_segments f tab n (pe + 1) s1 um1)
      else Some (Inr (e_entry (kmem s) f, s, um)))"
  by pat_completeness auto
termination
  by (relation "measure (\<lambda>(f, tab, n, pe, s, um). 65536 - pe)") auto

declare load_segments.simps [simp del]

text \<open>\<open>load_elf\<close>: the entry point, or 0. The number of segments is 16 bits wide.\<close>

definition load_elf :: "u32 \<Rightarrow> nat \<Rightarrow> 'a kstate_scheme \<Rightarrow> mem \<Rightarrow> (u32 \<times> 'a kstate_scheme \<times> mem) out" where
  "load_elf f n s um = (if \<not> is_elf (kmem s) f then Some (Inr (0, s, um)) else load_segments f (f + e_phoff (kmem s) f) n 0 s um)"

section \<open>The image of a process\<close>

text \<open>What a segment makes of user memory, and of the fields of the process.\<close>

definition seg_image :: "mem \<Rightarrow> u32 \<Rightarrow> phdr \<Rightarrow> mem \<Rightarrow> mem" where
  "seg_image m f ph um =
     (if p_type ph \<noteq> PT_LOAD then um
      else (\<lambda>a. let k = unat (a - p_vaddr ph)
            in if k < unat (p_filesz ph) then m (f + p_offset ph + of_nat k)
               else if k < unat (p_memsz ph) then 0 else um a))"

definition seg_fields :: "phdr \<Rightarrow> process \<Rightarrow> process" where
  "seg_fields ph p =
     (if p_type ph \<noteq> PT_LOAD then p
      else if p_flags ph = 5 then p\<lparr>b_exec := p_vaddr ph, e_exec := p_vaddr ph + p_memsz ph\<rparr>
      else if p_flags ph = 6 then p\<lparr>b_bss := p_vaddr ph, e_bss := p_vaddr ph + p_memsz ph\<rparr>
      else p)"

definition seg_ok :: "phdr \<Rightarrow> bool" where
  "seg_ok ph \<longleftrightarrow> p_type ph = PT_LOAD \<longrightarrow> USER_OFFSET \<le> p_vaddr ph \<and> p_vaddr ph + p_memsz ph \<le> USER_STACK"

definition seg_mapped :: "'a mmu_state_scheme \<Rightarrow> phdr \<Rightarrow> bool" where
  "seg_mapped s ph \<longleftrightarrow> (\<forall>k < max (unat (p_filesz ph)) (unat (p_memsz ph)). walk s (p_vaddr ph + of_nat k) \<noteq> None)"

definition phdrs :: "mem \<Rightarrow> u32 \<Rightarrow> phdr list" where
  "phdrs m f = map (\<lambda>i. phdr_at m (f + e_phoff m f + 32 * of_nat i)) [0..<unat (e_phnum m f)]"

lemma copy_user_mapped:
  "(\<And>k. k < unat n \<Longrightarrow> walk s (dst + of_nat k) \<noteq> None) \<Longrightarrow>
    copy_user dst src n s um =
      Some (Inr (s, \<lambda>a. if unat (a - dst) < unat n then kmem s (src + (a - dst)) else um a))"
proof (induction "unat n" arbitrary: dst src n um)
  case 0
  then have "n = 0" by (simp add: unat_eq_0)
  then show ?case by (subst copy_user.simps) simp
next
  case (Suc k)
  then have n0: "n \<noteq> 0" by auto
  have un: "unat n = Suc (unat (n - 1))" by (rule unat_pred [OF n0])
  then have k: "k = unat (n - 1)" using Suc.hyps(2) by simp
  have t: "touch dst s = Some (Inr s)" using Suc.prems [of 0] Suc.hyps(2) by (simp add: touch_def)
  have w: "walk s (dst + 1 + of_nat j) \<noteq> None" if "j < unat (n - 1)" for j
    using Suc.prems [of "Suc j"] that un by (simp add: add.assoc)
  have "(if unat (a - (dst + 1)) < unat (n - 1) then kmem s (src + 1 + (a - (dst + 1))) else (um(dst := kmem s src)) a)
      = (if unat (a - dst) < unat n then kmem s (src + (a - dst)) else um a)" for a
  proof (cases "a = dst")
    case True
    have "\<not> unat (- 1 :: u32) < unat (n - 1)" using unat_lt_2p32 [of "n - 1"] unfolding unat_minus_1 by linarith
    with True un show ?thesis by simp
  next
    case False
    then have "unat (a - dst) = Suc (unat (a - dst - 1))" by (intro unat_pred) simp
    moreover have "a - (dst + 1) = a - dst - 1" by (rule diff_diff_eq [symmetric])
    moreover have "src + 1 + (a - (dst + 1)) = src + (a - dst)" by simp
    ultimately show ?thesis using False un by (simp only: fun_upd_apply if_False Suc_less_eq)
  qed
  with Suc.hyps(1) [OF k w, of "src + 1" "um(dst := kmem s src)"] show ?case
    by (subst copy_user.simps) (simp add: n0 t)
qed

lemma zero_user_mapped:
  "(\<And>k. unat i \<le> k \<Longrightarrow> k < unat lim \<Longrightarrow> walk s (p + of_nat k) \<noteq> None) \<Longrightarrow>
    zero_user p i lim s um =
      Some (Inr (s, \<lambda>a. if unat i \<le> unat (a - p) \<and> unat (a - p) < unat lim then 0 else um a))"
proof (induction "unat lim - unat i" arbitrary: i um)
  case 0
  then have "\<not> i < lim" by (simp add: word_less_nat_alt)
  moreover have "\<not> (unat i \<le> unat (a - p) \<and> unat (a - p) < unat lim)" for a using 0 by linarith
  ultimately show ?case by (subst zero_user.simps) (auto simp: fun_eq_iff)
next
  case (Suc k)
  then have lt: "i < lim" by (simp add: word_less_nat_alt)
  then have ui: "unat (i + 1) = unat i + 1" by (rule unat_Suc_below)
  have il: "unat i < unat lim" using lt by (simp add: word_less_nat_alt)
  have t: "touch (p + i) s = Some (Inr s)" using Suc.prems [of "unat i"] il by (simp add: touch_def)
  have "zero_user p (i + 1) lim s (um(p + i := 0)) =
      Some (Inr (s, \<lambda>a. if unat (i + 1) \<le> unat (a - p) \<and> unat (a - p) < unat lim then 0 else (um(p + i := 0)) a))"
    using Suc.hyps(2) Suc.prems ui by (intro Suc.hyps(1)) simp_all
  moreover have "(if unat (i + 1) \<le> unat (a - p) \<and> unat (a - p) < unat lim then 0 else (um(p + i := 0)) a)
      = (if unat i \<le> unat (a - p) \<and> unat (a - p) < unat lim then 0 else um a)" for a
  proof (cases "a = p + i")
    case True
    then show ?thesis using il by simp
  next
    case False
    then have "unat (a - p) \<noteq> unat i" by (metis add_diff_cancel_left' diff_add_cancel add.commute word_unat_eq_iff)
    with False show ?thesis using ui by auto
  qed
  ultimately show ?case by (subst zero_user.simps) (simp add: lt t)
qed

lemma load_segment_mapped:
  assumes "seg_ok ph" "p_type ph = PT_LOAD \<Longrightarrow> seg_mapped s ph"
  shows "load_segment f n ph s um = Some (Inr (Some (), upd_proc n (seg_fields ph) s, seg_image (kmem s) f ph um))"
proof (cases "p_type ph = PT_LOAD")
  case False
  then show ?thesis by (simp add: load_segment_def seg_fields_def seg_image_def upd_proc_def)
next
  case True
  let ?s = "upd_proc n (seg_fields ph) s" and ?v = "p_vaddr ph"
  have rng: "\<not> (?v < USER_OFFSET \<or> ?v + p_memsz ph > USER_STACK)" using assms(1) True by (auto simp: seg_ok_def not_less)
  have w: "walk ?s = walk s" and km: "kmem ?s = kmem s" by (rule walk_cong; simp add: upd_proc_def) (simp add: upd_proc_def)
  have mp: "walk ?s (?v + of_nat k) \<noteq> None" if "k < unat (p_filesz ph) \<or> k < unat (p_memsz ph)" for k
    using assms(2) [OF True] that unfolding w seg_mapped_def by (auto simp: less_max_iff_disj)
  note c = copy_user_mapped [of "p_filesz ph" ?s ?v "f + p_offset ph" um]
  have "load_segment f n ph s um = bind_out (copy_user ?v (f + p_offset ph) (p_filesz ph) ?s um) (\<lambda>(s3, um1).
      if p_memsz ph > p_filesz ph
      then bind_out (zero_user ?v (p_filesz ph) (p_memsz ph) s3 um1) (\<lambda>r. Some (Inr (Some (), r)))
      else Some (Inr (Some (), s3, um1)))"
    using True rng by (simp add: load_segment_def Let_def seg_fields_def upd_proc_def)
  also have "\<dots> = Some (Inr (Some (), ?s, seg_image (kmem s) f ph um))"
    using c mp zero_user_mapped [of "p_filesz ph" "p_memsz ph" ?s ?v] True
    by (auto simp: seg_image_def Let_def km fun_eq_iff word_less_nat_alt)
  finally show ?thesis .
qed

lemma upd_proc_fold: "upd_proc n g (upd_proc n f s) = upd_proc n (\<lambda>p. g (f p)) s"
  by (simp add: upd_proc_def)

lemma load_segments_mapped:
  fixes s :: "'a kstate_scheme"
  assumes tab: "\<And>i. pe \<le> i \<Longrightarrow> i < N \<Longrightarrow> phdr_at m (tab + 32 * of_nat i) = ph i"
    and N: "N = unat (e_phnum m f)" "pe \<le> N" and m: "kmem s = m"
    and ok: "\<And>i. pe \<le> i \<Longrightarrow> i < N \<Longrightarrow> p_type (ph i) = PT_LOAD \<Longrightarrow> seg_ok (ph i) \<Longrightarrow> seg_mapped s (ph i)"
  shows "if list_all seg_ok (map ph [pe..<N])
    then load_segments f tab n pe s um = Some (Inr (e_entry m f, upd_proc n (fold seg_fields (map ph [pe..<N])) s,
      fold (seg_image m f) (map ph [pe..<N]) um))
    else \<exists>g um'. load_segments f tab n pe s um = Some (Inr (0, upd_proc n g s, um'))"
  using assms
proof (induction "N - pe" arbitrary: pe s um)
  case 0
  then show ?case by (subst load_segments.simps) (simp add: upd_proc_def)
next
  case (Suc k)
  then have lt: "pe < N" by simp
  have N16: "N < 65536" unfolding Suc.prems(2) by (rule unat_u16_lt)
  have up: "[pe..<N] = pe # [pe + 1..<N]" using lt by (simp add: upt_conv_Cons)
  have p: "phdr_at m (tab + 32 * of_nat pe) = ph pe" using Suc.prems(1) lt by simp
  have step: "load_segments f tab n pe s um = bind_out (load_segment f n (ph pe) s um) (\<lambda>(r, s1, um1).
      if r = None then Some (Inr (0, s1, um1)) else load_segments f tab n (pe + 1) s1 um1)"
    using lt N16 Suc.prems(2,4) p by (subst load_segments.simps) simp
  show ?case
  proof (cases "seg_ok (ph pe)")
    case False
    then have "load_segment f n (ph pe) s um = Some (Inr (None, s, um))"
      by (auto simp: seg_ok_def load_segment_def Let_def not_le)
    then have "load_segments f tab n pe s um = Some (Inr (0, upd_proc n (\<lambda>p. p) s, um))"
      unfolding step by (simp add: upd_proc_def)
    then show ?thesis using False unfolding up by auto
  next
    case True
    let ?s = "upd_proc n (seg_fields (ph pe)) s" and ?um = "seg_image m f (ph pe) um"
    have w: "walk ?s = walk s" by (rule walk_cong) (simp_all add: upd_proc_def)
    have e: "load_segments f tab n pe s um = load_segments f tab n (pe + 1) ?s ?um"
      unfolding step using load_segment_mapped [OF True, of s f n um] Suc.prems(4,5) lt True by simp
    have "if list_all seg_ok (map ph [pe + 1..<N])
      then load_segments f tab n (pe + 1) ?s ?um = Some (Inr (e_entry m f, upd_proc n (fold seg_fields (map ph [pe + 1..<N])) ?s,
        fold (seg_image m f) (map ph [pe + 1..<N]) ?um))
      else \<exists>g um'. load_segments f tab n (pe + 1) ?s ?um = Some (Inr (0, upd_proc n g ?s, um'))"
    proof (rule Suc.hyps(1))
      show "kmem ?s = m" using Suc.prems(4) by (simp add: upd_proc_def)
      show "seg_mapped ?s (ph i)" if "pe + 1 \<le> i" "i < N" "p_type (ph i) = PT_LOAD" "seg_ok (ph i)" for i
        using Suc.prems(5) [of i] that unfolding seg_mapped_def w by simp
    qed (use Suc.hyps(2) Suc.prems(1-3) lt in auto)
    then show ?thesis
      unfolding e up using True by (auto simp: upd_proc_fold comp_def split: if_splits)
  qed
qed

section \<open>Properties\<close>


definition demo_elf :: "u8 list" where
  "demo_elf = [0x7F, 69, 76, 70] @ replicate 20 0 @ [0x04, 0, 0, 0x40, 52, 0, 0, 0] @ replicate 12 0 @ [1, 0] @ replicate 6 0
     @ [1, 0, 0, 0, 84, 0, 0, 0, 0, 0, 0, 0x40, 0, 0, 0, 0, 2, 0, 0, 0, 3, 0, 0, 0, 5, 0, 0, 0] @ replicate 4 0 @ [0xAA, 0xBB]"


end
