(* ===== verification/Task.thy ===== *)
theory Task
  imports File Elf
begin

text \<open>
  \<open>load_task\<close> of \<^verbatim>\<open>kern/process.c\<close>: a slot of the process table, the arguments copied to the kernel, a page
  directory, the program loaded into it, the arguments on the user stack, the kernel stack, the console and
  the entry of the table (\<open>init_process\<close> of theory \<open>Process\<close>). The arguments lie in the memory \<open>pm\<close> of the caller.
\<close>

section \<open>Arguments\<close>

text \<open>The copy of the arguments: an array of pointers and the strings.\<close>

function copy_strings :: "mem \<Rightarrow> u32 \<Rightarrow> u32 \<Rightarrow> nat \<Rightarrow> nat \<Rightarrow> 'a kheap_state_scheme \<Rightarrow> 'a kheap_state_scheme out" where
  "copy_strings pm argv param i argc s =
     (if i < argc
      then let a = rd32 pm (argv + 4 * of_nat i)
           in Option.bind (strlen pm a) (\<lambda>n.
              bind_out (kmalloc (n + 1) s) (\<lambda>(p, s1).
              let m = wr32 (kmem s1) (param + 4 * of_nat i) p
              in copy_strings pm argv param (i + 1) argc (s1\<lparr>kmem := copy_across pm p a (n + 1) m\<rparr>)))
      else Some (Inr (s\<lparr>kmem := wr32 (kmem s) (param + 4 * of_nat argc) 0\<rparr>)))"
  by pat_completeness auto
termination
  by (relation "measure (\<lambda>(pm, argv, param, i, argc, s). argc - i)") auto

declare copy_strings.simps [simp del]

text \<open>Without arguments the pointer stays uninitialised: \<open>junk\<close>.\<close>

definition copy_params :: "mem \<Rightarrow> u32 \<Rightarrow> nat \<Rightarrow> u32 \<Rightarrow> 'a kheap_state_scheme \<Rightarrow> (u32 \<times> 'a kheap_state_scheme) out" where
  "copy_params pm argv argc junk s =
     (if argc = 0 then Some (Inr (junk, s))
      else bind_out (kmalloc (4 * of_nat (argc + 1)) s) (\<lambda>(param, s1).
           bind_out (copy_strings pm argv param 0 argc s1) (\<lambda>s2. Some (Inr (param, s2)))))"

primrec free_strings :: "u32 \<Rightarrow> nat list \<Rightarrow> 'a kheap_state_scheme \<Rightarrow> 'a kheap_state_scheme out" where
  "free_strings param [] s = Some (Inr s)"
| "free_strings param (i # is) s = bind_out (kfree (rd32 (kmem s) (param + 4 * of_nat i)) s) (free_strings param is)"

definition free_params :: "u32 \<Rightarrow> nat \<Rightarrow> 'a kheap_state_scheme \<Rightarrow> 'a kheap_state_scheme out" where
  "free_params param argc s = bind_out (free_strings param [0..<argc] s) (kfree param)"

section \<open>The user stack\<close>

text \<open>The strings go to the stack one below the other; their addresses are kept in \<open>uparam\<close>.\<close>

function push_strings ::
    "u32 \<Rightarrow> u32 \<Rightarrow> nat \<Rightarrow> nat \<Rightarrow> u32 \<Rightarrow> 'a kstate_scheme \<Rightarrow> mem \<Rightarrow> (u32 \<times> 'a kstate_scheme \<times> mem) out" where
  "push_strings param uparam i argc stackp s um =
     (if i < argc
      then let p = rd32 (kmem s) (param + 4 * of_nat i)
           in Option.bind (strlen (kmem s) p) (\<lambda>n.
              let sp = stackp - (n + 1)
              in bind_out (copy_user sp p (n + 1) s um) (\<lambda>(s1, um1).
                 push_strings param uparam (i + 1) argc sp (s1\<lparr>kmem := wr32 (kmem s1) (uparam + 4 * of_nat i) sp\<rparr>) um1))
      else Some (Inr (stackp, s, um)))"
  by pat_completeness auto
termination
  by (relation "measure (\<lambda>(param, uparam, i, argc, stackp, s, um). argc - i)") auto

declare push_strings.simps [simp del]

definition push_word :: "u32 \<Rightarrow> u32 \<times> 'a kstate_scheme \<times> mem \<Rightarrow> (u32 \<times> 'a kstate_scheme \<times> mem) out" where
  "push_word w = (\<lambda>(stackp, s, um).
     bind_out (touch (stackp - 4) s) (\<lambda>s1. Some (Inr (stackp - 4, s1, wr32 um (stackp - 4) w))))"

text \<open>The array of arguments, from the last to the first.\<close>

primrec push_argv :: "u32 \<Rightarrow> nat \<Rightarrow> u32 \<times> 'a kstate_scheme \<times> mem \<Rightarrow> (u32 \<times> 'a kstate_scheme \<times> mem) out" where
  "push_argv uparam 0 r = Some (Inr r)"
| "push_argv uparam (Suc i) r =
     bind_out (push_word (rd32 (kmem (fst (snd r))) (uparam + 4 * of_nat i)) r) (push_argv uparam i)"

text \<open>Everything that goes to the stack: the strings, the alignment, the array with its end, its address and
  the number of arguments; \<open>main\<close> finds a word for a return address below them.\<close>

definition push_main :: "u32 \<Rightarrow> u32 \<Rightarrow> nat \<Rightarrow> u32 \<Rightarrow> 'a kstate_scheme \<Rightarrow> mem \<Rightarrow> (u32 \<times> 'a kstate_scheme \<times> mem) out" where
  "push_main param uparam argc stackp s um =
     bind_out (push_strings param uparam 0 argc stackp s um) (\<lambda>(sp, s1, um1).
     bind_out (push_word 0 (sp AND 0xFFFFFFF0, s1, um1)) (\<lambda>r2.
     bind_out (push_argv uparam argc r2) (\<lambda>r3.
     bind_out (push_word (fst r3) r3) (\<lambda>r4.
     bind_out (push_word (of_nat argc) r4) (\<lambda>(sp5, s5, um5).
     Some (Inr (sp5 - 4, s5, um5)))))))"

definition user_stack :: "u32 \<Rightarrow> nat \<Rightarrow> 'a kstate_scheme \<Rightarrow> mem \<Rightarrow> (u32 \<times> 'a kstate_scheme \<times> mem) out" where
  "user_stack param argc s um =
     (let stackp = USER_STACK - 16
      in if argc = 0 then Some (Inr (stackp, s, um))
         else bind_out (kmalloc (4 * of_nat argc) s) (\<lambda>(uparam, s1).
              bind_out (push_main param uparam argc stackp s1 um) (\<lambda>(sp, s2, um2).
              bind_out (free_params param argc s2) (\<lambda>s3.
              bind_out (kfree uparam s3) (\<lambda>s4. Some (Inr (sp, s4, um2)))))))"

section \<open>Loading\<close>

definition new_console :: "'a tty_state_scheme \<Rightarrow> (u32 \<times> 'a tty_state_scheme) out" where
  "new_console s =
     bind_out (kmalloc 4112 s) (\<lambda>(c, s1).
     Some (Inr (c, s1\<lparr>vcons := (vcons s1)(c := (vcons s1 c)\<lparr>v_term := current_term s1, inlock := 0, keypos := 0, vmode := 1\<rparr>)\<rparr>)))"

text \<open>Back to the address space of the caller.\<close>

definition back_to :: "nat \<Rightarrow> 'a kstate_scheme \<Rightarrow> 'a kstate_scheme" where
  "back_to previous s = s\<lparr>current := previous, cr3 := r_cr3 (regs (p_list s previous))\<rparr>"

text \<open>\<open>load_task\<close>: the pid, or 0. \<open>um\<close> is what the frames of the new process hold.\<close>

definition load_task ::
    "drive_io \<Rightarrow> disk \<Rightarrow> u32 \<Rightarrow> nat \<Rightarrow> mem \<Rightarrow> u32 \<Rightarrow> u32 \<Rightarrow> mem \<Rightarrow> 'a tty_state_scheme \<Rightarrow> (nat \<times> 'a tty_state_scheme \<times> mem) out" where
  "load_task io dk inode argc pm argv junk um s =
     bind_out (Some (find_slot (\<lambda>i. pstate (p_list s i)) 1)) (\<lambda>n.
     bind_out (copy_params pm argv argc junk (upd_proc n (\<lambda>p. p\<lparr>pid := int n\<rparr>) (s\<lparr>n_proc := n_proc s + 1\<rparr>))) (\<lambda>(param, s1).
     bind_out (pd_create s1) (\<lambda>(dir, s2).
     let previous = current s2;
         dirp = pg_p_addr s2 (pd_base s2 dir);
         s3 = (upd_proc n (\<lambda>p. p\<lparr>pd := dir, pglist := []\<rparr>) s2)\<lparr>current := n, cr3 := dirp\<rparr>
     in bind_out (ext2_read_file io dk inode s3) (\<lambda>(f, s4).
        bind_out (load_elf f n s4 um) (\<lambda>(entry, s5, um5).
        bind_out (kfree f s5) (\<lambda>s6.
        if entry = 0
        then bind_out (free_params param argc s6) (\<lambda>s7.
             bind_out (pd_destroy (pd (p_list s7 n)) (back_to previous s7)) (\<lambda>(_, s8). Some (Inr (0, s8, um5))))
        else bind_out (user_stack param argc s6 um5) (\<lambda>(stackp, s7, um7).
             bind_out (get_page_from_heap s7) (\<lambda>(kstack, s8).
             bind_out (new_console s8) (\<lambda>(cons, s9).
             Some (Inr (n, back_to previous (init_process n previous entry stackp (pg_v_addr s9 kstack)
                (pg_p_addr s9 (pd_base s9 (pd (p_list s9 n)))) cons s9), um7)))))))))))"

section \<open>Executing a file\<close>

text \<open>The count of the arguments of \<open>sys_exec\<close>, up to a null pointer.\<close>

partial_function (option) count_args :: "mem \<Rightarrow> u32 \<Rightarrow> nat \<Rightarrow> nat option" where
  "count_args pm ap argc = (if rd32 pm ap \<noteq> 0 then count_args pm (ap + 4) (argc + 1) else Some argc)"

definition sys_exec ::
    "drive_io \<Rightarrow> mem \<Rightarrow> u32 \<Rightarrow> u32 \<Rightarrow> u32 \<Rightarrow> mem \<Rightarrow> 'a fs_state_scheme \<Rightarrow> (u32 \<times> 'a fs_state_scheme \<times> mem) out" where
  "sys_exec io pm path argv junk um s =
     bind_out (path_to_file io pm path s) (\<lambda>(fp, s1).
     if fp = 0 then Some (Inr (- 1, s1, um))
     else bind_out (load_inode io fp s1) (\<lambda>s2.
          Option.bind (count_args pm argv 0) (\<lambda>argc.
          bind_out (load_task io (f_disk s2 fp) (f_inode s2 fp) argc pm argv junk um s2) (\<lambda>(n, s3, um3).
          Some (Inr (of_nat n, s3, um3))))))"

section \<open>What \<open>main\<close> finds on its stack\<close>

lemma agree_outside_widen: "agree_outside b c m m' \<Longrightarrow> b' \<le> b \<Longrightarrow> c \<le> c' \<Longrightarrow> agree_outside b' c' m m'"
  unfolding agree_outside_def by auto

lemma agree_outside_cstr:
  assumes "agree_outside b c m m'" "x + length xs < b \<or> c \<le> x" "x + length xs < 2 ^ 32" "cstr m (of_nat x) xs"
  shows "cstr m' (of_nat x) xs"
proof -
  have "m (of_nat x + of_nat i) = m' (of_nat x + of_nat i)" if "i \<le> length xs" for i
  proof -
    have "m' (of_nat (x + i)) = m (of_nat (x + i))"
      using assms(1-3) that unfolding agree_outside_def by (elim allE [of _ "x + i"]) auto
    then show ?thesis by simp
  qed
  then show ?thesis using assms(4) cstr_cong [of xs m "of_nat x" m'] by blast
qed

lemma wr32_agree:
  assumes "x + 4 \<le> 2 ^ 32"
  shows "agree_outside x (x + 4) m (wr32 m (of_nat x) w)"
  unfolding agree_outside_def
proof (intro allI impI)
  fix y :: nat assume y: "y < 2 ^ 32" "y < x \<or> x + 4 \<le> y"
  have "of_nat y \<noteq> (of_nat (x + i) :: u32)" if "i < 4" for i
  proof
    assume "of_nat y = (of_nat (x + i) :: u32)"
    then have "unat (of_nat y :: u32) = unat (of_nat (x + i) :: u32)" by simp
    then show False using y that assms by (simp add: unat_of_nat_u32 del: of_nat_add)
  qed
  from this [of 0] this [of 1] this [of 2] this [of 3] show "wr32 m (of_nat x) w (of_nat y) = m (of_nat y)"
    by (simp add: wr32_def add.commute)
qed

text \<open>The stack from \<open>lo\<close> to \<open>hi\<close> is mapped.\<close>

definition stack_mapped :: "'a mmu_state_scheme \<Rightarrow> nat \<Rightarrow> nat \<Rightarrow> bool" where
  "stack_mapped s lo hi \<longleftrightarrow> (\<forall>x. lo \<le> x \<and> x < hi \<longrightarrow> walk s (of_nat x) \<noteq> None)"

lemma stack_mappedD: "stack_mapped s lo hi \<Longrightarrow> lo \<le> x \<Longrightarrow> x < hi \<Longrightarrow> walk s (of_nat x) \<noteq> None"
  unfolding stack_mapped_def by blast

lemma stack_mapped_kmem [simp]: "stack_mapped (s\<lparr>kmem := m\<rparr>) lo hi = stack_mapped s lo hi"
proof -
  have "walk (s\<lparr>kmem := m\<rparr>) = walk s" by (rule walk_cong) simp_all
  then show ?thesis by (simp add: stack_mapped_def)
qed

lemma push_word_mapped:
  assumes "stack_mapped s lo hi" "lo \<le> x" "x < hi"
  shows "push_word w (of_nat (x + 4), s, um) = Some (Inr (of_nat x, s, wr32 um (of_nat x) w))"
proof -
  have "of_nat (x + 4) - 4 = (of_nat x :: u32)" by simp
  moreover have "walk s (of_nat x) \<noteq> None" using assms by (simp add: stack_mapped_def)
  ultimately show ?thesis by (simp add: push_word_def touch_def)
qed

lemma push_argv_mapped:
  assumes "stack_mapped s lo hi" "lo \<le> x" "x + 4 * n \<le> hi" "hi < 2 ^ 32"
  shows "\<exists>um'. push_argv uparam n (of_nat (x + 4 * n), s, um) = Some (Inr (of_nat x, s, um'))
    \<and> agree_outside x (x + 4 * n) um um'
    \<and> (\<forall>i < n. rd32 um' (of_nat (x + 4 * i)) = rd32 (kmem s) (uparam + 4 * of_nat i))"
  using assms(3)
proof (induction n arbitrary: um)
  case (Suc n)
  let ?w = "rd32 (kmem s) (uparam + 4 * of_nat n)" and ?y = "x + 4 * n"
  let ?um = "wr32 um (of_nat ?y) ?w"
  have y: "x + 4 * Suc n = ?y + 4" by simp
  have p: "push_word ?w (of_nat (?y + 4), s, um) = Some (Inr (of_nat ?y, s, ?um))"
    by (rule push_word_mapped [OF assms(1)]) (use Suc.prems assms(2) in simp_all)
  have "x + 4 * n \<le> hi" using Suc.prems by simp
  from Suc.IH [OF this, of ?um] obtain um' where
    u: "push_argv uparam n (of_nat ?y, s, ?um) = Some (Inr (of_nat x, s, um'))" "agree_outside x ?y ?um um'"
      "\<And>i. i < n \<Longrightarrow> rd32 um' (of_nat (x + 4 * i)) = rd32 (kmem s) (uparam + 4 * of_nat i)" by blast
  have "agree_outside ?y (?y + 4) um ?um" using Suc.prems assms(4) by (intro wr32_agree) simp
  then have ag: "agree_outside x (x + 4 * Suc n) um um'"
    by (intro agree_outside_trans [OF agree_outside_widen agree_outside_widen [OF u(2)]]) auto
  have "rd32 um' (of_nat (x + 4 * i)) = rd32 (kmem s) (uparam + 4 * of_nat i)" if "i < Suc n" for i
  proof (cases "i = n")
    case True
    have "rd32 um' (of_nat ?y) = rd32 ?um (of_nat ?y)"
      by (rule agree_outside_rd32 [OF u(2)]) (use Suc.prems assms(4) in simp_all)
    then show ?thesis unfolding True by (simp only: rd32_wr32_same)
  next
    case False
    with that u(3) show ?thesis by simp
  qed
  moreover have "push_argv uparam (Suc n) (of_nat (?y + 4), s, um) = Some (Inr (of_nat x, s, um'))"
    unfolding push_argv.simps fst_conv snd_conv p bind_out_simps by (rule u(1))
  ultimately show ?case using ag unfolding y by blast
qed simp

text \<open>The addresses of the strings: one below the other, below \<open>x\<close>.\<close>

primrec below :: "u8 list list \<Rightarrow> nat" where
  "below [] = 0"
| "below (xs # xss) = length xs + 1 + below xss"

lemma below_append: "below (xss @ yss) = below xss + below yss"
  by (induction xss) auto

definition str_addr :: "nat \<Rightarrow> u8 list list \<Rightarrow> nat \<Rightarrow> nat" where
  "str_addr x xss i = x - below (take (i + 1) xss)"

lemma below_take: "below (take i xss) \<le> below xss"
  using below_append [of "take i xss" "drop i xss"] by simp

lemma copy_user_string:
  fixes s :: "'a kstate_scheme"
  assumes "stack_mapped s lo hi" "lo \<le> y" "y + (length xs + 1) \<le> hi" "hi < 2 ^ 32" "cstr (kmem s) p xs"
  shows "\<exists>um'. copy_user (of_nat y) p (of_nat (length xs + 1)) s um = Some (Inr (s, um'))
    \<and> agree_outside y (y + (length xs + 1)) um um' \<and> cstr um' (of_nat y) xs"
proof -
  let ?n = "length xs + 1"
  have n: "unat (of_nat ?n :: u32) = ?n" using assms(3,4) by (intro unat_of_nat_u32) simp
  let ?um = "\<lambda>a. if unat (a - of_nat y) < ?n then kmem s (p + (a - of_nat y)) else um a"
  have "walk s (of_nat y + of_nat k) \<noteq> None" if "k < ?n" for k
  proof -
    have "walk s (of_nat (y + k)) \<noteq> None" by (rule stack_mappedD [OF assms(1)]) (use assms(2,3) that in simp_all)
    then show ?thesis by (simp only: of_nat_add not_False_eq_True)
  qed
  then have r: "copy_user (of_nat y) p (of_nat ?n) s um = Some (Inr (s, ?um))"
    using copy_user_mapped [of "of_nat ?n" s "of_nat y" p um] unfolding n by blast
  have o: "unat (of_nat z - of_nat y :: u32) < ?n \<longleftrightarrow> y \<le> z \<and> z < y + ?n" if "z < 2 ^ 32" for z
    using in_block_nat [of y ?n z] that assms(3,4) by (simp add: in_block_def)
  have "agree_outside y (y + ?n) um ?um" unfolding agree_outside_def using o by auto
  moreover have "cstr ?um (of_nat y) xs"
  proof -
    have "?um (of_nat y + of_nat i) = kmem s (p + of_nat i)" if "i \<le> length xs" for i
    proof -
      have "unat (of_nat i :: u32) = i" using that assms(3,4) by (intro unat_of_nat_u32) simp
      then show ?thesis using that by simp
    qed
    then have "cstr ?um (of_nat y) xs = cstr (\<lambda>a. kmem s (p + (a - of_nat y))) (of_nat y) xs" by (intro cstr_cong) simp
    moreover have "cstr (\<lambda>a. kmem s (p + (a - of_nat y))) (of_nat y) xs"
      using cstr_nth [OF assms(5)] cstr_end [OF assms(5)] by (intro cstrI) simp_all
    ultimately show ?thesis by simp
  qed
  ultimately show ?thesis using r by blast
qed

lemma push_strings_mapped:
  fixes s :: "'a kstate_scheme"
  assumes "stack_mapped s lo hi" "hi < 2 ^ 32" "ua + 4 * argc \<le> 2 ^ 32" "length xss = argc - i" "i \<le> argc"
    and "lo + below xss \<le> x" "x \<le> hi"
    and strs: "\<And>j m. j < length xss \<Longrightarrow> agree_outside ua (ua + 4 * argc) (kmem s) m \<Longrightarrow>
      rd32 m (param + 4 * of_nat (i + j)) = p j \<and> cstr m (p j) (xss ! j)"
  shows "\<exists>m um'. push_strings param (of_nat ua) i argc (of_nat x) s um = Some (Inr (of_nat (x - below xss), s\<lparr>kmem := m\<rparr>, um'))
    \<and> agree_outside (ua + 4 * i) (ua + 4 * argc) (kmem s) m \<and> agree_outside (x - below xss) x um um'
    \<and> (\<forall>j < length xss. rd32 m (of_nat (ua + 4 * (i + j))) = of_nat (str_addr x xss j)
          \<and> cstr um' (of_nat (str_addr x xss j)) (xss ! j))"
  using assms(1,4-8)
proof (induction xss arbitrary: i x s um p)
  case Nil
  then have "push_strings param (of_nat ua) i argc (of_nat x) s um = Some (Inr (of_nat x, s\<lparr>kmem := kmem s\<rparr>, um))"
    by (subst push_strings.simps) simp
  then show ?case by (intro exI [of _ "kmem s"] exI [of _ um]) simp
next
  case (Cons xs xss)
  let ?y = "x - (length xs + 1)" and ?n = "of_nat (length xs + 1) :: u32"
  have lt: "i < argc" and len: "length xss = argc - (i + 1)" using Cons.prems by simp_all
  have p0: "rd32 (kmem s) (param + 4 * of_nat i) = p 0" "cstr (kmem s) (p 0) xs"
    using Cons.prems(6) [of 0 "kmem s"] by simp_all
  have sl: "strlen (kmem s) (p 0) = Some (of_nat (length xs))" by (rule strlen_cstr [OF p0(2)])
  have yx: "of_nat x - ?n = (of_nat ?y :: u32)" "?y + (length xs + 1) = x" using Cons.prems(4) by simp_all
  have b: "lo \<le> ?y" "?y + (length xs + 1) \<le> hi" using Cons.prems(4,5) by simp_all
  from copy_user_string [OF Cons.prems(1) b assms(2) p0(2), of um] obtain um1 where u1: "copy_user (of_nat ?y) (p 0) ?n s um = Some (Inr (s, um1))" "agree_outside ?y x um um1" "cstr um1 (of_nat ?y) xs" unfolding yx(2) by blast
  let ?m = "wr32 (kmem s) (of_nat (ua + 4 * i)) (of_nat ?y)"
  have ag: "agree_outside (ua + 4 * i) (ua + 4 * i + 4) (kmem s) ?m" using lt assms(3) by (intro wr32_agree) simp
  have step: "push_strings param (of_nat ua) i argc (of_nat x) s um =
      push_strings param (of_nat ua) (i + 1) argc (of_nat ?y) (s\<lparr>kmem := ?m\<rparr>) um1"
    using lt sl p0(1) u1(1) yx(1) by (subst push_strings.simps) (simp add: Let_def add.commute [of "of_nat (length xs)" 1])
  have "\<exists>m um'. push_strings param (of_nat ua) (i + 1) argc (of_nat ?y) (s\<lparr>kmem := ?m\<rparr>) um1
        = Some (Inr (of_nat (?y - below xss), s\<lparr>kmem := ?m\<rparr>\<lparr>kmem := m\<rparr>, um'))
    \<and> agree_outside (ua + 4 * (i + 1)) (ua + 4 * argc) (kmem (s\<lparr>kmem := ?m\<rparr>)) m \<and> agree_outside (?y - below xss) ?y um1 um'
    \<and> (\<forall>j < length xss. rd32 m (of_nat (ua + 4 * (i + 1 + j))) = of_nat (str_addr ?y xss j)
          \<and> cstr um' (of_nat (str_addr ?y xss j)) (xss ! j))"
  proof (rule Cons.IH)
    show "rd32 m (param + 4 * of_nat (i + 1 + j)) = p (Suc j) \<and> cstr m (p (Suc j)) (xss ! j)"
      if "j < length xss" "agree_outside ua (ua + 4 * argc) (kmem (s\<lparr>kmem := ?m\<rparr>)) m" for j m
    proof -
      have "agree_outside ua (ua + 4 * argc) (kmem s) ?m" by (rule agree_outside_widen [OF ag]) (use lt in auto)
      with that(2) have "agree_outside ua (ua + 4 * argc) (kmem s) m" by (auto intro: agree_outside_trans)
      from Cons.prems(6) [OF _ this, of "Suc j"] that(1) show ?thesis by simp
    qed
  qed (use Cons.prems(1,4,5) lt len in simp_all)
  then obtain m um' where r: "push_strings param (of_nat ua) (i + 1) argc (of_nat ?y) (s\<lparr>kmem := ?m\<rparr>) um1
        = Some (Inr (of_nat (?y - below xss), s\<lparr>kmem := m\<rparr>, um'))"
    "agree_outside (ua + 4 * (i + 1)) (ua + 4 * argc) ?m m" "agree_outside (?y - below xss) ?y um1 um'"
    "\<And>j. j < length xss \<Longrightarrow> rd32 m (of_nat (ua + 4 * (i + 1 + j))) = of_nat (str_addr ?y xss j)
          \<and> cstr um' (of_nat (str_addr ?y xss j)) (xss ! j)" by auto
  have e: "?y - below xss = x - below (xs # xss)" by simp
  have m1: "agree_outside (ua + 4 * i) (ua + 4 * argc) (kmem s) m"
    by (rule agree_outside_trans [OF agree_outside_widen [OF ag] agree_outside_widen [OF r(2)]]) (use lt in auto)
  have um1: "agree_outside (x - below (xs # xss)) x um um'"
    by (rule agree_outside_trans [OF agree_outside_widen [OF u1(2)] agree_outside_widen [OF r(3)]]) auto
  have "rd32 m (of_nat (ua + 4 * (i + j))) = of_nat (str_addr x (xs # xss) j)
      \<and> cstr um' (of_nat (str_addr x (xs # xss) j)) ((xs # xss) ! j)" if "j < length (xs # xss)" for j
  proof (cases j)
    case 0
    have "rd32 m (of_nat (ua + 4 * i)) = rd32 ?m (of_nat (ua + 4 * i))"
      by (rule agree_outside_rd32 [OF r(2)]) (use lt assms(3) in auto)
    moreover have "cstr um' (of_nat ?y) xs"
      by (rule agree_outside_cstr [OF r(3) _ _ u1(3)]) (use yx(2) Cons.prems(5) assms(2) in auto)
    ultimately show ?thesis by (simp add: 0 str_addr_def)
  next
    case (Suc l)
    with r(4) [of l] that show ?thesis by (simp add: str_addr_def)
  qed
  with step r(1) m1 um1 show ?case unfolding e by auto
qed

lemma and_mask16:
  assumes "x < 2 ^ 32"
  shows "of_nat x AND (0xFFFFFFF0 :: u32) = of_nat (16 * (x div 16))"
proof -
  have "(of_nat x :: u32) AND 0xFFFFFFF0 = push_bit 4 (drop_bit 4 (of_nat x))"
  proof (rule bit_word_eqI)
    fix n assume "n < LENGTH(32)"
    have e: "(0xFFFFFFF0 :: u32) = NOT (mask 4)" by (simp add: mask_eq_exp_minus_1)
    show "bit ((of_nat x :: u32) AND 0xFFFFFFF0) n = bit (push_bit 4 (drop_bit 4 (of_nat x)) :: u32) n"
      unfolding e using \<open>n < LENGTH(32)\<close> by (auto simp: bit_simps)
  qed
  also have "\<dots> = of_nat (16 * (x div 16))"
    using assms by (simp add: drop_bit_eq_div push_bit_eq_mult of_nat_div unat_of_nat_u32 word_unat_eq_iff unat_div unat_word_ariths)
  finally show ?thesis .
qed

text \<open>The words below the strings.\<close>

lemma push_words_mapped:
  fixes s :: "'a kstate_scheme"
  assumes mp: "stack_mapped s lo hi" "hi < 2 ^ 32" "lo \<le> sp" "sp + 16 + 4 * argc \<le> hi"
  shows "\<exists>um'. bind_out (push_word 0 (of_nat (sp + 16 + 4 * argc), s, um)) (\<lambda>r2. bind_out (push_argv uparam argc r2) (\<lambda>r3.
      bind_out (push_word (fst r3) r3) (push_word (of_nat argc)))) = Some (Inr (of_nat (sp + 4), s, um'))
    \<and> agree_outside (sp + 4) (sp + 16 + 4 * argc) um um'
    \<and> rd32 um' (of_nat (sp + 4)) = of_nat argc \<and> rd32 um' (of_nat (sp + 8)) = of_nat (sp + 12)
    \<and> (\<forall>j < argc. rd32 um' (of_nat (sp + 12 + 4 * j)) = rd32 (kmem s) (uparam + 4 * of_nat j))
    \<and> rd32 um' (of_nat (sp + 12 + 4 * argc)) = 0"
proof -
  let ?z = "sp + 12 + 4 * argc"
  let ?u1 = "wr32 um (of_nat ?z) 0"
  have p1: "push_word 0 (of_nat (?z + 4), s, um) = Some (Inr (of_nat ?z, s, ?u1))"
    by (rule push_word_mapped [OF mp(1)]) (use mp(3,4) in simp_all)
  have "lo \<le> sp + 12" "sp + 12 + 4 * argc \<le> hi" using mp(3,4) by simp_all
  from push_argv_mapped [OF mp(1) this mp(2), of uparam ?u1] obtain u2 where
    p2: "push_argv uparam argc (of_nat ?z, s, ?u1) = Some (Inr (of_nat (sp + 12), s, u2))" "agree_outside (sp + 12) ?z ?u1 u2"
      "\<And>j. j < argc \<Longrightarrow> rd32 u2 (of_nat (sp + 12 + 4 * j)) = rd32 (kmem s) (uparam + 4 * of_nat j)" by blast
  let ?u3 = "wr32 u2 (of_nat (sp + 8)) (of_nat (sp + 12))"
  let ?u4 = "wr32 ?u3 (of_nat (sp + 4)) (of_nat argc)"
  have p3: "push_word (of_nat (sp + 12)) (of_nat (sp + 8 + 4), s, u2) = Some (Inr (of_nat (sp + 8), s, ?u3))"
    by (rule push_word_mapped [OF mp(1)]) (use mp(3,4) in simp_all)
  have p4: "push_word (of_nat argc) (of_nat (sp + 4 + 4), s, ?u3) = Some (Inr (of_nat (sp + 4), s, ?u4))"
    by (rule push_word_mapped [OF mp(1)]) (use mp(3,4) in simp_all)
  have sums: "sp + 16 + 4 * argc = ?z + 4" "sp + 8 + 4 = sp + 12" "sp + 4 + 4 = sp + 8" by simp_all
  have run: "bind_out (push_word 0 (of_nat (sp + 16 + 4 * argc), s, um)) (\<lambda>r2. bind_out (push_argv uparam argc r2) (\<lambda>r3.
      bind_out (push_word (fst r3) r3) (push_word (of_nat argc)))) = Some (Inr (of_nat (sp + 4), s, ?u4))"
    unfolding sums(1) p1 bind_out_simps p2(1) fst_conv p3 [unfolded sums(2)] by (rule p4 [unfolded sums(3)])
  have a1: "agree_outside ?z (?z + 4) um ?u1" and a3: "agree_outside (sp + 8) (sp + 8 + 4) u2 ?u3"
    and a4: "agree_outside (sp + 4) (sp + 4 + 4) ?u3 ?u4" using mp(2,4) by (intro wr32_agree; simp)+
  have ag: "agree_outside (sp + 4) (sp + 16 + 4 * argc) um ?u4"
    by (rule agree_outside_trans [OF agree_outside_widen [OF a1] agree_outside_trans [OF agree_outside_widen [OF p2(2)]
          agree_outside_trans [OF agree_outside_widen [OF a3] agree_outside_widen [OF a4]]]]) auto
  have old: "rd32 ?u4 (of_nat y) = rd32 u2 (of_nat y)" if "sp + 12 \<le> y" "y + 4 \<le> 2 ^ 32" for y
    using agree_outside_rd32 [OF a4, of y] agree_outside_rd32 [OF a3, of y] that by simp
  have "rd32 ?u4 (of_nat (sp + 8)) = of_nat (sp + 12)"
    by (subst agree_outside_rd32 [OF a4]) (use mp(2,4) in \<open>simp_all del: of_nat_add\<close>)
  moreover have "rd32 ?u4 (of_nat ?z) = 0"
    using old [of ?z] agree_outside_rd32 [OF p2(2), of ?z] mp(2,4) by (simp del: of_nat_add)
  moreover have "rd32 ?u4 (of_nat (sp + 12 + 4 * j)) = rd32 (kmem s) (uparam + 4 * of_nat j)" if "j < argc" for j
    using old [of "sp + 12 + 4 * j"] p2(3) [OF that] that mp(2,4) by (simp del: of_nat_add of_nat_mult)
  ultimately show ?thesis using run ag by (intro exI [of _ ?u4]) (simp del: of_nat_add of_nat_mult)
qed

lemma bind_out_assoc: "bind_out (bind_out r f) g = bind_out r (\<lambda>x. bind_out (f x) g)"
  by (auto simp: bind_out_def split: option.split sum.split)

lemma push_main_words:
  "push_main param uparam argc stackp s um =
     bind_out (push_strings param uparam 0 argc stackp s um) (\<lambda>(sp, s1, um1).
     bind_out (bind_out (push_word 0 (sp AND 0xFFFFFFF0, s1, um1)) (\<lambda>r2. bind_out (push_argv uparam argc r2) (\<lambda>r3.
       bind_out (push_word (fst r3) r3) (push_word (of_nat argc))))) (\<lambda>(sp5, s5, um5). Some (Inr (sp5 - 4, s5, um5))))"
  unfolding push_main_def bind_out_assoc ..

section \<open>Properties\<close>

text \<open>C14. The stack that a new program starts on, with its arguments \<open>xss\<close>: above the stack pointer, which is a
  multiple of 4, lie the number of arguments, the address of the array behind it, the array, whose entries
  point to the terminated arguments, and the null pointer that ends it. User memory changes only on the
  stack between the new and the old stack pointer and kernel memory only in the buffer \<open>uparam\<close>. The
  copies of the arguments lie outside of that buffer, and the stack is mapped down to \<open>lo\<close>.\<close>

theorem main_arguments:
  fixes s :: "'a kstate_scheme"
  assumes "stack_mapped s lo x" "x < 2 ^ 32" "argc = length xss" "lo + below xss + 32 + 4 * argc \<le> x"
    and "ua + 4 * argc \<le> 2 ^ 32" "pa + 4 * argc \<le> 2 ^ 32" "pa + 4 * argc \<le> ua \<or> ua + 4 * argc \<le> pa"
    and "\<forall>j < argc. rd32 (kmem s) (of_nat (pa + 4 * j)) = of_nat (q j) \<and> cstr (kmem s) (of_nat (q j)) (xss ! j)
      \<and> q j + length (xss ! j) < 2 ^ 32 \<and> (q j + length (xss ! j) < ua \<or> ua + 4 * argc \<le> q j)"
  shows "\<exists>sp m um'. push_main (of_nat pa) (of_nat ua) argc (of_nat x) s um = Some (Inr (of_nat sp, s\<lparr>kmem := m\<rparr>, um'))
    \<and> sp mod 4 = 0 \<and> lo \<le> sp
    \<and> rd32 um' (of_nat (sp + 4)) = of_nat argc \<and> rd32 um' (of_nat (sp + 8)) = of_nat (sp + 12)
    \<and> (\<forall>j < argc. cstr um' (rd32 um' (of_nat (sp + 12 + 4 * j))) (xss ! j))
    \<and> rd32 um' (of_nat (sp + 12 + 4 * argc)) = 0
    \<and> agree_outside sp x um um' \<and> agree_outside ua (ua + 4 * argc) (kmem s) m"
proof -
  have strs: "rd32 m (of_nat pa + 4 * of_nat (0 + j)) = of_nat (q j) \<and> cstr m (of_nat (q j)) (xss ! j)"
    if "j < length xss" "agree_outside ua (ua + 4 * argc) (kmem s) m" for j m
  proof -
    have j: "j < argc" using that(1) assms(3) by simp
    have "rd32 m (of_nat (pa + 4 * j)) = rd32 (kmem s) (of_nat (pa + 4 * j))"
      by (rule agree_outside_rd32 [OF that(2)]) (use assms(6,7) j in auto)
    moreover have "cstr m (of_nat (q j)) (xss ! j)" using assms(8) j by (intro agree_outside_cstr [OF that(2)]) auto
    ultimately show ?thesis using assms(8) j by simp
  qed
  let ?z = "x - below xss"
  have "lo + below xss \<le> x" using assms(4) by simp
  from push_strings_mapped [OF assms(1,2,5) _ le0 this order_refl strs] assms(3) obtain m u1 where
    r: "push_strings (of_nat pa) (of_nat ua) 0 argc (of_nat x) s um = Some (Inr (of_nat ?z, s\<lparr>kmem := m\<rparr>, u1))"
    "agree_outside ua (ua + 4 * argc) (kmem s) m" "agree_outside ?z x um u1"
    "\<And>j. j < argc \<Longrightarrow> rd32 m (of_nat (ua + 4 * j)) = of_nat (str_addr x xss j) \<and> cstr u1 (of_nat (str_addr x xss j)) (xss ! j)"
    by (simp del: of_nat_add of_nat_mult) blast
  define sp where "sp = 16 * (?z div 16) - (16 + 4 * argc)"
  have z: "16 * (?z div 16) = sp + 16 + 4 * argc" "lo \<le> sp" "sp + 16 + 4 * argc \<le> ?z"
    using assms(4) div_mult_mod_eq [of ?z 16] mod_less_divisor [of 16 ?z] unfolding sp_def by auto
  have "sp = 4 * (4 * (?z div 16) - (4 + argc))" unfolding sp_def by (simp add: diff_mult_distrib2)
  then have sp4: "sp mod 4 = 0" by simp
  have al: "of_nat ?z AND (0xFFFFFFF0 :: u32) = of_nat (sp + 16 + 4 * argc)"
    unfolding z(1) [symmetric] using assms(2) by (intro and_mask16) simp
  have "stack_mapped (s\<lparr>kmem := m\<rparr>) lo x" using assms(1) by simp
  moreover have "sp + 16 + 4 * argc \<le> x" using z(3) by simp
  ultimately obtain u2 where w: "bind_out (push_word 0 (of_nat (sp + 16 + 4 * argc), s\<lparr>kmem := m\<rparr>, u1)) (\<lambda>r2.
      bind_out (push_argv (of_nat ua) argc r2) (\<lambda>r3. bind_out (push_word (fst r3) r3) (push_word (of_nat argc))))
        = Some (Inr (of_nat (sp + 4), s\<lparr>kmem := m\<rparr>, u2))"
    "agree_outside (sp + 4) (sp + 16 + 4 * argc) u1 u2"
    "rd32 u2 (of_nat (sp + 4)) = of_nat argc" "rd32 u2 (of_nat (sp + 8)) = of_nat (sp + 12)"
    "\<And>j. j < argc \<Longrightarrow> rd32 u2 (of_nat (sp + 12 + 4 * j)) = rd32 m (of_nat ua + 4 * of_nat j)"
    "rd32 u2 (of_nat (sp + 12 + 4 * argc)) = 0"
    using push_words_mapped [of "s\<lparr>kmem := m\<rparr>" lo x sp argc u1 "of_nat ua"] assms(2) z(2) by auto
  have "push_main (of_nat pa) (of_nat ua) argc (of_nat x) s um = Some (Inr (of_nat (sp + 4) - 4, s\<lparr>kmem := m\<rparr>, u2))"
    unfolding push_main_words r(1) bind_out_simps case_prod_conv al w(1) ..
  moreover have "of_nat (sp + 4) - 4 = (of_nat sp :: u32)" by simp
  ultimately have "push_main (of_nat pa) (of_nat ua) argc (of_nat x) s um = Some (Inr (of_nat sp, s\<lparr>kmem := m\<rparr>, u2))" by simp
  moreover have "cstr u2 (rd32 u2 (of_nat (sp + 12 + 4 * j))) (xss ! j)" if "j < argc" for j
  proof -
    have bt: "below (take (j + 1) xss) \<le> below xss" "below (take (j + 1) xss) = below (take j xss) + length (xss ! j) + 1"
      using below_take [of "j + 1" xss] that assms(3) by (simp_all add: take_Suc_conv_app_nth below_append)
    have "cstr u2 (of_nat (str_addr x xss j)) (xss ! j)"
      by (rule agree_outside_cstr [OF w(2)]) (use r(4) [OF that] z(3) bt assms(2,4) in \<open>auto simp: str_addr_def\<close>)
    moreover have "rd32 u2 (of_nat (sp + 12 + 4 * j)) = of_nat (str_addr x xss j)" using w(5) [OF that] r(4) [OF that] by simp
    ultimately show ?thesis by simp
  qed
  moreover have "agree_outside sp x um u2"
    by (rule agree_outside_trans [OF agree_outside_widen [OF r(3)] agree_outside_widen [OF w(2)]]) (use z(3) in auto)
  ultimately show ?thesis using sp4 z(2) w(3,4,6) r(2) by (intro exI [of _ sp] exI [of _ m] exI [of _ u2] conjI allI impI)
qed

text \<open>One argument, \<open>a\<close>, at the top of the stack.\<close>

theorem main_arguments_witness:
  "\<exists>(s :: kstate) sp m um'. push_main 0x100 0x200 1 0xDFFFFFF0 s (\<lambda>_. 7) = Some (Inr (of_nat sp, s\<lparr>kmem := m\<rparr>, um'))
    \<and> rd32 um' (of_nat (sp + 4)) = 1 \<and> cstr um' (rd32 um' (of_nat (sp + 12))) [97] \<and> um' 0xDFFFFFF0 = 7"
proof -
  define s :: kstate where "s = demo_kstate\<lparr>kmem := wr32 (wr_bytes (\<lambda>_. 0) 0x300 [97, 0]) 0x100 0x300, pmem := (\<lambda>_. 0x83), cr3 := 0\<rparr>"
  have k: "rd32 (kmem s) 0x100 = 0x300" "cstr (kmem s) 0x300 [97]" unfolding s_def by (simp, simp add: wr32_def)
  have mp: "stack_mapped s 0xDFFFF000 0xDFFFFFF0"
    unfolding stack_mapped_def by (simp add: walk_def pde_of_def s_def Let_def)
  have "\<exists>sp m um'. push_main (of_nat 0x100) (of_nat 0x200) 1 (of_nat 0xDFFFFFF0) s (\<lambda>_. 7) = Some (Inr (of_nat sp, s\<lparr>kmem := m\<rparr>, um'))
    \<and> sp mod 4 = 0 \<and> 0xDFFFF000 \<le> sp
    \<and> rd32 um' (of_nat (sp + 4)) = of_nat 1 \<and> rd32 um' (of_nat (sp + 8)) = of_nat (sp + 12)
    \<and> (\<forall>j < 1. cstr um' (rd32 um' (of_nat (sp + 12 + 4 * j))) ([[97]] ! j))
    \<and> rd32 um' (of_nat (sp + 12 + 4 * 1)) = 0
    \<and> agree_outside sp 0xDFFFFFF0 (\<lambda>_. 7) um' \<and> agree_outside 0x200 (0x200 + 4 * 1) (kmem s) m"
    by (rule main_arguments [OF mp, where q = "\<lambda>_. 0x300"]) (use k in simp_all)
  then obtain sp m um' where r: "push_main (of_nat 0x100) (of_nat 0x200) 1 (of_nat 0xDFFFFFF0) s (\<lambda>_. 7) = Some (Inr (of_nat sp, s\<lparr>kmem := m\<rparr>, um'))"
    "rd32 um' (of_nat (sp + 4)) = of_nat 1" "\<forall>j < 1. cstr um' (rd32 um' (of_nat (sp + 12 + 4 * j))) ([[97]] ! j)"
    "agree_outside sp 0xDFFFFFF0 (\<lambda>_. 7) um'" by (elim exE conjE) (rule that)
  have "push_main 0x100 0x200 1 0xDFFFFFF0 s (\<lambda>_. 7) = Some (Inr (of_nat sp, s\<lparr>kmem := m\<rparr>, um'))" using r(1) by simp
  moreover have "cstr um' (rd32 um' (of_nat (sp + 12))) [97]" using r(3) [rule_format, of 0] by (simp del: of_nat_add)
  moreover have "um' 0xDFFFFFF0 = 7" using r(4) unfolding agree_outside_def by (elim allE [of _ "0xDFFFFFF0"]) simp
  moreover have "rd32 um' (of_nat (sp + 4)) = 1" using r(2) by simp
  ultimately show ?thesis by (intro exI [of _ s] exI [of _ sp] exI [of _ m] exI [of _ um'] conjI)
qed

end
