(* ===== verification/Printk.thy ===== *)
theory Printk
  imports Screen Lib
begin

text \<open>
  Formatted output, \<^verbatim>\<open>kern/printk.c\<close>. The variable arguments are the words behind the format on the stack. A
  call of \<open>printk\<close> from \<open>printk\<close> passes a text as the format and no arguments; a percent sign in it would
  read the words that happen to lie on the stack (\<open>junk\<close>). The buffer for numbers is a memory of its own.
\<close>

section \<open>The code\<close>

text \<open>The loop that pads a number: \<open>for (i = size, j = buflen; i >= 0; i--, j--)\<close>.\<close>

fun pad_buf :: "mem \<Rightarrow> nat \<Rightarrow> int \<Rightarrow> mem" where
  "pad_buf b i j =
     (let b' = b(of_nat i := if j \<ge> 0 then b (word_of_int j) else 48)
      in case i of 0 \<Rightarrow> b' | Suc i' \<Rightarrow> pad_buf b' i' (j - 1))"

declare pad_buf.simps [simp del]

definition num_buf :: "u32 \<Rightarrow> u32 \<Rightarrow> nat \<Rightarrow> mem option" where
  "num_buf uival base wd =
     Option.bind (itoa (\<lambda>_. 0) 0 uival base) (\<lambda>buf.
     Option.bind (strlen buf 0) (\<lambda>buflen.
     Some (if sint buflen < int wd then pad_buf buf wd (sint buflen) else buf)))"

text \<open>The optional digit behind the percent sign: the width, the conversion and where the format goes on.\<close>

definition conversion :: "mem \<Rightarrow> u32 \<Rightarrow> nat \<times> u8 \<times> u32" where
  "conversion m s =
     (let c = m s
      in if 48 \<le> c \<and> c \<le> 57 then (unat (c - 48), m (s + 1), s + 2) else (0, c, s + 1))"

text \<open>The conversions of numbers: the text in front (with \<open>printk("-%s", buf)\<close> and \<open>printk("0x%s", buf)\<close>), the
  number, its base and the width. \<open>%p\<close> sets the width to 8.\<close>

definition num_conv :: "u8 \<Rightarrow> u32 \<Rightarrow> nat \<Rightarrow> (u8 list \<times> u32 \<times> u32 \<times> nat) option" where
  "num_conv d ival wd =
     (if d = 100 then (if sint ival < 0 then Some ([45], 0 - ival, 10, wd) else Some ([], ival, 10, wd))
      else if d = 117 then Some ([], ival, 10, wd)
      else if d = 120 \<or> d = 88 then Some ([48, 120], ival, 16, wd)
      else if d = 112 then Some ([48, 120], ival, 16, 8)
      else None)"

text \<open>A call: where its format is, and the arguments that are left.\<close>

record call =
  fmem :: mem
  fptr :: u32
  vargs :: "nat \<Rightarrow> u32"

definition next_arg :: "u32 \<Rightarrow> call \<Rightarrow> call" where
  "next_arg p f = f\<lparr>fptr := p, vargs := (\<lambda>i. vargs f (i + 1))\<rparr>"

partial_function (option) printk :: "(nat \<Rightarrow> u32) \<Rightarrow> call \<Rightarrow> 'a screen_scheme \<Rightarrow> 'a screen_scheme option" where
  "printk junk f scr =
     (let c = fmem f (fptr f)
      in if c = 0 then Some scr
         else if c \<noteq> 37 then printk junk (f\<lparr>fptr := fptr f + 1\<rparr>) (putcar c scr)
         else case conversion (fmem f) (fptr f + 1) of (wd, d, s') \<Rightarrow>
           (case num_conv d (vargs f 0) wd of
              Some (pre, n, base, w) \<Rightarrow>
                Option.bind (num_buf n base w) (\<lambda>buf.
                Option.bind (printk junk \<lparr>fmem = buf, fptr = 0, vargs = junk\<rparr> (fold putcar pre scr)) (\<lambda>scr1.
                printk junk (next_arg s' f) scr1))
            | None \<Rightarrow>
                if d = 115
                then Option.bind (printk junk \<lparr>fmem = fmem f, fptr = vargs f 0, vargs = junk\<rparr> scr) (\<lambda>scr1.
                     printk junk (next_arg s' f) scr1)
                else printk junk (f\<lparr>fptr := s'\<rparr>) scr))"

section \<open>Numbers\<close>

definition digits :: "u32 \<Rightarrow> u32 \<Rightarrow> u8 list" where
  "digits base n = map dchar (rev (rdigits (unat base) (unat n)))"

definition padded :: "nat \<Rightarrow> u8 list \<Rightarrow> u8 list" where
  "padded w ds = replicate (w - length ds) 48 @ ds"

lemma of_nat_ne_u32: "k < l \<Longrightarrow> l < 2 ^ 32 \<Longrightarrow> of_nat k \<noteq> (of_nat l :: u32)"
  by (metis less_irrefl less_trans unat_of_nat_u32)

lemma pad_buf_above:
  "i < k \<Longrightarrow> k < 2 ^ 32 \<Longrightarrow> pad_buf b i j (of_nat k) = b (of_nat k)"
proof (induction i arbitrary: b j)
  case 0
  have "(of_nat k :: u32) \<noteq> of_nat 0" using of_nat_ne_u32 [OF 0] by metis
  then show ?case unfolding pad_buf.simps [of _ 0] Let_def by (simp only: fun_upd_apply nat.case if_False)
next
  case (Suc i)
  have ne: "(of_nat k :: u32) \<noteq> of_nat (Suc i)" using of_nat_ne_u32 [OF Suc.prems] by metis
  have "i < k" using Suc.prems(1) by (rule Suc_lessD)
  from Suc.IH [OF this Suc.prems(2)] ne show ?case
    unfolding pad_buf.simps [of _ "Suc i"] Let_def by (simp only: fun_upd_apply nat.case if_False)
qed

lemma pad_buf_at:
  "k \<le> i \<Longrightarrow> i < 2 ^ 32 \<Longrightarrow> j \<le> int i \<Longrightarrow>
     pad_buf b i j (of_nat k) = (if int k - int i + j \<ge> 0 then b (word_of_int (int k - int i + j)) else 48)"
proof (induction i arbitrary: b j)
  case 0
  then have "k = 0" by simp
  then show ?case unfolding pad_buf.simps [of _ 0] Let_def nat.case by (simp only: fun_upd_same) simp
next
  case (Suc i)
  define b' where "b' = b(of_nat (Suc i) := if j \<ge> 0 then b (word_of_int j) else 48)"
  have i: "i < 2 ^ 32" using Suc.prems(2) by simp
  have e: "pad_buf b (Suc i) j = pad_buf b' i (j - 1)"
    unfolding pad_buf.simps [of b "Suc i"] Let_def b'_def by (simp only: nat.case)
  show ?case
  proof (cases "k = Suc i")
    case True
    have "pad_buf b' i (j - 1) (of_nat (Suc i)) = b' (of_nat (Suc i))"
      by (rule pad_buf_above [OF lessI Suc.prems(2)])
    then show ?thesis unfolding e True b'_def by (simp only: fun_upd_same) simp
  next
    case False
    with Suc.prems(1) have k: "k \<le> i" by simp
    have r: "b' (word_of_int n) = b (word_of_int n)" if "n \<ge> 0" "n \<le> int i" for n
    proof -
      have l: "n = int (nat n)" "nat n < Suc i" using that by simp_all
      have "(of_nat (nat n) :: u32) \<noteq> of_nat (Suc i)" by (rule of_nat_ne_u32 [OF l(2) Suc.prems(2)])
      then have "word_of_int n \<noteq> (of_nat (Suc i) :: u32)" using that(1) by simp
      then show ?thesis unfolding b'_def by (simp only: fun_upd_apply if_False)
    qed
    have j: "j - 1 \<le> int i" using Suc.prems(3) by simp
    have n: "int k - int i + (j - 1) = int k - int (Suc i) + j" by simp
    have "int k - int (Suc i) + j \<le> int i" using k Suc.prems(3) by simp
    with r have "0 \<le> int k - int (Suc i) + j \<Longrightarrow> b' (word_of_int (int k - int (Suc i) + j)) = b (word_of_int (int k - int (Suc i) + j))"
      by blast
    then show ?thesis unfolding e Suc.IH [OF k i j, of b'] n by (simp only: cong: if_cong)
  qed
qed

lemma pad_buf_cstr:
  assumes "cstr b 0 ds" "length ds < w" "w \<le> 9"
  shows "cstr (pad_buf b w (int (length ds))) 0 (padded w ds)"
proof (rule cstrI)
  have at: "pad_buf b w (int (length ds)) (of_nat k) =
      (if int k - int w + int (length ds) \<ge> 0 then b (word_of_int (int k - int w + int (length ds))) else 48)" if "k \<le> w" for k
    by (rule pad_buf_at [OF that]) (use assms(2,3) in simp_all)
  have len: "length (padded w ds) = w" using assms(2) by (simp add: padded_def)
  show "pad_buf b w (int (length ds)) (0 + of_nat (length (padded w ds))) = 0"
    using at [of w] cstr_end [OF assms(1)] by (simp add: len)
  fix i assume "i < length (padded w ds)"
  then have i: "i < w" by (simp add: len)
  show "pad_buf b w (int (length ds)) (0 + of_nat i) = padded w ds ! i \<and> padded w ds ! i \<noteq> 0"
  proof (cases "i < w - length ds")
    case True
    then have "\<not> 0 \<le> int i - int w + int (length ds)" by linarith
    with True show ?thesis using at [of i] i by (simp add: padded_def nth_append)
  next
    case False
    define l where "l = i - (w - length ds)"
    have l: "int i - int w + int (length ds) = int l" "l < length ds" using False i assms(2) by (simp_all add: l_def)
    have "padded w ds ! i = ds ! l" using False by (simp add: padded_def nth_append l_def)
    then show ?thesis using at [of i] i l cstr_nth [OF assms(1) l(2)] by simp
  qed
qed

lemma digit_chars: "2 \<le> base \<Longrightarrow> base \<le> 16 \<Longrightarrow> c \<in> set (digits base n) \<Longrightarrow> c \<noteq> 37"
proof -
  assume b: "2 \<le> base" "base \<le> 16" and c: "c \<in> set (digits base n)"
  have ub: "2 \<le> unat base" "unat base \<le> 16" using b by (simp_all add: word_le_nat_alt)
  from c obtain d where d: "d \<in> set (rdigits (unat base) (unat n))" "c = dchar d" by (auto simp: digits_def)
  have "d < 16" using rdigits_bound [OF ub(1)] d(1) ub(2) by fastforce
  then have "d \<in> set [0..<16]" by simp
  moreover have "\<forall>d\<in>set [0..<16]. dchar d \<noteq> 37" by (simp add: upt_rec itoa_digit_def)
  ultimately show "c \<noteq> 37" unfolding d(2) by (rule bspec [rotated])
qed

lemma digits_short: "10 \<le> base \<Longrightarrow> length (digits base n) \<le> 10"
proof -
  assume "10 \<le> base"
  then have b: "10 \<le> unat base" "2 \<le> unat base" by (simp_all add: word_le_nat_alt)
  have "unat n < unat base ^ Suc 9"
    using power_mono [OF b(1), of 10] by (intro less_le_trans [OF unat_lt_2p32]) simp
  from length_rdigits [OF b(2) this] show ?thesis by (simp add: digits_def)
qed

lemma num_buf_cstr:
  assumes "base = 10 \<or> base = 16" "w \<le> 9"
  shows "\<exists>b. num_buf n base w = Some b \<and> cstr b 0 (padded w (digits base n))"
proof -
  have b: "2 \<le> base" "base \<le> 36" "10 \<le> base" using assms(1) by auto
  from itoa_correct [OF b(1,2), of "\<lambda>_. 0" 0 n] obtain m where
    m: "itoa (\<lambda>_. 0) 0 n base = Some m" "cstr m 0 (digits base n)" by (auto simp: digits_def)
  have sl: "strlen m 0 = Some (of_nat (length (digits base n)))" by (rule strlen_cstr [OF m(2)])
  have si: "sint (of_nat (length (digits base n)) :: u32) = int (length (digits base n))"
  proof -
    have "length (digits base n) < 2 ^ 31" using digits_short [OF b(3), of n] by simp
    then show ?thesis by (simp add: signed_of_nat signed_take_bit_int_eq_self)
  qed
  show ?thesis
  proof (cases "length (digits base n) < w")
    case True
    with pad_buf_cstr [OF m(2) True assms(2)] show ?thesis unfolding num_buf_def m(1) by (simp add: sl si)
  next
    case False
    then have "padded w (digits base n) = digits base n" by (simp add: padded_def)
    with False m(2) show ?thesis unfolding num_buf_def m(1) by (simp add: sl si)
  qed
qed

section \<open>What is printed\<close>

lemma printk_plain:
  "cstr (fmem f) (fptr f) xs \<Longrightarrow> 37 \<notin> set xs \<Longrightarrow> printk junk f scr = Some (fold putcar xs scr)"
proof (induction xs arbitrary: f scr)
  case Nil
  then show ?case by (subst printk.simps) simp
next
  case (Cons x xs)
  then show ?case by (subst printk.simps) (simp add: Let_def)
qed


text \<open>A format as a list of items, with the text that stands for it in the source, and what each item shows for the
  argument \<open>a\<close>; \<open>str p\<close> is the string at \<open>p\<close>.\<close>

datatype item = Plain u8 | Conv "nat option" u8

fun item_text :: "item \<Rightarrow> u8 list" where
  "item_text (Plain c) = [c]"
| "item_text (Conv None d) = [37, d]"
| "item_text (Conv (Some w) d) = [37, 48 + of_nat w, d]"

fun item_ok :: "item \<Rightarrow> bool" where
  "item_ok (Plain c) = (c \<noteq> 0 \<and> c \<noteq> 37)"
| "item_ok (Conv None d) = (d \<noteq> 0 \<and> \<not> (48 \<le> d \<and> d \<le> 57))"
| "item_ok (Conv (Some w) d) = (w \<le> 9 \<and> d \<noteq> 0)"

definition shown :: "(u32 \<Rightarrow> u8 list) \<Rightarrow> nat \<Rightarrow> u8 \<Rightarrow> u32 \<Rightarrow> u8 list" where
  "shown str w d a =
     (if d = 100 then (if sint a < 0 then 45 # padded w (digits 10 (- a)) else padded w (digits 10 a))
      else if d = 117 then padded w (digits 10 a)
      else if d = 120 \<or> d = 88 then [48, 120] @ padded w (digits 16 a)
      else if d = 112 then [48, 120] @ padded 8 (digits 16 a)
      else if d = 115 then str a
      else [])"

definition takes_arg :: "u8 \<Rightarrow> bool" where
  "takes_arg d \<longleftrightarrow> d \<in> {100, 117, 120, 88, 112, 115}"

abbreviation width :: "nat option \<Rightarrow> nat" where
  "width w \<equiv> (case w of None \<Rightarrow> 0 | Some k \<Rightarrow> k)"

fun rendered :: "(u32 \<Rightarrow> u8 list) \<Rightarrow> item list \<Rightarrow> (nat \<Rightarrow> u32) \<Rightarrow> u8 list" where
  "rendered str [] args = []"
| "rendered str (Plain c # its) args = c # rendered str its args"
| "rendered str (Conv w d # its) args =
     shown str (width w) d (args 0) @ rendered str its (if takes_arg d then \<lambda>i. args (i + 1) else args)"

fun strs_ok :: "mem \<Rightarrow> (u32 \<Rightarrow> u8 list) \<Rightarrow> item list \<Rightarrow> (nat \<Rightarrow> u32) \<Rightarrow> bool" where
  "strs_ok m str [] args = True"
| "strs_ok m str (Plain c # its) args = strs_ok m str its args"
| "strs_ok m str (Conv w d # its) args =
     ((d = 115 \<longrightarrow> cstr m (args 0) (str (args 0)) \<and> 37 \<notin> set (str (args 0)))
      \<and> strs_ok m str its (if takes_arg d then \<lambda>i. args (i + 1) else args))"

lemma printk_num:
  assumes "base = 10 \<or> base = 16" "w \<le> 9"
  shows "\<exists>b. num_buf n base w = Some b \<and>
    (\<forall>junk (scr :: 'a screen_scheme).
       printk junk \<lparr>fmem = b, fptr = 0, vargs = junk\<rparr> scr = Some (fold putcar (padded w (digits base n)) scr))"
proof -
  from num_buf_cstr [OF assms] obtain b where b: "num_buf n base w = Some b" "cstr b 0 (padded w (digits base n))"
    by blast
  have "2 \<le> base" "base \<le> 16" using assms(1) by auto
  from digit_chars [OF this] have "37 \<notin> set (padded w (digits base n))" by (auto simp: padded_def)
  then have "printk junk \<lparr>fmem = b, fptr = 0, vargs = junk\<rparr> scr = Some (fold putcar (padded w (digits base n)) scr)"
    for junk and scr :: "'a screen_scheme"
    by (intro printk_plain) (simp_all add: b(2))
  with b(1) show ?thesis by blast
qed

lemma printk_conv:
  fixes scr :: "'a screen_scheme"
  assumes at: "fmem f (fptr f) = 37" and cv: "conversion (fmem f) (fptr f + 1) = (w, d, p)" and w: "w \<le> 9"
    and st: "d = 115 \<longrightarrow> cstr (fmem f) (vargs f 0) (str (vargs f 0)) \<and> 37 \<notin> set (str (vargs f 0))"
  shows "printk junk f scr =
    printk junk (if takes_arg d then next_arg p f else f\<lparr>fptr := p\<rparr>) (fold putcar (shown str w d (vargs f 0)) scr)"
proof (cases "num_conv d (vargs f 0) w")
  case None
  then have d: "d \<notin> {100, 117, 120, 88, 112}" by (auto simp: num_conv_def split: if_splits)
  show ?thesis
  proof (cases "d = 115")
    case True
    have "printk junk \<lparr>fmem = fmem f, fptr = vargs f 0, vargs = junk\<rparr> scr = Some (fold putcar (str (vargs f 0)) scr)"
      using st True by (intro printk_plain) simp_all
    then show ?thesis
      by (subst printk.simps) (simp add: at cv True takes_arg_def shown_def num_conv_def)
  next
    case False
    with d show ?thesis by (subst printk.simps) (simp add: at cv None takes_arg_def shown_def)
  qed
next
  case (Some q)
  obtain pre n base v where q: "q = (pre, n, base, v)" by (cases q)
  have k: "base = 10 \<or> base = 16" "v \<le> 9" "takes_arg d"
    "shown str w d (vargs f 0) = pre @ padded v (digits base n)"
    using Some w unfolding q num_conv_def shown_def takes_arg_def by (auto split: if_splits)
  from printk_num [OF k(1,2), of n, where ?'a = 'a] obtain b where b: "num_buf n base v = Some b"
    "\<And>scr :: 'a screen_scheme. printk junk \<lparr>fmem = b, fptr = 0, vargs = junk\<rparr> scr
       = Some (fold putcar (padded v (digits base n)) scr)" by blast
  show ?thesis
    by (subst printk.simps) (simp add: at cv Some q b k(3,4))
qed

lemma conversion_item:
  assumes "item_ok (Conv w d)" "cstr m s (tl (item_text (Conv w d)) @ xs)"
  shows "conversion m s = (width w, d, s + of_nat (length (item_text (Conv w d)) - 1))"
proof (cases w)
  case None
  then show ?thesis using assms by (auto simp: conversion_def)
next
  case (Some k)
  with assms(1) have "k \<le> 9" by simp
  then have "k \<in> set [0..<10]" by simp
  moreover have "\<forall>k \<in> set [0..<10]. (48 :: u8) \<le> 48 + of_nat k \<and> (48 + of_nat k :: u8) \<le> 57 \<and> unat (of_nat k :: u8) = k"
    by (simp add: upt_rec)
  ultimately have "(48 :: u8) \<le> 48 + of_nat k \<and> (48 + of_nat k :: u8) \<le> 57 \<and> unat (of_nat k :: u8) = k"
    by (rule bspec [rotated])
  then show ?thesis using assms Some by (simp add: conversion_def)
qed

lemma printk_rendered:
  fixes scr :: "'a screen_scheme"
  shows "list_all item_ok its \<Longrightarrow> cstr (fmem f) (fptr f) (concat (map item_text its)) \<Longrightarrow>
    strs_ok (fmem f) str its (vargs f) \<Longrightarrow>
    printk junk f scr = Some (fold putcar (rendered str its (vargs f)) scr)"
proof (induction its arbitrary: f scr)
  case Nil
  then show ?case by (subst printk.simps) simp
next
  case (Cons it its)
  show ?case
  proof (cases it)
    case (Plain c)
    with Cons.prems have "c \<noteq> 0" "c \<noteq> 37" "fmem f (fptr f) = c" by simp_all
    then have "printk junk f scr = printk junk (f\<lparr>fptr := fptr f + 1\<rparr>) (putcar c scr)"
      by (subst printk.simps) simp
    with Cons Plain show ?thesis by simp
  next
    case (Conv w d)
    let ?g = "if takes_arg d then next_arg (fptr f + of_nat (length (item_text it))) f
      else f\<lparr>fptr := fptr f + of_nat (length (item_text it))\<rparr>"
    have ok: "item_ok (Conv w d)" using Cons.prems(1) Conv by simp
    have hd: "fmem f (fptr f) = 37" using Cons.prems(2) Conv by (cases w) simp_all
    have t: "cstr (fmem f) (fptr f + 1) (tl (item_text (Conv w d)) @ concat (map item_text its))"
      using Cons.prems(2) Conv by (cases w) simp_all
    have len: "fptr f + 1 + of_nat (length (item_text (Conv w d)) - 1) = fptr f + of_nat (length (item_text it))"
      using Conv by (cases w) simp_all
    have wd: "width w \<le> 9" using ok by (cases w) simp_all
    have st: "d = 115 \<longrightarrow> cstr (fmem f) (vargs f 0) (str (vargs f 0)) \<and> 37 \<notin> set (str (vargs f 0))"
      using Cons.prems(3) Conv by simp
    have "printk junk f scr = printk junk ?g (fold putcar (shown str (width w) d (vargs f 0)) scr)"
      using printk_conv [of f "width w" d _ str, OF hd conversion_item [OF ok t] wd st] unfolding len .
    moreover have "cstr (fmem ?g) (fptr ?g) (concat (map item_text its))"
      using Cons.prems(2) Conv by (cases w) (simp_all add: next_arg_def add.assoc)
    moreover have "vargs ?g = (if takes_arg d then \<lambda>i. vargs f (i + 1) else vargs f)" "fmem ?g = fmem f"
      by (simp_all add: next_arg_def)
    ultimately show ?thesis using Cons.IH [of ?g] Cons.prems Conv by (simp add: fold_append)
  qed
qed

text \<open>C23. \<open>printk\<close> prints a format made of plain characters and conversions (\<open>%d\<close>, \<open>%u\<close>, \<open>%x\<close>, \<open>%X\<close>, \<open>%p\<close>, \<open>%s\<close>, each
  with an optional width of one digit) as its specification says: every conversion takes the next argument, numbers
  come out in their base and are padded with zeros to the width, a negative number after its sign, and a conversion
  that is not known prints nothing and takes no argument.\<close>

theorem printk_prints:
  fixes scr :: "'a screen_scheme"
  assumes "list_all item_ok its" "cstr (fmem f) (fptr f) (concat (map item_text its))"
    "strs_ok (fmem f) str its (vargs f)"
  shows "printk junk f scr = Some (fold putcar (rendered str its (vargs f)) scr)"
  using assms by (rule printk_rendered)

theorem printk_prints_witness:
  "\<forall>junk (scr :: screen).
     printk junk \<lparr>fmem = (\<lambda>_. 0)(1 := 65, 2 := 37, 3 := 51, 4 := 100, 5 := 37, 6 := 115, 20 := 98),
       fptr = 1, vargs = (\<lambda>i. if i = 0 then - 7 else 20)\<rparr> scr = Some (fold putcar [65, 45, 48, 48, 55, 98] scr)"
proof (intro allI)
  fix junk and scr :: screen
  let ?m = "(\<lambda>_ :: u32. 0 :: u8)(1 := 65, 2 := 37, 3 := 51, 4 := 100, 5 := 37, 6 := 115, 20 := 98)"
  let ?f = "\<lparr>fmem = ?m, fptr = 1, vargs = (\<lambda>i. if i = 0 then - 7 else 20)\<rparr>"
  let ?its = "[Plain 65, Conv (Some 3) 100, Conv None 115]"
  have ok: "list_all item_ok ?its" by simp
  have fm: "cstr (fmem ?f) (fptr ?f) (concat (map item_text ?its))" by simp
  have st: "strs_ok (fmem ?f) (\<lambda>_. [98]) ?its (vargs ?f)" by (simp add: takes_arg_def)
  have "digits 10 7 = [55]" by (simp add: digits_def rdigits.simps itoa_digit_def)
  then have "shown (\<lambda>_. [98]) 3 100 (- 7) = [45, 48, 48, 55]"
    by (simp add: shown_def padded_def numeral_2_eq_2)
  then have "rendered (\<lambda>_. [98]) ?its (vargs ?f) = [65, 45, 48, 48, 55, 98]"
    by (simp add: takes_arg_def shown_def [of _ _ 115])
  moreover note printk_prints [OF ok fm st, of junk scr]
  ultimately show "printk junk ?f scr = Some (fold putcar [65, 45, 48, 48, 55, 98] scr)" by simp
qed

end
