(* ===== verification/Syscalls.thy ===== *)
theory Syscalls
  imports Task Printk
begin

text \<open>
  The system calls on files and the dispatcher, \<^verbatim>\<open>kern/syscalls/syscalls.c\<close> and
  \<^verbatim>\<open>kern/syscalls/sys_open.c\<close>, with the stubs of the C library that issue them
  (\<^verbatim>\<open>usr/libc/syscalls.c\<close>). Strings that a process passes are read from its memory; every byte that the
  kernel writes there goes through the page tables and may fault the page in (\<open>touch\<close>). The main properties:
  consecutive reads of a descriptor deliver the file, a new descriptor is the lowest free one, and the
  string of \<open>pwd\<close> is a path that names the working directory.
\<close>

section \<open>User memory\<close>

abbreviation user_mem :: "'a kstate_scheme \<Rightarrow> mem" where
  "user_mem s \<equiv> umem s (cr3 s)"

definition set_user :: "mem \<Rightarrow> 'a kstate_scheme \<Rightarrow> 'a kstate_scheme" where
  "set_user m s = s\<lparr>umem := (umem s)(cr3 s := m)\<rparr>"

definition put_user :: "u32 \<Rightarrow> u8 \<Rightarrow> 'a kstate_scheme \<Rightarrow> 'a kstate_scheme out" where
  "put_user a c s = bind_out (touch a s) (\<lambda>s1. Some (Inr (set_user ((user_mem s1)(a := c)) s1)))"

definition memcpy_user :: "u32 \<Rightarrow> u32 \<Rightarrow> u32 \<Rightarrow> 'a kstate_scheme \<Rightarrow> 'a kstate_scheme out" where
  "memcpy_user dst src n s = bind_out (copy_user dst src n s (user_mem s)) (\<lambda>(s1, m). Some (Inr (set_user m s1)))"

text \<open>The text of a literal, and a message on the screen; \<open>junk\<close> are words on the stack behind the arguments.\<close>

definition lit :: "string \<Rightarrow> u8 list" where
  "lit cs = map (\<lambda>c. of_nat (of_char c)) cs"

definition say :: "(nat \<Rightarrow> u32) \<Rightarrow> string \<Rightarrow> (nat \<Rightarrow> u32) \<Rightarrow> 'a tty_state_scheme \<Rightarrow> 'a tty_state_scheme out" where
  "say junk fmt args s =
     Option.bind (printk junk \<lparr>fmem = wr_bytes (\<lambda>_. 0) 0 (lit fmt), fptr = 0, vargs = args\<rparr> (scr s)) (\<lambda>sc.
     Some (Inr (s\<lparr>scr := sc\<rparr>)))"

section \<open>Descriptors\<close>

abbreviation (input) SIZEOF_open_file :: u32 where "SIZEOF_open_file \<equiv> 12"

definition upd_fd :: "nat \<Rightarrow> (open_file \<Rightarrow> open_file) \<Rightarrow> 'a kstate_scheme \<Rightarrow> 'a kstate_scheme" where
  "upd_fd i f s = upd_proc (current s) (\<lambda>p. p\<lparr>fd := (fd p)[i := f (fd p ! i)]\<rparr>) s"

text \<open>The walk \<open>while (fd) { of = of->next; if (of == 0) ...; fd--; }\<close> of \<open>sys_read\<close> and \<open>sys_close\<close>. \<open>None\<close> as
  the result: no such descriptor. Without any open file the pointer it starts from is null.\<close>

fun walk_fd :: "open_file list \<Rightarrow> nat \<Rightarrow> open_file option res" where
  "walk_fd [] n = Inl NullDeref"
| "walk_fd (d # ds) 0 = Inr (Some d)"
| "walk_fd (d # ds) (Suc n) = (if ds = [] then Inr None else walk_fd ds n)"

text \<open>The search of \<open>sys_open\<close>: \<open>while (of->file && of->next)\<close>.\<close>

fun fd_search :: "open_file list \<Rightarrow> nat" where
  "fd_search (d # d' # ds) = (if of_file d \<noteq> 0 then fd_search (d' # ds) + 1 else 0)"
| "fd_search ds = 0"

definition install_fd :: "u32 \<Rightarrow> 'a kstate_scheme \<Rightarrow> (u32 \<times> 'a kstate_scheme) out" where
  "install_fd fp s =
     (let i = fd_search (fd (cur s))
      in if fd (cur s) = []
         then bind_out (kmalloc SIZEOF_open_file s) (\<lambda>(a, s1).
              Some (Inr (0, upd_proc (current s1) (\<lambda>p. p\<lparr>fd := [\<lparr>of_addr = a, of_file = fp, of_ptr = 0\<rparr>]\<rparr>) s1)))
         else if of_file (fd (cur s) ! i) = 0
         then Some (Inr (of_nat i, upd_fd i (\<lambda>d. d\<lparr>of_file := fp, of_ptr := 0\<rparr>) s))
         else bind_out (kmalloc SIZEOF_open_file s) (\<lambda>(a, s1).
              Some (Inr (of_nat (i + 1),
                upd_proc (current s1) (\<lambda>p. p\<lparr>fd := fd p @ [\<lparr>of_addr = a, of_file = fp, of_ptr = 0\<rparr>]\<rparr>) s1))))"

section \<open>Files\<close>

definition sys_open :: "drive_io \<Rightarrow> u32 \<Rightarrow> 'a fs_state_scheme \<Rightarrow> (u32 \<times> 'a fs_state_scheme) out" where
  "sys_open io path s =
     bind_out (path_to_file io (user_mem s) path s) (\<lambda>(fp, s1).
     if fp = 0 then Some (Inr (- 1, s1))
     else bind_out (load_inode io fp (s1\<lparr>f_opened := (f_opened s1)(fp := f_opened s1 fp + 1)\<rparr>)) (\<lambda>s2.
          bind_out (ext2_read_file io (f_disk s2 fp) (f_inode s2 fp) s2) (\<lambda>(p, s3).
          install_fd fp (s3\<lparr>f_mmap := (f_mmap s3)(fp := p)\<rparr>))))"

text \<open>\<open>sys_read\<close>, with the comparison and the subtraction at 32 bits.\<close>

definition read_size :: "u32 \<Rightarrow> u32 \<Rightarrow> u32 \<Rightarrow> u32" where
  "read_size ptr bufsize isize = (if ptr + bufsize > isize then isize - ptr else bufsize)"

definition sys_read :: "(nat \<Rightarrow> u32) \<Rightarrow> u32 \<Rightarrow> u32 \<Rightarrow> u32 \<Rightarrow> 'a fs_state_scheme \<Rightarrow> (u32 \<times> 'a fs_state_scheme) out" where
  "sys_read junk n u_buf bufsize s =
     bind_out (Some (walk_fd (fd (cur s)) (unat n))) (\<lambda>r.
     case r of
       None \<Rightarrow> bind_out (say junk ''ERROR: sys_read(): invalid file descriptor\<newline>'' junk s) (\<lambda>s1. Some (Inr (- 1, s1)))
     | Some d \<Rightarrow>
         if of_file d = 0 then Some (Inl NullDeref)
         else let k = read_size (of_ptr d) bufsize (i_size (kmem s) (f_inode s (of_file d)))
              in bind_out (memcpy_user u_buf (f_mmap s (of_file d) + of_ptr d) k s) (\<lambda>s1.
                 Some (Inr (k, upd_fd (unat n) (\<lambda>d. d\<lparr>of_ptr := of_ptr d + k\<rparr>) s1))))"

definition sys_close :: "(nat \<Rightarrow> u32) \<Rightarrow> u32 \<Rightarrow> 'a fs_state_scheme \<Rightarrow> 'a fs_state_scheme out" where
  "sys_close junk n s =
     bind_out (Some (walk_fd (fd (cur s)) (unat n))) (\<lambda>r.
     case r of
       None \<Rightarrow> say junk ''ERROR: sys_close(): invalid file descriptor\<newline>'' junk s
     | Some d \<Rightarrow>
         if of_file d = 0 then Some (Inl NullDeref)
         else bind_out (kfree (f_mmap s (of_file d)) s) (\<lambda>s1.
              Some (Inr (upd_fd (unat n) (\<lambda>d. d\<lparr>of_file := 0, of_ptr := 0\<rparr>)
                (s1\<lparr>f_mmap := (f_mmap s1)(of_file d := 0)\<rparr>)))))"

section \<open>The working directory\<close>

definition sys_chdir :: "drive_io \<Rightarrow> u32 \<Rightarrow> 'a fs_state_scheme \<Rightarrow> (u32 \<times> 'a fs_state_scheme) out" where
  "sys_chdir io path s =
     bind_out (path_to_file io (user_mem s) path s) (\<lambda>(fp, s1).
     if fp = 0 then Some (Inr (- 1, s1))
     else bind_out (load_inode io fp s1) (\<lambda>s2.
          bind_out (is_directory io fp s2) (\<lambda>(d, s3).
          if \<not> d then Some (Inr (- 2, s3))
          else Some (Inr (0, upd_proc (current s3) (\<lambda>p. p\<lparr>pwd := fp\<rparr>) s3)))))"

text \<open>The two loops of \<open>sys_pwd\<close>: the length of the path, and the names from the last to the first.\<close>

partial_function (option) pwd_size :: "'a fs_state_scheme \<Rightarrow> u32 \<Rightarrow> u32 \<Rightarrow> u32 option" where
  "pwd_size s fp sz =
     (if f_parent s fp \<noteq> f_root s
      then Option.bind (strlen (kmem s) (f_name s (f_parent s fp))) (\<lambda>n.
           pwd_size s (f_parent s fp) (sz + (n + 1)))
      else Some sz)"

partial_function (option) pwd_write :: "u32 \<Rightarrow> u32 \<Rightarrow> u32 \<Rightarrow> 'a fs_state_scheme \<Rightarrow> 'a fs_state_scheme out" where
  "pwd_write u_buf sz fp s =
     (if 0 < sint sz
      then Option.bind (strlen (kmem s) (f_name s fp)) (\<lambda>n.
           bind_out (memcpy_user (u_buf + sz - n) (f_name s fp) n s) (\<lambda>s1.
           bind_out (put_user (u_buf + (sz - (n + 1))) 47 s1) (\<lambda>s2.
           pwd_write u_buf (sz - (n + 1)) (f_parent s2 fp) s2)))
      else Some (Inr s))"

definition sys_pwd :: "u32 \<Rightarrow> 'a fs_state_scheme \<Rightarrow> 'a fs_state_scheme out" where
  "sys_pwd u_buf s =
     (let fp = pwd (cur s)
      in if fp = f_root s
         then bind_out (put_user u_buf 47 s) (put_user (u_buf + 1) 0)
         else Option.bind (strlen (kmem s) (f_name s fp)) (\<lambda>n.
              Option.bind (pwd_size s fp (n + 1)) (\<lambda>sz.
              bind_out (put_user (u_buf + sz) 0 s) (pwd_write u_buf sz fp))))"

section \<open>The dispatcher\<close>

text \<open>How a call ends: with a value in \<open>eax\<close>, with \<open>eax\<close> as it was, with a switch to another process, or in a loop
  that waits for another process to do something: to leave the terminal, to type a line, to end.\<close>

datatype reply = Eax u32 | Keep | Switched switch_frame | Wait_term u32 | Wait_line u32 | Wait_child u32

text \<open>What the calls depend on beside the state: the drive, the disk \<open>hd\<close>, the words and the bytes that happen
  to lie on the kernel stack, what fresh frames hold, and the saved registers.\<close>

record env =
  e_io :: drive_io
  e_hd :: disk
  e_junk :: "nat \<Rightarrow> u32"
  e_bytes :: "nat \<Rightarrow> u8"
  e_frames :: mem
  e_stack :: "nat \<Rightarrow> u32"

definition sys_console_write :: "(nat \<Rightarrow> u32) \<Rightarrow> u32 \<Rightarrow> u32 \<Rightarrow> 'a fs_state_scheme \<Rightarrow> 'a fs_state_scheme out" where
  "sys_console_write junk u_str color s =
     Option.bind (printk junk \<lparr>fmem = user_mem s, fptr = u_str, vargs = junk\<rparr> ((scr s)\<lparr>kattr := ucast color\<rparr>)) (\<lambda>sc.
     Some (Inr (s\<lparr>scr := sc\<lparr>kattr := 0x02\<rparr>\<rparr>)))"

definition sys_console_read :: "(nat \<Rightarrow> u32) \<Rightarrow> u32 \<Rightarrow> 'a fs_state_scheme \<Rightarrow> (reply \<times> 'a fs_state_scheme) out" where
  "sys_console_read junk u_buf s =
     bind_out (Some (read_begin s)) (\<lambda>(b, s1).
     case b of
       No_term \<Rightarrow>
         bind_out (say junk ''DEBUG: sys_console_read(): process without term\<newline>'' junk s1) (\<lambda>s2. Some (Inr (Eax (- 1), s2)))
     | Busy \<Rightarrow> Some (Inr (Wait_term u_buf, s1))
     | Waiting \<Rightarrow> Some (Inr (Wait_line u_buf, s1)))"

definition wait_call :: "(nat \<Rightarrow> u32) \<Rightarrow> u32 \<Rightarrow> 'a fs_state_scheme \<Rightarrow> (reply \<times> 'a fs_state_scheme) out" where
  "wait_call junk ustatus s =
     (case sys_wait ustatus s of
        None \<Rightarrow> Some (Inr (Wait_child ustatus, s))
      | Some (None, s1) \<Rightarrow> Some (Inr (Eax (junk 0), s1))
      | Some (Some n, s1) \<Rightarrow> Some (Inr (Eax (word_of_int n), s1)))"

text \<open>A call that waits goes on: with the line once it is there, or by its test once more.\<close>

definition resume :: "(nat \<Rightarrow> u32) \<Rightarrow> reply \<Rightarrow> 'a fs_state_scheme \<Rightarrow> (reply \<times> 'a fs_state_scheme) out" where
  "resume junk r s =
     (case r of
        Wait_term u_buf \<Rightarrow> sys_console_read junk u_buf s
      | Wait_line u_buf \<Rightarrow>
          (case read_end u_buf (user_mem s) s of
             None \<Rightarrow> Some (Inr (r, s))
           | Some (Inl er) \<Rightarrow> Some (Inl er)
           | Some (Inr (n, m)) \<Rightarrow> Some (Inr (Eax n, set_user m s)))
      | Wait_child ustatus \<Rightarrow> wait_call junk ustatus s
      | _ \<Rightarrow> Some (Inr (r, s)))"

definition debug_regs :: "env \<Rightarrow> 'a fs_state_scheme \<Rightarrow> 'a fs_state_scheme out" where
  "debug_regs e s =
     (let pa = e_stack e; args = (\<lambda>is i. if i < length is then pa (is ! i) else e_junk e (i - length is))
      in bind_out (say (e_junk e) ''eax: %p ecx: %p edx: %p ebx: %p\<newline>'' (args [12, 11, 10, 9]) s) (\<lambda>s1.
         bind_out (say (e_junk e) ''ds: %p esi: %p edi: %p\<newline>'' (args [4, 6, 5]) s1) (\<lambda>s2.
         bind_out (say (e_junk e) ''ss: %p ebp: %p esp: %p\<newline>'' (args [17, 7, 16]) s2) (\<lambda>s3.
         say (e_junk e) ''cs: %p eip: %p\<newline>'' (args [14, 13]) s3))))"

text \<open>The memory of a new process is found by its page directory.\<close>

definition exec_call :: "env \<Rightarrow> u32 \<Rightarrow> u32 \<Rightarrow> 'a fs_state_scheme \<Rightarrow> (u32 \<times> 'a fs_state_scheme) out" where
  "exec_call e path argv s =
     bind_out (sys_exec (e_io e) (user_mem s) path argv (e_junk e 0) (e_frames e) s) (\<lambda>(n, s1, m).
     Some (Inr (n, if n = - 1 \<or> n = 0 then s1
                   else s1\<lparr>umem := (umem s1)(r_cr3 (regs (p_list s1 (unat n))) := m)\<rparr>)))"

abbreviation answer :: "(u32 \<times> 'a) out \<Rightarrow> (reply \<times> 'a) out" where
  "answer r \<equiv> bind_out r (\<lambda>(v, s). Some (Inr (Eax v, s)))"

abbreviation finish :: "'a out \<Rightarrow> (reply \<times> 'a) out" where
  "finish r \<equiv> bind_out r (\<lambda>s. Some (Inr (Keep, s)))"

abbreviation leave :: "(switch_frame \<times> 'a) out \<Rightarrow> (reply \<times> 'a) out" where
  "leave r \<equiv> bind_out r (\<lambda>(f, s). Some (Inr (Switched f, s)))"

definition do_syscalls :: "env \<Rightarrow> u32 \<Rightarrow> u32 \<Rightarrow> u32 \<Rightarrow> u32 \<Rightarrow> 'a fs_state_scheme \<Rightarrow> (reply \<times> 'a fs_state_scheme) out" where
  "do_syscalls e sys_num ebx ecx edx s =
     (if sys_num = 1 then finish (sys_console_write (e_junk e) ebx ecx s)
      else if sys_num = 2 then leave (sys_exit ebx s)
      else if sys_num = 3 then answer (sys_open (e_io e) ebx s)
      else if sys_num = 4 then answer (sys_read (e_junk e) ebx ecx edx s)
      else if sys_num = 5 then finish (sys_close (e_junk e) ebx s)
      else if sys_num = 6 then sys_console_read (e_junk e) ebx s
      else if sys_num = 7 then answer (sys_chdir (e_io e) ebx s)
      else if sys_num = 8 then finish (sys_pwd ebx s)
      else if sys_num = 9 then answer (exec_call e ebx ecx s)
      else if sys_num = 10 then answer (Some (Inr (sys_sbrk ebx s)))
      else if sys_num = 11
      then wait_call (e_junk e) ebx s
      else if sys_num = 12 then answer (Some (sys_kill (sint ebx) ecx s))
      else if sys_num = 13 then answer (Some (sys_sigaction ebx ecx s))
      else if sys_num = 14 then leave (sys_sigreturn (e_stack e) s)
      else if sys_num = 15 then finish (add_file (e_bytes e) (e_hd e) (user_mem s) ebx True s)
      else if sys_num = 100 then finish (debug_regs e s)
      else finish (say (e_junk e) ''unknown syscall %d\<newline>'' (\<lambda>i. if i = 0 then sys_num else e_junk e (i - 1)) s))"

section \<open>The stubs of the C library\<close>

text \<open>The registers at \<open>int $0x30\<close>. A stub loads the number of the call and its arguments and leaves the other
  registers as they are; the result is what \<open>eax\<close> holds afterwards.\<close>

record trap =
  t_eax :: u32
  t_ebx :: u32
  t_ecx :: u32
  t_edx :: u32

definition int30 :: "env \<Rightarrow> trap \<Rightarrow> 'a fs_state_scheme \<Rightarrow> (reply \<times> 'a fs_state_scheme) out" where
  "int30 e r s = do_syscalls e (t_eax r) (t_ebx r) (t_ecx r) (t_edx r) s"

definition usr_console_write :: "env \<Rightarrow> trap \<Rightarrow> u32 \<Rightarrow> u8 \<Rightarrow> 'a fs_state_scheme \<Rightarrow> (reply \<times> 'a fs_state_scheme) out" where
  "usr_console_write e r msg color = int30 e (r\<lparr>t_eax := 1, t_ebx := msg, t_ecx := scast color\<rparr>)"

definition usr_exit :: "env \<Rightarrow> trap \<Rightarrow> u32 \<Rightarrow> 'a fs_state_scheme \<Rightarrow> (reply \<times> 'a fs_state_scheme) out" where
  "usr_exit e r st = int30 e (r\<lparr>t_eax := 2, t_ebx := st\<rparr>)"

definition usr_open :: "env \<Rightarrow> trap \<Rightarrow> u32 \<Rightarrow> 'a fs_state_scheme \<Rightarrow> (reply \<times> 'a fs_state_scheme) out" where
  "usr_open e r path = int30 e (r\<lparr>t_eax := 3, t_ebx := path\<rparr>)"

definition usr_read :: "env \<Rightarrow> trap \<Rightarrow> u32 \<Rightarrow> u32 \<Rightarrow> u32 \<Rightarrow> 'a fs_state_scheme \<Rightarrow> (reply \<times> 'a fs_state_scheme) out" where
  "usr_read e r n buf sz = int30 e (r\<lparr>t_eax := 4, t_ebx := n, t_ecx := buf, t_edx := sz\<rparr>)"

definition usr_close :: "env \<Rightarrow> trap \<Rightarrow> u32 \<Rightarrow> 'a fs_state_scheme \<Rightarrow> (reply \<times> 'a fs_state_scheme) out" where
  "usr_close e r n = int30 e (r\<lparr>t_eax := 5, t_ebx := n\<rparr>)"

definition usr_console_read :: "env \<Rightarrow> trap \<Rightarrow> u32 \<Rightarrow> 'a fs_state_scheme \<Rightarrow> (reply \<times> 'a fs_state_scheme) out" where
  "usr_console_read e r buf = int30 e (r\<lparr>t_eax := 6, t_ebx := buf\<rparr>)"

definition usr_chdir :: "env \<Rightarrow> trap \<Rightarrow> u32 \<Rightarrow> 'a fs_state_scheme \<Rightarrow> (reply \<times> 'a fs_state_scheme) out" where
  "usr_chdir e r path = int30 e (r\<lparr>t_eax := 7, t_ebx := path\<rparr>)"

definition usr_pwd :: "env \<Rightarrow> trap \<Rightarrow> u32 \<Rightarrow> 'a fs_state_scheme \<Rightarrow> (reply \<times> 'a fs_state_scheme) out" where
  "usr_pwd e r buf = int30 e (r\<lparr>t_eax := 8, t_ebx := buf\<rparr>)"

definition usr_exec :: "env \<Rightarrow> trap \<Rightarrow> u32 \<Rightarrow> u32 \<Rightarrow> 'a fs_state_scheme \<Rightarrow> (reply \<times> 'a fs_state_scheme) out" where
  "usr_exec e r path argv = int30 e (r\<lparr>t_eax := 9, t_ebx := path, t_ecx := argv\<rparr>)"

definition usr_sbrk :: "env \<Rightarrow> trap \<Rightarrow> u32 \<Rightarrow> 'a fs_state_scheme \<Rightarrow> (reply \<times> 'a fs_state_scheme) out" where
  "usr_sbrk e r n = int30 e (r\<lparr>t_eax := 10, t_ebx := n\<rparr>)"

definition usr_wait :: "env \<Rightarrow> trap \<Rightarrow> u32 \<Rightarrow> 'a fs_state_scheme \<Rightarrow> (reply \<times> 'a fs_state_scheme) out" where
  "usr_wait e r st = int30 e (r\<lparr>t_eax := 11, t_ebx := st\<rparr>)"

definition usr_kill :: "env \<Rightarrow> trap \<Rightarrow> u32 \<Rightarrow> u32 \<Rightarrow> 'a fs_state_scheme \<Rightarrow> (reply \<times> 'a fs_state_scheme) out" where
  "usr_kill e r n sig = int30 e (r\<lparr>t_eax := 12, t_ebx := n, t_ecx := sig\<rparr>)"

definition usr_sigaction :: "env \<Rightarrow> trap \<Rightarrow> u32 \<Rightarrow> u32 \<Rightarrow> 'a fs_state_scheme \<Rightarrow> (reply \<times> 'a fs_state_scheme) out" where
  "usr_sigaction e r sig fn = int30 e (r\<lparr>t_eax := 13, t_ebx := sig, t_ecx := fn\<rparr>)"

definition usr_create_dir :: "env \<Rightarrow> trap \<Rightarrow> u32 \<Rightarrow> 'a fs_state_scheme \<Rightarrow> (reply \<times> 'a fs_state_scheme) out" where
  "usr_create_dir e r path = int30 e (r\<lparr>t_eax := 15, t_ebx := path\<rparr>)"

section \<open>Reading\<close>

text \<open>The bytes from \<open>a\<close> on may be written without a fault.\<close>

definition mapped :: "'a mmu_state_scheme \<Rightarrow> u32 \<Rightarrow> nat \<Rightarrow> bool" where
  "mapped s a n \<longleftrightarrow> (\<forall>k < n. walk s (a + of_nat k) \<noteq> None)"

lemma mapped_mono: "mapped s a n \<Longrightarrow> k \<le> n \<Longrightarrow> mapped s a k"
  by (simp add: mapped_def)

lemma walk_set_user [simp]: "walk (set_user m s) = walk s"
  by (rule walk_cong) (simp_all add: set_user_def)

lemma walk_upd_proc [simp]: "walk (upd_proc n f s) = walk s"
  by (rule walk_cong) (simp_all add: upd_proc_def)

lemma mapped_upd [simp]: "mapped (set_user m s) = mapped s" "mapped (upd_proc n f s) = mapped s" "mapped (upd_fd i g s) = mapped s"
  by (simp_all add: mapped_def upd_fd_def fun_eq_iff)

lemma set_user_sel [simp]:
  "kmem (set_user m s) = kmem s" "p_list (set_user m s) = p_list s" "current (set_user m s) = current s"
  "umem (set_user m s) = (umem s)(cr3 s := m)" "set_user m' (set_user m s) = set_user m' s" "cr3 (set_user m s) = cr3 s"
  by (simp_all add: set_user_def)

lemma set_user_fs [simp]:
  "f_inode (set_user m s) = f_inode s" "f_mmap (set_user m t) = f_mmap t" "f_name (set_user m s) = f_name s"
  "f_parent (set_user m s) = f_parent s" "f_root (set_user m s) = f_root s" "scr (set_user m u) = scr u"
  by (simp_all add: set_user_def)

lemma upd_fd_sel [simp]:
  "kmem (upd_fd i g s) = kmem s" "current (upd_fd i g s) = current s" "umem (upd_fd i g s) = umem s" "cr3 (upd_fd i g s) = cr3 s"
  "p_list (upd_fd i g s) = (p_list s)(current s := (cur s)\<lparr>fd := (fd (cur s))[i := g (fd (cur s) ! i)]\<rparr>)" "f_mmap (upd_fd i g s) = f_mmap s"
  by (simp_all add: upd_fd_def upd_proc_def)

lemma upd_fd_fs [simp]: "f_inode (upd_fd i g s) = f_inode s" "scr (upd_fd i g u) = scr u"
  by (simp_all add: upd_fd_def upd_proc_def)

lemma memcpy_user_mapped:
  "mapped s dst (unat n) \<Longrightarrow> memcpy_user dst src n s = Some (Inr (set_user (copy_across (kmem s) dst src n (user_mem s)) s))"
  by (simp add: memcpy_user_def copy_user_mapped mapped_def copy_across_def in_block_def)

lemma put_user_mapped: "walk s a \<noteq> None \<Longrightarrow> put_user a c s = Some (Inr (set_user ((user_mem s)(a := c)) s))"
  by (simp add: put_user_def touch_def)

lemma walk_fd_nth: "n < length ds \<Longrightarrow> walk_fd ds n = Inr (Some (ds ! n))"
  by (induction ds n rule: walk_fd.induct) auto

text \<open>The descriptor \<open>n\<close> of the current process is an open file with the contents \<open>xs\<close>, read up to \<open>p\<close>.\<close>

definition file_open :: "'a fs_state_scheme \<Rightarrow> u32 \<Rightarrow> u8 list \<Rightarrow> nat \<Rightarrow> bool" where
  "file_open s n xs p \<longleftrightarrow>
     (let d = fd (cur s) ! unat n; f = of_file d
      in unat n < length (fd (cur s)) \<and> f \<noteq> 0 \<and> of_ptr d = of_nat p \<and> p \<le> length xs
         \<and> i_size (kmem s) (f_inode s f) = of_nat (length xs)
         \<and> (\<forall>k < length xs. kmem s (f_mmap s f + of_nat k) = xs ! k))"

definition contents :: "mem \<Rightarrow> u32 \<Rightarrow> nat \<Rightarrow> u8 list" where
  "contents m a n = map (\<lambda>k. m (a + of_nat k)) [0..<n]"

lemma read_size_nat:
  assumes "p \<le> len" "len < 2 ^ 32" "p + unat sz < 2 ^ 32"
  shows "read_size (of_nat p) sz (of_nat len) = of_nat (min (unat sz) (len - p))"
proof -
  have u: "unat (of_nat p + sz) = p + unat sz"
    using assms by (subst unat_add_nowrap) (simp_all add: unat_of_nat_u32)
  have "of_nat p + sz > (of_nat len :: u32) \<longleftrightarrow> len < p + unat sz"
    using assms by (simp add: word_less_nat_alt u unat_of_nat_u32)
  then show ?thesis using assms by (auto simp: read_size_def min_def of_nat_diff)
qed

lemma sys_read_file:
  fixes s :: "'a fs_state_scheme"
  assumes op: "file_open s n xs p" and len: "length xs < 2 ^ 32" "p + unat sz < 2 ^ 32" and mp: "mapped s buf (unat sz)"
  defines "k \<equiv> min (unat sz) (length xs - p)"
  shows "\<exists>s'. sys_read junk n buf sz s = Some (Inr (of_nat k, s')) \<and> file_open s' n xs (p + k)
    \<and> contents (user_mem s') buf k = take k (drop p xs)
    \<and> (\<forall>a. \<not> in_block buf k a \<longrightarrow> user_mem s' a = user_mem s a) \<and> mapped s' = mapped s \<and> scr s' = scr s"
proof -
  define d where "d = fd (cur s) ! unat n"
  have f: "unat n < length (fd (cur s))" "of_file d \<noteq> 0" "of_ptr d = of_nat p" "p \<le> length xs"
    "i_size (kmem s) (f_inode s (of_file d)) = of_nat (length xs)"
    "\<And>k. k < length xs \<Longrightarrow> kmem s (f_mmap s (of_file d) + of_nat k) = xs ! k"
    using op by (simp_all add: file_open_def Let_def d_def)
  have kk: "k \<le> unat sz" "p + k \<le> length xs" using f(4) by (simp_all add: k_def)
  have uk: "unat (of_nat k :: u32) = k" using kk len by (intro unat_of_nat_u32) simp
  let ?src = "f_mmap s (of_file d) + of_nat p"
  let ?s1 = "set_user (copy_across (kmem s) buf ?src (of_nat k) (user_mem s)) s"
  let ?s2 = "upd_fd (unat n) (\<lambda>d. d\<lparr>of_ptr := of_ptr d + of_nat k\<rparr>) ?s1"
  have rs: "read_size (of_ptr d) sz (i_size (kmem s) (f_inode s (of_file d))) = of_nat k"
    unfolding f(3,5) k_def by (rule read_size_nat [OF f(4) len])
  have "memcpy_user buf ?src (of_nat k) s = Some (Inr ?s1)"
    by (rule memcpy_user_mapped) (use mapped_mono [OF mp kk(1)] uk in simp)
  then have r: "sys_read junk n buf sz s = Some (Inr (of_nat k, ?s2))"
    unfolding sys_read_def using walk_fd_nth [OF f(1)] f(2) rs by (simp add: d_def [symmetric] f(3) Let_def)
  have fo: "file_open ?s2 n xs (p + k)"
    using f kk(2) by (simp add: file_open_def Let_def d_def [symmetric])
  have "copy_across (kmem s) buf ?src (of_nat k) (user_mem s) (buf + of_nat i) = xs ! (p + i)" if "i < k" for i
  proof -
    have "unat (of_nat i :: u32) = i" using that kk len by (intro unat_of_nat_u32) simp
    then show ?thesis using that f(6) [of "p + i"] kk(2) uk by (simp add: copy_across_def in_block_def add.assoc)
  qed
  then have ct: "contents (user_mem ?s2) buf k = take k (drop p xs)"
    using kk(2) by (intro nth_equalityI) (simp_all add: contents_def)
  have ou: "user_mem ?s2 a = user_mem s a" if "\<not> in_block buf k a" for a
    using that uk by (simp add: copy_across_def)
  show ?thesis using r fo ct ou by (intro exI [of _ ?s2]) simp
qed

text \<open>A program that reads a descriptor several times, with the sizes \<open>szs\<close>, into the same buffer; what it got,
  one piece after the other.\<close>

primrec read_all :: "env \<Rightarrow> trap \<Rightarrow> u32 \<Rightarrow> u32 \<Rightarrow> u32 list \<Rightarrow> 'a fs_state_scheme \<Rightarrow> (u8 list \<times> 'a fs_state_scheme) out" where
  "read_all e r n buf [] s = Some (Inr ([], s))"
| "read_all e r n buf (sz # szs) s =
     bind_out (usr_read e r n buf sz s) (\<lambda>(v, s1).
     case v of
       Eax k \<Rightarrow> bind_out (read_all e r n buf szs s1) (\<lambda>(ys, s2). Some (Inr (contents (user_mem s1) buf (unat k) @ ys, s2)))
     | _ \<Rightarrow> None)"

lemma usr_read_call: "usr_read e r n buf sz s = answer (sys_read (e_junk e) n buf sz s)"
  by (simp add: usr_read_def int30_def do_syscalls_def)

lemma read_all_from:
  fixes s :: "'a fs_state_scheme"
  shows "file_open s n xs p \<Longrightarrow> length xs < 2 ^ 32 \<Longrightarrow> p + sum_list (map unat szs) < 2 ^ 32 \<Longrightarrow>
    (\<forall>sz \<in> set szs. mapped s buf (unat sz)) \<Longrightarrow>
    \<exists>s'. read_all e r n buf szs s = Some (Inr (take (sum_list (map unat szs)) (drop p xs), s'))
      \<and> file_open s' n xs (min (p + sum_list (map unat szs)) (length xs))"
proof (induction szs arbitrary: s p)
  case Nil
  then show ?case by (auto simp: file_open_def Let_def min_def)
next
  case (Cons sz szs)
  let ?S = "sum_list (map unat szs)"
  define k where "k = min (unat sz) (length xs - p)"
  have p: "p \<le> length xs" using Cons.prems(1) by (simp add: file_open_def Let_def)
  have sz: "p + unat sz < 2 ^ 32" using Cons.prems(3) by simp
  have mp: "mapped s buf (unat sz)" using Cons.prems(4) by simp
  obtain s1 where s1: "sys_read (e_junk e) n buf sz s = Some (Inr (of_nat k, s1))" "file_open s1 n xs (p + k)"
    "contents (user_mem s1) buf k = take k (drop p xs)" "mapped s1 = mapped s"
    using sys_read_file [OF Cons.prems(1,2) sz mp, of "e_junk e"] unfolding k_def by blast
  have "p + k + ?S < 2 ^ 32" using Cons.prems(3) by (simp add: k_def min_def)
  then obtain s2 where s2: "read_all e r n buf szs s1 = Some (Inr (take ?S (drop (p + k) xs), s2))"
      "file_open s2 n xs (min (p + k + ?S) (length xs))"
    using Cons.IH [OF s1(2) Cons.prems(2)] Cons.prems(4) s1(4) by auto
  have uk: "unat (of_nat k :: u32) = k" using Cons.prems(2) by (intro unat_of_nat_u32) (simp add: k_def)
  have "take k (drop p xs) @ take ?S (drop (p + k) xs) = take (unat sz + ?S) (drop p xs)"
  proof (cases "unat sz \<le> length xs - p")
    case True
    then have "k = unat sz" by (simp add: k_def)
    then show ?thesis by (simp add: take_add add.commute)
  next
    case False
    then have "k = length xs - p" by (simp add: k_def)
    then show ?thesis using False p by simp
  qed
  moreover have "min (p + k + ?S) (length xs) = min (p + (unat sz + ?S)) (length xs)"
    using p by (auto simp: k_def min_def)
  ultimately show ?case
    using s1 s2 uk by (simp add: usr_read_call)
qed

section \<open>Descriptors of new files\<close>

text \<open>The lowest number that is free: behind the list or of a closed file.\<close>

definition fd_free :: "open_file list \<Rightarrow> nat \<Rightarrow> bool" where
  "fd_free ds i \<longleftrightarrow> length ds \<le> i \<or> of_file (ds ! i) = 0"

definition lowest_free :: "open_file list \<Rightarrow> nat \<Rightarrow> bool" where
  "lowest_free ds i \<longleftrightarrow> i \<le> length ds \<and> fd_free ds i \<and> (\<forall>j < i. \<not> fd_free ds j)"

lemma fd_search_props:
  "ds \<noteq> [] \<Longrightarrow> fd_search ds < length ds \<and> (\<forall>j < fd_search ds. of_file (ds ! j) \<noteq> 0)
    \<and> (of_file (ds ! fd_search ds) \<noteq> 0 \<longrightarrow> fd_search ds + 1 = length ds)"
proof (induction ds rule: fd_search.induct)
  case (1 d d' ds)
  show ?case
  proof (cases "of_file d = 0")
    case False
    with 1 have IH: "fd_search (d' # ds) < length (d' # ds)" "\<forall>j < fd_search (d' # ds). of_file ((d' # ds) ! j) \<noteq> 0"
      "of_file ((d' # ds) ! fd_search (d' # ds)) \<noteq> 0 \<longrightarrow> fd_search (d' # ds) + 1 = length (d' # ds)" by simp_all
    have "of_file ((d # d' # ds) ! j) \<noteq> 0" if "j < fd_search (d' # ds) + 1" for j
      using that False IH(2) by (cases j) simp_all
    with IH False show ?thesis by simp
  qed simp
qed simp_all

lemma install_fd_lowest:
  fixes s :: "'a kstate_scheme"
  assumes "install_fd fp s = Some (Inr (r, s'))" "fp \<noteq> 0"
  shows "\<exists>i a. r = of_nat i \<and> lowest_free (fd (cur s)) i \<and> current s' = current s
    \<and> fd (cur s') = (if i < length (fd (cur s)) then (fd (cur s))[i := \<lparr>of_addr = a, of_file = fp, of_ptr = 0\<rparr>]
        else fd (cur s) @ [\<lparr>of_addr = a, of_file = fp, of_ptr = 0\<rparr>])"
proof -
  let ?ds = "fd (cur s)" and ?i = "fd_search (fd (cur s))"
  have km: "current s1 = current s \<and> p_list s1 = p_list s" if "kmalloc 12 s = Some (Inr (a, s1))" for a and s1 :: "'a kstate_scheme"
    using kstate_fields [OF kheap_more_vm [OF kmalloc_more [OF that]]] by simp
  consider (empty) "?ds = []" | (reuse) "?ds \<noteq> []" "of_file (?ds ! ?i) = 0" | (new) "?ds \<noteq> []" "of_file (?ds ! ?i) \<noteq> 0" by blast
  then show ?thesis
  proof cases
    case empty
    from assms(1) empty obtain a s1 where k: "kmalloc 12 s = Some (Inr (a, s1))" "r = 0"
      "s' = upd_proc (current s1) (\<lambda>p. p\<lparr>fd := [\<lparr>of_addr = a, of_file = fp, of_ptr = 0\<rparr>]\<rparr>) s1"
      by (auto simp: install_fd_def Let_def bind_out_eq)
    then show ?thesis using empty km [OF k(1)]
      by (intro exI [of _ 0] exI [of _ a]) (simp add: lowest_free_def fd_free_def)
  next
    case reuse
    from fd_search_props [OF reuse(1)] have "?i < length ?ds" "\<forall>j < ?i. of_file (?ds ! j) \<noteq> 0" by blast+
    then have "lowest_free ?ds ?i" using reuse by (simp add: lowest_free_def fd_free_def)
    moreover have r: "r = of_nat ?i" "s' = upd_fd ?i (\<lambda>d. d\<lparr>of_file := fp, of_ptr := 0\<rparr>) s"
      using assms(1) reuse by (simp_all add: install_fd_def Let_def)
    moreover have "fd (cur s') = ?ds[?i := \<lparr>of_addr = of_addr (?ds ! ?i), of_file = fp, of_ptr = 0\<rparr>]"
      unfolding r(2) by (cases "?ds ! ?i") simp
    ultimately show ?thesis using \<open>?i < length ?ds\<close>
      by (intro exI [of _ ?i] exI [of _ "of_addr (?ds ! ?i)"]) simp
  next
    case new
    from fd_search_props [OF new(1)] new(2) have i: "?i + 1 = length ?ds" "\<forall>j < ?i. of_file (?ds ! j) \<noteq> 0" by blast+
    have "of_file (?ds ! j) \<noteq> 0" if "j < length ?ds" for j
      using that i new(2) by (cases "j = ?i") auto
    then have lf: "lowest_free ?ds (length ?ds)" by (simp add: lowest_free_def fd_free_def)
    from assms(1) new obtain a s1 where k: "kmalloc 12 s = Some (Inr (a, s1))" "r = of_nat (?i + 1)"
      "s' = upd_proc (current s1) (\<lambda>p. p\<lparr>fd := fd p @ [\<lparr>of_addr = a, of_file = fp, of_ptr = 0\<rparr>]\<rparr>) s1"
      by (auto simp: install_fd_def Let_def bind_out_eq)
    have "r = of_nat (length ?ds)" unfolding k(2) i(1) ..
    then show ?thesis using k(3) lf km [OF k(1)]
      by (intro exI [of _ "length ?ds"] exI [of _ a]) simp
  qed
qed

section \<open>The path of the working directory\<close>

text \<open>The directory \<open>fp\<close> with its parents up to the root has these names, the last one first.\<close>

primrec up_path :: "'a fs_state_scheme \<Rightarrow> u32 \<Rightarrow> u8 list list \<Rightarrow> bool" where
  "up_path s fp [] \<longleftrightarrow> fp = f_root s"
| "up_path s fp (n # ns) \<longleftrightarrow>
     fp \<noteq> f_root s \<and> cstr (kmem s) (f_name s fp) n \<and> n \<noteq> [] \<and> 47 \<notin> set n \<and> up_path s (f_parent s fp) ns"

definition slashed :: "u8 list list \<Rightarrow> u8 list" where
  "slashed ns = concat (map (\<lambda>n. 47 # n) ns)"

lemma slashed_snoc: "slashed (ns @ [n]) = slashed ns @ 47 # n"
  by (simp add: slashed_def)

lemma path_names_slashed: "\<forall>n \<in> set ns. n \<noteq> [] \<and> 47 \<notin> set n \<Longrightarrow> path_names (slashed ns) = ns"
proof (induction ns)
  case (Cons n ns)
  then obtain c n' where n: "n = c # n'" "c \<noteq> 47" "47 \<notin> set n'" by (cases n) auto
  have ns: "slashed ns = [] \<or> (\<exists>ys. slashed ns = 47 # ys)" by (cases ns) (auto simp: slashed_def)
  have "takeWhile (\<lambda>x. x \<noteq> 47) (n' @ slashed ns) = n'" "dropWhile (\<lambda>x. x \<noteq> 47) (n' @ slashed ns) = slashed ns"
    using n(3) ns by (auto simp: takeWhile_append2 dropWhile_append2 intro: takeWhile_append2 [THEN trans] dropWhile_append2 [THEN trans])
  then show ?case using Cons n path_names_name [OF n(2), of "n' @ slashed ns"] by (simp add: slashed_def)
qed (simp add: slashed_def)

lemma up_path_names: "up_path s fp ns \<Longrightarrow> \<forall>n \<in> set ns. n \<noteq> [] \<and> 47 \<notin> set n"
  by (induction ns arbitrary: fp) auto

lemma up_path_set_user [simp]: "up_path (set_user m s) fp ns = up_path s fp ns"
  by (induction ns arbitrary: fp) simp_all

lemma pwd_size_slashed:
  "up_path s fp (n # ns) \<Longrightarrow> pwd_size s fp sz = Some (sz + of_nat (length (slashed (rev ns))))"
proof (induction ns arbitrary: fp n sz)
  case Nil
  then show ?case by (subst pwd_size.simps) (simp add: slashed_def)
next
  case (Cons k ns)
  then have u: "up_path s (f_parent s fp) (k # ns)" "f_parent s fp \<noteq> f_root s" by simp_all
  then have "strlen (kmem s) (f_name s (f_parent s fp)) = Some (of_nat (length k))" by (simp add: strlen_cstr)
  with u(2) Cons.IH [OF u(1)] show ?case by (subst pwd_size.simps) (simp add: slashed_snoc algebra_simps)
qed

lemma wr_bytes_at:
  assumes "length xs < 2 ^ 32"
  shows "wr_bytes m a xs x = (if in_block a (length xs) x then xs ! unat (x - a) else m x)"
proof (cases "in_block a (length xs) x")
  case True
  then have "unat (x - a) < length xs" by (simp add: in_block_def)
  from wr_bytes_nth [OF assms this, of m a] True show ?thesis by simp
next
  case False
  with wr_bytes_outside [OF assms] show ?thesis by simp
qed

text \<open>One round of the second loop: a name and the slash in front of it.\<close>

lemma copy_name_slash:
  assumes "length xs + length n + 1 < 2 ^ 32" "\<And>i. i < length n \<Longrightarrow> km (src + of_nat i) = n ! i"
  shows "wr_bytes ((copy_across km (a + of_nat (length xs + 1)) src (of_nat (length n)) m)(a + of_nat (length xs) := 47)) a xs
    = wr_bytes m a (xs @ 47 # n)"
proof
  fix x
  define k where "k = unat (x - a)"
  have x: "x = a + of_nat k" by (simp add: k_def)
  have kb: "k < 2 ^ 32" unfolding k_def by simp
  have ib: "in_block a l x \<longleftrightarrow> k < l" for l by (simp add: in_block_def k_def)
  have e: "x = a + of_nat (length xs) \<longleftrightarrow> k = length xs"
    unfolding x using of_nat_ne_u32 [of k "length xs"] of_nat_ne_u32 [of "length xs" k] assms(1) kb by (cases k "length xs" rule: linorder_cases) auto
  have un: "unat (of_nat (length n) :: u32) = length n" using assms(1) by (intro unat_of_nat_u32) simp
  have cp: "copy_across km (a + of_nat (length xs + 1)) src (of_nat (length n)) m x
      = (if length xs + 1 \<le> k \<and> k < length xs + 1 + length n then n ! (k - (length xs + 1)) else m x)"
  proof (cases "length xs + 1 \<le> k")
    case True
    then obtain j where j: "k = length xs + 1 + j" using le_Suc_ex by blast
    then have d: "x - (a + of_nat (length xs + 1)) = of_nat j" unfolding x by simp
    have "unat (of_nat j :: u32) = j" using j kb by (intro unat_of_nat_u32) simp
    then show ?thesis using j un assms(2) [of j] unfolding copy_across_def in_block_def d by simp
  next
    case False
    then have "of_nat k - of_nat (length xs + 1) = - (of_nat (length xs + 1 - k) :: u32)" by (simp add: of_nat_diff)
    then have d: "x - (a + of_nat (length xs + 1)) = - of_nat (length xs + 1 - k)" unfolding x by simp
    have "unat (of_nat (length xs + 1 - k) :: u32) = length xs + 1 - k" using assms(1) by (intro unat_of_nat_u32) simp
    then have "unat (- of_nat (length xs + 1 - k) :: u32) = 2 ^ 32 - (length xs + 1 - k)"
      using False unat_sub_if' [of 0 "of_nat (length xs + 1 - k) :: u32"] by simp
    then have no: "\<not> unat (- of_nat (length xs + 1 - k) :: u32) < length n" using assms(1) by linarith
    show ?thesis unfolding copy_across_def in_block_def d un by (simp only: False no if_False simp_thms)
  qed
  show "wr_bytes ((copy_across km (a + of_nat (length xs + 1)) src (of_nat (length n)) m)(a + of_nat (length xs) := 47)) a xs x
      = wr_bytes m a (xs @ 47 # n) x"
    using assms(1) cp e by (auto simp: wr_bytes_at ib nth_append nth_Cons' k_def [symmetric])
qed

lemma pwd_write_slashed:
  fixes s :: "'a fs_state_scheme"
  shows "up_path s fp ns \<Longrightarrow> length (slashed (rev ns)) < 2 ^ 31 \<Longrightarrow> mapped s buf (length (slashed (rev ns))) \<Longrightarrow>
    pwd_write buf (of_nat (length (slashed (rev ns)))) fp s
      = Some (Inr (set_user (wr_bytes (user_mem s) buf (slashed (rev ns))) s))"
proof (induction ns arbitrary: fp s)
  case Nil
  show ?case by (subst pwd_write.simps) (simp add: slashed_def set_user_def)
next
  case (Cons n ns)
  let ?xs = "slashed (rev ns)"
  let ?sz = "of_nat (length ?xs + 1 + length n) :: u32"
  have xs: "slashed (rev (n # ns)) = ?xs @ 47 # n" by (simp add: slashed_snoc)
  have len: "length ?xs + 1 + length n < 2 ^ 31" using Cons.prems(2) unfolding xs by simp
  have u: "cstr (kmem s) (f_name s fp) n" "up_path s (f_parent s fp) ns" using Cons.prems(1) by simp_all
  have usz: "unat ?sz = length ?xs + 1 + length n" using len by (intro unat_of_nat_u32) simp
  then have pos: "0 < sint ?sz" using sint_u32 [of ?sz] len by simp
  have sl: "strlen (kmem s) (f_name s fp) = Some (of_nat (length n))" by (rule strlen_cstr [OF u(1)])
  have un: "unat (of_nat (length n) :: u32) = length n" using len by (intro unat_of_nat_u32) simp
  have mp: "walk s (buf + of_nat k) \<noteq> None" if "k < length ?xs + 1 + length n" for k
    using Cons.prems(3) that unfolding xs mapped_def by simp
  have a1: "buf + ?sz - of_nat (length n) = buf + of_nat (length ?xs + 1)" by simp
  have a2: "?sz - (of_nat (length n) + 1) = of_nat (length ?xs)" by simp
  let ?m1 = "copy_across (kmem s) (buf + of_nat (length ?xs + 1)) (f_name s fp) (of_nat (length n)) (user_mem s)"
  have "mapped s (buf + of_nat (length ?xs + 1)) (length n)"
    unfolding mapped_def
  proof (intro allI impI)
    fix k assume "k < length n"
    with mp [of "length ?xs + 1 + k"] show "walk s (buf + of_nat (length ?xs + 1) + of_nat k) \<noteq> None"
      by (simp add: add.assoc)
  qed
  then have s1: "memcpy_user (buf + of_nat (length ?xs + 1)) (f_name s fp) (of_nat (length n)) s = Some (Inr (set_user ?m1 s))"
    by (intro memcpy_user_mapped) (simp only: un)
  define m2 where "m2 = ?m1(buf + of_nat (length ?xs) := 47)"
  have s2: "put_user (buf + of_nat (length ?xs)) 47 (set_user ?m1 s) = Some (Inr (set_user m2 s))"
    unfolding m2_def
    using mp [of "length ?xs"] put_user_mapped [of "set_user ?m1 s" "buf + of_nat (length ?xs)" 47] by simp
  have w: "wr_bytes m2 buf ?xs = wr_bytes (user_mem s) buf (?xs @ 47 # n)"
    unfolding m2_def by (rule copy_name_slash) (use len cstr_nth [OF u(1)] in simp_all)
  have "mapped s buf (length ?xs)" using Cons.prems(3) unfolding xs by (rule mapped_mono) simp
  then have IH: "pwd_write buf (of_nat (length ?xs)) (f_parent s fp) (set_user m2 s)
      = Some (Inr (set_user (wr_bytes (user_mem s) buf (?xs @ 47 # n)) s))"
    using Cons.IH [of "set_user m2 s" "f_parent s fp"] u(2) len w by simp
  have l: "length (?xs @ 47 # n) = length ?xs + 1 + length n" by simp
  show ?case unfolding xs l
    by (subst pwd_write.simps) (simp only: pos if_True sl bind.bind_lunit a1 a2 s1 s2 bind_out_simps set_user_fs IH)
qed

text \<open>\<open>sys_pwd\<close> as a whole.\<close>

definition pwd_text :: "u8 list list \<Rightarrow> u8 list" where
  "pwd_text ns = (if ns = [] then [47] else slashed ns)"

lemma wr_bytes_end:
  assumes "length xs + 1 < 2 ^ 32" "0 \<notin> set xs"
  shows "cstr (wr_bytes (m(a + of_nat (length xs) := 0)) a xs) a xs"
proof (rule cstrI)
  show "wr_bytes (m(a + of_nat (length xs) := 0)) a xs (a + of_nat (length xs)) = 0"
    using assms(1) by (simp add: wr_bytes_at in_block_def unat_of_nat_u32)
  show "wr_bytes (m(a + of_nat (length xs) := 0)) a xs (a + of_nat i) = xs ! i \<and> xs ! i \<noteq> 0" if "i < length xs" for i
    using that assms wr_bytes_nth [of xs i] nth_mem [OF that] by (auto simp del: nth_mem)
qed

lemma up_path_nonzero: "up_path s fp ns \<Longrightarrow> n \<in> set ns \<Longrightarrow> 0 \<notin> set n"
proof (induction ns arbitrary: fp)
  case (Cons k ns)
  then show ?case using cstr_nth [of "kmem s" "f_name s fp" k] by (auto simp: in_set_conv_nth)
qed simp

lemma sys_pwd_text:
  fixes s :: "'a fs_state_scheme"
  assumes up: "up_path s (pwd (cur s)) (rev ns)" and len: "length (pwd_text ns) < 2 ^ 31"
    and mp: "mapped s buf (length (pwd_text ns) + 1)"
  shows "\<exists>m. sys_pwd buf s = Some (Inr (set_user m s)) \<and> cstr m buf (pwd_text ns)
    \<and> (\<forall>a. \<not> in_block buf (length (pwd_text ns) + 1) a \<longrightarrow> m a = user_mem s a)"
proof (cases "ns = []")
  case True
  have w: "walk s buf \<noteq> None" "walk s (buf + 1) \<noteq> None"
    using mp True by (auto simp: mapped_def pwd_text_def dest: spec [of _ 0] spec [of _ 1])
  let ?m = "(user_mem s)(buf := 47, buf + 1 := 0)"
  have "sys_pwd buf s = Some (Inr (set_user ?m s))"
    using up True w put_user_mapped [of s buf 47] put_user_mapped [of "set_user ((user_mem s)(buf := 47)) s" "buf + 1" 0]
    by (simp add: sys_pwd_def)
  moreover have "cstr ?m buf (pwd_text ns)" by (simp add: True pwd_text_def)
  moreover have "?m a = user_mem s a" if "\<not> in_block buf (length (pwd_text ns) + 1) a" for a
    using that True by (auto simp: pwd_text_def in_block_def)
  ultimately show ?thesis by (intro exI [of _ ?m]) simp
next
  case False
  define fp where "fp = pwd (cur s)"
  from False obtain n ks where ks: "rev ns = n # ks" by (cases "rev ns") auto
  have ns: "ns = rev (n # ks)" using arg_cong [OF ks, of rev] by simp
  have t: "pwd_text ns = slashed ns" using False by (simp add: pwd_text_def)
  have u: "up_path s fp (n # ks)" using up by (simp only: fp_def ks)
  then have root: "fp \<noteq> f_root s" and sl: "strlen (kmem s) (f_name s fp) = Some (of_nat (length n))"
    by (simp_all add: strlen_cstr)
  have sz: "pwd_size s fp (of_nat (length n) + 1) = Some (of_nat (length (slashed ns)))"
    using pwd_size_slashed [OF u, of "of_nat (length n) + 1"] unfolding ns by (simp add: slashed_snoc algebra_simps)
  let ?m0 = "(user_mem s)(buf + of_nat (length (slashed ns)) := 0)"
  have p: "put_user (buf + of_nat (length (slashed ns))) 0 s = Some (Inr (set_user ?m0 s))"
    by (rule put_user_mapped) (use mp in \<open>simp add: mapped_def t\<close>)
  have "mapped s buf (length (slashed ns))" using mp unfolding t by (rule mapped_mono) simp
  then have w: "pwd_write buf (of_nat (length (slashed ns))) fp (set_user ?m0 s)
      = Some (Inr (set_user (wr_bytes ?m0 buf (slashed ns)) s))"
    using pwd_write_slashed [of "set_user ?m0 s" fp "n # ks" buf] u len unfolding t by (simp add: ns)
  have r: "sys_pwd buf s = Some (Inr (set_user (wr_bytes ?m0 buf (slashed ns)) s))"
    unfolding sys_pwd_def Let_def fp_def [symmetric]
    by (simp only: root if_False sl sz bind.bind_lunit p bind_out_simps w)
  have "0 \<notin> set (slashed ns)" using up_path_nonzero [OF u] by (auto simp: slashed_def ns)
  then have c: "cstr (wr_bytes ?m0 buf (slashed ns)) buf (pwd_text ns)"
    using wr_bytes_end [of "slashed ns"] len unfolding t by simp
  have "wr_bytes ?m0 buf (slashed ns) a = user_mem s a" if "\<not> in_block buf (length (pwd_text ns) + 1) a" for a
    using that len by (auto simp: t wr_bytes_at in_block_def unat_of_nat_u32)
  with r c show ?thesis by (intro exI [of _ "wr_bytes ?m0 buf (slashed ns)"]) simp
qed

section \<open>Properties\<close>

text \<open>A state for the witnesses: every address is mapped, descriptor 0 of the current process is a file of three
  bytes, and its working directory is \<open>/b\<close>.\<close>

definition demo_files :: fs_state where
  "demo_files = tty_state.extend
     (upd_proc 1 (\<lambda>p. p\<lparr>pwd := 0x40, fd := [\<lparr>of_addr = 0x50, of_file = 0x30, of_ptr = 0\<rparr>]\<rparr>)
       (demo_tty\<lparr>pmem := (\<lambda>_. 0x83), cr3 := 0,
         kmem := wr32 (wr_bytes (wr_bytes (\<lambda>_. 0) 0x200 [97, 98, 99]) 0x300 [98, 0]) 0x104 3, f_mmap := (\<lambda>_. 0x200)\<rparr>))
     \<lparr>f_disk = (\<lambda>_. demo_disk), f_inum = (\<lambda>_. 2), f_name = (\<lambda>_. 0x300), f_inode = (\<lambda>_. 0x100), f_parent = (\<lambda>_. 0x20),
      f_leaf = (\<lambda>_. []), f_root = 0x20\<rparr>"

lemma demo_files_sel [simp]:
  "current demo_files = 1" "f_root demo_files = 0x20" "f_parent demo_files = (\<lambda>_. 0x20)" "f_name demo_files = (\<lambda>_. 0x300)"
  "f_inode demo_files = (\<lambda>_. 0x100)" "f_mmap demo_files = (\<lambda>_. 0x200)"
  "fd (p_list demo_files (Suc 0)) = [\<lparr>of_addr = 0x50, of_file = 0x30, of_ptr = 0\<rparr>]" "pwd (p_list demo_files (Suc 0)) = 0x40"
  "kmem demo_files = wr32 (wr_bytes (wr_bytes (\<lambda>_. 0) 0x200 [97, 98, 99]) 0x300 [98, 0]) 0x104 3"
  "pmem demo_files = (\<lambda>_. 0x83)" "cr3 demo_files = 0"
  by (simp_all add: demo_files_def tty_state.defs upd_proc_def)

lemma demo_files_mapped: "mapped demo_files a n"
  by (simp add: mapped_def walk_def pde_of_def Let_def)

text \<open>C7. A program that reads an open file by any sequence of calls of \<open>read\<close>, through the stub of the C library,
  the trap and the dispatcher, gets exactly the bytes of the file, in order: the pieces are those of the buffer of
  the file from the position of the descriptor on, as many as were asked for, or up to the end of the file if that
  comes first, and the descriptor stands behind the last byte read. The hypotheses: the user buffer is mapped, and
  position and sizes do not add up to \<open>2 ^ 32\<close> or more (beyond that the comparison wraps).\<close>

theorem read_delivers_file:
  fixes s :: "'a fs_state_scheme"
  assumes "file_open s n xs p" "length xs < 2 ^ 32" "p + sum_list (map unat szs) < 2 ^ 32"
    "\<forall>sz \<in> set szs. mapped s buf (unat sz)"
  shows "\<exists>s'. read_all e r n buf szs s = Some (Inr (take (sum_list (map unat szs)) (drop p xs), s'))
      \<and> file_open s' n xs (min (p + sum_list (map unat szs)) (length xs))"
  by (rule read_all_from [OF assms])

theorem read_delivers_file_witness:
  "\<forall>e r. \<exists>s'. read_all e r 0 0x40000000 [2, 2] demo_files = Some (Inr ([97, 98, 99], s')) \<and> file_open s' 0 [97, 98, 99] 3"
proof (intro allI)
  fix e r
  have "file_open demo_files 0 [97, 98, 99] 0"
    by (simp add: file_open_def Let_def i_size_def less_Suc_eq numeral_3_eq_3, simp add: wr32_def)
  then show "\<exists>s'. read_all e r 0 0x40000000 [2, 2] demo_files = Some (Inr ([97, 98, 99], s')) \<and> file_open s' 0 [97, 98, 99] 3"
    using read_delivers_file [of demo_files 0 "[97, 98, 99]" 0 "[2, 2]" "0x40000000" e r]
    by (simp add: demo_files_mapped numeral_3_eq_3 del: read_all.simps)
qed

text \<open>C30. The descriptor that \<open>sys_open\<close> gives to a file is the lowest number that is free, where a closed descriptor
  counts as free; the entry holds the file with the position 0, and all other descriptors stay as they are.\<close>

theorem descriptor_lowest:
  fixes s :: "'a kstate_scheme"
  assumes "install_fd fp s = Some (Inr (r, s'))" "fp \<noteq> 0"
  shows "\<exists>i a. r = of_nat i \<and> lowest_free (fd (cur s)) i \<and> current s' = current s
    \<and> fd (cur s') = (if i < length (fd (cur s)) then (fd (cur s))[i := \<lparr>of_addr = a, of_file = fp, of_ptr = 0\<rparr>]
        else fd (cur s) @ [\<lparr>of_addr = a, of_file = fp, of_ptr = 0\<rparr>])"
  by (rule install_fd_lowest [OF assms])

theorem descriptor_lowest_witness:
  "\<exists>i a. (0 :: u32) = of_nat i \<and> lowest_free (fd (cur (upd_fd 0 (\<lambda>d. d\<lparr>of_file := 0\<rparr>) demo_files))) i
     \<and> fd (cur (upd_fd 0 (\<lambda>d. d\<lparr>of_file := 0x60, of_ptr := 0\<rparr>) demo_files)) = [\<lparr>of_addr = a, of_file = 0x60, of_ptr = 0\<rparr>]"
proof -
  let ?s = "upd_fd 0 (\<lambda>d. d\<lparr>of_file := 0\<rparr>) demo_files"
  let ?s' = "upd_fd 0 (\<lambda>d. d\<lparr>of_file := 0x60, of_ptr := 0\<rparr>) ?s"
  have "install_fd 0x60 ?s = Some (Inr (0, ?s'))" by (simp add: install_fd_def)
  from descriptor_lowest [OF this] show ?thesis by auto
qed

text \<open>C20. \<open>pwd\<close> writes the absolute path of the working directory: a slash in front of each of the names that lead from
  the root to it, with a terminating 0 and not a byte outside; the kernel's path walk takes it apart again into
  exactly these names, from the root.\<close>

theorem pwd_roundtrip:
  fixes s :: "'a fs_state_scheme"
  assumes "up_path s (pwd (cur s)) (rev ns)" "length (pwd_text ns) < 2 ^ 31" "mapped s buf (length (pwd_text ns) + 1)"
  shows "\<exists>m. usr_pwd e r buf s = Some (Inr (Keep, set_user m s)) \<and> cstr m buf (pwd_text ns)
    \<and> (\<forall>a. \<not> in_block buf (length (pwd_text ns) + 1) a \<longrightarrow> m a = user_mem s a)
    \<and> path_to_file io m buf (set_user m s) = walk_names io ns (f_root s) (set_user m s)"
proof -
  obtain m where m: "sys_pwd buf s = Some (Inr (set_user m s))" "cstr m buf (pwd_text ns)"
    "\<forall>a. \<not> in_block buf (length (pwd_text ns) + 1) a \<longrightarrow> m a = user_mem s a"
    using sys_pwd_text [OF assms] by blast
  have c: "usr_pwd e r buf s = Some (Inr (Keep, set_user m s))" by (simp add: usr_pwd_def int30_def do_syscalls_def m(1))
  have hd: "pwd_text ns \<noteq> []" "hd (pwd_text ns) = 47"
    by (cases ns; simp add: pwd_text_def slashed_def)+
  have "path_names (pwd_text ns) = ns"
    using path_names_slashed [of ns] up_path_names [OF assms(1)] by (simp add: pwd_text_def)
  then have "path_to_file io m buf (set_user m s) = walk_names io ns (f_root s) (set_user m s)"
    using path_to_file_names [OF m(2), of io "set_user m s"] hd assms(2) by simp
  with m(2,3) c show ?thesis by blast
qed

theorem pwd_roundtrip_witness:
  "\<forall>e r. \<exists>m. usr_pwd e r 0x40000000 demo_files = Some (Inr (Keep, set_user m demo_files)) \<and> cstr m 0x40000000 [47, 98]"
proof (intro allI)
  fix e r
  have "cstr (kmem demo_files) 0x300 [98]" by (simp add: wr32_def)
  then have "up_path demo_files (pwd (cur demo_files)) (rev [[98]])" by simp
  then show "\<exists>m. usr_pwd e r 0x40000000 demo_files = Some (Inr (Keep, set_user m demo_files)) \<and> cstr m 0x40000000 [47, 98]"
    using pwd_roundtrip [of demo_files "[[98]]" "0x40000000" e r "e_io e"]
    by (auto simp: demo_files_mapped pwd_text_def slashed_def)
qed

end
