(* ===== verification/Usr_Malloc.thy ===== *)
theory Usr_Malloc
  imports Syscalls
begin

text \<open>
  The allocator of user programs, \<^verbatim>\<open>usr/libc/malloc.c\<close>, on the memory of the process, with its two static
  variables; it grows the heap through the stub \<open>sbrk\<close> and the system call. The layout of the heap is that of theory
  \<open>Chunks\<close>, and the contract the one that the kernel's allocator fulfils (\<open>block_allocator\<close>). User memory is read
  and written without page faults: a fault in user space is served by \<open>isr_PF_exc\<close> and the access repeated.
\<close>

section \<open>The code\<close>

record prog_state = fs_state +
  lc_b_heap :: u32
  lc_e_heap :: u32

definition sbrk_call :: "env \<Rightarrow> trap \<Rightarrow> u32 \<Rightarrow> 'a fs_state_scheme \<Rightarrow> (u32 \<times> 'a fs_state_scheme) out" where
  "sbrk_call e r n s =
     bind_out (usr_sbrk e r n s) (\<lambda>(v, s1). case v of Eax a \<Rightarrow> Some (Inr (a, s1)) | _ \<Rightarrow> None)"

definition malloc_size :: "u32 \<Rightarrow> u32" where
  "malloc_size sz =
     (let realsize = 4 + sz; i = realsize mod 16 in if i \<noteq> 0 then realsize - i + 16 else realsize)"

definition new_chunk :: "u32 \<Rightarrow> u32 \<Rightarrow> 'a kstate_scheme \<Rightarrow> 'a kstate_scheme" where
  "new_chunk bl realsize s = set_user (set_used bl False (set_size bl realsize (user_mem s))) s"

text \<open>The search; \<open>None\<close> as the first result: \<open>malloc\<close> returns -1. The test \<open>sbrk(realsize) < 0\<close> on a pointer is an
  unsigned comparison.\<close>

partial_function (option) malloc_loop ::
    "env \<Rightarrow> trap \<Rightarrow> u32 \<Rightarrow> u32 \<Rightarrow> 'a prog_state_scheme \<Rightarrow> (u32 option \<times> 'a prog_state_scheme) out" where
  "malloc_loop e r realsize bl s =
     (if hdr_used (user_mem s) bl \<or> hdr_size (user_mem s) bl < realsize
      then let bl' = bl + hdr_size (user_mem s) bl
           in if bl' = lc_e_heap s
              then bind_out (sbrk_call e r realsize s) (\<lambda>as.
                   let a = fst as; s1 = (snd as)\<lparr>lc_e_heap := a\<rparr>
                   in if a < 0 then Some (Inr (None, s1))
                      else malloc_loop e r realsize a ((new_chunk a realsize s1)\<lparr>lc_e_heap := a + realsize\<rparr>))
              else if bl' > lc_e_heap s then Some (Inr (None, s))
              else malloc_loop e r realsize bl' s
      else Some (Inr (Some bl, s)))"

definition malloc :: "env \<Rightarrow> trap \<Rightarrow> u32 \<Rightarrow> 'a prog_state_scheme \<Rightarrow> (u32 \<times> 'a prog_state_scheme) out" where
  "malloc e r sz s =
     (let realsize = malloc_size sz
      in bind_out
           (if lc_b_heap s = 0
            then bind_out (sbrk_call e r realsize s) (\<lambda>(a, s1).
                 if a = - 1 then Some (Inr (None, s1\<lparr>lc_b_heap := a\<rparr>))
                 else Some (Inr (Some a, (new_chunk a realsize s1)\<lparr>lc_b_heap := a, lc_e_heap := a + realsize\<rparr>)))
            else malloc_loop e r realsize (lc_b_heap s) s) (\<lambda>(b, s2).
         case b of
           None \<Rightarrow> Some (Inr (- 1, s2))
         | Some bl \<Rightarrow> Some (Inr (bl + 4, set_user (place bl realsize (user_mem s2)) s2))))"

definition usr_free :: "u32 \<Rightarrow> 'a prog_state_scheme \<Rightarrow> 'a prog_state_scheme out" where
  "usr_free v_addr s =
     (let bl = v_addr - 4
      in bind_out (coalesce (\<lambda>_. True) (lc_e_heap s) bl (user_mem s)) (\<lambda>m.
         Some (Inr (set_user (set_used bl False m) s))))"

section \<open>The invariant\<close>

text \<open>The libc's end of the heap is the one the kernel keeps for the process; the heap ends below \<open>2 ^ 31\<close>.\<close>

definition brk :: "'a kstate_scheme \<Rightarrow> nat" where
  "brk s = unat (e_heap (cur s))"

definition uheap :: "'a prog_state_scheme \<Rightarrow> chunk list \<Rightarrow> bool" where
  "uheap s cs \<longleftrightarrow> 0 < brk s \<and> brk s < 2 ^ 31
     \<and> (if lc_b_heap s = 0 then cs = []
        else cs \<noteq> [] \<and> unat (lc_e_heap s) = brk s \<and> chunks (user_mem s) (unat (lc_b_heap s)) cs (brk s))"

definition ublocks :: "'a prog_state_scheme \<Rightarrow> (nat \<times> nat) set \<Rightarrow> bool" where
  "ublocks s B \<longleftrightarrow> (\<exists>cs. uheap s cs \<and> B = used_blocks (unat (lc_b_heap s)) cs)"

text \<open>The size of the chunk that a request takes, and when the heap can grow by it.\<close>

definition usize :: "u32 \<Rightarrow> nat" where
  "usize sz = 16 * ((4 + unat sz + 15) div 16)"

definition uroom :: "u32 \<Rightarrow> 'a kstate_scheme \<Rightarrow> bool" where
  "uroom sz s \<longleftrightarrow> brk s + usize sz < 2 ^ 31"

lemma usize_bounds: "16 \<le> usize sz" "4 + unat sz \<le> usize sz"
proof -
  have "4 + unat sz + 15 = 16 * ((4 + unat sz + 15) div 16) + (4 + unat sz + 15) mod 16" by simp
  moreover have "(4 + unat sz + 15) mod 16 < 16" by simp
  ultimately show "4 + unat sz \<le> usize sz" unfolding usize_def by linarith
  then show "16 \<le> usize sz" unfolding usize_def by presburger
qed

lemma malloc_size_word:
  assumes "usize sz < 2 ^ 32"
  shows "malloc_size sz = of_nat (usize sz)"
proof -
  define n where "n = 4 + unat sz"
  define k where "k = n mod 16"
  have n: "n < 2 ^ 32" using assms usize_bounds(2) [of sz] unfolding n_def by linarith
  have w: "4 + sz = of_nat n" by (simp add: n_def)
  have un: "unat (of_nat n :: u32) = n" using n by (rule unat_of_nat_u32)
  have k: "k < 16" "k \<le> n" by (simp_all add: k_def)
  then have uk: "unat (of_nat k :: u32) = k" using n by (intro unat_of_nat_u32) linarith
  have m: "(of_nat n :: u32) mod 16 = of_nat k"
    unfolding word_unat_eq_iff uk unat_mod un by (simp add: k_def)
  have z: "(of_nat k :: u32) = 0 \<longleftrightarrow> k = 0" unfolding word_unat_eq_iff uk by simp
  have "(n + 15) div 16 = (if k = 0 then n div 16 else n div 16 + 1)" unfolding k_def by presburger
  moreover have "16 * (n div 16) = n - k" unfolding k_def by (simp add: minus_mod_eq_mult_div)
  ultimately have e: "usize sz = (if k = 0 then n else n - k + 16)"
    unfolding usize_def n_def [symmetric] by simp
  have "of_nat (n - k + 16) = of_nat n - of_nat k + (16 :: u32)" using k(2) by (simp add: of_nat_diff)
  then show ?thesis unfolding malloc_size_def Let_def w m z e by simp
qed

lemma sbrk_call_eq:
  "sbrk_call e r n s = Some (Inr (e_heap (cur s), upd_proc (current s) (\<lambda>p. p\<lparr>e_heap := e_heap p + n\<rparr>) s))"
  by (simp add: sbrk_call_def usr_sbrk_def int30_def do_syscalls_def sys_sbrk_def)

lemma cur_upd_proc [simp]: "p_list (upd_proc n f s) n = f (p_list s n)" "current (upd_proc n f s) = current s"
  "umem (upd_proc n f s) = umem s" "cr3 (upd_proc n f s) = cr3 s"
  by (simp_all add: upd_proc_def)

lemma brk_set_user [simp]: "brk (set_user m s) = brk s" "brk (s\<lparr>lc_b_heap := x, lc_e_heap := y\<rparr>) = brk s"
  "brk (s\<lparr>lc_e_heap := y\<rparr>) = brk s"
  by (simp_all add: brk_def)

lemma set_user_lc [simp]: "lc_b_heap (set_user m s) = lc_b_heap s" "lc_e_heap (set_user m s) = lc_e_heap s"
  by (simp_all add: set_user_def)

lemma upd_proc_lc [simp]: "lc_b_heap (upd_proc n f s) = lc_b_heap s" "lc_e_heap (upd_proc n f s) = lc_e_heap s"
  by (simp_all add: upd_proc_def)

lemma brk_nat: "e_heap (cur s) = of_nat (brk s)"
  by (simp add: brk_def)

text \<open>A chunk behind the end of the heap.\<close>

lemma new_chunk_header:
  assumes "e + rs < 2 ^ 31" "MINSIZE \<le> rs"
  shows "chunks (set_used (of_nat e) False (set_size (of_nat e) (of_nat rs) m)) e [(rs, False)] (e + rs)"
    "agree_outside e (e + rs) m (set_used (of_nat e) False (set_size (of_nat e) (of_nat rs) m))"
proof -
  have "rs < 2 ^ 31" using assms(1) by linarith
  then have "unat (of_nat rs AND (0x7FFFFFFF :: u32)) = rs"
    unfolding size_field [OF \<open>rs < 2 ^ 31\<close>] by (intro unat_of_nat_u32) simp
  then show "chunks (set_used (of_nat e) False (set_size (of_nat e) (of_nat rs) m)) e [(rs, False)] (e + rs)"
    using assms(2) by simp
  show "agree_outside e (e + rs) m (set_used (of_nat e) False (set_size (of_nat e) (of_nat rs) m))"
    using assms by (intro agree_outside_set) simp_all
qed

lemma chunks_below:
  assumes "chunks m a cs e" "agree_outside e c m m'" "e \<le> 2 ^ 32"
  shows "chunks m' a cs e"
proof (subst chunks_cong [where m = m])
  fix p assume "p \<in> set (starts a cs)"
  from starts_bounds [OF assms(1) this] show "rd32 m' (of_nat p) = rd32 m (of_nat p)"
    using assms(3) by (intro agree_outside_rd32 [OF assms(2)]) auto
qed (rule assms(1))

text \<open>The state after \<open>sbrk\<close> and the header of the new chunk.\<close>

definition grown_to :: "nat \<Rightarrow> 'a prog_state_scheme \<Rightarrow> 'a prog_state_scheme" where
  "grown_to rs s = (new_chunk (e_heap (cur s)) (of_nat rs) (upd_proc (current s) (\<lambda>p. p\<lparr>e_heap := e_heap p + of_nat rs\<rparr>) s))
     \<lparr>lc_e_heap := e_heap (cur s) + of_nat rs\<rparr>"

lemma grown_to_props:
  fixes s :: "'a prog_state_scheme"
  assumes r: "brk s + rs < 2 ^ 31" "MINSIZE \<le> rs"
  shows "brk (grown_to rs s) = brk s + rs" "unat (lc_e_heap (grown_to rs s)) = brk s + rs"
    "lc_b_heap (grown_to rs s) = lc_b_heap s"
    "chunks (user_mem (grown_to rs s)) (brk s) [(rs, False)] (brk s + rs)"
    "agree_outside (brk s) (brk s + rs) (user_mem s) (user_mem (grown_to rs s))"
proof -
  have u: "unat (of_nat (brk s) + of_nat rs :: u32) = brk s + rs"
    using r(1) unat_of_nat_u32 [of "brk s + rs"] by simp
  have "brk (grown_to rs s) = unat (e_heap (cur s) + of_nat rs)" "lc_e_heap (grown_to rs s) = e_heap (cur s) + of_nat rs"
    by (simp_all add: grown_to_def new_chunk_def brk_def)
  then show "brk (grown_to rs s) = brk s + rs" "unat (lc_e_heap (grown_to rs s)) = brk s + rs"
    unfolding brk_nat by (simp_all only: u)
  show "lc_b_heap (grown_to rs s) = lc_b_heap s" by (simp add: grown_to_def new_chunk_def)
  have m: "user_mem (grown_to rs s) = set_used (of_nat (brk s)) False (set_size (of_nat (brk s)) (of_nat rs) (user_mem s))"
    unfolding brk_nat [symmetric] by (simp add: grown_to_def new_chunk_def)
  show "chunks (user_mem (grown_to rs s)) (brk s) [(rs, False)] (brk s + rs)"
    "agree_outside (brk s) (brk s + rs) (user_mem s) (user_mem (grown_to rs s))"
    unfolding m by (rule new_chunk_header [OF r])+
qed

lemma uheap_grown:
  assumes "uheap s cs" "lc_b_heap s \<noteq> 0" "brk s + rs < 2 ^ 31" "MINSIZE \<le> rs"
  shows "uheap (grown_to rs s) (cs @ [(rs, False)])"
proof -
  note g = grown_to_props [OF assms(3,4)]
  have c: "chunks (user_mem s) (unat (lc_b_heap s)) cs (brk s)" "0 < brk s" using assms(1,2) by (simp_all add: uheap_def)
  have "chunks (user_mem (grown_to rs s)) (unat (lc_b_heap s)) cs (brk s)"
    by (rule chunks_below [OF c(1) g(5)]) (use assms(3) in simp)
  then have "chunks (user_mem (grown_to rs s)) (unat (lc_b_heap s)) (cs @ [(rs, False)]) (brk s + rs)"
    using g(4) chunks_end [OF c(1)] by (simp only: chunks_append)
  then show ?thesis using assms c(2) g(1-3) by (simp add: uheap_def)
qed

section \<open>Refinement\<close>

definition uready :: "nat \<Rightarrow> chunk list \<Rightarrow> chunk list" where
  "uready rs cs = (if list_all (unfit rs) cs then cs @ [(rs, False)] else cs)"

lemma uready_split: "\<exists>sz ys. uready rs cs = takeWhile (unfit rs) cs @ (sz, False) # ys \<and> rs \<le> sz"
proof (cases "list_all (unfit rs) cs")
  case True
  then have t: "takeWhile (unfit rs) cs = cs" by (simp add: list_all_iff)
  show ?thesis unfolding t using True by (intro exI [of _ rs] exI [of _ "[]"]) (simp add: uready_def)
next
  case False
  then have "dropWhile (unfit rs) cs \<noteq> []" by (auto simp: list_all_iff dropWhile_eq_Nil_conv)
  then obtain c ys where d: "dropWhile (unfit rs) cs = c # ys" by (cases "dropWhile (unfit rs) cs") auto
  then have "\<not> unfit rs c" by (metis dropWhile_eq_Cons_conv)
  then obtain sz where c: "c = (sz, False)" and sz: "rs \<le> sz" by (cases c) (auto simp: unfit_def)
  have "cs = takeWhile (unfit rs) cs @ (sz, False) # ys"
    using takeWhile_dropWhile_id [of "unfit rs" cs] d c by simp
  moreover have "uready rs cs = cs" using False unfolding uready_def by (simp only: if_False)
  ultimately show ?thesis using sz by auto
qed

lemma used_blocks_uready: "used_blocks a (uready rs cs) = used_blocks a cs"
  by (simp add: uready_def used_blocks_append)

lemma malloc_loop_step:
  fixes s :: "'a prog_state_scheme"
  assumes u: "uheap s (xs @ (sz, f) # ys)" and b: "lc_b_heap s \<noteq> 0" "b = unat (lc_b_heap s)" and rs: "rs < 2 ^ 32"
  shows "malloc_loop e r (of_nat rs) (of_nat (b + heap_bytes xs)) s =
    (if unfit rs (sz, f)
     then if ys = [] then malloc_loop e r (of_nat rs) (e_heap (cur s)) (grown_to rs s)
          else malloc_loop e r (of_nat rs) (of_nat (b + heap_bytes (xs @ [(sz, f)]))) s
     else Some (Inr (Some (of_nat (b + heap_bytes xs)), s)))"
proof -
  let ?b = "of_nat (b + heap_bytes xs) :: u32"
  let ?o = "of_nat (b + heap_bytes (xs @ [(sz, f)])) :: u32"
  from u b have c: "chunks (user_mem s) (b + heap_bytes xs) ((sz, f) # ys) (brk s)" and lim: "brk s < 2 ^ 31"
    and eh: "unat (lc_e_heap s) = brk s"
    by (simp_all add: uheap_def chunks_append)
  then have sz: "unat (hdr_size (user_mem s) ?b) = sz" "hdr_used (user_mem s) ?b = f" "MINSIZE \<le> sz"
    and cy: "chunks (user_mem s) (b + heap_bytes xs + sz) ys (brk s)"
    by (simp_all del: of_nat_add)
  have h: "brk s = b + heap_bytes xs + sz + heap_bytes ys" using chunks_end [OF cy] by simp
  have lt: "hdr_size (user_mem s) ?b < of_nat rs \<longleftrightarrow> sz < rs"
    using rs sz(1) by (simp add: word_less_nat_alt unat_of_nat_u32 del: of_nat_add)
  have "?b + of_nat (unat (hdr_size (user_mem s) ?b)) = ?o" unfolding sz(1) by simp
  then have other: "?b + hdr_size (user_mem s) ?b = ?o" by (simp del: of_nat_add)
  have uo: "unat ?o = b + heap_bytes xs + sz"
    using lim h by (subst unat_of_nat_u32) simp_all
  have "?o = lc_e_heap s \<longleftrightarrow> heap_bytes ys = 0" unfolding word_unat_eq_iff uo eh h by simp
  also have "\<dots> \<longleftrightarrow> ys = []" using cy by (cases ys) auto
  finally have last: "?o = lc_e_heap s \<longleftrightarrow> ys = []" .
  have below: "\<not> lc_e_heap s < ?o" unfolding word_less_nat_alt uo eh h by simp
  have dead: "(a < (0 :: u32)) = False" for a by simp
  have gr: "(new_chunk (e_heap (cur s)) (of_nat rs) ((upd_proc (current s) (\<lambda>p. p\<lparr>e_heap := e_heap p + of_nat rs\<rparr>) s)\<lparr>lc_e_heap := e_heap (cur s)\<rparr>))
      \<lparr>lc_e_heap := e_heap (cur s) + of_nat rs\<rparr> = grown_to rs s"
    by (simp add: grown_to_def new_chunk_def set_user_def)
  show ?thesis
    unfolding malloc_loop.simps [of e r "of_nat rs" ?b s] Let_def unfit_def sz(2) other lt last
      fst_conv snd_conv dead sbrk_call_eq bind_out_simps if_False gr using below
    by (simp only: simp_thms if_True if_False not_False_eq_True not_True_eq_False)
qed

lemma malloc_loop_ready:
  fixes s :: "'a prog_state_scheme"
  assumes "uheap s (xs @ ys)" "ys \<noteq> []" "lc_b_heap s \<noteq> 0" "MINSIZE \<le> rs" "rs < 2 ^ 32"
    and "list_all (unfit rs) ys \<longrightarrow> brk s + rs < 2 ^ 31"
  shows "\<exists>s'. malloc_loop e r (of_nat rs) (of_nat (unat (lc_b_heap s) + heap_bytes xs)) s =
      Some (Inr (Some (of_nat (unat (lc_b_heap s) + heap_bytes (xs @ takeWhile (unfit rs) ys))), s'))
    \<and> uheap s' (xs @ uready rs ys) \<and> lc_b_heap s' = lc_b_heap s \<and> brk s \<le> brk s'
    \<and> agree_outside (brk s) (brk s') (user_mem s) (user_mem s')"
  using assms
proof (induction ys arbitrary: xs)
  case (Cons y ys)
  obtain sz f where y: "y = (sz, f)" by fastforce
  note step = malloc_loop_step [where e = e and r = r, OF Cons.prems(1) [unfolded y] Cons.prems(3) refl Cons.prems(5)]
  consider "\<not> unfit rs y" | "unfit rs y" "ys = []" | "unfit rs y" "ys \<noteq> []" by blast
  then show ?case
  proof cases
    case 1
    with Cons.prems y step show ?thesis by (intro exI [of _ s]) (simp add: uready_def)
  next
    case 2
    with Cons.prems(6) have room: "brk s + rs < 2 ^ 31" by simp
    note g = grown_to_props [OF room Cons.prems(4)]
    have ug: "uheap (grown_to rs s) ((xs @ [(sz, f)]) @ [(rs, False)])"
      using uheap_grown [OF Cons.prems(1,3) room Cons.prems(4)] 2 y by simp
    have e: "unat (lc_b_heap s) + heap_bytes (xs @ [(sz, f)]) = brk s"
      using Cons.prems(1,3) 2 y chunks_end unfolding uheap_def by fastforce
    have "\<not> unfit rs (rs, False)" by (simp add: unfit_def)
    then have "malloc_loop e r (of_nat rs) (e_heap (cur s)) (grown_to rs s) = Some (Inr (Some (of_nat (brk s)), grown_to rs s))"
      using malloc_loop_step [where e = e and r = r, OF ug _ refl Cons.prems(5)] Cons.prems(3)
      unfolding g(3) e brk_nat by (simp only: if_False not_False_eq_True)
    then have "malloc_loop e r (of_nat rs) (of_nat (unat (lc_b_heap s) + heap_bytes xs)) s
        = Some (Inr (Some (of_nat (unat (lc_b_heap s) + heap_bytes (xs @ [y]))), grown_to rs s))"
      using step 2 y e by simp
    then show ?thesis using 2 ug g y by (intro exI [of _ "grown_to rs s"]) (simp add: uready_def)
  next
    case 3
    have "uheap s ((xs @ [y]) @ ys)" using Cons.prems(1) by simp
    moreover have "list_all (unfit rs) ys \<longrightarrow> brk s + rs < 2 ^ 31" using Cons.prems(6) 3 by simp
    moreover have "uready rs (y # ys) = y # uready rs ys" using 3 by (simp add: uready_def)
    ultimately show ?thesis using Cons.IH [of "xs @ [y]"] 3 Cons.prems(3-5) step unfolding y by simp
  qed
qed simp

lemma place_uheap:
  fixes s :: "'a prog_state_scheme"
  assumes u: "uheap s (xs @ (sz, False) # ys)" and rs: "rs \<le> sz" "MINSIZE \<le> rs"
    and b: "lc_b_heap s \<noteq> 0" "a = unat (lc_b_heap s)" "b = a + heap_bytes xs"
  defines "s' \<equiv> set_user (place (of_nat b) (of_nat rs) (user_mem s)) s"
  shows "uheap s' (xs @ carve rs sz @ ys)"
    "same_data (used_blocks a xs \<union> used_blocks (b + sz) ys) (user_mem s) (user_mem s')"
proof -
  let ?m = "place (of_nat b) (of_nat rs) (user_mem s)"
  from u b have c: "chunks (user_mem s) a (xs @ [(sz, False)] @ ys) (brk s)" and lim: "brk s < 2 ^ 31"
    by (simp_all add: uheap_def)
  have h: "brk s = b + sz + heap_bytes ys" using chunks_end [OF c] b by simp
  have c1: "chunks (user_mem s) b [(sz, False)] (b + sz)" using c b by (simp add: chunks_append)
  have b31: "b + sz < 2 ^ 31" using lim h by simp
  note pl = place_chunks [OF c1 b31 rs]
  have "chunks ?m a (xs @ carve rs sz @ ys) (brk s)"
    using chunks_replace [OF c _ b(3) _ pl(2), of "carve rs sz"] pl(1) lim by (simp add: carve_def)
  then show "uheap s' (xs @ carve rs sz @ ys)" using u b by (simp add: uheap_def s'_def)
  have "agree_outside b (b + sz + absorbed ys) (user_mem s) ?m" using pl(2) by (auto simp: agree_outside_def)
  then have "same_data (used_blocks a xs \<union> used_blocks (b + sz) ys) (user_mem s) ?m"
    using same_data_free [of "user_mem s" a xs sz False ys "brk s" b ?m] c lim b(3) by simp
  then show "same_data (used_blocks a xs \<union> used_blocks (b + sz) ys) (user_mem s) (user_mem s')" by (simp add: s'_def)
qed

text \<open>The heap before the block is taken: one of the old chunks fits, or a new one was made.\<close>

lemma malloc_found:
  fixes s :: "'a prog_state_scheme"
  assumes u: "uheap s cs" and room: "uroom sz s" and a0: "a0 = (if lc_b_heap s = 0 then brk s else unat (lc_b_heap s))"
  shows "\<exists>s1 xs z ys. malloc e r sz s = Some (Inr (of_nat (a0 + heap_bytes xs + 4),
        set_user (place (of_nat (a0 + heap_bytes xs)) (of_nat (usize sz)) (user_mem s1)) s1))
    \<and> uheap s1 (xs @ (z, False) # ys) \<and> usize sz \<le> z \<and> unat (lc_b_heap s1) = a0 \<and> lc_b_heap s1 \<noteq> 0
    \<and> used_blocks a0 (xs @ (z, False) # ys) = used_blocks (unat (lc_b_heap s)) cs
    \<and> same_data (used_blocks (unat (lc_b_heap s)) cs) (user_mem s) (user_mem s1)"
proof -
  let ?rs = "usize sz"
  have rs: "?rs < 2 ^ 32" "brk s + ?rs < 2 ^ 31" using room by (simp_all add: uroom_def)
  note ms = malloc_size_word [OF rs(1)] and rs16 = usize_bounds(1) [of sz]
  show ?thesis
  proof (cases "lc_b_heap s = 0")
    case True
    have cs: "cs = []" and bp: "0 < brk s" using u True by (simp_all add: uheap_def)
    define t where "t = (grown_to ?rs s)\<lparr>lc_b_heap := e_heap (cur s)\<rparr>"
    note g = grown_to_props [OF rs(2) rs16]
    have t: "lc_b_heap t = of_nat (brk s)" "lc_e_heap t = lc_e_heap (grown_to ?rs s)" "brk t = brk s + ?rs"
      "user_mem t = user_mem (grown_to ?rs s)"
      using g(1) by (simp_all add: t_def brk_nat, simp add: brk_def)
    have ub: "unat (of_nat (brk s) :: u32) = brk s" using rs(2) by (intro unat_of_nat_u32) simp
    then have b0: "lc_b_heap t \<noteq> 0" using bp t(1) by auto
    have ut: "uheap t ([] @ (?rs, False) # [])" using g(2,4) b0 bp rs(2) ub t by (simp add: uheap_def)
    have ne: "e_heap (cur s) \<noteq> - 1"
    proof
      assume "e_heap (cur s) = - 1"
      then have "brk s = 4294967295" unfolding brk_def using unat_minus_one_u32 by simp
      then show False using rs(2) by simp
    qed
    have "(new_chunk (e_heap (cur s)) (of_nat ?rs) (upd_proc (current s) (\<lambda>p. p\<lparr>e_heap := e_heap p + of_nat ?rs\<rparr>) s))
        \<lparr>lc_b_heap := e_heap (cur s), lc_e_heap := e_heap (cur s) + of_nat ?rs\<rparr> = t"
      by (simp add: t_def grown_to_def new_chunk_def set_user_def)
    then have "malloc e r sz s = Some (Inr (of_nat (brk s) + 4, set_user (place (of_nat (brk s)) (of_nat ?rs) (user_mem t)) t))"
      using True ne unfolding malloc_def Let_def ms sbrk_call_eq by (simp add: brk_nat)
    moreover have "a0 = brk s" using True a0 by simp
    moreover have "same_data {} (user_mem s) (user_mem t)" by (simp add: same_data_def)
    ultimately show ?thesis using ut b0 t(1) ub cs
      by (intro exI [of _ t] exI [of _ "[]"] exI [of _ ?rs]) (simp add: add.commute)
  next
    case False
    have cs: "cs \<noteq> []" "chunks (user_mem s) a0 cs (brk s)" "brk s < 2 ^ 31" using u False a0 by (simp_all add: uheap_def)
    obtain s1 where s1: "malloc_loop e r (of_nat ?rs) (lc_b_heap s) s =
        Some (Inr (Some (of_nat (a0 + heap_bytes (takeWhile (unfit ?rs) cs))), s1))"
      "uheap s1 (uready ?rs cs)" "lc_b_heap s1 = lc_b_heap s" "agree_outside (brk s) (brk s1) (user_mem s) (user_mem s1)"
      using malloc_loop_ready [of s "[]" cs ?rs e r] u cs(1) False rs rs16 a0 by auto
    obtain z ys where zy: "uready ?rs cs = takeWhile (unfit ?rs) cs @ (z, False) # ys" "?rs \<le> z" using uready_split by blast
    have "malloc e r sz s = Some (Inr (of_nat (a0 + heap_bytes (takeWhile (unfit ?rs) cs)) + 4,
        set_user (place (of_nat (a0 + heap_bytes (takeWhile (unfit ?rs) cs))) (of_nat ?rs) (user_mem s1)) s1))"
      using False s1(1) unfolding malloc_def Let_def ms by simp
    moreover have "used_blocks a0 (takeWhile (unfit ?rs) cs @ (z, False) # ys) = used_blocks a0 cs"
      using used_blocks_uready [of a0 ?rs cs] unfolding zy(1) .
    moreover have "same_data (used_blocks a0 cs) (user_mem s) (user_mem s1)"
    proof (rule same_data_outside [OF s1(4)])
      fix p n assume "(p, n) \<in> used_blocks a0 cs"
      from used_blocks_bounds [OF cs(2) this] cs(3) show "(p + n \<le> brk s \<or> brk s1 \<le> p) \<and> p + n \<le> 2 ^ 32" by simp
    qed
    ultimately show ?thesis using s1(2,3) zy False a0
      by (intro exI [of _ s1] exI [of _ "takeWhile (unfit ?rs) cs"] exI [of _ z] exI [of _ ys]) (simp add: add.assoc)
  qed
qed

section \<open>The contract\<close>

lemma malloc_ublocks:
  fixes s :: "'a prog_state_scheme"
  assumes "ublocks s B" and room: "uroom sz s"
  shows "\<exists>p n s'. malloc e r sz s = Some (Inr (of_nat p, s')) \<and> ublocks s' (insert (p, n) B) \<and> (p, n) \<notin> B
    \<and> unat sz \<le> n \<and> same_data B (user_mem s) (user_mem s')"
proof -
  obtain cs where cs: "uheap s cs" "B = used_blocks (unat (lc_b_heap s)) cs" using assms(1) by (auto simp: ublocks_def)
  let ?rs = "usize sz"
  note rs = usize_bounds [of sz]
  define a0 where "a0 = (if lc_b_heap s = 0 then brk s else unat (lc_b_heap s))"
  obtain s1 xs z ys where m: "malloc e r sz s = Some (Inr (of_nat (a0 + heap_bytes xs + 4),
        set_user (place (of_nat (a0 + heap_bytes xs)) (of_nat ?rs) (user_mem s1)) s1))"
    and u: "uheap s1 (xs @ (z, False) # ys)" "?rs \<le> z" "unat (lc_b_heap s1) = a0" "lc_b_heap s1 \<noteq> 0"
    and B: "used_blocks a0 (xs @ (z, False) # ys) = B" "same_data B (user_mem s) (user_mem s1)"
    using malloc_found [where e = e and r = r, OF cs(1) room a0_def] unfolding cs(2) [symmetric] by (elim exE conjE) (rule that)
  define b where "b = a0 + heap_bytes xs"
  define s' where "s' = set_user (place (of_nat b) (of_nat ?rs) (user_mem s1)) s1"
  have pl: "uheap s' (xs @ carve ?rs z @ ys)" "same_data (used_blocks a0 xs \<union> used_blocks (b + z) ys) (user_mem s1) (user_mem s')"
    unfolding s'_def by (rule place_uheap [OF u(1,2) rs(1) u(4) u(3) [symmetric] b_def])+
  have old: "B = used_blocks a0 xs \<union> used_blocks (b + z) ys"
    unfolding B(1) [symmetric] b_def by (simp add: used_blocks_append)
  obtain n where n: "used_blocks b (carve ?rs z) = {(b + 4, n)}" "?rs - 4 \<le> n" "n + 4 \<le> z"
    using carve_facts(2) [OF u(2) rs(1)] by blast
  have hc: "heap_bytes (carve ?rs z) = z" by (rule carve_facts(1) [OF u(2) rs(1)])
  have b': "lc_b_heap s' = lc_b_heap s1" by (simp add: s'_def)
  have new: "used_blocks a0 (xs @ carve ?rs z @ ys) = insert (b + 4, n) B"
    unfolding old by (simp add: used_blocks_append hc b_def [symmetric] n(1))
  then have "ublocks s' (insert (b + 4, n) B)" using pl(1) b' u(3) unfolding ublocks_def by metis
  moreover have "(b + 4, n) \<notin> B"
  proof
    assume "(b + 4, n) \<in> B"
    moreover have "chunks (user_mem s') a0 (xs @ carve ?rs z @ ys) (brk s')"
      using pl(1) u(3,4) b' by (simp add: uheap_def)
    ultimately show False
      using used_blocks_around [of "user_mem s'" a0 xs "carve ?rs z" ys "brk s'" b "b + z" "b + 4" n] old hc b_def n rs(1) u(2) by simp
  qed
  moreover have "unat sz \<le> n" using rs(2) n(2) by linarith
  moreover have "same_data B (user_mem s) (user_mem s')"
    using same_data_trans [OF B(2)] pl(2) unfolding old by blast
  ultimately show ?thesis using m unfolding b_def [symmetric] s'_def [symmetric] by blast
qed

lemma usr_free_ublocks:
  fixes s :: "'a prog_state_scheme"
  assumes "ublocks s B" and pn: "(p, n) \<in> B"
  shows "\<exists>s'. usr_free (of_nat p) s = Some (Inr s') \<and> ublocks s' (B - {(p, n)})
    \<and> same_data (B - {(p, n)}) (user_mem s) (user_mem s')"
proof -
  define a0 where "a0 = unat (lc_b_heap s)"
  obtain cs where cs: "uheap s cs" "B = used_blocks a0 cs" using assms(1) by (auto simp: ublocks_def a0_def)
  from used_blocks_split pn cs(2) obtain xs sz ys where
    x: "cs = xs @ (sz, True) # ys" "p = a0 + heap_bytes xs + 4" "n = sz - 4" by blast
  define b where "b = a0 + heap_bytes xs"
  have b0: "lc_b_heap s \<noteq> 0" using cs(1) x(1) by (auto simp: uheap_def)
  then have c: "chunks (user_mem s) a0 (xs @ ((sz, True) # ys) @ []) (brk s)" and lim: "brk s < 2 ^ 31"
    and "unat (lc_e_heap s) = brk s"
    using cs(1) x(1) by (simp_all add: uheap_def a0_def)
  then have eh: "lc_e_heap s = of_nat (brk s)" by (metis of_nat_unat ucast_id)
  have c1: "chunks (user_mem s) b ((sz, True) # ys) (brk s)" using c by (simp only: chunks_append append_Nil2 b_def)
  have h: "brk s = b + sz + heap_bytes ys" using chunks_end [OF c1] by simp
  obtain m z zs where m: "coalesce (\<lambda>_. True) (of_nat (brk s)) (of_nat b) (user_mem s) = Some (Inr m)"
    "absorb sz ys = (z, False) # zs" "chunks m b ((z, True) # zs) (brk s)" "agree_outside b (b + sz + absorbed ys) (user_mem s) m"
    using coalesce_absorb_as [where ok = "\<lambda>_. True", OF c1 lim] by blast
  let ?m = "set_used (of_nat b) False m" and ?c = "b + sz + absorbed ys"
  have sz: "MINSIZE \<le> sz" using c1 by simp
  have ag1: "agree_outside b (b + 4) m ?m" using h lim sz by (intro agree_outside_set) simp_all
  have cm: "chunks ?m b [(z, False)] (b + z)"
    using m(3) by simp
  have z16: "MINSIZE \<le> z" using m(3) by simp
  have zs: "chunks m (b + z) zs (brk s)" using m(3) by simp
  have "chunks ?m (b + z) zs (brk s)"
  proof (subst chunks_cong [where m = m])
    fix q assume "q \<in> set (starts (b + z) zs)"
    from starts_bounds [OF zs this] show "rd32 ?m (of_nat q) = rd32 m (of_nat q)"
      using lim z16 by (intro agree_outside_rd32 [OF ag1]) simp_all
  qed (rule zs)
  with cm have cb: "chunks ?m b (absorb sz ys) (brk s)" unfolding m(2) by simp
  have ag: "agree_outside b ?c (user_mem s) ?m"
    using m(4) ag1 sz by (simp add: agree_outside_def)
  then have "agree_outside b (brk s) (user_mem s) ?m"
    using absorbed_le [of ys] h by (auto simp: agree_outside_def)
  then have "chunks ?m a0 (xs @ absorb sz ys @ []) (brk s)"
    using chunks_replace [OF c _ b_def _ _ cb] lim h by simp
  then have u': "uheap (set_user ?m s) (xs @ absorb sz ys)"
    using cs(1) x(1) b0 by (simp add: uheap_def a0_def)
  have f: "usr_free (of_nat p) s = Some (Inr (set_user ?m s))"
  proof -
    have "of_nat p - 4 = (of_nat b :: u32)" unfolding x(2) b_def by simp
    then show ?thesis unfolding usr_free_def Let_def eh by (simp only: m(1) bind_out_simps)
  qed
  have rest: "B - {(p, n)} = used_blocks a0 xs \<union> used_blocks (b + sz) ys"
  proof -
    have "(p, n) \<notin> used_blocks a0 xs \<union> used_blocks (b + sz) ys"
      using used_blocks_around [of "user_mem s" a0 xs "[(sz, True)]" ys "brk s" b "b + sz" p n] c b_def x(2,3) sz by auto
    then show ?thesis unfolding cs(2) x(1) using x(2,3) b_def by (auto simp: used_blocks_append)
  qed
  have "used_blocks a0 (xs @ absorb sz ys) = B - {(p, n)}"
    unfolding rest by (simp add: used_blocks_append used_blocks_absorb b_def)
  then have "ublocks (set_user ?m s) (B - {(p, n)})" using u' unfolding ublocks_def a0_def by (metis set_user_lc(1))
  moreover have "same_data (B - {(p, n)}) (user_mem s) ?m"
    unfolding rest using same_data_free [of "user_mem s" a0 xs sz True ys "brk s" b ?m] c lim b_def ag by simp
  ultimately show ?thesis using f by (intro exI [of _ "set_user ?m s"]) simp
qed

lemma ublocks_apart:
  assumes "ublocks s B" "(p, n) \<in> B" "(q, k) \<in> B"
  shows "(p, n) = (q, k) \<or> p + n \<le> q \<or> q + k \<le> p"
proof -
  from assms obtain cs where c: "uheap s cs" "B = used_blocks (unat (lc_b_heap s)) cs" by (auto simp: ublocks_def)
  then have "chunks (user_mem s) (unat (lc_b_heap s)) cs (brk s)" using assms(2) by (auto simp: uheap_def split: if_splits)
  from used_blocks_apart [OF this] assms(2,3) c(2) show ?thesis by fastforce
qed

lemma ublocks_unique: "ublocks s B \<Longrightarrow> ublocks s C \<Longrightarrow> B = C"
  unfolding ublocks_def uheap_def using chunks_unique by (auto split: if_splits) blast+

interpretation uh: block_allocator ublocks uroom "malloc e r" usr_free user_mem for e r
proof unfold_locales
  fix s :: "'a prog_state_scheme" and B sz
  assume "ublocks s B" "uroom sz s"
  then show "\<exists>p n s'. malloc e r sz s = Some (Inr (of_nat p, s')) \<and> ublocks s' (insert (p, n) B) \<and> (p, n) \<notin> B
      \<and> unat sz \<le> n \<and> same_data B (user_mem s) (user_mem s')"
    by (rule malloc_ublocks)
next
  fix s :: "'a prog_state_scheme" and B p n
  assume "ublocks s B" "(p, n) \<in> B"
  then show "\<exists>s'. usr_free (of_nat p) s = Some (Inr s') \<and> ublocks s' (B - {(p, n)})
      \<and> same_data (B - {(p, n)}) (user_mem s) (user_mem s')"
    by (rule usr_free_ublocks)
qed (use ublocks_unique ublocks_apart in blast)+

section \<open>Properties\<close>

text \<open>A program whose heap is one block of 108 bytes at \<open>0x40001004\<close>.\<close>

definition demo_prog :: prog_state where
  "demo_prog = fs_state.extend (set_user (wr32 (\<lambda>_. 0) 0x40001000 0x80000070)
     (upd_proc 1 (\<lambda>p. p\<lparr>e_heap := 0x40001070\<rparr>) demo_files)) \<lparr>lc_b_heap = 0x40001000, lc_e_heap = 0x40001070\<rparr>"

lemma demo_prog_sel [simp]: "lc_b_heap demo_prog = 0x40001000" "lc_e_heap demo_prog = 0x40001070"
  "brk demo_prog = 0x40001070" "user_mem demo_prog = wr32 (\<lambda>_. 0) 0x40001000 0x80000070"
  by (simp_all add: demo_prog_def fs_state.defs brk_def upd_proc_def set_user_def)

lemma demo_prog_blocks: "ublocks demo_prog {(0x40001004, 108)}"
proof -
  have "uheap demo_prog [(112, True)]" by (simp add: uheap_def hdr_size_def hdr_used_def bit_iff_odd)
  then show ?thesis unfolding ublocks_def by (intro exI [of _ "[(112, True)]"]) simp
qed

text \<open>C17. Memory safety of \<open>malloc\<close> and \<open>free\<close>: along any run of allocations that there is room for and of releases of
  other blocks, a block stays allocated, apart from all blocks handed out, and its bytes keep their values; the heap
  grows by system calls in between. The contract is that of the kernel's allocator.\<close>

theorem malloc_safety:
  fixes s :: "'a prog_state_scheme"
  assumes "heap_trace (malloc e r) usr_free uroom ublocks b s0 s" "ublocks s0 B0" "b \<in> B0"
  shows "\<exists>B. ublocks s B \<and> b \<in> B \<and> same_data {b} (user_mem s0) (user_mem s)
    \<and> (\<forall>(q, k) \<in> B. (q, k) = b \<or> fst b + snd b \<le> q \<or> q + k \<le> fst b)"
proof -
  from uh.trace_keeps [OF assms] obtain B where B: "ublocks s B" "b \<in> B" "same_data {b} (user_mem s0) (user_mem s)" by blast
  have "(q, k) = b \<or> fst b + snd b \<le> q \<or> q + k \<le> fst b" if "(q, k) \<in> B" for q k
    using uh.rep_apart [OF B(1) that, of "fst b" "snd b"] B(2) by (cases b) auto
  with B show ?thesis by blast
qed

theorem malloc_safety_witness:
  "\<forall>e r. \<exists>p s B. malloc e r 8 demo_prog = Some (Inr (p, s)) \<and> ublocks s B \<and> (0x40001004, 108) \<in> B
    \<and> same_data {(0x40001004, 108)} (user_mem demo_prog) (user_mem s)"
proof (intro allI)
  fix e r
  have room: "uroom 8 demo_prog" by (simp add: uroom_def usize_def)
  from malloc_ublocks [OF demo_prog_blocks this, of e r] obtain p s where a: "malloc e r 8 demo_prog = Some (Inr (p, s))" by blast
  have "heap_trace (malloc e r) usr_free uroom ublocks (0x40001004, 108) demo_prog s"
    by (rule heap_trace.alloc [where s = demo_prog and sz = 8 and p = p], rule heap_trace.start) (rule room, rule a)
  from malloc_safety [OF this demo_prog_blocks] obtain B where "ublocks s B" "(0x40001004, 108) \<in> B"
    "same_data {(0x40001004, 108)} (user_mem demo_prog) (user_mem s)" by blast
  with a show "\<exists>p s B. malloc e r 8 demo_prog = Some (Inr (p, s)) \<and> ublocks s B \<and> (0x40001004, 108) \<in> B
      \<and> same_data {(0x40001004, 108)} (user_mem demo_prog) (user_mem s)" by blast
qed

end
