(* ===== verification/Usr_Lib.thy ===== *)
theory Usr_Lib
  imports Printk
begin

text \<open>
  The C library of user programs, \<^verbatim>\<open>usr/libc/libc.c\<close>, on the memory of the process. \<open>memcpy\<close>, \<open>strlen\<close>,
  \<open>strcmp\<close> and \<open>itoa\<close> are statement by statement those of the kernel (theory \<open>Lib\<close>) and share their definitions.
  \<open>strcpy\<close> and \<open>strncpy\<close> contain \<open>dst[i] = src[i++]\<close>, whose two uses of \<open>i\<close> C leaves unsequenced: the order that the
  compiler chooses is a parameter (\<open>late\<close>: the address on the left is computed after the increment). The main
  property is that a number printed by \<open>sprintf\<close> is read back by \<open>atoi\<close>.
\<close>

section \<open>The code\<close>

definition usr_memcpy :: "mem \<Rightarrow> u32 \<Rightarrow> u32 \<Rightarrow> u32 \<Rightarrow> mem" where
  "usr_memcpy = memcpy"

definition usr_strlen :: "mem \<Rightarrow> u32 \<Rightarrow> u32 option" where
  "usr_strlen = strlen"

definition usr_strcmp :: "mem \<Rightarrow> u32 \<Rightarrow> u32 \<Rightarrow> u32 option" where
  "usr_strcmp = strcmp"

definition usr_itoa :: "mem \<Rightarrow> u32 \<Rightarrow> u32 \<Rightarrow> u32 \<Rightarrow> mem option" where
  "usr_itoa = itoa"

text \<open>\<open>while ((dst[i] = src[i++]));\<close>\<close>

partial_function (option) strcpy_from :: "bool \<Rightarrow> mem \<Rightarrow> u32 \<Rightarrow> u32 \<Rightarrow> u32 \<Rightarrow> (u32 \<times> mem) option" where
  "strcpy_from late m dst src i =
     (let c = m (src + i); m' = m(dst + (if late then i + 1 else i) := c)
      in if c \<noteq> 0 then strcpy_from late m' dst src (i + 1) else Some (i + 1, m'))"

definition usr_strcpy :: "bool \<Rightarrow> mem \<Rightarrow> u32 \<Rightarrow> u32 \<Rightarrow> (u32 \<times> mem) option" where
  "usr_strcpy late m dst src = strcpy_from late m dst src 0"

text \<open>\<open>while (n-- && (dst[i] = src[i++]));\<close>\<close>

function strncpy_from :: "bool \<Rightarrow> mem \<Rightarrow> u32 \<Rightarrow> u32 \<Rightarrow> u32 \<Rightarrow> u32 \<Rightarrow> u32 \<times> mem" where
  "strncpy_from late m dst src i n =
     (if n = 0 then (i, m)
      else let c = m (src + i); m' = m(dst + (if late then i + 1 else i) := c)
           in if c \<noteq> 0 then strncpy_from late m' dst src (i + 1) (n - 1) else (i + 1, m'))"
  by pat_completeness auto
termination
  by (relation "measure (\<lambda>(late, m, dst, src, i, n). unat n)") (auto simp: unat_minus_one unat_gt_0)

declare strncpy_from.simps [simp del]

definition usr_strncpy :: "bool \<Rightarrow> mem \<Rightarrow> u32 \<Rightarrow> u32 \<Rightarrow> u32 \<Rightarrow> u32 \<times> mem" where
  "usr_strncpy late m dst src n = strncpy_from late m dst src 0 n"

text \<open>\<open>strncmp\<close>: \<open>n\<close> is decremented before it is tested, so that 0 stands for \<open>2 ^ 32\<close>.\<close>

partial_function (option) strncmp_from :: "mem \<Rightarrow> u32 \<Rightarrow> u32 \<Rightarrow> u32 \<Rightarrow> u32 \<Rightarrow> u32 option" where
  "strncmp_from m dst src i n =
     (if m (dst + i) = m (src + i)
      then if n - 1 = 0 \<or> m (src + i) = 0 then Some 0 else strncmp_from m dst src (i + 1) (n - 1)
      else Some 1)"

definition usr_strncmp :: "mem \<Rightarrow> u32 \<Rightarrow> u32 \<Rightarrow> u32 \<Rightarrow> u32 option" where
  "usr_strncmp m dst src n = strncmp_from m dst src 0 n"

partial_function (option) atoi_loop :: "mem \<Rightarrow> u32 \<Rightarrow> u32 \<Rightarrow> u32 option" where
  "atoi_loop m c n =
     (if 48 \<le> m c \<and> m c \<le> 57 then atoi_loop m (c + 1) (n * 10 + ucast (m c) - 48) else Some n)"

definition atoi :: "mem \<Rightarrow> u32 \<Rightarrow> u32 option" where
  "atoi m str =
     (if m str = 45 then map_option (\<lambda>n. - 1 * n) (atoi_loop m (str + 1) 0)
      else map_option (\<lambda>n. 1 * n) (atoi_loop m str 0))"

text \<open>\<open>sprintf\<close>. A format lies in the memory of the process or, in the nested calls for numbers, in the local array
  of the caller. The number \<open>buflen\<close>, by which \<open>str\<close> is advanced, is taken before the padding.\<close>

record ucall =
  local_buf :: "mem option"
  uptr :: u32
  uargs :: "nat \<Rightarrow> u32"

abbreviation fbytes :: "ucall \<Rightarrow> mem \<Rightarrow> mem" where
  "fbytes f m \<equiv> (case local_buf f of None \<Rightarrow> m | Some b \<Rightarrow> b)"

definition next_uarg :: "u32 \<Rightarrow> ucall \<Rightarrow> ucall" where
  "next_uarg p f = f\<lparr>uptr := p, uargs := (\<lambda>i. uargs f (i + 1))\<rparr>"

definition usr_num_buf :: "u32 \<Rightarrow> u32 \<Rightarrow> nat \<Rightarrow> (mem \<times> u32) option" where
  "usr_num_buf uival base wd =
     Option.bind (usr_itoa (\<lambda>_. 0) 0 uival base) (\<lambda>buf.
     Option.bind (usr_strlen buf 0) (\<lambda>buflen.
     Some (if sint buflen < int wd then pad_buf buf wd (sint buflen) else buf, buflen)))"

partial_function (option) sprintf_loop :: "(nat \<Rightarrow> u32) \<Rightarrow> ucall \<Rightarrow> mem \<Rightarrow> u32 \<Rightarrow> (mem \<times> u32) option" where
  "sprintf_loop junk f m str =
     (let c = fbytes f m (uptr f)
      in if c = 0 then Some (m(str := 0), str)
         else if c \<noteq> 37 then sprintf_loop junk (f\<lparr>uptr := uptr f + 1\<rparr>) (m(str := c)) (str + 1)
         else case conversion (fbytes f m) (uptr f + 1) of (wd, d, p') \<Rightarrow>
           (case num_conv d (uargs f 0) wd of
              Some (pre, n, base, w) \<Rightarrow>
                Option.bind (usr_num_buf n base w) (\<lambda>(buf, buflen).
                Option.bind (sprintf_loop junk \<lparr>local_buf = Some buf, uptr = 0, uargs = junk\<rparr>
                    (wr_bytes m str pre) (str + of_nat (length pre))) (\<lambda>(m1, _).
                sprintf_loop junk (next_uarg p' f) m1 (str + (buflen + of_nat (length pre)))))
            | None \<Rightarrow>
                if d = 115
                then Option.bind (sprintf_loop junk \<lparr>local_buf = None, uptr = uargs f 0, uargs = junk\<rparr> m str) (\<lambda>(m1, _).
                     Option.bind (usr_strlen m1 (uargs f 0)) (\<lambda>len.
                     sprintf_loop junk (next_uarg p' f) m1 (str + len)))
                else if d = 99
                then sprintf_loop junk (next_uarg p' f) (m(str := ucast (uargs f 0))) (str + 1)
                else sprintf_loop junk (f\<lparr>uptr := p'\<rparr>) m str))"

definition sprintf :: "(nat \<Rightarrow> u32) \<Rightarrow> mem \<Rightarrow> u32 \<Rightarrow> u32 \<Rightarrow> (nat \<Rightarrow> u32) \<Rightarrow> (u32 \<times> mem) option" where
  "sprintf junk m str format args =
     map_option (\<lambda>(m', e). (e - str, m')) (sprintf_loop junk \<lparr>local_buf = None, uptr = format, uargs = args\<rparr> m str)"

section \<open>\<open>atoi\<close>\<close>

definition is_digit :: "u8 \<Rightarrow> bool" where
  "is_digit c \<longleftrightarrow> 48 \<le> c \<and> c \<le> 57"

definition digits_val :: "u8 list \<Rightarrow> u32 \<Rightarrow> u32" where
  "digits_val ds n = fold (\<lambda>c n. n * 10 + ucast c - 48) ds n"

lemma atoi_loop_digits:
  "(\<And>i. i < length ds \<Longrightarrow> m (a + of_nat i) = ds ! i \<and> is_digit (ds ! i)) \<Longrightarrow> \<not> is_digit (m (a + of_nat (length ds))) \<Longrightarrow>
    atoi_loop m a n = Some (digits_val ds n)"
proof (induction ds arbitrary: a n)
  case Nil
  then show ?case by (subst atoi_loop.simps) (auto simp: is_digit_def digits_val_def)
next
  case (Cons c ds)
  have c: "m a = c" "48 \<le> c \<and> c \<le> 57" using Cons.prems(1) [of 0] by (simp_all add: is_digit_def)
  have "atoi_loop m (a + 1) (n * 10 + ucast c - 48) = Some (digits_val ds (n * 10 + ucast c - 48))"
  proof (rule Cons.IH)
    show "m (a + 1 + of_nat i) = ds ! i \<and> is_digit (ds ! i)" if "i < length ds" for i
      using Cons.prems(1) [of "Suc i"] that by (simp add: add.assoc)
    show "\<not> is_digit (m (a + 1 + of_nat (length ds)))" using Cons.prems(2) by (simp add: add.assoc)
  qed
  with c show ?case by (subst atoi_loop.simps) (simp add: digits_val_def)
qed

lemma decimal_digit: "d < 10 \<Longrightarrow> is_digit (dchar d) \<and> ucast (dchar d) = (of_nat d + 48 :: u32)"
proof -
  assume "d < 10"
  then have "d \<in> set [0..<10]" by simp
  moreover have "\<forall>d \<in> set [0..<10]. is_digit (dchar d) \<and> ucast (dchar d) = (of_nat d + 48 :: u32)"
    by (simp add: upt_rec itoa_digit_def is_digit_def)
  ultimately show ?thesis by (rule bspec [rotated])
qed

lemma digits_val_rev:
  "\<forall>d \<in> set ds. d < 10 \<Longrightarrow> digits_val (map dchar (rev ds)) 0 = of_nat (dval 10 ds)"
proof (induction ds)
  case (Cons d ds)
  then have "digits_val (map dchar (rev ds)) 0 = of_nat (dval 10 ds)" "d < 10" by simp_all
  with decimal_digit [of d] show ?case by (simp add: digits_val_def)
qed (simp add: digits_val_def)

lemma digits_10: "c \<in> set (digits 10 n) \<Longrightarrow> is_digit c" "digits_val (digits 10 n) 0 = n"
proof -
  have d: "\<forall>d \<in> set (rdigits 10 (unat n)). d < 10" using rdigits_bound [of 10] by simp
  show "is_digit c" if "c \<in> set (digits 10 n)" using that d decimal_digit by (auto simp: digits_def)
  show "digits_val (digits 10 n) 0 = n" using digits_val_rev [OF d] by (simp add: digits_def dval_rdigits)
qed

text \<open>A decimal numeral in memory, with or without a sign.\<close>

lemma atoi_numeral:
  assumes "cstr m a (digits 10 n @ xs)" "xs = [] \<or> \<not> is_digit (hd xs)"
  shows "atoi_loop m a 0 = Some n"
proof -
  have "atoi_loop m a 0 = Some (digits_val (digits 10 n) 0)"
  proof (rule atoi_loop_digits)
    show "m (a + of_nat i) = digits 10 n ! i \<and> is_digit (digits 10 n ! i)" if "i < length (digits 10 n)" for i
      using that cstr_nth [OF assms(1), of i] digits_10(1) [of "digits 10 n ! i" n] by (simp add: nth_append)
    show "\<not> is_digit (m (a + of_nat (length (digits 10 n))))"
    proof (cases xs)
      case Nil
      then show ?thesis using cstr_end [OF assms(1)] by (simp add: is_digit_def)
    next
      case (Cons x ys)
      then show ?thesis using cstr_nth [OF assms(1), of "length (digits 10 n)"] assms(2) by (simp add: nth_append)
    qed
  qed
  then show ?thesis by (simp add: digits_10)
qed

section \<open>\<open>sprintf\<close>\<close>

text \<open>What the items show, with \<open>%c\<close>; and that no number is shorter than its width.\<close>

definition ushown :: "(u32 \<Rightarrow> u8 list) \<Rightarrow> nat \<Rightarrow> u8 \<Rightarrow> u32 \<Rightarrow> u8 list" where
  "ushown str w d a = (if d = 99 then [ucast a] else shown str w d a)"

definition utakes :: "u8 \<Rightarrow> bool" where
  "utakes d \<longleftrightarrow> takes_arg d \<or> d = 99"

definition no_padding :: "nat \<Rightarrow> u8 \<Rightarrow> u32 \<Rightarrow> bool" where
  "no_padding w d a \<longleftrightarrow> (case num_conv d a w of None \<Rightarrow> True | Some (pre, n, base, v) \<Rightarrow> v \<le> length (digits base n))"

fun urendered :: "(u32 \<Rightarrow> u8 list) \<Rightarrow> item list \<Rightarrow> (nat \<Rightarrow> u32) \<Rightarrow> u8 list" where
  "urendered str [] args = []"
| "urendered str (Plain c # its) args = c # urendered str its args"
| "urendered str (Conv w d # its) args =
     ushown str (width w) d (args 0) @ urendered str its (if utakes d then \<lambda>i. args (i + 1) else args)"

text \<open>The arguments fit the items: strings lie outside of the region \<open>R\<close> that is written, without percent signs,
  characters are not 0, and no number needs padding.\<close>

fun uargs_ok :: "(u32 \<Rightarrow> bool) \<Rightarrow> mem \<Rightarrow> (u32 \<Rightarrow> u8 list) \<Rightarrow> item list \<Rightarrow> (nat \<Rightarrow> u32) \<Rightarrow> bool" where
  "uargs_ok R m str [] args = True"
| "uargs_ok R m str (Plain c # its) args = uargs_ok R m str its args"
| "uargs_ok R m str (Conv w d # its) args =
     ((d = 115 \<longrightarrow> cstr m (args 0) (str (args 0)) \<and> 37 \<notin> set (str (args 0))
          \<and> (\<forall>i \<le> length (str (args 0)). \<not> R (args 0 + of_nat i)))
      \<and> (d = 99 \<longrightarrow> ucast (args 0) \<noteq> (0 :: u8)) \<and> no_padding (width w) d (args 0)
      \<and> uargs_ok R m str its (if utakes d then \<lambda>i. args (i + 1) else args))"

lemma wr_bytes_append: "wr_bytes m a (xs @ ys) = wr_bytes (wr_bytes m a xs) (a + of_nat (length xs)) ys"
  by (induction xs arbitrary: m a) (simp_all add: add.assoc)

lemma wr_bytes_over: "ys \<noteq> [] \<Longrightarrow> wr_bytes (wr_bytes m a (xs @ [c])) (a + of_nat (length xs)) ys = wr_bytes m a (xs @ ys)"
  by (cases ys) (simp_all add: wr_bytes_append)

lemma cstr_wr_bytes:
  assumes "length xs + 1 < 2 ^ 32" "0 \<notin> set xs"
  shows "cstr (wr_bytes m a (xs @ [0])) a xs"
proof (rule cstrI)
  have at: "wr_bytes m a (xs @ [0]) (a + of_nat i) = (xs @ [0]) ! i" if "i \<le> length xs" for i
    using that assms(1) by (intro wr_bytes_nth) simp_all
  from at [of "length xs"] show "wr_bytes m a (xs @ [0]) (a + of_nat (length xs)) = 0" by simp
  show "wr_bytes m a (xs @ [0]) (a + of_nat i) = xs ! i \<and> xs ! i \<noteq> 0" if "i < length xs" for i
  proof -
    from nth_mem [OF that] assms(2) have "xs ! i \<noteq> 0" by metis
    with at [of i] that show ?thesis by (simp add: nth_append)
  qed
qed

lemma wr_bytes_region:
  "(\<And>i. i < length xs \<Longrightarrow> R (a + of_nat i)) \<Longrightarrow> \<not> R c \<Longrightarrow> wr_bytes m a xs c = m c"
proof (induction xs arbitrary: m a)
  case (Cons x xs)
  have "c \<noteq> a" using Cons.prems(1) [of 0] Cons.prems(2) by auto
  moreover have "R (a + 1 + of_nat i)" if "i < length xs" for i
    using Cons.prems(1) [of "Suc i"] that by (simp add: add.assoc)
  then have "wr_bytes (m(a := x)) (a + 1) xs c = (m(a := x)) c" by (rule Cons.IH [OF _ Cons.prems(2)])
  ultimately show ?case by simp
qed simp

lemma cstr_region:
  assumes "cstr m a xs" "\<And>i. i \<le> length xs \<Longrightarrow> \<not> R (a + of_nat i)" "\<And>c. \<not> R c \<Longrightarrow> m' c = m c"
  shows "cstr m' a xs"
  using assms cstr_cong [of xs m a m'] by simp

lemma uargs_ok_region:
  "uargs_ok R m str its args \<Longrightarrow> (\<And>c. \<not> R c \<Longrightarrow> m' c = m c) \<Longrightarrow> uargs_ok R m' str its args"
proof (induction R m str its args rule: uargs_ok.induct)
  case (3 R m str w d its args)
  let ?a = "args 0" and ?args = "if utakes d then \<lambda>i. args (i + 1) else args"
  from "3.prems"(1) have p: "d = 115 \<longrightarrow> cstr m ?a (str ?a) \<and> 37 \<notin> set (str ?a) \<and> (\<forall>i \<le> length (str ?a). \<not> R (?a + of_nat i))"
    "d = 99 \<longrightarrow> ucast ?a \<noteq> (0 :: u8)" "no_padding (width w) d ?a" "uargs_ok R m str its ?args"
    unfolding uargs_ok.simps by blast+
  have "cstr m' ?a (str ?a)" if "d = 115"
    by (rule cstr_region [of m ?a _ R, OF _ _ "3.prems"(2)]) (use p(1) that in blast)+
  moreover have "uargs_ok R m' str its ?args" by (rule "3.IH" [OF p(4) "3.prems"(2)])
  ultimately show ?case using p unfolding uargs_ok.simps by blast
qed simp_all

text \<open>The format and where it may lie.\<close>

definition fmt_at :: "(u32 \<Rightarrow> bool) \<Rightarrow> mem \<Rightarrow> ucall \<Rightarrow> u8 list \<Rightarrow> bool" where
  "fmt_at R m f xs \<longleftrightarrow> cstr (fbytes f m) (uptr f) xs
     \<and> (local_buf f = None \<longrightarrow> (\<forall>i \<le> length xs. \<not> R (uptr f + of_nat i)))"

lemma fmt_at_region: "fmt_at R m f xs \<Longrightarrow> (\<And>c. \<not> R c \<Longrightarrow> m' c = m c) \<Longrightarrow> fmt_at R m' f xs"
  unfolding fmt_at_def by (cases "local_buf f") (auto intro: cstr_region [of m _ _ R])

lemma cstr_append: "cstr b p (xs @ ys) \<Longrightarrow> cstr b (p + of_nat (length xs)) ys"
proof (induction xs arbitrary: p)
  case (Cons x xs)
  from Cons.IH [of "p + 1"] Cons.prems show ?case by (simp add: add.assoc)
qed simp

lemma fmt_at_drop:
  assumes "fmt_at R m f (xs @ ys)" "local_buf g = local_buf f" "uptr g = uptr f + of_nat (length xs)"
  shows "fmt_at R m g ys"
proof -
  have "\<not> R (uptr g + of_nat i)" if "local_buf f = None" "i \<le> length ys" for i
    using assms(1,3) that unfolding fmt_at_def by (auto simp: add.assoc dest: spec [of _ "length xs + i"])
  moreover have "cstr (fbytes f m) (uptr g) ys"
    using assms(1) cstr_append unfolding fmt_at_def assms(3) by blast
  ultimately show ?thesis using assms(2) unfolding fmt_at_def by simp
qed

lemma sprintf_plain:
  "fmt_at R m f xs \<Longrightarrow> 37 \<notin> set xs \<Longrightarrow> (\<And>i. i \<le> length xs \<Longrightarrow> R (str + of_nat i)) \<Longrightarrow>
    sprintf_loop junk f m str = Some (wr_bytes m str (xs @ [0]), str + of_nat (length xs))"
proof (induction xs arbitrary: f m str)
  case Nil
  then show ?case by (subst sprintf_loop.simps) (simp add: fmt_at_def)
next
  case (Cons x xs)
  have x: "fbytes f m (uptr f) = x" "x \<noteq> 0" "x \<noteq> 37" using Cons.prems(1,2) by (auto simp: fmt_at_def)
  have R: "R str" using Cons.prems(3) [of 0] by simp
  have "fmt_at R (m(str := x)) f (x # xs)" by (rule fmt_at_region [OF Cons.prems(1)]) (use R in auto)
  then have "fmt_at R (m(str := x)) (f\<lparr>uptr := uptr f + 1\<rparr>) xs"
    using fmt_at_drop [of R "m(str := x)" f "[x]" xs "f\<lparr>uptr := uptr f + 1\<rparr>"] by simp
  then have "sprintf_loop junk (f\<lparr>uptr := uptr f + 1\<rparr>) (m(str := x)) (str + 1)
      = Some (wr_bytes (m(str := x)) (str + 1) (xs @ [0]), str + 1 + of_nat (length xs))"
  proof (rule Cons.IH)
    show "37 \<notin> set xs" using Cons.prems(2) by simp
    show "R (str + 1 + of_nat i)" if "i \<le> length xs" for i
      using Cons.prems(3) [of "Suc i"] that by (simp add: add.assoc)
  qed
  with x show ?case by (subst sprintf_loop.simps) (simp add: add.assoc)
qed

lemma usr_num_buf_digits:
  assumes "base = 10 \<or> base = 16" "w \<le> length (digits base n)"
  shows "\<exists>b. usr_num_buf n base w = Some (b, of_nat (length (digits base n))) \<and> cstr b 0 (digits base n)"
proof -
  have b: "2 \<le> base" "base \<le> 36" "10 \<le> base" using assms(1) by auto
  from itoa_correct [OF b(1,2), of "\<lambda>_. 0" 0 n] obtain m where
    m: "itoa (\<lambda>_. 0) 0 n base = Some m" "cstr m 0 (digits base n)" by (auto simp: digits_def)
  have sl: "strlen m 0 = Some (of_nat (length (digits base n)))" by (rule strlen_cstr [OF m(2)])
  have "length (digits base n) < 2 ^ 31" using digits_short [OF b(3), of n] by simp
  then have "sint (of_nat (length (digits base n)) :: u32) = int (length (digits base n))"
    by (simp add: signed_of_nat signed_take_bit_int_eq_self)
  then show ?thesis using m sl assms(2)
    by (simp add: usr_num_buf_def usr_itoa_def usr_strlen_def)
qed

lemma ushown_num:
  assumes "num_conv d a w = Some (pre, n, base, v)" "v \<le> length (digits base n)"
  shows "ushown str w d a = pre @ digits base n" "utakes d" "base = 10 \<or> base = 16" "37 \<notin> set pre" "0 \<notin> set pre"
proof -
  have p: "padded v (digits base n) = digits base n" using assms(2) by (simp add: padded_def)
  show "ushown str w d a = pre @ digits base n"
    using assms(1) p unfolding num_conv_def ushown_def shown_def by (auto split: if_splits)
  show "utakes d" "base = 10 \<or> base = 16" "37 \<notin> set pre" "0 \<notin> set pre"
    using assms(1) unfolding num_conv_def utakes_def takes_arg_def by (auto split: if_splits)
qed

text \<open>One conversion: its text, behind it a 0 that the next item overwrites.\<close>

lemma sprintf_conv:
  assumes at: "fbytes f m (uptr f) = 37" and cv: "conversion (fbytes f m) (uptr f + 1) = (w, d, p)"
    and ok: "uargs_ok R m str (Conv wo d # its) (uargs f)" "width wo = w"
    and R: "\<And>i. i \<le> length (ushown str w d (uargs f 0)) \<Longrightarrow> R (dst + of_nat i)"
  defines "T \<equiv> ushown str w d (uargs f 0)" and "g \<equiv> if utakes d then next_uarg p f else f\<lparr>uptr := p\<rparr>"
  shows "\<exists>z. sprintf_loop junk f m dst = sprintf_loop junk g (wr_bytes m dst (T @ z)) (dst + of_nat (length T)) \<and> (z = [] \<or> z = [0])"
proof (cases "num_conv d (uargs f 0) w")
  case (Some q)
  obtain pre n base v where q: "q = (pre, n, base, v)" by (cases q)
  have v: "v \<le> length (digits base n)" using ok Some q by (simp add: no_padding_def)
  note sh = ushown_num [OF Some [unfolded q] v]
  have T: "T = pre @ digits base n" unfolding T_def by (rule sh(1))
  obtain b where b: "usr_num_buf n base v = Some (b, of_nat (length (digits base n)))" "cstr b 0 (digits base n)"
    using usr_num_buf_digits [OF sh(3) v] by blast
  have "2 \<le> base" "base \<le> 16" using sh(3) by auto
  from digit_chars [OF this] have np: "37 \<notin> set (digits base n)" by blast
  have "sprintf_loop junk \<lparr>local_buf = Some b, uptr = 0, uargs = junk\<rparr> (wr_bytes m dst pre) (dst + of_nat (length pre))
      = Some (wr_bytes (wr_bytes m dst pre) (dst + of_nat (length pre)) (digits base n @ [0]),
          dst + of_nat (length pre) + of_nat (length (digits base n)))"
    by (rule sprintf_plain [where R = "\<lambda>_. True"]) (use b(2) np in \<open>simp_all add: fmt_at_def\<close>)
  moreover have "wr_bytes (wr_bytes m dst pre) (dst + of_nat (length pre)) (digits base n @ [0]) = wr_bytes m dst (T @ [0])"
    unfolding T append_assoc by (rule wr_bytes_append [symmetric])
  moreover have "g = next_uarg p f" unfolding g_def using sh(2) by simp
  moreover have "dst + (of_nat (length (digits base n)) + of_nat (length pre)) = dst + of_nat (length T)" by (simp add: T)
  ultimately have "sprintf_loop junk f m dst = sprintf_loop junk g (wr_bytes m dst (T @ [0])) (dst + of_nat (length T))"
    by (subst sprintf_loop.simps) (simp add: at cv Some q b(1))
  then show ?thesis by blast
next
  case None
  then have nd: "d \<notin> {100, 117, 120, 88, 112}" by (auto simp: num_conv_def split: if_splits)
  consider (str) "d = 115" | (chr) "d = 99" | (other) "d \<noteq> 115" "d \<noteq> 99" by blast
  then show ?thesis
  proof cases
    case str
    let ?xs = "str (uargs f 0)"
    have T: "T = ?xs" and g: "g = next_uarg p f" unfolding T_def g_def by (simp_all add: str ushown_def shown_def utakes_def takes_arg_def)
    have xs: "cstr m (uargs f 0) ?xs" "37 \<notin> set ?xs" "\<And>i. i \<le> length ?xs \<Longrightarrow> \<not> R (uargs f 0 + of_nat i)"
      using ok str by simp_all
    have RT: "R (dst + of_nat i)" if "i \<le> length ?xs" for i using R that unfolding T_def [symmetric] T .
    have c: "sprintf_loop junk \<lparr>local_buf = None, uptr = uargs f 0, uargs = junk\<rparr> m dst
        = Some (wr_bytes m dst (?xs @ [0]), dst + of_nat (length ?xs))"
      by (rule sprintf_plain [where R = R]) (use xs RT in \<open>simp_all add: fmt_at_def\<close>)
    have "wr_bytes m dst (?xs @ [0]) x = m x" if "\<not> R x" for x
      by (rule wr_bytes_region [where R = R, OF _ that]) (use RT in simp)
    then have "cstr (wr_bytes m dst (?xs @ [0])) (uargs f 0) ?xs" by (intro cstr_region [where R = R, OF xs(1)]) (auto dest: xs(3))
    then have "strlen (wr_bytes m dst (?xs @ [0])) (uargs f 0) = Some (of_nat (length ?xs))" by (rule strlen_cstr)
    moreover have "num_conv 115 (uargs f 0) w = None" using None unfolding str .
    ultimately have "sprintf_loop junk f m dst = sprintf_loop junk g (wr_bytes m dst (T @ [0])) (dst + of_nat (length T))"
      unfolding T g by (subst sprintf_loop.simps) (simp add: at cv str c usr_strlen_def)
    then show ?thesis by blast
  next
    case chr
    have T: "T = [ucast (uargs f 0)]" and g: "g = next_uarg p f" unfolding T_def g_def by (simp_all add: chr ushown_def utakes_def)
    have "num_conv 99 (uargs f 0) w = None" using None unfolding chr .
    then have "sprintf_loop junk f m dst = sprintf_loop junk g (wr_bytes m dst (T @ [])) (dst + of_nat (length T))"
      unfolding T g by (subst sprintf_loop.simps) (simp add: at cv chr)
    then show ?thesis by blast
  next
    case other
    have T: "T = []" and g: "g = f\<lparr>uptr := p\<rparr>"
      unfolding T_def g_def using other nd by (simp_all add: ushown_def shown_def utakes_def takes_arg_def)
    have "sprintf_loop junk f m dst = sprintf_loop junk g (wr_bytes m dst (T @ [])) (dst + of_nat (length T))"
      unfolding T g using other nd by (subst sprintf_loop.simps) (simp add: at cv None)
    then show ?thesis by blast
  qed
qed

lemma sprintf_rendered:
  "list_all item_ok its \<Longrightarrow> fmt_at R m f (concat (map item_text its)) \<Longrightarrow> uargs_ok R m str its (uargs f) \<Longrightarrow>
    (\<And>i. i \<le> length (urendered str its (uargs f)) \<Longrightarrow> R (dst + of_nat i)) \<Longrightarrow>
    sprintf_loop junk f m dst =
      Some (wr_bytes m dst (urendered str its (uargs f) @ [0]), dst + of_nat (length (urendered str its (uargs f))))"
proof (induction its arbitrary: f m dst)
  case Nil
  then show ?case by (subst sprintf_loop.simps) (simp add: fmt_at_def)
next
  case (Cons it its)
  let ?rest = "concat (map item_text its)"
  show ?case
  proof (cases it)
    case (Plain c)
    let ?f = "f\<lparr>uptr := uptr f + 1\<rparr>" and ?m = "m(dst := c)"
    have c: "fbytes f m (uptr f) = c" "c \<noteq> 0" "c \<noteq> 37" using Cons.prems(1,2) Plain by (auto simp: fmt_at_def)
    have R0: "R dst" using Cons.prems(4) [of 0] by simp
    have keep: "?m x = m x" if "\<not> R x" for x using that R0 by auto
    have "fmt_at R ?m f (concat (map item_text (it # its)))" by (rule fmt_at_region [OF Cons.prems(2)]) (rule keep)
    then have "fmt_at R ?m f ([c] @ ?rest)" using Plain by simp
    then have fm: "fmt_at R ?m ?f ?rest" by (rule fmt_at_drop) simp_all
    have "sprintf_loop junk ?f ?m (dst + 1) = Some (wr_bytes ?m (dst + 1) (urendered str its (uargs ?f) @ [0]),
        dst + 1 + of_nat (length (urendered str its (uargs ?f))))"
    proof (rule Cons.IH [OF _ fm])
      show "list_all item_ok its" using Cons.prems(1) by simp
      have "uargs_ok R ?m str (it # its) (uargs f)" by (rule uargs_ok_region [OF Cons.prems(3)]) (rule keep)
      then show "uargs_ok R ?m str its (uargs ?f)" using Plain by simp
      show "R (dst + 1 + of_nat i)" if "i \<le> length (urendered str its (uargs ?f))" for i
        using Cons.prems(4) [of "Suc i"] that Plain by (simp add: add.assoc)
    qed
    with c Plain show ?thesis by (subst sprintf_loop.simps) (simp add: add.assoc)
  next
    case (Conv w d)
    let ?T = "ushown str (width w) d (uargs f 0)" and ?p = "uptr f + of_nat (length (item_text it))"
    define g where "g = (if utakes d then next_uarg ?p f else f\<lparr>uptr := ?p\<rparr>)"
    have g: "uptr g = ?p" "local_buf g = local_buf f" "uargs g = (if utakes d then \<lambda>i. uargs f (i + 1) else uargs f)"
      by (simp_all add: g_def next_uarg_def)
    define U where "U = urendered str its (uargs g)"
    have full: "urendered str (it # its) (uargs f) = ?T @ U" by (simp add: U_def g(3) Conv)
    have ok: "item_ok (Conv w d)" using Cons.prems(1) Conv by simp
    have cs: "cstr (fbytes f m) (uptr f) (item_text (Conv w d) @ ?rest)" using Cons.prems(2) Conv by (simp add: fmt_at_def)
    have hd: "fbytes f m (uptr f) = 37" using cs by (cases w) auto
    have t: "cstr (fbytes f m) (uptr f + 1) (tl (item_text (Conv w d)) @ ?rest)" using cs by (cases w) simp_all
    have len: "uptr f + 1 + of_nat (length (item_text (Conv w d)) - 1) = ?p" using Conv by (cases w) simp_all
    have cv: "conversion (fbytes f m) (uptr f + 1) = (width w, d, ?p)" using conversion_item [OF ok t] unfolding len .
    have RT: "R (dst + of_nat i)" if "i \<le> length ?T" for i using Cons.prems(4) [of i] that unfolding full by simp
    obtain z where z: "sprintf_loop junk f m dst = sprintf_loop junk g (wr_bytes m dst (?T @ z)) (dst + of_nat (length ?T))"
      "z = [] \<or> z = [0]"
      using sprintf_conv [where R = R, OF hd cv Cons.prems(3) [unfolded Conv] refl RT] unfolding g_def by blast
    let ?m = "wr_bytes m dst (?T @ z)"
    have keep: "?m x = m x" if "\<not> R x" for x
      by (rule wr_bytes_region [where R = R, OF _ that]) (use RT z(2) in auto)
    have fm: "fmt_at R ?m g ?rest"
      by (rule fmt_at_drop [of _ _ f "item_text it"]) (use fmt_at_region [OF Cons.prems(2) keep] g in simp_all)
    have IH: "sprintf_loop junk g ?m (dst + of_nat (length ?T)) = Some (wr_bytes ?m (dst + of_nat (length ?T)) (U @ [0]),
        dst + of_nat (length ?T) + of_nat (length U))"
      unfolding U_def
    proof (rule Cons.IH [OF _ fm])
      show "list_all item_ok its" using Cons.prems(1) by simp
      show "uargs_ok R ?m str its (uargs g)" using uargs_ok_region [OF Cons.prems(3) keep] Conv g(3) by simp
      show "R (dst + of_nat (length ?T) + of_nat i)" if "i \<le> length (urendered str its (uargs g))" for i
        using Cons.prems(4) [of "length ?T + i"] that full unfolding U_def by (simp add: add.assoc)
    qed
    have "wr_bytes ?m (dst + of_nat (length ?T)) (U @ [0]) = wr_bytes m dst ((?T @ U) @ [0])"
      using z(2) wr_bytes_over [of "U @ [0]" m dst ?T 0] by (auto simp: wr_bytes_append)
    with IH show ?thesis unfolding full z(1) by (simp add: add.assoc)
  qed
qed

text \<open>With a width that takes effect, the padded digits are written, but \<open>str\<close> is advanced by the length without
  padding: what follows overwrites them.\<close>

lemma sprintf_padding_lost:
  "\<exists>m'. sprintf junk (wr_bytes (\<lambda>_. 0) 0 [37, 51, 117, 59]) 100 0 (\<lambda>_. 7) = Some (2, m') \<and> cstr m' 100 [48, 59]"
proof -
  let ?m = "wr_bytes (\<lambda>_. 0) 0 [37, 51, 117, 59]"
  obtain b where b: "itoa (\<lambda>_. 0) 0 7 10 = Some b" "cstr b 0 [55]"
    using itoa_correct [of 10 "\<lambda>_. 0" 0 7] by (auto simp: rdigits.simps itoa_digit_def)
  have sl: "strlen b 0 = Some 1" using strlen_cstr [OF b(2)] by simp
  have p: "cstr (pad_buf b 3 1) 0 [48, 48, 55]"
    using pad_buf_cstr [OF b(2), of 3] by (simp add: padded_def numeral_2_eq_2)
  have n: "usr_num_buf 7 10 3 = Some (pad_buf b 3 1, 1)" by (simp add: usr_num_buf_def usr_itoa_def usr_strlen_def b(1) sl)
  have cv: "conversion ?m 1 = (3, 117, 3)" by (simp add: conversion_def)
  have nested: "sprintf_loop junk \<lparr>local_buf = Some (pad_buf b 3 1), uptr = 0, uargs = junk\<rparr> ?m 100
      = Some (wr_bytes ?m 100 [48, 48, 55, 0], 103)"
    using sprintf_plain [of "\<lambda>_. True" ?m "\<lparr>local_buf = Some (pad_buf b 3 1), uptr = 0, uargs = junk\<rparr>" "[48, 48, 55]" 100 junk] p
    by (simp add: fmt_at_def)
  have rest: "sprintf_loop junk (next_uarg 3 \<lparr>local_buf = None, uptr = 0, uargs = \<lambda>_. 7\<rparr>) (wr_bytes ?m 100 [48, 48, 55, 0]) 101
      = Some (wr_bytes (wr_bytes ?m 100 [48, 48, 55, 0]) 101 [59, 0], 102)"
  proof -
    have "i = 0 \<or> i = Suc 0 \<Longrightarrow> (100 :: u32) \<le> 101 + of_nat i" for i by auto
    then show ?thesis
      using sprintf_plain [of "\<lambda>a. 100 \<le> a" "wr_bytes ?m 100 [48, 48, 55, 0]"
        "next_uarg 3 \<lparr>local_buf = None, uptr = 0, uargs = \<lambda>_. 7\<rparr>" "[59]" 101 junk]
      by (simp add: fmt_at_def next_uarg_def less_Suc_eq_le [symmetric] less_Suc_eq)
  qed
  have "sprintf_loop junk \<lparr>local_buf = None, uptr = 0, uargs = \<lambda>_. 7\<rparr> ?m 100
      = Some (wr_bytes (wr_bytes ?m 100 [48, 48, 55, 0]) 101 [59, 0], 102)"
    by (subst sprintf_loop.simps) (use cv nested rest n in \<open>simp add: num_conv_def\<close>)
  then show ?thesis by (simp add: sprintf_def)
qed

section \<open>Properties\<close>

text \<open>\<open>sprintf\<close> writes a format of plain characters and conversions as specified, with a terminating 0, returns the
  length of the text, and changes nothing else. The hypotheses: no number is shorter than its width (the padded
  digits would be overwritten, see \<open>sprintf_padding_lost\<close>), and the format and the strings lie outside of the text.\<close>

theorem sprintf_writes:
  assumes "list_all item_ok its" "cstr m format (concat (map item_text its))"
    and "R = in_block dst (length (urendered str its args) + 1)" "length (urendered str its args) + 1 < 2 ^ 32"
    and "\<forall>i \<le> length (concat (map item_text its)). \<not> R (format + of_nat i)" "uargs_ok R m str its args"
  shows "sprintf junk m dst format args =
    Some (of_nat (length (urendered str its args)), wr_bytes m dst (urendered str its args @ [0]))"
proof -
  let ?f = "\<lparr>local_buf = None, uptr = format, uargs = args\<rparr>"
  have "R (dst + of_nat i)" if "i \<le> length (urendered str its args)" for i
    using that assms(4) unfolding assms(3) by (intro in_block_offset) simp_all
  with assms(1,2,5,6) have "sprintf_loop junk ?f m dst = Some (wr_bytes m dst (urendered str its args @ [0]),
      dst + of_nat (length (urendered str its args)))"
    using sprintf_rendered [of its R m ?f str dst junk] by (simp add: fmt_at_def)
  then show ?thesis by (simp add: sprintf_def)
qed

theorem sprintf_writes_witness:
  "\<forall>junk. \<exists>m'. sprintf junk (wr_bytes (\<lambda>_. 0) 0 [91, 37, 100, 93]) 100 0 (\<lambda>_. - 7) = Some (4, m') \<and> cstr m' 100 [91, 45, 55, 93]"
proof (intro allI)
  fix junk
  let ?its = "[Plain 91, Conv None 100, Plain 93]" and ?m = "wr_bytes (\<lambda>_. 0) 0 [91, 37, 100, 93]"
  have d: "digits 10 7 = [55]" by (simp add: digits_def rdigits.simps itoa_digit_def)
  from d have u: "urendered (\<lambda>_. []) ?its (\<lambda>_. - 7) = [91, 45, 55, 93]"
    by (simp add: ushown_def shown_def padded_def)
  then have L: "length (urendered (\<lambda>_. []) ?its (\<lambda>_. - 7)) + 1 = 5" by simp
  have "sprintf junk ?m 100 0 (\<lambda>_. - 7) = Some (of_nat (length (urendered (\<lambda>_. []) ?its (\<lambda>_. - 7))),
      wr_bytes ?m 100 (urendered (\<lambda>_. []) ?its (\<lambda>_. - 7) @ [0]))"
  proof (rule sprintf_writes [where R = "in_block 100 5"])
    show "list_all item_ok ?its" by simp
    show "cstr ?m 0 (concat (map item_text ?its))" by simp
    show "in_block 100 5 = in_block 100 (length (urendered (\<lambda>_. []) ?its (\<lambda>_. - 7)) + 1)" unfolding L ..
    show "length (urendered (\<lambda>_. []) ?its (\<lambda>_. - 7)) + 1 < 2 ^ 32" unfolding L by simp
    have "\<forall>i \<in> set [0..<5]. \<not> in_block 100 5 (0 + of_nat i)" by (simp add: upt_rec in_block_def)
    then show "\<forall>i \<le> length (concat (map item_text ?its)). \<not> in_block 100 5 (0 + of_nat i)" by auto
    show "uargs_ok (in_block 100 5) ?m (\<lambda>_. []) ?its (\<lambda>_. - 7)"
      by (simp add: no_padding_def num_conv_def digits_def rdigits_nonempty)
  qed
  then show "\<exists>m'. sprintf junk ?m 100 0 (\<lambda>_. - 7) = Some (4, m') \<and> cstr m' 100 [91, 45, 55, 93]"
    unfolding u by simp
qed

text \<open>C29. A number that \<open>sprintf\<close> prints with \<open>%d\<close> is read back by \<open>atoi\<close>, for every 32-bit number, negative ones and
  the least one included. The hypothesis: the format does not lie in the twelve bytes that may be written.\<close>

theorem sprintf_atoi_roundtrip:
  assumes "cstr m format [37, 100]" "\<forall>i \<le> 2. \<not> in_block dst 12 (format + of_nat i)"
  shows "\<exists>k m'. sprintf junk m dst format args = Some (k, m') \<and> atoi m' dst = Some (args 0)"
proof -
  let ?its = "[Conv None 100]" and ?T = "urendered (\<lambda>_. []) [Conv None 100] args"
  let ?n = "args 0" and ?R = "in_block dst (length (urendered (\<lambda>_. []) [Conv None 100] args) + 1)"
  have T: "?T = (if sint ?n < 0 then 45 # digits 10 (- ?n) else digits 10 ?n)"
    by (simp add: ushown_def shown_def padded_def)
  have len: "length ?T + 1 \<le> 12" using digits_short [of 10 "- ?n"] digits_short [of 10 ?n] unfolding T by simp
  have "sprintf junk m dst format args = Some (of_nat (length ?T), wr_bytes m dst (?T @ [0]))"
  proof (rule sprintf_writes [OF _ _ refl])
    show "\<forall>i \<le> length (concat (map item_text ?its)). \<not> ?R (format + of_nat i)"
      using assms(2) len by (auto simp: in_block_def numeral_2_eq_2)
  qed (use assms(1) len in \<open>simp_all add: no_padding_def split: option.split\<close>, simp_all add: num_conv_def split: if_splits)
  moreover have "atoi (wr_bytes m dst (?T @ [0])) dst = Some ?n"
  proof -
    have "\<not> is_digit 0" by (simp add: is_digit_def)
    then have "0 \<notin> set ?T" using digits_10(1) [of 0] unfolding T by auto
    then have c: "cstr (wr_bytes m dst (?T @ [0])) dst ?T" using len by (intro cstr_wr_bytes) simp_all
    show ?thesis
    proof (cases "sint ?n < 0")
      case True
      with c have "cstr (wr_bytes m dst (?T @ [0])) (dst + 1) (digits 10 (- ?n) @ [])" "wr_bytes m dst (?T @ [0]) dst = 45"
        unfolding T by simp_all
      with atoi_numeral [OF this(1)] show ?thesis by (simp add: atoi_def)
    next
      case False
      then have c': "cstr (wr_bytes m dst (?T @ [0])) dst (digits 10 ?n @ [])" using c unfolding T by simp
      have "digits 10 ?n \<noteq> []" by (simp add: digits_def rdigits_nonempty)
      then have "is_digit (wr_bytes m dst (?T @ [0]) dst)"
        using cstr_nth [OF c', of 0] digits_10(1) [OF nth_mem, of 0 ?n] by simp
      then have "wr_bytes m dst (?T @ [0]) dst \<noteq> 45" by (auto simp: is_digit_def)
      with atoi_numeral [OF c'] show ?thesis by (simp add: atoi_def)
    qed
  qed
  ultimately show ?thesis by blast
qed

theorem sprintf_atoi_roundtrip_witness:
  "\<forall>junk. \<exists>k m'. sprintf junk (wr_bytes (\<lambda>_. 0) 0 [37, 100]) 100 0 (\<lambda>_. 0x80000000) = Some (k, m') \<and> atoi m' 100 = Some 0x80000000"
proof (intro allI)
  fix junk
  have "\<forall>i \<in> set [0..<3]. \<not> in_block 100 12 (0 + of_nat i)" by (simp add: upt_rec in_block_def)
  then have "\<forall>i \<le> 2. \<not> in_block 100 12 (0 + of_nat i)" by auto
  then show "\<exists>k m'. sprintf junk (wr_bytes (\<lambda>_. 0) 0 [37, 100]) 100 0 (\<lambda>_. 0x80000000) = Some (k, m') \<and> atoi m' 100 = Some 0x80000000"
    using sprintf_atoi_roundtrip [of "wr_bytes (\<lambda>_. 0) 0 [37, 100]" 0 100 junk "\<lambda>_. 0x80000000"] by simp
qed

end
