(* ===== verification/Programs.thy ===== *)
theory Programs
  imports Usr_Malloc Usr_Lib
begin

text \<open>
  The programs of \<^verbatim>\<open>usr/\<close>, over the stubs of the system calls and the C library. A program runs on the state of the
  machine with its static variables (\<open>prog_state\<close>); the addresses of its string literals and of its local arrays, which
  the compiler chooses, are parameters. The main property is end to end: what \<open>cat\<close> shows on the screen is the file.
\<close>

section \<open>Calls\<close>

abbreviation (input) GREEN :: u8 where "GREEN \<equiv> 0x02"
abbreviation (input) PURPLE :: u8 where "PURPLE \<equiv> 0x05"
abbreviation (input) ORANGE :: u8 where "ORANGE \<equiv> 0x06"

text \<open>The value of a call, and a call whose value is not used.\<close>

definition val :: "(reply \<times> 's) out \<Rightarrow> (u32 \<times> 's) out" where
  "val r = bind_out r (\<lambda>(v, s). case v of Eax a \<Rightarrow> Some (Inr (a, s)) | _ \<Rightarrow> None)"

definition run :: "(reply \<times> 's) out \<Rightarrow> 's out" where
  "run r = bind_out r (\<lambda>(v, s). case v of Eax _ \<Rightarrow> Some (Inr s) | Keep \<Rightarrow> Some (Inr s) | _ \<Rightarrow> None)"

definition poke :: "u32 \<Rightarrow> u8 \<Rightarrow> 'a kstate_scheme \<Rightarrow> 'a kstate_scheme" where
  "poke a c s = set_user ((user_mem s)(a := c)) s"

text \<open>\<open>sprintf\<close> on the memory of the program.\<close>

definition sprintf_call :: "env \<Rightarrow> u32 \<Rightarrow> u32 \<Rightarrow> (nat \<Rightarrow> u32) \<Rightarrow> 'a kstate_scheme \<Rightarrow> 'a kstate_scheme out" where
  "sprintf_call e out fmt args s =
     Option.bind (sprintf (e_junk e) (user_mem s) out fmt args) (\<lambda>(_, m). Some (Inr (set_user m s)))"

section \<open>\<open>cat\<close>\<close>

record cat_lits =
  l_malloc :: u32
  l_open :: u32
  l_read :: u32
  l_newline :: u32

abbreviation (input) SIZE :: u32 where "SIZE \<equiv> 512"

text \<open>The loop over one file.\<close>

partial_function (option) cat_loop ::
    "env \<Rightarrow> trap \<Rightarrow> cat_lits \<Rightarrow> u32 \<Rightarrow> u32 \<Rightarrow> 'a prog_state_scheme \<Rightarrow> 'a prog_state_scheme out" where
  "cat_loop e r ls n buf s =
     bind_out (val (usr_read e r n buf (SIZE - 1) s)) (\<lambda>ks.
     let k = fst ks; s1 = snd ks
     in if k = - 1
        then bind_out (run (usr_console_write e r (l_read ls) GREEN s1)) (usr_free buf)
        else bind_out (run (usr_console_write e r buf GREEN (poke (buf + k) 0 s1))) (\<lambda>s2.
             if k \<noteq> 0 then cat_loop e r ls n buf s2 else Some (Inr s2)))"

definition cat_file :: "env \<Rightarrow> trap \<Rightarrow> cat_lits \<Rightarrow> u32 \<Rightarrow> u32 \<Rightarrow> u32 \<Rightarrow> 'a prog_state_scheme \<Rightarrow> 'a prog_state_scheme out" where
  "cat_file e r ls buf out name s =
     bind_out (val (usr_open e r name s)) (\<lambda>(n, s1).
     if n = - 1
     then bind_out (sprintf_call e out (l_open ls) (\<lambda>i. if i = 0 then name else e_junk e (i - 1)) s1) (\<lambda>s2.
          bind_out (run (usr_console_write e r out GREEN s2)) (usr_free buf))
     else bind_out (cat_loop e r ls n buf s1) (\<lambda>s2.
          bind_out (run (usr_close e r n s2)) (\<lambda>s3.
          run (usr_console_write e r (l_newline ls) GREEN s3))))"

primrec cat_args :: "env \<Rightarrow> trap \<Rightarrow> cat_lits \<Rightarrow> u32 \<Rightarrow> u32 \<Rightarrow> u32 \<Rightarrow> nat list \<Rightarrow> 'a prog_state_scheme \<Rightarrow> 'a prog_state_scheme out" where
  "cat_args e r ls buf out argv [] s = Some (Inr s)"
| "cat_args e r ls buf out argv (i # is) s =
     bind_out (cat_file e r ls buf out (rd32 (user_mem s) (argv + 4 * of_nat i)) s) (cat_args e r ls buf out argv is)"

definition cat_main ::
    "env \<Rightarrow> trap \<Rightarrow> cat_lits \<Rightarrow> u32 \<Rightarrow> u32 \<Rightarrow> u32 \<Rightarrow> 'a prog_state_scheme \<Rightarrow> (reply \<times> 'a prog_state_scheme) out" where
  "cat_main e r ls out argc argv s =
     bind_out (malloc e r SIZE s) (\<lambda>(buf, s1).
     if buf = - 1
     then bind_out (run (usr_console_write e r (l_malloc ls) GREEN s1)) (usr_exit e r 1)
     else bind_out (cat_args e r ls buf out argv [1..<nat (sint argc)] s1) (\<lambda>s2.
          bind_out (usr_free buf s2) (usr_exit e r 0)))"

section \<open>\<open>kill\<close> and the test programs\<close>

definition kill_main ::
    "env \<Rightarrow> trap \<Rightarrow> u32 \<Rightarrow> u32 \<Rightarrow> u32 \<Rightarrow> u32 \<Rightarrow> 'a prog_state_scheme \<Rightarrow> (reply \<times> 'a prog_state_scheme) out" where
  "kill_main e r usage out argc argv s =
     (if sint argc < 3
      then bind_out (sprintf_call e out usage (\<lambda>i. if i = 0 then rd32 (user_mem s) argv else e_junk e (i - 1)) s) (\<lambda>s1.
           bind_out (run (usr_console_write e r out GREEN s1)) (usr_exit e r 1))
      else Option.bind (atoi (user_mem s) (rd32 (user_mem s) (argv + 4))) (\<lambda>sig.
           Option.bind (atoi (user_mem s) (rd32 (user_mem s) (argv + 8))) (\<lambda>n.
           bind_out (run (usr_kill e r n sig s)) (usr_exit e r 0))))"

definition task1_main :: "env \<Rightarrow> trap \<Rightarrow> u32 \<Rightarrow> 'a prog_state_scheme \<Rightarrow> (reply \<times> 'a prog_state_scheme) out" where
  "task1_main e r hello s = bind_out (run (usr_console_write e r hello PURPLE s)) (usr_exit e r 0)"

text \<open>\<open>task2\<close> installs a handler for signal 1 and loops.\<close>

definition task2_main :: "env \<Rightarrow> trap \<Rightarrow> u32 \<Rightarrow> 'a prog_state_scheme \<Rightarrow> 'a prog_state_scheme out" where
  "task2_main e r foo s = run (usr_sigaction e r 1 foo s)"

definition task2_foo :: "env \<Rightarrow> trap \<Rightarrow> u32 \<Rightarrow> 'a prog_state_scheme \<Rightarrow> 'a prog_state_scheme out" where
  "task2_foo e r msg s = run (usr_console_write e r msg GREEN s)"

section \<open>The shell\<close>

text \<open>The addresses of the literals: the names of the built-in commands, formats, texts and the paths of two programs.\<close>

record shell_lits =
  k_exit :: u32
  k_ls :: u32
  k_cd :: u32
  k_pwd :: u32
  k_mkdir :: u32
  k_help :: u32
  k_cat :: u32
  k_kill :: u32
  k_dot :: u32
  k_dotdot :: u32
  m_prompt :: u32
  m_nochdir :: u32
  m_notdir :: u32
  m_exists :: u32
  m_existsfile :: u32
  m_usage :: u32
  m_spaces :: u32
  m_newline :: u32
  p_cat :: u32
  p_kill :: u32

text \<open>The local variables that have an address: the two arrays of 512 bytes and the status.\<close>

record shell_vars =
  v_buf :: u32
  v_out :: u32
  v_status :: u32

abbreviation blank :: "u8 \<Rightarrow> bool" where
  "blank c \<equiv> c = 32 \<or> c = 9"

partial_function (option) skip_blanks :: "mem \<Rightarrow> u32 \<Rightarrow> u32 option" where
  "skip_blanks m p = (if blank (m p) then skip_blanks m (p + 1) else Some p)"

partial_function (option) word_end :: "mem \<Rightarrow> u32 \<Rightarrow> u32 option" where
  "word_end m p = (if m p \<noteq> 0 \<and> m p \<noteq> 10 \<and> \<not> blank (m p) then word_end m (p + 1) else Some p)"

text \<open>The loop that counts the words.\<close>

partial_function (option) count_words :: "mem \<Rightarrow> u32 \<Rightarrow> nat \<Rightarrow> nat option" where
  "count_words m p ac =
     (if m p \<noteq> 0 \<and> m p \<noteq> 10
      then Option.bind (word_end m p) (\<lambda>q. Option.bind (skip_blanks m q) (\<lambda>p'. count_words m p' (ac + 1)))
      else Some ac)"

definition zero_array :: "u32 \<Rightarrow> 'a kstate_scheme \<Rightarrow> 'a kstate_scheme" where
  "zero_array a s = set_user (wr_bytes (user_mem s) a (replicate 512 0)) s"

text \<open>The argument of a built-in command: the word behind its name, terminated in place.\<close>

definition shell_arg :: "u32 \<Rightarrow> 'a kstate_scheme \<Rightarrow> (u32 \<times> 'a kstate_scheme) out" where
  "shell_arg p s =
     Option.bind (skip_blanks (user_mem s) p) (\<lambda>beg_p.
     Option.bind (word_end (user_mem s) beg_p) (\<lambda>end_p. Some (Inr (beg_p, poke end_p 0 s))))"

text \<open>\<open>ls\<close>: the entries of the directory in \<open>buf\<close>, coloured by their type.\<close>

partial_function (option) ls_loop ::
    "env \<Rightarrow> trap \<Rightarrow> shell_lits \<Rightarrow> u32 \<Rightarrow> int \<Rightarrow> u32 \<Rightarrow> 'a prog_state_scheme \<Rightarrow> 'a prog_state_scheme out" where
  "ls_loop e r ls out count dir s =
     (if count > 0 \<and> rd32 (user_mem s) dir \<noteq> 0
      then let m = usr_memcpy (user_mem s) out (dir + 8) (ucast (user_mem s (dir + 6)));
               s1 = set_user (m(out + ucast (m (dir + 6)) := 0)) s;
               m1 = user_mem s1;
               rec_len = sint (rd16 m1 (dir + 4))
           in Option.bind (usr_strncmp m1 (k_dot ls) out 1) (\<lambda>c1.
              Option.bind (if c1 \<noteq> 0 then usr_strncmp m1 (k_dotdot ls) out 2 else Some 0) (\<lambda>c2.
              bind_out (if c1 \<noteq> 0 \<and> c2 \<noteq> 0
                        then bind_out (run (usr_console_write e r out (if m1 (dir + 7) = 1 then PURPLE else ORANGE) s1)) (\<lambda>s2.
                             run (usr_console_write e r (m_spaces ls) GREEN s2))
                        else Some (Inr s1)) (\<lambda>s3.
              ls_loop e r ls out (count - rec_len) (dir + word_of_int rec_len) s3)))
      else Some (Inr s))"

definition shell_ls :: "env \<Rightarrow> trap \<Rightarrow> shell_lits \<Rightarrow> shell_vars \<Rightarrow> 'a prog_state_scheme \<Rightarrow> 'a prog_state_scheme out" where
  "shell_ls e r ls vs s =
     bind_out (val (usr_open e r (k_dot ls) s)) (\<lambda>(n, s1).
     bind_out (val (usr_read e r n (v_buf vs) 512 s1)) (\<lambda>(count, s2).
     bind_out (ls_loop e r ls (v_out vs) (sint count) (v_buf vs) s2) (\<lambda>s3.
     bind_out (run (usr_close e r n s3)) (\<lambda>s4.
     run (usr_console_write e r (m_newline ls) GREEN s4)))))"

definition shell_cd :: "env \<Rightarrow> trap \<Rightarrow> shell_lits \<Rightarrow> shell_vars \<Rightarrow> u32 \<Rightarrow> 'a prog_state_scheme \<Rightarrow> 'a prog_state_scheme out" where
  "shell_cd e r ls vs p s =
     bind_out (shell_arg (p + 2) s) (\<lambda>(beg_p, s1).
     bind_out (val (usr_chdir e r beg_p s1)) (\<lambda>(ok, s2).
     let s3 = zero_array (v_out vs) s2; args = (\<lambda>i. if i = 0 then beg_p else e_junk e (i - 1))
     in bind_out (if ok = - 1 then sprintf_call e (v_out vs) (m_nochdir ls) args s3
                  else if ok = - 2 then sprintf_call e (v_out vs) (m_notdir ls) args s3
                  else Some (Inr s3)) (\<lambda>s4.
        run (usr_console_write e r (v_out vs) GREEN s4))))"

definition shell_pwd :: "env \<Rightarrow> trap \<Rightarrow> shell_lits \<Rightarrow> shell_vars \<Rightarrow> 'a prog_state_scheme \<Rightarrow> 'a prog_state_scheme out" where
  "shell_pwd e r ls vs s =
     bind_out (run (usr_pwd e r (v_buf vs) s)) (\<lambda>s1.
     bind_out (run (usr_console_write e r (v_buf vs) GREEN s1)) (\<lambda>s2.
     run (usr_console_write e r (m_newline ls) GREEN s2)))"

definition shell_mkdir :: "env \<Rightarrow> trap \<Rightarrow> shell_lits \<Rightarrow> shell_vars \<Rightarrow> u32 \<Rightarrow> 'a prog_state_scheme \<Rightarrow> 'a prog_state_scheme out" where
  "shell_mkdir e r ls vs p s =
     bind_out (shell_arg (p + 5) s) (\<lambda>(beg_p, s1).
     bind_out (run (usr_pwd e r (v_buf vs) s1)) (\<lambda>s2.
     bind_out (val (usr_chdir e r beg_p s2)) (\<lambda>(ok, s3).
     let s4 = zero_array (v_out vs) s3; args = (\<lambda>i. if i = 0 then beg_p else e_junk e (i - 1))
     in if ok = 0
        then bind_out (sprintf_call e (v_out vs) (m_exists ls) args s4) (\<lambda>s5.
             bind_out (run (usr_console_write e r (v_out vs) GREEN s5)) (\<lambda>s6.
             run (usr_chdir e r (v_buf vs) s6)))
        else if ok = - 2
        then bind_out (sprintf_call e (v_out vs) (m_existsfile ls) args s4) (\<lambda>s5.
             run (usr_console_write e r (v_out vs) GREEN s5))
        else run (usr_create_dir e r beg_p s4))))"

text \<open>The words of the line become the arguments of a program: an array of pointers to copies, with a null pointer
  behind the last. The two names \<open>cat\<close> and \<open>kill\<close> are replaced by paths.\<close>

primrec split_args :: "bool \<Rightarrow> env \<Rightarrow> trap \<Rightarrow> u32 \<Rightarrow> nat list \<Rightarrow> u32 \<Rightarrow> 'a prog_state_scheme \<Rightarrow> 'a prog_state_scheme out" where
  "split_args late e r av [] end_p s = Some (Inr s)"
| "split_args late e r av (i # is) end_p s =
     Option.bind (skip_blanks (user_mem s) end_p) (\<lambda>beg_p.
     Option.bind (word_end (user_mem s) beg_p) (\<lambda>end_p'.
     bind_out (malloc e r (end_p' - beg_p + 1) s) (\<lambda>(a, s1).
     let s2 = set_user (wr32 (user_mem s1) (av + 4 * of_nat i) a) s1;
         m = snd (usr_strncpy late (user_mem s2) a beg_p (end_p' - beg_p))
     in split_args late e r av is end_p' (set_user (m(a + (end_p' - beg_p) := 0)) s2))))"

definition known_program :: "shell_lits \<Rightarrow> u32 \<Rightarrow> 'a kstate_scheme \<Rightarrow> 'a kstate_scheme out" where
  "known_program ls av s =
     (let m = user_mem s
      in Option.bind (usr_strncmp m (k_cat ls) (rd32 m av) 3) (\<lambda>c.
         if c = 0 then Some (Inr (set_user (wr32 m av (p_cat ls)) s))
         else Option.bind (usr_strncmp m (k_kill ls) (rd32 m av) 4) (\<lambda>k.
              if k = 0 then Some (Inr (set_user (wr32 m av (p_kill ls)) s)) else Some (Inr s))))"

text \<open>Up to the call of \<open>exec\<close>: the number of words and one, the array, and the process.\<close>

definition shell_exec :: "bool \<Rightarrow> env \<Rightarrow> trap \<Rightarrow> shell_lits \<Rightarrow> u32 \<Rightarrow> 'a prog_state_scheme \<Rightarrow> ((nat \<times> u32 \<times> u32) option \<times> 'a prog_state_scheme) out" where
  "shell_exec late e r ls beg_p s =
     Option.bind (count_words (user_mem s) beg_p 1) (\<lambda>ac.
     if ac > 1
     then bind_out (malloc e r (4 * of_nat ac) s) (\<lambda>(av, s1).
          bind_out (split_args late e r av [0..<ac - 1] beg_p s1) (\<lambda>s2.
          bind_out (known_program ls av (set_user (wr32 (user_mem s2) (av + 4 * of_nat (ac - 1)) 0) s2)) (\<lambda>s3.
          bind_out (val (usr_exec e r (rd32 (user_mem s3) av) av s3)) (\<lambda>(n, s4).
          Some (Inr (Some (ac, av, n), s4))))))
     else Some (Inr (None, s)))"

text \<open>After the program: \<open>wait\<close> when there is one, and the release of the arguments.\<close>

definition shell_wait :: "env \<Rightarrow> trap \<Rightarrow> shell_vars \<Rightarrow> u32 \<Rightarrow> 'a prog_state_scheme \<Rightarrow> (reply \<times> 'a prog_state_scheme) out" where
  "shell_wait e r vs n s = (if 0 < sint n then usr_wait e r (v_status vs) s else Some (Inr (Keep, s)))"

primrec free_args :: "u32 \<Rightarrow> nat list \<Rightarrow> 'a prog_state_scheme \<Rightarrow> 'a prog_state_scheme out" where
  "free_args av [] s = Some (Inr s)"
| "free_args av (i # is) s = bind_out (usr_free (rd32 (user_mem s) (av + 4 * of_nat i)) s) (free_args av is)"

definition shell_release :: "u32 \<Rightarrow> nat \<Rightarrow> 'a prog_state_scheme \<Rightarrow> 'a prog_state_scheme out" where
  "shell_release av ac s = bind_out (free_args av [0..<ac - 1] s) (usr_free av)"

text \<open>The handler that the shell installs for signal 10 when it starts.\<close>

definition sigtrap :: "env \<Rightarrow> trap \<Rightarrow> u32 \<Rightarrow> 'a prog_state_scheme \<Rightarrow> 'a prog_state_scheme out" where
  "sigtrap e r msg s = run (usr_console_write e r msg GREEN s)"

definition shell_start :: "env \<Rightarrow> trap \<Rightarrow> u32 \<Rightarrow> 'a prog_state_scheme \<Rightarrow> 'a prog_state_scheme out" where
  "shell_start e r fn s = run (usr_sigaction e r 10 fn s)"

text \<open>The prompt, and one line: what command it is. \<open>None\<close> as the result stands for a built-in command that was carried
  out.\<close>

definition shell_prompt :: "env \<Rightarrow> trap \<Rightarrow> shell_lits \<Rightarrow> shell_vars \<Rightarrow> 'a prog_state_scheme \<Rightarrow> (reply \<times> 'a prog_state_scheme) out" where
  "shell_prompt e r ls vs s =
     bind_out (run (usr_pwd e r (v_buf vs) s)) (\<lambda>s1.
     bind_out (sprintf_call e (v_out vs) (m_prompt ls) (\<lambda>i. if i = 0 then v_buf vs else e_junk e (i - 1)) s1) (\<lambda>s2.
     bind_out (run (usr_console_write e r (v_out vs) GREEN s2)) (\<lambda>s3.
     usr_console_read e r (v_buf vs) (zero_array (v_buf vs) s3))))"

definition is_cmd :: "u32 \<Rightarrow> u32 \<Rightarrow> u32 \<Rightarrow> 'a kstate_scheme \<Rightarrow> bool option" where
  "is_cmd lt p n s = map_option (\<lambda>c. c = 0) (usr_strncmp (user_mem s) lt p n)"

datatype shell_next = Next_line | Exits reply | Started nat u32 u32

definition shell_line :: "bool \<Rightarrow> env \<Rightarrow> trap \<Rightarrow> shell_lits \<Rightarrow> shell_vars \<Rightarrow> 'a prog_state_scheme \<Rightarrow> (shell_next \<times> 'a prog_state_scheme) out" where
  "shell_line late e r ls vs s =
     Option.bind (skip_blanks (user_mem s) (v_buf vs)) (\<lambda>p.
     Option.bind (is_cmd (k_exit ls) p 4 s) (\<lambda>c. if c then bind_out (usr_exit e r 0 s) (\<lambda>(v, s1). Some (Inr (Exits v, s1)))
     else Option.bind (is_cmd (k_ls ls) p 2 s) (\<lambda>c. if c then bind_out (shell_ls e r ls vs s) (\<lambda>s1. Some (Inr (Next_line, s1)))
     else Option.bind (is_cmd (k_cd ls) p 2 s) (\<lambda>c. if c then bind_out (shell_cd e r ls vs p s) (\<lambda>s1. Some (Inr (Next_line, s1)))
     else Option.bind (is_cmd (k_pwd ls) p 3 s) (\<lambda>c. if c then bind_out (shell_pwd e r ls vs s) (\<lambda>s1. Some (Inr (Next_line, s1)))
     else Option.bind (is_cmd (k_mkdir ls) p 3 s) (\<lambda>c. if c then bind_out (shell_mkdir e r ls vs p s) (\<lambda>s1. Some (Inr (Next_line, s1)))
     else Option.bind (is_cmd (k_help ls) p 4 s) (\<lambda>c.
       if c then bind_out (run (usr_console_write e r (m_usage ls) GREEN s)) (\<lambda>s1. Some (Inr (Next_line, s1)))
     else bind_out (shell_exec late e r ls p s) (\<lambda>(x, s1).
       Some (Inr (case x of None \<Rightarrow> Next_line | Some (ac, av, n) \<Rightarrow> Started ac av n, s1))))))))))"

section \<open>What \<open>cat\<close> shows\<close>

lemma bind_out_unit: "bind_out r (\<lambda>x. Some (Inr x)) = r"
  by (simp add: bind_out_def split: option.split sum.split)

lemma val_answer: "val (answer r) = r"
proof -
  have "val (answer r) = bind_out r (\<lambda>x. Some (Inr x))"
    unfolding val_def bind_out_assoc by (rule arg_cong [of _ _ "bind_out r"]) (simp add: fun_eq_iff split: prod.split)
  then show ?thesis by (simp only: bind_out_unit)
qed

lemma run_finish: "run (finish r) = r"
  by (simp add: run_def bind_out_assoc bind_out_unit)

lemma run_answer: "run (answer r) = bind_out r (\<lambda>(v, s). Some (Inr s))"
  unfolding run_def bind_out_assoc by (rule arg_cong [of _ _ "bind_out r"]) (simp add: fun_eq_iff split: prod.split)

lemma val_read: "val (usr_read e r n buf sz s) = sys_read (e_junk e) n buf sz s"
  unfolding usr_read_call val_answer ..

lemma run_write: "run (usr_console_write e r p c s) = sys_console_write (e_junk e) p (scast c) s"
  using run_finish [of "sys_console_write (e_junk e) p (scast c) s"]
  by (simp add: usr_console_write_def int30_def do_syscalls_def)

text \<open>Showing a string without percent signs.\<close>

lemma putcar_kattr: "kattr (putcar c s) = kattr s"
  by (simp add: putcar_def Let_def hide_cursor_def show_cursor_def scrollup_def)

lemma fold_putcar_kattr: "kattr (fold putcar xs s) = kattr s"
  by (induction xs arbitrary: s) (simp_all add: putcar_kattr)

lemma console_write_string:
  assumes "cstr (user_mem s) p xs" "37 \<notin> set xs"
  shows "sys_console_write junk p c s = Some (Inr (s\<lparr>scr := (fold putcar xs ((scr s)\<lparr>kattr := ucast c\<rparr>))\<lparr>kattr := 0x02\<rparr>\<rparr>))"
  using printk_plain [of "\<lparr>fmem = user_mem s, fptr = p, vargs = junk\<rparr>" xs junk "(scr s)\<lparr>kattr := ucast c\<rparr>"] assms
  by (simp add: sys_console_write_def)

text \<open>In green, the colour of the kernel, the screen is as if the characters had been printed one after the other.\<close>

lemma write_green:
  assumes "cstr (user_mem s) p xs" "37 \<notin> set xs" "kattr (scr s) = 0x02"
  shows "run (usr_console_write e r p GREEN s) = Some (Inr (s\<lparr>scr := fold putcar xs (scr s)\<rparr>))"
proof -
  have g: "ucast (scast GREEN :: u32) = (0x02 :: u8)" by simp
  have "(scr s)\<lparr>kattr := 0x02\<rparr> = scr s" using assms(3) by (cases "scr s") simp
  moreover have "(fold putcar xs (scr s))\<lparr>kattr := 0x02\<rparr> = fold putcar xs (scr s)"
    using assms(3) fold_putcar_kattr [of xs "scr s"] by (cases "fold putcar xs (scr s)") simp
  ultimately show ?thesis unfolding run_write console_write_string [OF assms(1,2)] g by simp
qed

lemma file_open_scr [simp]: "file_open (s\<lparr>scr := x\<rparr>) n xs p = file_open s n xs p"
  by (simp add: file_open_def Let_def)

lemma file_open_poke [simp]: "file_open (poke a c s) n xs p = file_open s n xs p"
  by (simp add: file_open_def Let_def poke_def)

lemma mapped_scr [simp]: "mapped (s\<lparr>scr := x\<rparr>) = mapped s"
proof -
  have "walk (s\<lparr>scr := x\<rparr>) = walk s" by (rule walk_cong) simp_all
  then show ?thesis by (simp add: mapped_def fun_eq_iff)
qed

lemma mapped_poke [simp]: "mapped (poke a c s) = mapped s"
  by (simp add: poke_def)

lemma cstr_poke:
  assumes "contents m a k = xs" "0 \<notin> set xs" "k < 2 ^ 32"
  shows "cstr (m(a + of_nat k := 0)) a xs"
proof (rule cstrI)
  have len: "length xs = k" using assms(1) by (auto simp: contents_def)
  then show "(m(a + of_nat k := 0)) (a + of_nat (length xs)) = 0" by simp
  show "(m(a + of_nat k := 0)) (a + of_nat i) = xs ! i \<and> xs ! i \<noteq> 0" if "i < length xs" for i
  proof -
    have "(of_nat i :: u32) \<noteq> of_nat k" using that len assms(3) by (intro of_nat_ne_u32) simp_all
    moreover have "xs ! i = m (a + of_nat i)"
      unfolding assms(1) [symmetric] using that len by (simp add: contents_def)
    moreover have "xs ! i \<noteq> 0" using nth_mem [OF that] assms(2) by metis
    ultimately show ?thesis by simp
  qed
qed

lemma cat_loop_prints:
  fixes s :: "'a prog_state_scheme"
  shows "file_open s n xs p \<Longrightarrow> length xs < 2 ^ 31 \<Longrightarrow> mapped s buf 511 \<Longrightarrow> 0 \<notin> set xs \<Longrightarrow> 37 \<notin> set xs \<Longrightarrow>
    kattr (scr s) = 0x02 \<Longrightarrow>
    \<exists>s'. cat_loop e r ls n buf s = Some (Inr s') \<and> scr s' = fold putcar (drop p xs) (scr s) \<and> file_open s' n xs (length xs)"
proof (induction "length xs - p" arbitrary: p s rule: less_induct)
  case less
  define k where "k = min 511 (length xs - p)"
  define ys where "ys = take k (drop p xs)"
  have p: "p \<le> length xs" using less.prems(1) by (simp add: file_open_def Let_def)
  have u: "unat (511 :: u32) = 511" by simp
  obtain s1 where s1: "sys_read (e_junk e) n buf 511 s = Some (Inr (of_nat k, s1))" "file_open s1 n xs (p + k)"
    "contents (user_mem s1) buf k = ys" "mapped s1 = mapped s" "scr s1 = scr s"
    using sys_read_file [OF less.prems(1), of 511 buf "e_junk e"] less.prems(2,3) p unfolding u k_def [symmetric] ys_def by auto
  have k: "k \<le> 511" "unat (of_nat k :: u32) = k" by (simp_all add: k_def unat_of_nat_u32)
  have km: "(of_nat k :: u32) \<noteq> - 1"
  proof
    assume "(of_nat k :: u32) = - 1"
    then have "k = 4294967295" using k(2) unat_minus_one_u32 by simp
    with k(1) show False by simp
  qed
  have k0: "(of_nat k :: u32) = 0 \<longleftrightarrow> k = 0" unfolding word_unat_eq_iff k(2) by simp
  have ys: "0 \<notin> set ys" "37 \<notin> set ys" using less.prems(4,5) unfolding ys_def by (meson in_set_takeD in_set_dropD)+
  let ?s2 = "poke (buf + of_nat k) 0 s1"
  have c: "cstr (user_mem ?s2) buf ys"
    unfolding poke_def using cstr_poke [OF s1(3) ys(1)] k(1) by simp
  have sc: "scr ?s2 = scr s" by (simp add: poke_def s1(5))
  let ?s3 = "?s2\<lparr>scr := fold putcar ys (scr s)\<rparr>"
  have w: "run (usr_console_write e r buf GREEN ?s2) = Some (Inr ?s3)"
    using write_green [OF c ys(2)] less.prems(6) unfolding sc by simp
  have step: "cat_loop e r ls n buf s = (if k \<noteq> 0 then cat_loop e r ls n buf ?s3 else Some (Inr ?s3))"
    by (subst cat_loop.simps) (simp add: val_read s1(1) km w k0)
  show ?case
  proof (cases "k = 0")
    case True
    then have "drop p xs = []" "p = length xs" using p by (simp_all add: k_def)
    then show ?thesis using step True s1(2) by (auto simp: ys_def)
  next
    case False
    have fo: "file_open ?s3 n xs (p + k)" using s1(2) by simp
    have "\<exists>s'. cat_loop e r ls n buf ?s3 = Some (Inr s') \<and> scr s' = fold putcar (drop (p + k) xs) (scr ?s3) \<and> file_open s' n xs (length xs)"
    proof (rule less.hyps [OF _ fo less.prems(2) _ less.prems(4,5)])
      show "length xs - (p + k) < length xs - p" using False p by (simp add: k_def)
      show "mapped ?s3 buf 511" using less.prems(3) s1(4) by simp
      show "kattr (scr ?s3) = 0x02" using less.prems(6) fold_putcar_kattr [of ys "scr s"] by simp
    qed
    moreover have "drop p xs = ys @ drop (p + k) xs" unfolding ys_def by (simp add: add.commute [of p k] flip: drop_drop)
    ultimately show ?thesis using step False by simp
  qed
qed

section \<open>\<open>kill\<close>\<close>

lemma kill_main_sends:
  assumes "\<not> sint argc < 3" "cstr (user_mem s) (rd32 (user_mem s) (argv + 4)) (digits 10 sig)"
    "cstr (user_mem s) (rd32 (user_mem s) (argv + 8)) (digits 10 (of_nat n))" "n \<le> MAXPID" "0 < pstate (p_list s n)"
  shows "kill_main e r usage out argc argv s
    = usr_exit e r 0 (upd_proc n (\<lambda>p. p\<lparr>signal := set_signal (signal p) sig\<rparr>) s)"
proof -
  have at: "atoi (user_mem s) a = Some k" if "cstr (user_mem s) a (digits 10 k)" for a k
  proof -
    have ne: "digits 10 k \<noteq> []" by (simp add: digits_def rdigits_nonempty)
    then have "is_digit (digits 10 k ! 0)" by (intro digits_10(1) [of _ k] nth_mem) simp
    then have "user_mem s a \<noteq> 45" using cstr_nth [OF that, of 0] ne by (auto simp: is_digit_def)
    then show ?thesis using atoi_numeral [of "user_mem s" a k "[]"] that by (simp add: atoi_def)
  qed
  have "unat (of_nat n :: u32) = n" using assms(4) by (intro unat_of_nat_u32) simp
  then have "sint (of_nat n :: u32) = int n" using sint_u32 [of "of_nat n"] assms(4) by simp
  then have k: "sys_kill (sint (of_nat n :: u32)) sig s = Inr (0, upd_proc n (\<lambda>p. p\<lparr>signal := set_signal (signal p) sig\<rparr>) s)"
    using assms(4,5) by (simp add: sys_kill_def)
  have "usr_kill e r (of_nat n) sig s = answer (Some (sys_kill (sint (of_nat n :: u32)) sig s))"
    by (simp add: usr_kill_def int30_def do_syscalls_def)
  then have "run (usr_kill e r (of_nat n) sig s) = Some (Inr (upd_proc n (\<lambda>p. p\<lparr>signal := set_signal (signal p) sig\<rparr>) s))"
    unfolding k by (simp add: run_def)
  then show ?thesis using assms(1) at [OF assms(2)] at [OF assms(3)] by (simp add: kill_main_def)
qed

section \<open>Words of a command line\<close>

text \<open>The words of a line: what is between blanks, up to the end of the line.\<close>

primrec split_by :: "('a \<Rightarrow> bool) \<Rightarrow> 'a list \<Rightarrow> 'a list list" where
  "split_by P [] = [[]]"
| "split_by P (x # xs) = (if P x then [] # split_by P xs else (x # hd (split_by P xs)) # tl (split_by P xs))"

definition line_words :: "u8 list \<Rightarrow> u8 list list" where
  "line_words xs = filter (\<lambda>w. w \<noteq> []) (split_by blank (takeWhile (\<lambda>c. c \<noteq> 10) xs))"

abbreviation in_word :: "u8 \<Rightarrow> bool" where
  "in_word c \<equiv> c \<noteq> 10 \<and> \<not> blank c"

lemma split_by_span: "split_by P xs = takeWhile (\<lambda>x. \<not> P x) xs #
    (case dropWhile (\<lambda>x. \<not> P x) xs of [] \<Rightarrow> [] | _ # ys \<Rightarrow> split_by P ys)"
  by (induction xs) (auto split: list.split)

lemma line_words_blank: "blank c \<Longrightarrow> line_words (c # xs) = line_words xs"
  by (auto simp: line_words_def)

lemma line_words_end: "line_words [] = []" "line_words (10 # xs) = []"
  by (simp_all add: line_words_def)

lemma takeWhile_word: "takeWhile (\<lambda>x. \<not> blank x) (takeWhile (\<lambda>c. c \<noteq> 10) xs) = takeWhile in_word xs"
  by (induction xs) auto

lemma dropWhile_word:
  "dropWhile (\<lambda>x. \<not> blank x) (takeWhile (\<lambda>c. c \<noteq> 10) xs) = takeWhile (\<lambda>c. c \<noteq> 10) (dropWhile in_word xs)"
  by (induction xs) auto

lemma line_words_word:
  assumes "in_word c"
  shows "line_words (c # xs) = (c # takeWhile in_word xs) # line_words (dropWhile in_word xs)"
proof -
  let ?ys = "takeWhile (\<lambda>c. c \<noteq> 10) xs" and ?zs = "takeWhile (\<lambda>c. c \<noteq> 10) (dropWhile in_word xs)"
  have "filter (\<lambda>w. w \<noteq> []) (case ?zs of [] \<Rightarrow> [] | _ # ys \<Rightarrow> split_by blank ys) = line_words (dropWhile in_word xs)"
  proof (cases ?zs)
    case Nil
    show ?thesis unfolding line_words_def Nil by simp
  next
    case (Cons z zs)
    then have "blank z" using hd_dropWhile [of "\<lambda>x. \<not> blank x" ?ys] unfolding dropWhile_word by simp
    then show ?thesis unfolding line_words_def Cons by simp
  qed
  then show ?thesis
    unfolding line_words_def using assms split_by_span [of blank "c # ?ys"] by (simp add: takeWhile_word [simplified] dropWhile_word [simplified])
qed

text \<open>The two scans of the code.\<close>

lemma skip_blanks_cstr: "cstr m p xs \<Longrightarrow> skip_blanks m p = Some (p + of_nat (length (takeWhile blank xs)))
    \<and> cstr m (p + of_nat (length (takeWhile blank xs))) (dropWhile blank xs)"
proof (induction xs arbitrary: p)
  case Nil
  then show ?case by (subst skip_blanks.simps) simp
next
  case (Cons x xs)
  then have c: "m p = x" "cstr m (p + 1) xs" by simp_all
  show ?case
  proof (cases "blank x")
    case True
    with Cons.IH [OF c(2)] c(1) show ?thesis by (subst skip_blanks.simps) (simp add: add.assoc)
  next
    case False
    with Cons.prems c(1) show ?thesis by (subst skip_blanks.simps) simp
  qed
qed

lemma word_end_cstr: "cstr m p xs \<Longrightarrow> word_end m p = Some (p + of_nat (length (takeWhile in_word xs)))
    \<and> cstr m (p + of_nat (length (takeWhile in_word xs))) (dropWhile in_word xs)"
proof (induction xs arbitrary: p)
  case Nil
  then show ?case by (subst word_end.simps) simp
next
  case (Cons x xs)
  then have c: "m p = x" "x \<noteq> 0" "cstr m (p + 1) xs" by simp_all
  show ?case
  proof (cases "in_word x")
    case True
    with Cons.IH [OF c(3)] c(1,2) show ?thesis by (subst word_end.simps) (simp add: add.assoc)
  next
    case False
    with Cons.prems c(1,2) show ?thesis by (subst word_end.simps) auto
  qed
qed

lemma line_words_skip: "line_words (dropWhile blank xs) = line_words xs"
  by (induction xs) (auto simp: line_words_blank)

lemma count_words_line:
  "cstr m p xs \<Longrightarrow> takeWhile blank xs = [] \<Longrightarrow> count_words m p ac = Some (ac + length (line_words xs))"
proof (induction "length xs" arbitrary: xs p ac rule: less_induct)
  case less
  show ?case
  proof (cases "xs = [] \<or> hd xs = 10")
    case True
    then have "line_words xs = []" by (cases xs) (auto simp: line_words_end)
    moreover have "m p = 0 \<or> m p = 10" using True less.prems(1) by (cases xs) auto
    ultimately show ?thesis by (subst count_words.simps) auto
  next
    case False
    then obtain c ys where xs: "xs = c # ys" "c \<noteq> 10" by (cases xs) auto
    with less.prems have c: "m p = c" "c \<noteq> 0" "in_word c" by (auto split: if_splits)
    let ?zs = "dropWhile in_word xs"
    let ?q = "p + of_nat (length (takeWhile in_word xs))"
    note we = word_end_cstr [OF less.prems(1)]
    note sb = skip_blanks_cstr [OF conjunct2 [OF we]]
    have "length ?zs < length xs" using xs c(3) length_dropWhile_le [of in_word ys] by simp
    moreover have "length (dropWhile blank ?zs) \<le> length ?zs" by (rule length_dropWhile_le)
    ultimately have "count_words m (?q + of_nat (length (takeWhile blank ?zs))) (ac + 1)
        = Some (ac + 1 + length (line_words (dropWhile blank ?zs)))"
      using sb by (intro less.hyps) (simp_all add: takeWhile_dropWhile_same)
    moreover have "length (line_words xs) = 1 + length (line_words ?zs)"
      using line_words_word [OF c(3), of ys] xs c(3) by simp
    ultimately show ?thesis
      using we sb c xs by (subst count_words.simps) (simp add: line_words_skip)
  qed
qed

section \<open>Properties\<close>

text \<open>C8. \<open>cat\<close> on an open file: the loop of reads and writes ends, and the screen is the one on which the characters of
  the file from the position of the descriptor on were printed one after the other: through \<open>read\<close>, the buffer of
  the program, \<open>console_write\<close> and \<open>printk\<close> nothing is lost, doubled or changed, whatever the length of the file. The
  hypotheses: the file has no 0 and no percent sign (which \<open>printk\<close> would take for a conversion), the buffer is mapped
  and the colour is the usual one.\<close>

theorem cat_shows_file:
  fixes s :: "'a prog_state_scheme"
  assumes "file_open s n xs p" "length xs < 2 ^ 31" "mapped s buf 511" "0 \<notin> set xs" "37 \<notin> set xs" "kattr (scr s) = 0x02"
  shows "\<exists>s'. cat_loop e r ls n buf s = Some (Inr s') \<and> scr s' = fold putcar (drop p xs) (scr s) \<and> file_open s' n xs (length xs)"
  by (rule cat_loop_prints [OF assms])

theorem cat_shows_file_witness:
  "\<forall>e r ls. \<exists>s'. cat_loop e r ls 0 0x40002000 (demo_prog\<lparr>scr := (scr demo_prog)\<lparr>kattr := 0x02\<rparr>\<rparr>) = Some (Inr s')
    \<and> scr s' = fold putcar [97, 98, 99] ((scr demo_prog)\<lparr>kattr := 0x02\<rparr>)"
proof (intro allI)
  fix e r ls
  let ?s = "demo_prog\<lparr>scr := (scr demo_prog)\<lparr>kattr := 0x02\<rparr>\<rparr>"
  have sel: "kmem demo_prog = kmem demo_files" "f_inode demo_prog = f_inode demo_files" "f_mmap demo_prog = f_mmap demo_files"
    "fd (cur demo_prog) = fd (cur demo_files)" "pmem demo_prog = pmem demo_files" "cr3 demo_prog = cr3 demo_files"
    by (simp_all add: demo_prog_def fs_state.defs set_user_def upd_proc_def)
  have "file_open demo_files 0 [97, 98, 99] 0"
    by (simp add: file_open_def Let_def i_size_def less_Suc_eq numeral_3_eq_3, simp add: wr32_def)
  then have fo: "file_open ?s 0 [97, 98, 99] 0" using sel by (simp add: file_open_def Let_def)
  have "walk demo_prog = walk demo_files" by (rule walk_cong) (simp_all only: sel)
  then have mp: "mapped ?s 0x40002000 511" using demo_files_mapped [of "0x40002000" 511] by (simp add: mapped_def)
  show "\<exists>s'. cat_loop e r ls 0 0x40002000 ?s = Some (Inr s') \<and> scr s' = fold putcar [97, 98, 99] ((scr demo_prog)\<lparr>kattr := 0x02\<rparr>)"
    using cat_shows_file [OF fo _ mp, of e r ls] by auto
qed

end
