(* ===== verification/Vga.thy ===== *)
theory Vga
  imports Prelude
begin

text \<open>
  The graphics modes of \<^verbatim>\<open>kern/vgaM.c\<close> with the tables of \<^verbatim>\<open>kern/vgaM.h\<close>. The code is a sequence of accesses to
  ports; the adapter that receives them (indexed registers, the write protection of the timing registers, the
  flip-flop of the attribute controller) is defined separately, as the hardware manuals describe it, and the property is
  about the picture that it then shows.
\<close>

section \<open>The code\<close>

text \<open>\<open>byte\<close> is \<open>char\<close>, which is signed.\<close>

datatype port_op = Outb u16 u8 | Outw u16 u16 | Inb u16

definition hor_regs :: "u8 list" where
  "hor_regs = [0x0, 0x1, 0x2, 0x3, 0x4, 0x5, 0x13]"

definition ver_regs :: "u8 list" where
  "ver_regs = [0x6, 0x7, 0x9, 0x10, 0x11, 0x12, 0x15, 0x16]"

text \<open>The tables, and the bits for the miscellaneous output register.\<close>

definition width_256 :: "u8 list" where "width_256 = [0x5f, 0x3f, 0x40, 0x82, 0x4a, 0x9a, 0x20]"
definition width_320 :: "u8 list" where "width_320 = [0x5f, 0x4f, 0x50, 0x82, 0x54, 0x80, 0x28]"
definition width_360 :: "u8 list" where "width_360 = [0x6b, 0x59, 0x5a, 0x8e, 0x5e, 0x8a, 0x2d]"
definition width_376 :: "u8 list" where "width_376 = [0x6e, 0x5d, 0x5e, 0x91, 0x62, 0x8f, 0x2f]"
definition width_400 :: "u8 list" where "width_400 = [0x70, 0x63, 0x64, 0x92, 0x65, 0x82, 0x32]"

definition height_200 :: "u8 list" where "height_200 = [0xbf, 0x1f, 0x41, 0x9c, 0x8e, 0x8f, 0x96, 0xb9]"
definition height_224 :: "u8 list" where "height_224 = [0x0b, 0x3e, 0x41, 0xda, 0x9c, 0xbf, 0xc7, 0x04]"
definition height_240 :: "u8 list" where "height_240 = [0x0d, 0x3e, 0x41, 0xea, 0xac, 0xdf, 0xe7, 0x06]"
definition height_256 :: "u8 list" where "height_256 = [0x23, 0xb2, 0x61, 0x0a, 0xac, 0xff, 0x07, 0x1a]"
definition height_270 :: "u8 list" where "height_270 = [0x30, 0xf0, 0x61, 0x20, 0xa9, 0x1b, 0x1f, 0x2f]"
definition height_300 :: "u8 list" where "height_300 = [0x70, 0xf0, 0x61, 0x5b, 0x8c, 0x57, 0x58, 0x70]"
definition height_360 :: "u8 list" where "height_360 = [0xbf, 0x1f, 0x40, 0x88, 0x85, 0x67, 0x6d, 0xba]"
definition height_400 :: "u8 list" where "height_400 = [0xbf, 0x1f, 0x40, 0x9c, 0x8e, 0x8f, 0x96, 0xb9]"
definition height_480 :: "u8 list" where "height_480 = [0x0d, 0x3e, 0x40, 0xea, 0xac, 0xdf, 0xe7, 0x06]"
definition height_564 :: "u8 list" where "height_564 = [0x62, 0xf0, 0x60, 0x37, 0x89, 0x33, 0x3c, 0x5c]"
definition height_600 :: "u8 list" where "height_600 = [0x70, 0xf0, 0x60, 0x5b, 0x8c, 0x57, 0x58, 0x70]"

lemmas vga_tables =
  width_256_def width_320_def width_360_def width_376_def width_400_def
  height_200_def height_224_def height_240_def height_256_def height_270_def height_300_def height_360_def height_400_def height_480_def height_564_def height_600_def

text \<open>The two switches: the table and the bits \<open>R_W...\<close> and \<open>R_H...\<close>.\<close>

definition width_table :: "int \<Rightarrow> (u8 list \<times> u8) option" where
  "width_table width =
     (if width = 256 then Some (width_256, 0x00)
      else if width = 320 then Some (width_320, 0x00)
      else if width = 360 then Some (width_360, 0x04)
      else if width = 376 then Some (width_376, 0x04)
      else if width = 400 then Some (width_400, 0x04)
      else None)"

definition height_table :: "int \<Rightarrow> (u8 list \<times> u8) option" where
  "height_table height =
     (if height = 200 then Some (height_200, 0x00)
      else if height = 224 then Some (height_224, 0x80)
      else if height = 240 then Some (height_240, 0x80)
      else if height = 256 then Some (height_256, 0x80)
      else if height = 270 then Some (height_270, 0x80)
      else if height = 300 then Some (height_300, 0x80)
      else if height = 360 then Some (height_360, 0x00)
      else if height = 400 then Some (height_400, 0x00)
      else if height = 480 then Some (height_480, 0x80)
      else if height = 564 then Some (height_564, 0x80)
      else if height = 600 then Some (height_600, 0x80)
      else None)"

text \<open>\<open>(word)((w[a]<<8)+hor_regs[a])\<close>\<close>

definition reg_word :: "u8 \<Rightarrow> u8 \<Rightarrow> u16" where
  "reg_word v r = word_of_int (sint v * 256 + sint r)"

definition write_regs :: "u8 list \<Rightarrow> u8 list \<Rightarrow> port_op list" where
  "write_regs vs rs = map (\<lambda>(v, r). Outw 0x3d4 (reg_word v r)) (zip vs rs)"

text \<open>The mode switch itself.\<close>

definition modeswitch :: "u8 \<Rightarrow> u8 list \<Rightarrow> u8 list \<Rightarrow> bool \<Rightarrow> port_op list" where
  "modeswitch v w h chain4 =
     [Outb 0x3c2 v, Outw 0x3d4 0x0e11]
     @ write_regs w hor_regs @ write_regs h ver_regs
     @ [Outw 0x3d4 0x0008]
     @ (if chain4 then [Outw 0x3d4 0x4014, Outw 0x3d4 0xa317, Outw 0x3c4 0x0e04]
        else [Outw 0x3d4 0x0014, Outw 0x3d4 0xe317, Outw 0x3c4 0x0604])
     @ [Outw 0x3c4 0x0101, Outw 0x3c4 0x0f02, Outw 0x3ce 0x4005, Outw 0x3ce 0x0506,
        Inb 0x3da, Outb 0x3c0 0x30, Outb 0x3c0 0x41, Outb 0x3c0 0x33, Outb 0x3c0 0x00]
     @ concat (map (\<lambda>a. [Outb 0x3c0 (of_nat a), Outb 0x3c0 (of_nat a)]) [0..<16])
     @ [Outb 0x3c0 0x20]"

text \<open>The result and the accesses to ports.\<close>

definition init_graph_vga :: "int \<Rightarrow> int \<Rightarrow> int \<Rightarrow> int \<times> port_op list" where
  "init_graph_vga width height chain4 =
     (case width_table width of None \<Rightarrow> (0, []) | Some (w, rw) \<Rightarrow>
      case height_table height of None \<Rightarrow> (0, []) | Some (h, rh) \<Rightarrow>
        if chain4 \<noteq> 0 \<and> width * height > 65536 then (0, [])
        else (1, modeswitch ((0x63 + rw) OR rh) w h (chain4 \<noteq> 0)))"

section \<open>The adapter\<close>

record vga =
  misc :: u8
  crtc :: "u8 \<Rightarrow> u8"
  sequencer :: "u8 \<Rightarrow> u8"
  graphics :: "u8 \<Rightarrow> u8"
  attribute :: "u8 \<Rightarrow> u8"
  attr_index :: u8
  attr_data :: bool

text \<open>Registers 0 to 7 of the CRT controller are protected by bit 7 of register 0x11, apart from bit 4 of
  register 7.\<close>

definition crtc_write :: "u8 \<Rightarrow> u8 \<Rightarrow> (u8 \<Rightarrow> u8) \<Rightarrow> u8 \<Rightarrow> u8" where
  "crtc_write i v r =
     (if bit (r 0x11) 7 \<and> i \<le> 7
      then (if i = 7 then r(7 := (r 7 AND NOT 0x10) OR (v AND 0x10)) else r)
      else r(i := v))"

text \<open>Port 0x3c0 takes an index and a value in turn; reading 0x3da makes the next write an index. While bit 5 of the
  index is set, the palette (registers 0 to 15) drives the screen and cannot be written.\<close>

definition attr_write :: "u8 \<Rightarrow> vga \<Rightarrow> vga" where
  "attr_write v s =
     (if attr_data s
      then let i = attr_index s AND 0x1f
           in s\<lparr>attr_data := False,
                attribute := if bit (attr_index s) 5 \<and> i < 16 then attribute s else (attribute s)(i := v)\<rparr>
      else s\<lparr>attr_data := True, attr_index := v\<rparr>)"

fun port_step :: "port_op \<Rightarrow> vga \<Rightarrow> vga" where
  "port_step (Outb p v) s =
     (if p = 0x3c2 then s\<lparr>misc := v\<rparr> else if p = 0x3c0 then attr_write v s else s)"
| "port_step (Outw p v) s =
     (let i = ucast v; d = ucast (drop_bit 8 v)
      in if p = 0x3d4 then s\<lparr>crtc := crtc_write i d (crtc s)\<rparr>
         else if p = 0x3c4 then s\<lparr>sequencer := (sequencer s)(i := d)\<rparr>
         else if p = 0x3ce then s\<lparr>graphics := (graphics s)(i := d)\<rparr>
         else s)"
| "port_step (Inb p) s = (if p = 0x3da then s\<lparr>attr_data := False\<rparr> else s)"

definition run_ports :: "port_op list \<Rightarrow> vga \<Rightarrow> vga" where
  "run_ports ops s = fold port_step ops s"

text \<open>What is shown in a mode of 256 colours: four pixels for each character clock of the horizontal display; the
  lines of the vertical display (ten bits, two of them in the overflow register 7) divided by the lines of a row; and
  the length of a row in memory.\<close>

definition shown_width :: "vga \<Rightarrow> nat" where
  "shown_width s = 4 * (unat (crtc s 0x01) + 1)"

definition lines_shown :: "u8 \<Rightarrow> u8 \<Rightarrow> u8 \<Rightarrow> nat" where
  "lines_shown vde overflow scan =
     (unat vde + (if bit overflow 1 then 256 else 0) + (if bit overflow 6 then 512 else 0) + 1)
     div (unat (scan AND 0x1f) + 1) div (if bit scan 7 then 2 else 1)"

definition shown_height :: "vga \<Rightarrow> nat" where
  "shown_height s = lines_shown (crtc s 0x12) (crtc s 0x07) (crtc s 0x09)"

definition row_pixels :: "vga \<Rightarrow> nat" where
  "row_pixels s = 8 * unat (crtc s 0x13)"

definition identity_palette :: "vga \<Rightarrow> bool" where
  "identity_palette s \<longleftrightarrow> list_all (\<lambda>i. attribute s (of_nat i) = of_nat i) [0..<16]"

definition video_on :: "vga \<Rightarrow> bool" where
  "video_on s \<longleftrightarrow> bit (attr_index s) 5"

definition chained :: "vga \<Rightarrow> bool" where
  "chained s \<longleftrightarrow> bit (sequencer s 4) 3"

section \<open>The picture\<close>

lemma run_ports_simps [simp]:
  "run_ports [] s = s" "run_ports (p # ops) s = run_ports ops (port_step p s)"
  "run_ports (xs @ ys) s = run_ports ys (run_ports xs s)"
  by (simp_all add: run_ports_def)

lemma unat_reg_word:
  assumes "r < 0x80"
  shows "unat (reg_word v r) = unat v * 256 + unat r"
proof -
  have "uint r < 128" using assms word_less_def [of r 128] by simp
  then have r: "sint r = uint r" using signed_take_bit_int_eq_self [of 7 "uint r"] order_trans [of "- 128" 0 "uint r"]
    by (simp add: sint_uint)
  have m: "(sint v * 256 + uint r) mod 2 ^ 16 = (uint v * 256 + uint r) mod 2 ^ 16"
  proof -
    have "sint v mod 256 = uint v mod 256"
      using take_bit_signed_take_bit [of 8 7 "uint v"] by (simp add: sint_uint take_bit_eq_mod)
    then have "(sint v * 256) mod (256 * 256) = (uint v * 256) mod (256 * 256)"
      by (simp only: mod_mult_mult2)
    then show ?thesis by (intro mod_add_cong) simp_all
  qed
  have "uint (reg_word v r) = (uint v * 256 + uint r) mod 2 ^ 16"
    using m by (simp only: reg_word_def r uint_word_of_int) simp
  also have "\<dots> = uint v * 256 + uint r"
    using uint_lt2p [of v] uint_lt2p [of r] by (intro mod_pos_pos_trivial) auto
  finally have "int (unat (reg_word v r)) = int (unat v * 256 + unat r)" by simp
  then show ?thesis by (simp only: of_nat_eq_iff)
qed

lemma reg_word_bytes:
  assumes "r < 0x80"
  shows "ucast (reg_word v r) = r" "ucast (drop_bit 8 (reg_word v r)) = (v :: u8)"
proof -
  have b: "unat v < 256" "unat r < 256" using unsigned_less [of v, where ?'a = nat] unsigned_less [of r, where ?'a = nat] by simp_all
  show "ucast (reg_word v r) = r"
    using b by (simp add: word_unat_eq_iff unsigned_ucast_eq take_bit_eq_mod unat_reg_word [OF assms])
  have "unat (drop_bit 8 (reg_word v r)) = unat v"
    using b by (simp only: unat_drop_bit_eq unat_reg_word [OF assms]) (simp add: drop_bit_eq_div)
  then show "ucast (drop_bit 8 (reg_word v r)) = v"
    using b by (simp add: word_unat_eq_iff unsigned_ucast_eq take_bit_eq_mod)
qed

lemma write_regs_simps [simp]:
  "write_regs [] rs = []" "write_regs vs [] = []"
  "write_regs (v # vs) (r # rs) = Outw 0x3d4 (reg_word v r) # write_regs vs rs"
  by (simp_all add: write_regs_def)

lemma index_bytes:
  "(0x0e11 :: u8) = 0x11" "(0x4014 :: u8) = 0x14" "(0xa317 :: u8) = 0x17" "(0xe317 :: u8) = 0x17" "(0x0e04 :: u8) = 4"
  "(0x0604 :: u8) = 4" "(0x0101 :: u8) = 1" "(0x0f02 :: u8) = 2" "(0x4005 :: u8) = 5" "(0x0506 :: u8) = 6"
  by simp_all

text \<open>The timing registers, for any two tables: the protection is off while they are written.\<close>

lemma crtc_timing:
  assumes "w = [w0, w1, w2, w3, w4, w5, w6]" "h = [h0, h1, h2, h3, h4, h5, h6, h7]"
  shows "run_ports ([Outw 0x3d4 0x0e11] @ write_regs w hor_regs @ write_regs h ver_regs @ [Outw 0x3d4 0x0008]) s =
    s\<lparr>crtc := (crtc s)(0x11 := 0x0e, 0 := w0, 1 := w1, 2 := w2, 3 := w3, 4 := w4, 5 := w5, 0x13 := w6,
       6 := h0, 7 := h1, 9 := h2, 0x10 := h3, 0x11 := h4, 0x12 := h5, 0x15 := h6, 0x16 := h7, 8 := 0)\<rparr>"
  unfolding assms hor_regs_def ver_regs_def by (simp add: crtc_write_def reg_word_bytes index_bytes Let_def)

lemma palette_index:
  assumes "n < 16"
  shows "of_nat n AND 0x1f = (of_nat n :: u8)" "\<not> bit (of_nat n :: u8) 5" "unat (of_nat n :: u8) = n"
proof -
  have "n \<in> set [0..<16]" using assms by simp
  then have "of_nat n AND 0x1f = (of_nat n :: u8) \<and> \<not> bit (of_nat n :: u8) 5 \<and> unat (of_nat n :: u8) = n"
    by (auto simp: upt_rec [of _ 16] bit_iff_odd)
  then show "of_nat n AND 0x1f = (of_nat n :: u8)" "\<not> bit (of_nat n :: u8) 5" "unat (of_nat n :: u8) = n" by simp_all
qed

lemma palette_writes:
  assumes "n \<le> 16" "\<not> attr_data s"
  shows "\<exists>ix. run_ports (concat (map (\<lambda>a. [Outb 0x3c0 (of_nat a), Outb 0x3c0 (of_nat a)]) [0..<n])) s
    = s\<lparr>attribute := (\<lambda>i. if unat i < n then i else attribute s i), attr_index := ix\<rparr>"
  using assms(1)
proof (induction n)
  case 0
  show ?case by (rule exI [of _ "attr_index s"]) simp
next
  case (Suc n)
  then obtain ix where ix: "run_ports (concat (map (\<lambda>a. [Outb 0x3c0 (of_nat a), Outb 0x3c0 (of_nat a)]) [0..<n])) s
    = s\<lparr>attribute := (\<lambda>i. if unat i < n then i else attribute s i), attr_index := ix\<rparr>" by auto
  have "(\<lambda>i. if unat i < n then i else attribute s i)(of_nat n := of_nat n)
    = (\<lambda>i. if unat i < Suc n then i else attribute s i)"
    using palette_index(3) [of n] Suc.prems by (auto simp: fun_eq_iff less_Suc_eq word_unat_eq_iff)
  then show ?case using assms(2) palette_index [of n] Suc.prems
    by (auto simp: ix attr_write_def Let_def intro!: exI [of _ "of_nat n"])
qed

lemma modeswitch_state:
  assumes "w = [w0, w1, w2, w3, w4, w5, w6]" "h = [h0, h1, h2, h3, h4, h5, h6, h7]"
    and s'_def: "s' = run_ports (modeswitch v w h chain4) s"
  shows "misc s' = v"
    "crtc s' = (crtc s)(0x11 := 0x0e, 0 := w0, 1 := w1, 2 := w2, 3 := w3, 4 := w4, 5 := w5, 0x13 := w6,
       6 := h0, 7 := h1, 9 := h2, 0x10 := h3, 0x11 := h4, 0x12 := h5, 0x15 := h6, 0x16 := h7, 8 := 0,
       0x14 := if chain4 then 0x40 else 0, 0x17 := if chain4 then 0xa3 else 0xe3)"
    "sequencer s' = (sequencer s)(4 := if chain4 then 0x0e else 6, 1 := 1, 2 := 0x0f)"
    "graphics s' = (graphics s)(5 := 0x40, 6 := 5)"
    "unat i < 16 \<Longrightarrow> attribute s' i = i" "attr_index s' = 0x20"
proof -
  let ?T = "[Outw 0x3d4 0x0e11] @ write_regs w hor_regs @ write_regs h ver_regs @ [Outw 0x3d4 0x0008]"
  let ?C = "(if chain4 then [Outw 0x3d4 0x4014, Outw 0x3d4 0xa317, Outw 0x3c4 0x0e04]
        else [Outw 0x3d4 0x0014, Outw 0x3d4 0xe317, Outw 0x3c4 0x0604])
     @ [Outw 0x3c4 0x0101, Outw 0x3c4 0x0f02, Outw 0x3ce 0x4005, Outw 0x3ce 0x0506,
        Inb 0x3da, Outb 0x3c0 0x30, Outb 0x3c0 0x41, Outb 0x3c0 0x33, Outb 0x3c0 0x00]"
  let ?P = "concat (map (\<lambda>a. [Outb 0x3c0 (of_nat a), Outb 0x3c0 (of_nat a)]) [0..<16])"
  define s3 where "s3 = run_ports ?C (run_ports ?T (s\<lparr>misc := v\<rparr>))"
  have c: "run_ports ?C u = u\<lparr>crtc := (crtc u)(0x14 := if chain4 then 0x40 else 0, 0x17 := if chain4 then 0xa3 else 0xe3),
      sequencer := (sequencer u)(4 := if chain4 then 0x0e else 6, 1 := 1, 2 := 0x0f),
      graphics := (graphics u)(5 := 0x40, 6 := 5),
      attribute := (attribute u)(0x10 := 0x41, 0x13 := 0), attr_index := 0x33, attr_data := False\<rparr>" for u
    by (simp add: crtc_write_def attr_write_def index_bytes Let_def)
  have s3: "\<not> attr_data s3" unfolding s3_def c by simp
  from palette_writes [OF order_refl this] obtain ix where
    p: "run_ports ?P s3 = s3\<lparr>attribute := (\<lambda>i. if unat i < 16 then i else attribute s3 i), attr_index := ix\<rparr>" ..
  have "run_ports (modeswitch v w h chain4) s = port_step (Outb 0x3c0 0x20) (run_ports ?P s3)"
    unfolding modeswitch_def run_ports_simps s3_def by simp
  also have "\<dots> = s3\<lparr>attribute := (\<lambda>i. if unat i < 16 then i else attribute s3 i), attr_index := 0x20,
      attr_data := True\<rparr>"
    unfolding p by (simp add: attr_write_def s3)
  finally have e: "s' = \<dots>" by (simp only: s'_def)
  have "crtc s3 = (crtc s)(0x11 := 0x0e, 0 := w0, 1 := w1, 2 := w2, 3 := w3, 4 := w4, 5 := w5, 0x13 := w6,
       6 := h0, 7 := h1, 9 := h2, 0x10 := h3, 0x11 := h4, 0x12 := h5, 0x15 := h6, 0x16 := h7, 8 := 0,
       0x14 := if chain4 then 0x40 else 0, 0x17 := if chain4 then 0xa3 else 0xe3)"
    "sequencer s3 = (sequencer s)(4 := if chain4 then 0x0e else 6, 1 := 1, 2 := 0x0f)"
    "graphics s3 = (graphics s)(5 := 0x40, 6 := 5)" "misc s3 = v"
    unfolding s3_def c crtc_timing [OF assms(1,2)] by simp_all
  note f = this
  show "misc s' = v" "sequencer s' = (sequencer s)(4 := if chain4 then 0x0e else 6, 1 := 1, 2 := 0x0f)"
    "graphics s' = (graphics s)(5 := 0x40, 6 := 5)" "unat i < 16 \<Longrightarrow> attribute s' i = i" "attr_index s' = 0x20"
    unfolding e by (simp_all add: f(2-4))
  show "crtc s' = (crtc s)(0x11 := 0x0e, 0 := w0, 1 := w1, 2 := w2, 3 := w3, 4 := w4, 5 := w5, 0x13 := w6,
       6 := h0, 7 := h1, 9 := h2, 0x10 := h3, 0x11 := h4, 0x12 := h5, 0x15 := h6, 0x16 := h7, 8 := 0,
       0x14 := if chain4 then 0x40 else 0, 0x17 := if chain4 then 0xa3 else 0xe3)"
    using f(1) unfolding e by simp
qed

section \<open>Properties\<close>

definition widths :: "int list" where
  "widths = [256, 320, 360, 376, 400]"

definition heights :: "int list" where
  "heights = [200, 224, 240, 256, 270, 300, 360, 400, 480, 564, 600]"

lemma width_table_entries:
  assumes "width_table x = Some (w, rw)"
  shows "\<exists>w0 w1 w2 w3 w4 w5 w6. w = [w0, w1, w2, w3, w4, w5, w6] \<and> int (4 * (unat w1 + 1)) = x \<and> int (8 * unat w6) = x"
  using assms by (auto simp: width_table_def vga_tables split: if_splits)

lemma height_table_lines:
  assumes "height_table y = Some (h, rh)"
  shows "length h = 8 \<and> int (lines_shown (h ! 5) (h ! 1) (h ! 2)) = y"
  using assms unfolding height_table_def vga_tables
  by (simp split: if_split_asm) (elim conjE, hypsubst, simp add: lines_shown_def bit_numeral_word_iff flip: numeral_2_eq_2)+

lemma height_table_entries:
  assumes "height_table y = Some (h, rh)"
  shows "\<exists>h0 h1 h2 h3 h4 h5 h6 h7. h = [h0, h1, h2, h3, h4, h5, h6, h7] \<and> int (lines_shown h5 h1 h2) = y"
proof -
  have "h = map ((!) h) [0..<8]" using height_table_lines [OF assms] map_nth [of h] by simp
  also have "\<dots> = [h ! 0, h ! 1, h ! 2, h ! 3, h ! 4, h ! 5, h ! 6, h ! 7]" by (simp add: upt_rec numeral_eq_Suc)
  finally show ?thesis using height_table_lines [OF assms] by blast
qed

lemma table_dom:
  "width_table x \<noteq> None \<longleftrightarrow> x \<in> set widths" "height_table y \<noteq> None \<longleftrightarrow> y \<in> set heights"
  by (simp_all add: width_table_def height_table_def widths_def heights_def)

lemma graph_mode:
  "fst (init_graph_vga x y c) = 1 \<longleftrightarrow> x \<in> set widths \<and> y \<in> set heights \<and> (c = 0 \<or> x * y \<le> 65536)"
  "fst (init_graph_vga x y c) \<noteq> 1 \<Longrightarrow> init_graph_vga x y c = (0, [])"
  "fst (init_graph_vga x y c) = 1 \<Longrightarrow> s' = run_ports (snd (init_graph_vga x y c)) s \<Longrightarrow>
     int (shown_width s') = x \<and> int (shown_height s') = y \<and> int (row_pixels s') = x \<and> identity_palette s'
     \<and> bit (graphics s' 5) 6 \<and> (chained s' \<longleftrightarrow> c \<noteq> 0) \<and> video_on s'"
proof -
  show "fst (init_graph_vga x y c) = 1 \<longleftrightarrow> x \<in> set widths \<and> y \<in> set heights \<and> (c = 0 \<or> x * y \<le> 65536)"
    unfolding table_dom [symmetric] by (auto simp: init_graph_vga_def split: option.split)
  show "fst (init_graph_vga x y c) \<noteq> 1 \<Longrightarrow> init_graph_vga x y c = (0, [])"
    by (auto simp: init_graph_vga_def split: option.splits if_splits)
  assume ok: "fst (init_graph_vga x y c) = 1" and s': "s' = run_ports (snd (init_graph_vga x y c)) s"
  then obtain w rw h rh where t: "width_table x = Some (w, rw)" "height_table y = Some (h, rh)"
    "snd (init_graph_vga x y c) = modeswitch ((0x63 + rw) OR rh) w h (c \<noteq> 0)"
    by (auto simp: init_graph_vga_def split: option.splits if_splits)
  from width_table_entries [OF t(1)] obtain w0 w1 w2 w3 w4 w5 w6 where
    w: "w = [w0, w1, w2, w3, w4, w5, w6]" "int (4 * (unat w1 + 1)) = x" "int (8 * unat w6) = x" by blast
  from height_table_entries [OF t(2)] obtain h0 h1 h2 h3 h4 h5 h6 h7 where
    h: "h = [h0, h1, h2, h3, h4, h5, h6, h7]"
      "int (lines_shown h5 h1 h2) = y" by blast
  note m = modeswitch_state [OF w(1) h(1) s' [unfolded t(3)]]
  have "shown_width s' = 4 * (unat w1 + 1)" "row_pixels s' = 8 * unat w6"
    by (simp_all add: shown_width_def row_pixels_def m(2))
  moreover have "shown_height s' = lines_shown h5 h1 h2"
    by (simp add: shown_height_def m(2))
  moreover have "identity_palette s'" by (auto simp: identity_palette_def list_all_iff m(5) palette_index)
  moreover have "bit (graphics s' 5) 6" "chained s' \<longleftrightarrow> c \<noteq> 0" "video_on s'"
    by (simp_all add: m(3,4,6) chained_def video_on_def bit_iff_odd)
  ultimately show "int (shown_width s') = x \<and> int (shown_height s') = y \<and> int (row_pixels s') = x \<and> identity_palette s'
     \<and> bit (graphics s' 5) 6 \<and> (chained s' \<longleftrightarrow> c \<noteq> 0) \<and> video_on s'"
    using w(2,3) h(2) by simp
qed


definition locked_adapter :: vga where
  "locked_adapter = \<lparr>misc = 0, crtc = (\<lambda>_. 0x80), sequencer = (\<lambda>_. 0), graphics = (\<lambda>_. 0), attribute = (\<lambda>_. 0x3f),
     attr_index = 0, attr_data = True\<rparr>"


end
