(* ===== verification/Descriptors.thy ===== *)
theory Descriptors
  imports Prelude
begin

text \<open>
  The tables of the processor: segment descriptors (\<^verbatim>\<open>kern/gdt.c\<close>, \<^verbatim>\<open>kern/gdt.h\<close>), interrupt gates
  (\<^verbatim>\<open>kern/idt.c\<close>, \<^verbatim>\<open>kern/idt.h\<close>) and the interrupt controllers (\<^verbatim>\<open>kern/pic.c\<close>). The descriptors are
  packed structures; what the processor reads from their bytes is defined separately, and the properties are
  about what it reads. The addresses of the assembler entry points are a parameter.
\<close>

section \<open>The code\<close>

subsection \<open>Segment descriptors\<close>

abbreviation (input) GDTSIZE :: nat where "GDTSIZE \<equiv> 0xFF"
abbreviation (input) IDTSIZE :: nat where "IDTSIZE \<equiv> 0xFF"
abbreviation (input) GDTBASE :: u32 where "GDTBASE \<equiv> 0x800"
abbreviation (input) IDTBASE :: u32 where "IDTBASE \<equiv> 0"

record gdtdesc =
  lim0_15 :: u16
  base0_15 :: u16
  base16_23 :: u8
  acces :: u8
  lim16_19 :: "4 word"
  other :: "4 word"
  base24_31 :: u8

definition init_gdt_desc :: "u32 \<Rightarrow> u32 \<Rightarrow> u8 \<Rightarrow> u8 \<Rightarrow> gdtdesc" where
  "init_gdt_desc base limite acc oth =
     \<lparr>lim0_15 = ucast (limite AND 0xffff), base0_15 = ucast (base AND 0xffff),
      base16_23 = ucast (drop_bit 16 (base AND 0xff0000)), acces = acc,
      lim16_19 = ucast (drop_bit 16 (limite AND 0xf0000)), other = ucast (oth AND 0xf),
      base24_31 = ucast (drop_bit 24 (base AND 0xff000000))\<rparr>"

text \<open>The bytes of the packed structure.\<close>

definition gdtdesc_bytes :: "gdtdesc \<Rightarrow> u8 list" where
  "gdtdesc_bytes d =
     [ucast (lim0_15 d), ucast (drop_bit 8 (lim0_15 d)), ucast (base0_15 d), ucast (drop_bit 8 (base0_15 d)),
      base16_23 d, acces d, ucast (lim16_19 d) OR push_bit 4 (ucast (other d)), base24_31 d]"

text \<open>The registers GDTR and IDTR.\<close>

record table_reg =
  limite :: u16
  base :: u32

record tss =
  previous_task :: u16
  t_esp0 :: u32
  t_ss0 :: u16
  t_esp1 :: u32
  t_ss1 :: u16
  t_esp2 :: u32
  t_ss2 :: u16
  t_cr3 :: u32
  t_eip :: u32
  t_eflags :: u32
  t_eax :: u32
  t_ecx :: u32
  t_edx :: u32
  t_ebx :: u32
  t_esp :: u32
  t_ebp :: u32
  t_esi :: u32
  t_edi :: u32
  t_es :: u16
  t_cs :: u16
  t_ss :: u16
  t_ds :: u16
  t_fs :: u16
  t_gs :: u16
  ldt_selector :: u16
  debug_flag :: u16
  io_map :: u16

text \<open>The globals of both tables; \<open>lowmem\<close> is physical memory, \<open>gdtr\<close> and \<open>idtr\<close> the registers of the
  processor.\<close>

record idtdesc =
  offset0_15 :: u16
  select :: u16
  gate_type :: u16
  offset16_31 :: u16

record tables =
  kgdt :: "nat \<Rightarrow> gdtdesc"
  kidt :: "nat \<Rightarrow> idtdesc"
  default_tss :: tss
  gdtr :: table_reg
  idtr :: table_reg
  lowmem :: mem

definition init_gdt :: "u32 \<Rightarrow> 'a tables_scheme \<Rightarrow> 'a tables_scheme" where
  "init_gdt tss_addr s =
     (let s1 = s\<lparr>default_tss := (default_tss s)\<lparr>debug_flag := 0, io_map := 0, t_esp0 := 0x1FFF0, t_ss0 := 0x18\<rparr>,
            kgdt := (kgdt s)(
              0 := init_gdt_desc 0x0 0x0 0x0 0x0,
              1 := init_gdt_desc 0x0 0xFFFFF 0x9B 0x0D,
              2 := init_gdt_desc 0x0 0xFFFFF 0x93 0x0D,
              3 := init_gdt_desc 0x0 0x0 0x97 0x0D,
              4 := init_gdt_desc 0x0 0xFFFFF 0xFF 0x0D,
              5 := init_gdt_desc 0x0 0xFFFFF 0xF3 0x0D,
              6 := init_gdt_desc 0x0 0x0 0xF7 0x0D,
              7 := init_gdt_desc tss_addr 0x67 0xE9 0x00)\<rparr>
      in s1\<lparr>gdtr := \<lparr>limite = of_nat GDTSIZE * 8, base = GDTBASE\<rparr>,
            lowmem := wr_bytes (lowmem s1) GDTBASE (concat (map (\<lambda>i. gdtdesc_bytes (kgdt s1 i)) [0..<GDTSIZE]))\<rparr>)"

subsection \<open>Interrupt gates\<close>

abbreviation (input) INTGATE :: u16 where "INTGATE \<equiv> 0x8E00"
abbreviation (input) TRAPGATE :: u16 where "TRAPGATE \<equiv> 0xEF00"

definition init_idt_desc :: "u16 \<Rightarrow> u32 \<Rightarrow> u16 \<Rightarrow> idtdesc" where
  "init_idt_desc sel offset ty =
     \<lparr>offset0_15 = ucast (offset AND 0xffff), select = sel, gate_type = ty,
      offset16_31 = ucast (drop_bit 16 (offset AND 0xffff0000))\<rparr>"

definition idtdesc_bytes :: "idtdesc \<Rightarrow> u8 list" where
  "idtdesc_bytes d =
     [ucast (offset0_15 d), ucast (drop_bit 8 (offset0_15 d)), ucast (select d), ucast (drop_bit 8 (select d)),
      ucast (gate_type d), ucast (drop_bit 8 (gate_type d)), ucast (offset16_31 d), ucast (drop_bit 8 (offset16_31 d))]"

record handlers =
  asm_default_int :: u32
  asm_exc_GP :: u32
  asm_exc_PF :: u32
  asm_irq_0 :: u32
  asm_irq_1 :: u32
  asm_syscalls :: u32

definition init_idt :: "handlers \<Rightarrow> 'a tables_scheme \<Rightarrow> 'a tables_scheme" where
  "init_idt h s =
     (let k0 = fold (\<lambda>i k. k(i := init_idt_desc 0x08 (asm_default_int h) INTGATE)) [0..<IDTSIZE] (kidt s);
          s1 = s\<lparr>kidt := k0(
              13 := init_idt_desc 0x08 (asm_exc_GP h) INTGATE,
              14 := init_idt_desc 0x08 (asm_exc_PF h) INTGATE,
              32 := init_idt_desc 0x08 (asm_irq_0 h) INTGATE,
              33 := init_idt_desc 0x08 (asm_irq_1 h) INTGATE,
              48 := init_idt_desc 0x08 (asm_syscalls h) TRAPGATE)\<rparr>
      in s1\<lparr>idtr := \<lparr>limite = of_nat IDTSIZE * 8, base = IDTBASE\<rparr>,
            lowmem := wr_bytes (lowmem s1) IDTBASE (concat (map (\<lambda>i. idtdesc_bytes (kidt s1 i)) [0..<IDTSIZE]))\<rparr>)"

subsection \<open>The interrupt controllers\<close>

definition init_pic :: "(u16 \<times> u8) list" where
  "init_pic =
     [(0x20, 0x11), (0xA0, 0x11),
      (0x21, 0x20), (0xA1, 0x70),
      (0x21, 0x04), (0xA1, 0x02),
      (0x21, 0x01), (0xA1, 0x01),
      (0x21, 0x0), (0xA1, 0x0)]"

section \<open>What the hardware sees\<close>

definition byte_at :: "mem \<Rightarrow> u32 \<Rightarrow> nat \<Rightarrow> u32" where
  "byte_at m a i = ucast (m (a + of_nat i))"

text \<open>The segment descriptor that a selector chooses: base, limit, access byte and flags.\<close>

definition cpu_segment :: "'a tables_scheme \<Rightarrow> u16 \<Rightarrow> u32 \<times> u32 \<times> u8 \<times> u8" where
  "cpu_segment s sel =
     (let m = lowmem s; a = base (gdtr s) + ucast (sel AND 0xFFF8)
      in (byte_at m a 2 OR push_bit 8 (byte_at m a 3) OR push_bit 16 (byte_at m a 4) OR push_bit 24 (byte_at m a 7),
          byte_at m a 0 OR push_bit 8 (byte_at m a 1) OR push_bit 16 (byte_at m a 6 AND 0xF),
          m (a + 5), drop_bit 4 (m (a + 6))))"

text \<open>The gate of a vector: selector, offset and type.\<close>

definition cpu_gate :: "'a tables_scheme \<Rightarrow> nat \<Rightarrow> u16 \<times> u32 \<times> u16" where
  "cpu_gate s v =
     (let m = lowmem s; a = base (idtr s) + 8 * of_nat v
      in (ucast (byte_at m a 2 OR push_bit 8 (byte_at m a 3)),
          byte_at m a 0 OR push_bit 8 (byte_at m a 1) OR push_bit 16 (byte_at m a 6) OR push_bit 24 (byte_at m a 7),
          ucast (byte_at m a 4 OR push_bit 8 (byte_at m a 5))))"

text \<open>The part of a controller that its initialisation sets: a byte to the command port with bit 4 starts
  it, the next bytes to the data port are the base vector, the cascade and the mode; later ones are the mask.\<close>

record pic =
  icw :: nat
  vec_base :: u8
  irq_mask :: u8

definition pic_out :: "u16 \<Rightarrow> u16 \<times> u8 \<Rightarrow> pic \<Rightarrow> pic" where
  "pic_out cmd = (\<lambda>(port, v) p.
     if port = cmd then (if v AND 0x10 \<noteq> 0 then p\<lparr>icw := 1\<rparr> else p)
     else if port = cmd + 1
     then if icw p = 1 then p\<lparr>vec_base := v AND 0xF8, icw := 2\<rparr>
          else if icw p = 2 then p\<lparr>icw := 3\<rparr>
          else if icw p = 3 then p\<lparr>icw := 0\<rparr>
          else p\<lparr>irq_mask := v\<rparr>
     else p)"

definition irq_vector :: "pic \<Rightarrow> pic \<Rightarrow> nat \<Rightarrow> nat" where
  "irq_vector master slave i = (if i < 8 then unat (vec_base master) + i else unat (vec_base slave) + (i - 8))"

section \<open>Round trips\<close>

lemma nth_concat_8:
  "(\<And>x. x \<in> set xs \<Longrightarrow> length x = 8) \<Longrightarrow> i < length xs \<Longrightarrow> j < 8 \<Longrightarrow> concat xs ! (8 * i + j) = xs ! i ! j"
proof (induction xs arbitrary: i)
  case (Cons x xs)
  show ?case
  proof (cases i)
    case 0
    with Cons.prems show ?thesis by (simp add: nth_append)
  next
    case (Suc k)
    with Cons.prems have "concat xs ! (8 * k + j) = xs ! k ! j" by (intro Cons.IH) auto
    with Suc Cons.prems show ?thesis by (simp add: nth_append)
  qed
qed simp

lemma length_concat_8: "(\<And>x. x \<in> set xs \<Longrightarrow> length x = 8) \<Longrightarrow> length (concat xs) = 8 * length xs"
  by (induction xs) auto

text \<open>The bytes of a table of 8-byte entries, at its address.\<close>

lemma table_byte:
  assumes "\<And>i. length (f i) = 8" "n < 2 ^ 20" "i < n" "j < 8"
  shows "wr_bytes m a (concat (map f [0..<n])) (a + 8 * of_nat i + of_nat j) = f i ! j"
proof -
  have l: "length (concat (map f [0..<n])) = 8 * n"
    using length_concat_8 [of "map f [0..<n]"] assms(1) by auto
  have "wr_bytes m a (concat (map f [0..<n])) (a + of_nat (8 * i + j)) = concat (map f [0..<n]) ! (8 * i + j)"
    by (rule wr_bytes_nth) (use l assms in auto)
  also have "\<dots> = f i ! j"
    using nth_concat_8 [of "map f [0..<n]" i j] assms by auto
  finally show ?thesis by (simp add: add.assoc)
qed

lemma table_other:
  assumes "\<And>i. length (f i) = 8" "n < 2 ^ 20" "\<not> in_block a (8 * n) b"
  shows "wr_bytes m a (concat (map f [0..<n])) b = m b"
proof -
  have l: "length (concat (map f [0..<n])) = 8 * n"
    using length_concat_8 [of "map f [0..<n]"] assms(1) by auto
  show ?thesis by (rule wr_bytes_outside) (use l assms(2,3) in simp_all)
qed

lemma gdtdesc_bytes_length [simp]: "length (gdtdesc_bytes d) = 8"
  by (simp add: gdtdesc_bytes_def)

lemma idtdesc_bytes_length [simp]: "length (idtdesc_bytes d) = 8"
  by (simp add: idtdesc_bytes_def)

text \<open>The masks of the code select the bytes that the conversion to the field keeps anyway.\<close>

lemma masks_push:
  "(0xffff :: u32) = mask 16" "(0xff0000 :: u32) = push_bit 16 (mask 8)" "(0xff000000 :: u32) = push_bit 24 (mask 8)"
  "(0xf0000 :: u32) = push_bit 16 (mask 4)" "(0xffff0000 :: u32) = push_bit 16 (mask 16)" "(0xf :: u8) = mask 4"
  "(0xFFFFF :: u32) = mask 20" "(0xF :: u32) = mask 4"
  by (simp_all add: mask_eq_exp_minus_1 push_bit_eq_mult)

lemma field_conv:
  "ucast (b AND 0xffff :: u32) = (ucast b :: u16)"
  "ucast (drop_bit 16 (b AND 0xff0000 :: u32)) = (ucast (drop_bit 16 b) :: u8)"
  "ucast (drop_bit 24 (b AND 0xff000000 :: u32)) = (ucast (drop_bit 24 b) :: u8)"
  "ucast (drop_bit 16 (b AND 0xf0000 :: u32)) = (ucast (drop_bit 16 b) :: 4 word)"
  "ucast (drop_bit 16 (b AND 0xffff0000 :: u32)) = (ucast (drop_bit 16 b) :: u16)"
  "ucast (c AND 0xf :: u8) = (ucast c :: 4 word)"
  unfolding masks_push by (rule bit_word_eqI; auto simp: bit_simps)+

lemma u16_bytes:
  "ucast (ucast (b :: u32) :: u16) = (ucast b :: u8)" "ucast (drop_bit 8 (ucast (b :: u32) :: u16)) = (ucast (drop_bit 8 b) :: u8)"
  "ucast (drop_bit 8 (ucast (drop_bit 16 (b :: u32)) :: u16)) = (ucast (drop_bit 24 b) :: u8)"
  by (rule bit_word_eqI; auto simp: bit_simps)+

lemma limit_bits:
  "ucast (ucast l :: u8) OR push_bit 8 (ucast (ucast (drop_bit 8 l) :: u8))
    OR push_bit 16 (ucast (ucast (ucast (drop_bit 16 l) :: 4 word) OR push_bit 4 (ucast (c :: 4 word)) :: u8) AND 0xF) = (l AND 0xFFFFF :: u32)"
  (is "?l = ?r")
proof (rule bit_word_eqI)
  fix n assume "n < LENGTH(32)"
  then consider "n < 8" | "8 \<le> n" "n < 16" | "16 \<le> n" "n < 20" | "20 \<le> n" "n < 32" by fastforce
  then show "bit ?l n = bit ?r n" unfolding masks_push by cases (auto simp: bit_simps)
qed

lemma flags_bits:
  "drop_bit 4 (ucast (a :: 4 word) OR push_bit 4 (ucast (ucast (c :: u8) :: 4 word)) :: u8) = c AND 0xF"
  unfolding masks_push by (rule bit_word_eqI) (auto simp: bit_simps dest: bit_imp_le_length)

lemma u16_join: "ucast (ucast (ucast (w :: u16) :: u8) OR push_bit 8 (ucast (ucast (drop_bit 8 w) :: u8)) :: u32) = w"
  (is "?l = _")
proof (rule bit_word_eqI)
  fix n assume "n < LENGTH(16)"
  then consider "n < 8" | "8 \<le> n" "n < 16" by fastforce
  then show "bit ?l n = bit w n" by cases (auto simp: bit_simps)
qed

text \<open>What the processor reads from an entry of either table.\<close>

lemma gdt_bytes_fields:
  "gdtdesc_bytes (init_gdt_desc b l a c) =
    [ucast l, ucast (drop_bit 8 l), ucast b, ucast (drop_bit 8 b), ucast (drop_bit 16 b), a,
     ucast (ucast (drop_bit 16 l) :: 4 word) OR push_bit 4 (ucast (ucast c :: 4 word)), ucast (drop_bit 24 b)]"
  by (simp only: gdtdesc_bytes_def init_gdt_desc_def gdtdesc.simps field_conv u16_bytes)

lemma idt_bytes_fields:
  "idtdesc_bytes (init_idt_desc sel off ty) =
    [ucast off, ucast (drop_bit 8 off), ucast sel, ucast (drop_bit 8 sel), ucast ty, ucast (drop_bit 8 ty),
     ucast (drop_bit 16 off), ucast (drop_bit 24 off)]"
proof -
  have "ucast (ucast (drop_bit 16 off) :: u16) = (ucast (drop_bit 16 off) :: u8)"
    by (rule bit_word_eqI) (auto simp: bit_simps)
  then show ?thesis
    by (simp only: idtdesc_bytes_def init_idt_desc_def idtdesc.simps field_conv u16_bytes drop_bit_drop_bit) simp
qed

lemma segment_roundtrip:
  assumes "\<And>j. j < 8 \<Longrightarrow> lowmem s (base (gdtr s) + ucast (sel AND 0xFFF8) + of_nat j) = gdtdesc_bytes (init_gdt_desc b l a c) ! j"
  shows "cpu_segment s sel = (b, l AND 0xFFFFF, a, c AND 0xF)"
proof -
  let ?x = "\<lambda>j. lowmem s (base (gdtr s) + ucast (sel AND 0xFFF8) + of_nat j)"
  have x: "?x 0 = ucast l" "?x 1 = ucast (drop_bit 8 l)" "?x 2 = ucast b" "?x 3 = ucast (drop_bit 8 b)"
    "?x 4 = ucast (drop_bit 16 b)" "?x 5 = a"
    "?x 6 = ucast (ucast (drop_bit 16 l) :: 4 word) OR push_bit 4 (ucast (ucast c :: 4 word))" "?x 7 = ucast (drop_bit 24 b)"
    by (subst assms; simp only: gdt_bytes_fields; simp)+
  have y: "lowmem s (base (gdtr s) + ucast (sel AND 0xFFF8) + 5) = ?x 5" "lowmem s (base (gdtr s) + ucast (sel AND 0xFFF8) + 6) = ?x 6"
    by simp_all
  show ?thesis unfolding cpu_segment_def Let_def byte_at_def y unfolding x
    by (simp only: bytes_join limit_bits flags_bits)
qed

lemma gate_roundtrip:
  assumes "\<And>j. j < 8 \<Longrightarrow> lowmem s (base (idtr s) + 8 * of_nat v + of_nat j) = idtdesc_bytes (init_idt_desc sel off ty) ! j"
  shows "cpu_gate s v = (sel, off, ty)"
proof -
  let ?x = "\<lambda>j. lowmem s (base (idtr s) + 8 * of_nat v + of_nat j)"
  have x: "?x 0 = ucast off" "?x 1 = ucast (drop_bit 8 off)" "?x 2 = ucast sel" "?x 3 = ucast (drop_bit 8 sel)"
    "?x 4 = ucast ty" "?x 5 = ucast (drop_bit 8 ty)" "?x 6 = ucast (drop_bit 16 off)" "?x 7 = ucast (drop_bit 24 off)"
    by (subst assms; simp only: idt_bytes_fields; simp)+
  show ?thesis unfolding cpu_gate_def Let_def byte_at_def unfolding x by (simp only: bytes_join u16_join)
qed

section \<open>Properties\<close>

definition zero_tss :: tss where
  "zero_tss = \<lparr>previous_task = 0, t_esp0 = 0, t_ss0 = 0, t_esp1 = 0, t_ss1 = 0, t_esp2 = 0, t_ss2 = 0, t_cr3 = 0,
     t_eip = 0, t_eflags = 0, t_eax = 0, t_ecx = 0, t_edx = 0, t_ebx = 0, t_esp = 0, t_ebp = 0, t_esi = 0, t_edi = 0,
     t_es = 0, t_cs = 0, t_ss = 0, t_ds = 0, t_fs = 0, t_gs = 0, ldt_selector = 0, debug_flag = 0, io_map = 0\<rparr>"

definition demo_tables :: tables where
  "demo_tables = \<lparr>kgdt = (\<lambda>_. init_gdt_desc 0 0 0 0), kidt = (\<lambda>_. init_idt_desc 0 0 0), default_tss = zero_tss,
     gdtr = \<lparr>limite = 0, base = 0\<rparr>, idtr = \<lparr>limite = 0, base = 0\<rparr>, lowmem = (\<lambda>_. 0)\<rparr>"

definition demo_handlers :: handlers where
  "demo_handlers = \<lparr>asm_default_int = 1, asm_exc_GP = 2, asm_exc_PF = 3, asm_irq_0 = 4, asm_irq_1 = 5, asm_syscalls = 6\<rparr>"

text \<open>The contents of the table that \<open>init_gdt\<close> builds.\<close>

definition gdt_entry :: "u32 \<Rightarrow> nat \<Rightarrow> u32 \<times> u32 \<times> u8 \<times> u8" where
  "gdt_entry tss_addr i = [(0, 0, 0, 0), (0, 0xFFFFF, 0x9B, 0xD), (0, 0xFFFFF, 0x93, 0xD), (0, 0, 0x97, 0xD),
     (0, 0xFFFFF, 0xFF, 0xD), (0, 0xFFFFF, 0xF3, 0xD), (0, 0, 0xF7, 0xD), (tss_addr, 0x67, 0xE9, 0)] ! i"

text \<open>The vector table: which entry point serves a vector.\<close>

definition vector_handler :: "handlers \<Rightarrow> nat \<Rightarrow> u32" where
  "vector_handler h v =
     (if v = 13 then asm_exc_GP h else if v = 14 then asm_exc_PF h else if v = 32 then asm_irq_0 h
      else if v = 33 then asm_irq_1 h else if v = 48 then asm_syscalls h else asm_default_int h)"

lemma init_gdt_byte:
  assumes "i < 8" "j < 8" "gdt_entry tss_addr i = (b, l, a, c)"
  shows "lowmem (init_gdt tss_addr s) (GDTBASE + 8 * of_nat i + of_nat j) = gdtdesc_bytes (init_gdt_desc b l a c) ! j"
proof -
  let ?k = "kgdt (init_gdt tss_addr s)"
  have "lowmem (init_gdt tss_addr s) =
      wr_bytes (lowmem s) GDTBASE (concat (map (\<lambda>i. gdtdesc_bytes (?k i)) [0..<GDTSIZE]))"
    by (simp add: init_gdt_def Let_def)
  then have "lowmem (init_gdt tss_addr s) (GDTBASE + 8 * of_nat i + of_nat j) = gdtdesc_bytes (?k i) ! j"
    using table_byte [of "\<lambda>i. gdtdesc_bytes (?k i)" GDTSIZE i j "lowmem s" GDTBASE] assms(1,2) by simp
  moreover have "i \<in> {0, 1, 2, 3, 4, 5, 6, 7}" using assms(1) by auto
  then have "?k i = init_gdt_desc b l a c"
    using assms(3) by (auto simp: init_gdt_def Let_def gdt_entry_def)
  ultimately show ?thesis by simp
qed

lemma fold_default: "fold (\<lambda>i k. k(i := d)) [0..<n] k = (\<lambda>i. if i < n then d else k i)"
  by (induction n) (auto simp: fun_eq_iff)

lemma init_idt_byte:
  assumes "v < 255" "j < 8"
  shows "lowmem (init_idt h s) (IDTBASE + 8 * of_nat v + of_nat j)
    = idtdesc_bytes (init_idt_desc 0x08 (vector_handler h v) (if v = 48 then TRAPGATE else INTGATE)) ! j"
proof -
  let ?k = "kidt (init_idt h s)"
  have "lowmem (init_idt h s) =
      wr_bytes (lowmem s) IDTBASE (concat (map (\<lambda>i. idtdesc_bytes (?k i)) [0..<IDTSIZE]))"
    by (simp add: init_idt_def Let_def)
  then have "lowmem (init_idt h s) (IDTBASE + 8 * of_nat v + of_nat j) = idtdesc_bytes (?k v) ! j"
    using table_byte [of "\<lambda>i. idtdesc_bytes (?k i)" IDTSIZE v j "lowmem s" IDTBASE] assms by simp
  moreover have "?k v = init_idt_desc 0x08 (vector_handler h v) (if v = 48 then TRAPGATE else INTGATE)"
    using assms(1) by (simp add: init_idt_def Let_def vector_handler_def fold_default)
  ultimately show ?thesis by simp
qed

lemma selector_index:
  assumes "i < 8" "(rpl :: u16) < 4"
  shows "(8 * of_nat i + rpl) AND 0xFFF8 = (8 * of_nat i :: u16)"
proof -
  have "unat rpl < 4" using assms(2) by (simp add: word_less_nat_alt)
  then have "unat rpl \<in> {0, 1, 2, 3}" by auto
  moreover have "rpl = of_nat (unat rpl)" by simp
  ultimately have "rpl \<in> {0, 1, 2, 3}" by (auto simp del: of_nat_unat)
  moreover have "i \<in> {0, 1, 2, 3, 4, 5, 6, 7}" using assms(1) by auto
  ultimately show ?thesis by auto
qed

text \<open>The interrupt table lies below the segment table.\<close>

lemma init_idt_keeps_gdt:
  assumes "i < 255" "j < 8"
  shows "lowmem (init_idt h s) (GDTBASE + 8 * of_nat i + of_nat j) = lowmem s (GDTBASE + 8 * of_nat i + of_nat j)"
proof -
  let ?k = "kidt (init_idt h s)"
  have "of_nat (0x800 + 8 * i + j) = (GDTBASE + 8 * of_nat i + of_nat j :: u32)" by simp
  moreover have "unat (of_nat (0x800 + 8 * i + j) :: u32) = 0x800 + 8 * i + j"
    using assms by (intro unat_of_nat_u32) simp
  ultimately have "\<not> in_block IDTBASE (8 * IDTSIZE) (GDTBASE + 8 * of_nat i + of_nat j)"
    by (simp add: in_block_def)
  then have "wr_bytes (lowmem s) IDTBASE (concat (map (\<lambda>i. idtdesc_bytes (?k i)) [0..<IDTSIZE])) (GDTBASE + 8 * of_nat i + of_nat j)
    = lowmem s (GDTBASE + 8 * of_nat i + of_nat j)"
    by (intro table_other) simp_all
  then show ?thesis by (simp add: init_idt_def Let_def)
qed

text \<open>C38. After \<open>init_gdt\<close> and \<open>init_idt\<close>, in the order of the boot code, the processor finds at each of the
  selectors 0, 8, ..., 0x38, whatever their privilege bits, the base, limit, access byte and flags that
  \<open>init_gdt\<close> gives: the second table does not overwrite the first, and no bit of the task state segment's
  address is lost in the split fields.\<close>

theorem gdt_selectors:
  assumes "i < 8" "rpl < 4"
  shows "cpu_segment (init_idt h (init_gdt tss_addr s)) (8 * of_nat i + rpl) = gdt_entry tss_addr i"
proof -
  obtain b l a c where e: "gdt_entry tss_addr i = (b, l, a, c)" by (cases "gdt_entry tss_addr i") auto
  let ?s = "init_idt h (init_gdt tss_addr s)"
  have g: "base (gdtr ?s) = GDTBASE" by (simp add: init_idt_def init_gdt_def Let_def)
  have i: "i \<in> {0, 1, 2, 3, 4, 5, 6, 7}" using assms(1) by auto
  have sel: "ucast ((8 * of_nat i + rpl) AND 0xFFF8) = (8 * of_nat i :: u32)"
    unfolding selector_index [OF assms] using i by auto
  have "cpu_segment ?s (8 * of_nat i + rpl) = (b, l AND 0xFFFFF, a, c AND 0xF)"
  proof (rule segment_roundtrip)
    fix j :: nat assume "j < 8"
    then show "lowmem ?s (base (gdtr ?s) + ucast ((8 * of_nat i + rpl) AND 0xFFF8) + of_nat j) = gdtdesc_bytes (init_gdt_desc b l a c) ! j"
      unfolding g sel using init_idt_keeps_gdt [of i j h "init_gdt tss_addr s"] init_gdt_byte [OF assms(1) _ e, of j s] assms(1) by simp
  qed
  moreover have "l AND 0xFFFFF = l" "c AND 0xF = c" using e i by (auto simp: gdt_entry_def)
  ultimately show ?thesis using e by simp
qed

theorem gdt_selectors_witness:
  "cpu_segment (init_idt demo_handlers (init_gdt 0x12345678 demo_tables)) (8 * of_nat 7 + 0) = (0x12345678, 0x67, 0xE9, 0)"
  using gdt_selectors [of 7 0 demo_handlers "0x12345678" demo_tables] by (simp add: gdt_entry_def)



end
