(* ===== verification/Volume.thy ===== *)
theory Volume
  imports Ext2_Files
begin

text \<open>
  A volume from its partition entry on: \<open>ext2_get_disk_info\<close> reads the superblock and the group descriptors, and
  with them the files of the volume are found. What a volume holds is defined on the bytes of the disk alone, so the
  properties relate memory to the disk, without the structures that the kernel keeps in between. The boot sector of a
  FAT volume (\<^verbatim>\<open>kern/fat.c\<close>) is read in the same way.
\<close>

section \<open>The code\<close>

text \<open>\<open>sizeof(struct fat_BS)\<close> is 90. The argument \<open>part\<close> is not used.\<close>

definition fat_get_disk_info :: "drive_io \<Rightarrow> int \<Rightarrow> u32 \<Rightarrow> 'a kheap_state_scheme \<Rightarrow> (u32 \<times> 'a kheap_state_scheme) out" where
  "fat_get_disk_info io device part s =
     bind_out (kmalloc 90 s) (\<lambda>(hd, s1).
     bind_out (io_read io device 0 hd 90 s1) (\<lambda>(_, s2).
     Some (Inr (hd, s2))))"

section \<open>A volume on the disk\<close>

definition half_at :: "u8 list \<Rightarrow> nat \<Rightarrow> u16" where
  "half_at xs i = ucast (xs ! i) OR push_bit 8 (ucast (xs ! (i + 1)))"

definition sb_bytes :: "(nat \<Rightarrow> u8) \<Rightarrow> nat \<Rightarrow> u8 list" where
  "sb_bytes b lba = map (\<lambda>k. b (512 * lba + 1024 + k)) [0..<1024]"

definition vol_blocksize :: "u8 list \<Rightarrow> nat" where
  "vol_blocksize sb = 1024 * 2 ^ unat (word_at sb 24)"

text \<open>A quotient rounded up, and the number of groups that the blocks and the inodes need.\<close>

definition ceil_div :: "nat \<Rightarrow> nat \<Rightarrow> nat" where
  "ceil_div a b = (a + b - 1) div b"

definition vol_groups :: "u8 list \<Rightarrow> nat" where
  "vol_groups sb = max (ceil_div (unat (word_at sb 4)) (unat (word_at sb 32))) (ceil_div (unat (word_at sb 0)) (unat (word_at sb 40)))"

text \<open>The group descriptors are in the block behind the superblock.\<close>

definition gd_pos :: "(nat \<Rightarrow> u8) \<Rightarrow> nat \<Rightarrow> nat" where
  "gd_pos b lba = 512 * lba + (let bs = vol_blocksize (sb_bytes b lba) in if bs = 1024 then 2048 else bs)"

definition gd_bytes :: "(nat \<Rightarrow> u8) \<Rightarrow> nat \<Rightarrow> u8 list" where
  "gd_bytes b lba = map (\<lambda>k. b (gd_pos b lba + k)) [0..<32 * vol_groups (sb_bytes b lba)]"

text \<open>Inode \<open>i\<close>, counted from 1: its group, its place in the table of the group, its bytes and its file.\<close>

definition vol_inode_pos :: "(nat \<Rightarrow> u8) \<Rightarrow> nat \<Rightarrow> nat \<Rightarrow> nat" where
  "vol_inode_pos b lba i =
     (let sb = sb_bytes b lba; ipg = unat (word_at sb 40)
      in 512 * lba + unat (word_at (gd_bytes b lba) (32 * ((i - 1) div ipg) + 8)) * vol_blocksize sb
         + (i - 1) mod ipg * unat (half_at sb 88))"

definition vol_inode :: "(nat \<Rightarrow> u8) \<Rightarrow> nat \<Rightarrow> nat \<Rightarrow> u8 list" where
  "vol_inode b lba i = map (\<lambda>k. b (vol_inode_pos b lba i + k)) [0..<unat (half_at (sb_bytes b lba) 88)]"

definition vol_block :: "(nat \<Rightarrow> u8) \<Rightarrow> nat \<Rightarrow> u32 \<Rightarrow> u8 list" where
  "vol_block b lba = block_bytes b (512 * lba) (vol_blocksize (sb_bytes b lba))"

definition vol_iblock :: "(nat \<Rightarrow> u8) \<Rightarrow> nat \<Rightarrow> nat \<Rightarrow> nat \<Rightarrow> u32" where
  "vol_iblock b lba i k = word_at (vol_inode b lba i) (40 + 4 * k)"

definition vol_file :: "(nat \<Rightarrow> u8) \<Rightarrow> nat \<Rightarrow> nat \<Rightarrow> u8 list" where
  "vol_file b lba i = take (unat (word_at (vol_inode b lba i) 4)) (file_bytes (vol_block b lba) (vol_iblock b lba i))"

text \<open>A volume that the driver can read: block sizes from 1 to 64 kB, at most 4000 groups (their descriptors are
  read by one command of at most 256 sectors), inodes of 100 to 128 bytes, all of it below 2 GB.\<close>

definition volume :: "(nat \<Rightarrow> u8) \<Rightarrow> nat \<Rightarrow> bool" where
  "volume b lba \<longleftrightarrow>
     (let sb = sb_bytes b lba
      in word_at sb 32 \<noteq> 0 \<and> word_at sb 40 \<noteq> 0 \<and> unat (word_at sb 24) \<le> 6
         \<and> 0 < vol_groups sb \<and> vol_groups sb \<le> 4000 \<and> 512 * lba + 200000 < 2 ^ 31
         \<and> 100 \<le> unat (half_at sb 88) \<and> unat (half_at sb 88) \<le> 128)"

definition vol_block_in_range :: "(nat \<Rightarrow> u8) \<Rightarrow> nat \<Rightarrow> u32 \<Rightarrow> bool" where
  "vol_block_in_range b lba k \<longleftrightarrow>
     (let bs = vol_blocksize (sb_bytes b lba) in 512 * lba + unat k * bs + bs < 2 ^ 31)"

definition vol_inode_ok :: "(nat \<Rightarrow> u8) \<Rightarrow> nat \<Rightarrow> nat \<Rightarrow> bool" where
  "vol_inode_ok b lba i \<longleftrightarrow> 1 \<le> i \<and> i < 2 ^ 32
     \<and> (i - 1) div unat (word_at (sb_bytes b lba) 40) < vol_groups (sb_bytes b lba)
     \<and> vol_inode_pos b lba i + 128 < 2 ^ 31
     \<and> file_ok (vol_block_in_range b lba) (vol_block b lba) (vol_iblock b lba i)"

section \<open>Mounting\<close>

text \<open>Bytes of a list in memory.\<close>

definition mem_list :: "mem \<Rightarrow> u32 \<Rightarrow> u8 list \<Rightarrow> bool" where
  "mem_list m a xs \<longleftrightarrow> (\<forall>j < length xs. m (a + of_nat j) = xs ! j)"

lemma mem_list_nth: "mem_list m a xs \<Longrightarrow> j < length xs \<Longrightarrow> m (a + of_nat j) = xs ! j"
  by (simp add: mem_list_def)

lemma mem_list_rd32: "mem_list m a xs \<Longrightarrow> k + 4 \<le> length xs \<Longrightarrow> rd32 m (a + of_nat k) = word_at xs k"
  using mem_list_nth [of m a xs k] mem_list_nth [of m a xs "k + 1"] mem_list_nth [of m a xs "k + 2"]
    mem_list_nth [of m a xs "k + 3"]
  by (simp add: rd32_def word_at_def add_ac)

lemma mem_list_rd16: "mem_list m a xs \<Longrightarrow> k + 2 \<le> length xs \<Longrightarrow> rd16 m (a + of_nat k) = half_at xs k"
  using mem_list_nth [of m a xs k] mem_list_nth [of m a xs "k + 1"] by (simp add: rd16_def half_at_def add_ac)

lemma mem_list_keep:
  assumes "same_data D m m'" "held D a (length xs)" "mem_list m a xs"
  shows "mem_list m' a xs"
  using assms held_byte [OF assms(1,2)] by (simp add: mem_list_def)

lemma ceil_div_eq: "b \<noteq> 0 \<Longrightarrow> ceil_div a b = a div b + (if a mod b \<noteq> 0 then 1 else 0)"
proof -
  assume b: "b \<noteq> 0"
  define q r where "q = a div b" and "r = a mod b"
  have a: "a = q * b + r" "r < b" using b by (simp_all add: q_def r_def)
  have "q * b + r + b - 1 = r + b - 1 + q * b" using b by simp
  then have "(q * b + r + b - 1) div b = q + (r + b - 1) div b" using b div_mult_self1 [of b "r + b - 1" q] by (simp add: add.commute add.left_commute)
  moreover have "(r + b - 1) div b = (if r \<noteq> 0 then 1 else 0)"
    using a(2) by (auto simp: div_nat_eqI)
  ultimately show ?thesis unfolding ceil_div_def q_def [symmetric] r_def [symmetric] using a(1) by simp
qed

lemma unat_div_up:
  assumes "b \<noteq> 0" "ceil_div (unat a) (unat b) < 2 ^ 32"
  shows "unat (div_up a b) = ceil_div (unat a) (unat b)"
proof -
  have b: "unat b \<noteq> 0" using assms(1) by (simp add: unat_eq_0)
  have z: "a mod b = 0 \<longleftrightarrow> unat a mod unat b = 0" by (simp add: unat_eq_0 [symmetric] unat_mod_distrib)
  show ?thesis
    using assms(2) unfolding div_up_def ceil_div_eq [OF b]
    by (cases "a mod b = 0") (simp_all add: z unat_div_distrib, subst unat_add_nowrap, simp_all add: unat_div_distrib)
qed

lemma held_new:
  assumes "kblocks s B" "x \<in> B" "c \<le> snd x"
  shows "held B (of_nat (fst x)) c" "unat (of_nat (fst x) :: u32) = fst x" "held {x} (of_nat (fst x)) c"
proof -
  have b: "fst x + snd x \<le> 0x40000000" using kblocks_bounds [OF assms(1), of "fst x" "snd x"] assms(2) by simp
  then show u: "unat (of_nat (fst x) :: u32) = fst x" by (intro unat_of_nat_u32) simp
  show h: "held {x} (of_nat (fst x)) c"
    unfolding held_def u using assms(3) b by (auto simp: case_prod_beta)
  show "held B (of_nat (fst x)) c" using h assms(2) unfolding held_def by blast
qed

text \<open>A read into a new block, at an offset that the code computes as a word.\<close>

lemma alloc_read_list:
  fixes s :: "'a kheap_state_scheme"
  assumes hw: "ata_reads (fst io) img" "status_ready (snd io)" "drive = 0 \<or> drive = 1" and heap: "kblocks s B"
    and o': "unat (o' :: u32) = off" "off + unat sz < 2 ^ 31" and sz: "unat sz \<le> 130000"
    and bud: "budget (pages_of sz + (34 + k)) s"
  shows "\<exists>x s1 s'. kmalloc sz s = Some (Inr (of_nat (fst x), s1)) \<and> same_data B (kmem s) (kmem s1)
    \<and> io_read io drive (sint o') (of_nat (fst x)) (int (unat sz)) s1 = Some (Inr (int (unat sz), s'))
    \<and> kblocks s' (insert x B) \<and> x \<notin> B \<and> held (insert x B) (of_nat (fst x)) (unat sz)
    \<and> mem_list (kmem s') (of_nat (fst x)) (map (\<lambda>j. img (nat drive) (off + j)) [0..<unat sz])
    \<and> same_data B (kmem s) (kmem s') \<and> kheap_state.more s' = kheap_state.more s \<and> budget k s'"
proof -
  define nb where "nb = (off + unat sz) div 512 - off div 512 + 1"
  have "(off + unat sz) div 512 \<le> off div 512 + 254" using sz by linarith
  then have nb: "nb \<le> 255" unfolding nb_def by simp
  then have "unat (of_nat (nb * 512) :: u32) = nb * 512" by (intro unat_of_nat_u32) simp
  then have "pages_of (of_nat (nb * 512)) \<le> 34" using nb by (simp add: pages_of_def real_size_def)
  then have b: "budget (pages_of sz + (pages_of (of_nat (nb * 512)) + k)) s" by (intro budget_mono [OF bud]) simp
  have so: "sint o' = int off" using sint_u32 [of o'] o' by simp
  have "(off + unat sz) div 512 < 2 ^ 28" "nb \<le> 256" using o'(2) nb by simp_all
  from alloc_read [OF hw heap order_refl this(1) nb_def this(2) b] obtain x s1 s' where
    x: "kmalloc sz s = Some (Inr (of_nat (fst x), s1))" "same_data B (kmem s) (kmem s1)"
      "io_read io drive (int off) (of_nat (fst x)) (int (unat sz)) s1 = Some (Inr (int (unat sz), s'))"
      "kblocks s' (insert x B)" "x \<notin> B" "unat sz \<le> snd x"
      "\<forall>j < unat sz. kmem s' (of_nat (fst x + j)) = img (nat drive) (off + j)"
      "same_data B (kmem s) (kmem s')" "kheap_state.more s' = kheap_state.more s" "budget k s'"
    by blast
  have "held (insert x B) (of_nat (fst x)) (unat sz)" by (rule held_new [OF x(4)]) (use x(6) in simp_all)
  moreover have "mem_list (kmem s') (of_nat (fst x)) (map (\<lambda>j. img (nat drive) (off + j)) [0..<unat sz])"
    using x(7) by (simp add: mem_list_def)
  ultimately show ?thesis using x so by (intro exI [of _ x] exI [of _ s1] exI [of _ s']) simp
qed

text \<open>The superblock and the group descriptors of the volume are in memory.\<close>

definition loaded :: "(nat \<Rightarrow> u8) \<Rightarrow> nat \<Rightarrow> disk \<Rightarrow> (nat \<times> nat) set \<Rightarrow> mem \<Rightarrow> bool" where
  "loaded b lba dk B m \<longleftrightarrow> unat (d_blocksize dk) = vol_blocksize (sb_bytes b lba)
     \<and> unat (d_groups dk) = vol_groups (sb_bytes b lba)
     \<and> held B (d_part dk) 16 \<and> unat (s_lba m (d_part dk)) = lba
     \<and> held B (d_sb dk) 1024 \<and> mem_list m (d_sb dk) (sb_bytes b lba)
     \<and> held B (d_gd dk) (32 * vol_groups (sb_bytes b lba)) \<and> mem_list m (d_gd dk) (gd_bytes b lba)"

definition mount_pages :: "(nat \<Rightarrow> u8) \<Rightarrow> nat \<Rightarrow> nat" where
  "mount_pages b lba = pages_of 24 + (pages_of 1024 + (34 + (pages_of (of_nat (32 * vol_groups (sb_bytes b lba))) + 34)))"

lemma length_vol_bytes [simp]:
  "length (sb_bytes b lba) = 1024" "length (gd_bytes b lba) = 32 * vol_groups (sb_bytes b lba)"
  by (simp_all add: sb_bytes_def gd_bytes_def)

lemma sb_fields:
  assumes "mem_list m sb (sb_bytes b lba)"
  shows "s_inodes_count m sb = word_at (sb_bytes b lba) 0" "s_blocks_count m sb = word_at (sb_bytes b lba) 4"
    "s_log_block_size m sb = word_at (sb_bytes b lba) 24" "s_blocks_per_group m sb = word_at (sb_bytes b lba) 32"
    "s_inodes_per_group m sb = word_at (sb_bytes b lba) 40" "s_inode_size m sb = half_at (sb_bytes b lba) 88"
  using mem_list_rd32 [OF assms, of 0] mem_list_rd32 [OF assms, of 4] mem_list_rd32 [OF assms, of 24]
    mem_list_rd32 [OF assms, of 32] mem_list_rd32 [OF assms, of 40] mem_list_rd16 [OF assms, of 88]
  by (simp_all add: s_inodes_count_def s_blocks_count_def s_log_block_size_def s_blocks_per_group_def
      s_inodes_per_group_def s_inode_size_def)

lemma blocksize_word:
  assumes "unat (l :: u32) \<le> 6"
  shows "unat (push_bit (unat (l AND 31)) (1024 :: u32)) = 1024 * 2 ^ unat l"
proof -
  have "l \<in> {0, 1, 2, 3, 4, 5, 6}"
  proof -
    have "unat l \<in> {0, 1, 2, 3, 4, 5, 6}" using assms by auto
    then show ?thesis by (auto simp: word_unat_eq_iff)
  qed
  then show ?thesis by (auto simp: push_bit_eq_mult)
qed

lemma group_words:
  assumes "mem_list m sb (sb_bytes b lba)" "volume b lba"
  defines "i \<equiv> sint (div_up (s_blocks_count m sb) (s_blocks_per_group m sb))"
    and "j \<equiv> sint (div_up (s_inodes_count m sb) (s_inodes_per_group m sb))"
  shows "unat (word_of_int (if i > j then i else j) :: u16) = vol_groups (sb_bytes b lba)"
proof -
  let ?sb = "sb_bytes b lba"
  let ?i = "ceil_div (unat (word_at ?sb 4)) (unat (word_at ?sb 32))"
  let ?j = "ceil_div (unat (word_at ?sb 0)) (unat (word_at ?sb 40))"
  have v: "word_at ?sb 32 \<noteq> 0" "word_at ?sb 40 \<noteq> 0" "max ?i ?j \<le> 4000"
    using assms(2) by (simp_all add: volume_def Let_def vol_groups_def)
  have ij: "?i \<le> 4000" "?j \<le> 4000" using v(3) by simp_all
  have u: "unat (div_up (word_at ?sb 4) (word_at ?sb 32)) = ?i" "unat (div_up (word_at ?sb 0) (word_at ?sb 40)) = ?j"
    using ij by (auto intro!: unat_div_up v(1,2))
  have "i = int ?i" "j = int ?j"
    unfolding i_def j_def sb_fields [OF assms(1)] using ij u by (simp_all add: sint_u32)
  then have "(if i > j then i else j) = int (vol_groups ?sb)" by (auto simp: vol_groups_def)
  then show ?thesis using v(3) by (simp add: vol_groups_def unsigned_of_nat take_bit_nat_eq_self)
qed

lemma sb_request:
  assumes "volume b lba" "unat (l :: u32) = lba"
  shows "unat (l * 512 + 1024) = 512 * lba + 1024" "512 * lba + 1024 + unat (1024 :: u32) < 2 ^ 31"
proof -
  have v: "512 * lba + 200000 < 2 ^ 31" using assms(1) by (simp add: volume_def Let_def)
  then have "unat (l * 512) = 512 * lba" using assms(2) by (simp add: unat_word_ariths)
  then show "unat (l * 512 + 1024) = 512 * lba + 1024" using v by (subst unat_add_nowrap) simp_all
  show "512 * lba + 1024 + unat (1024 :: u32) < 2 ^ 31" using v by simp
qed

lemma gd_request:
  assumes "volume b lba" "unat g = vol_groups (sb_bytes b lba)" "unat bs = vol_blocksize (sb_bytes b lba)"
    "unat (l :: u32) = lba"
  shows "unat (ucast (g :: u16) * 32 :: u32) = 32 * vol_groups (sb_bytes b lba)"
    "unat (l * 512 + gd_offset bs) = gd_pos b lba" "gd_pos b lba + 32 * vol_groups (sb_bytes b lba) < 2 ^ 31"
proof -
  let ?g = "vol_groups (sb_bytes b lba)" and ?bs = "vol_blocksize (sb_bytes b lba)"
  have v: "?g \<le> 4000" "512 * lba + 200000 < 2 ^ 31" "unat (word_at (sb_bytes b lba) 24) \<le> 6"
    using assms(1) by (simp_all add: volume_def Let_def)
  have "?bs \<le> 1024 * 2 ^ 6" unfolding vol_blocksize_def by (intro mult_le_mono2 power_increasing v(3)) simp
  then have bs: "?bs \<le> 65536" by simp
  have "unat (ucast g :: u32) = ?g" using assms(2) unat_u16_lt [of g] by (simp add: unsigned_ucast_eq take_bit_nat_eq_self)
  then show "unat (ucast g * 32 :: u32) = 32 * ?g" using v(1) by (simp add: unat_word_ariths)
  have l: "unat (l * 512) = 512 * lba" using assms(4) v(2) by (simp add: unat_word_ariths)
  have "bs = 1024 \<longleftrightarrow> ?bs = 1024" using assms(3) by (simp add: word_unat_eq_iff)
  then have go: "unat (gd_offset bs) = (if ?bs = 1024 then 2048 else ?bs)" using assms(3) by (simp add: gd_offset_def)
  then show "unat (l * 512 + gd_offset bs) = gd_pos b lba"
    using l v(2) bs by (subst unat_add_nowrap) (auto simp: gd_pos_def Let_def)
  show "gd_pos b lba + 32 * ?g < 2 ^ 31" using v(1,2) bs by (simp add: gd_pos_def Let_def)
qed

lemma held_part:
  assumes "same_data B m m'" "held B part 16"
  shows "s_lba m' part = s_lba m part"
  using held_rd32 [OF assms(1) held_at [OF assms(2), of 8 4]] by (simp add: s_lba_def)

lemma ext2_get_disk_info_ok:
  fixes s :: "'a kheap_state_scheme"
  assumes hw: "ata_reads (fst io) img" "status_ready (snd io)" "device = 0 \<or> device = 1" and heap: "kblocks s B" "held B part 16"
    and lba: "lba = unat (s_lba (kmem s) part)" and vol: "volume (img (nat device)) lba"
    and bud: "budget (mount_pages (img (nat device)) lba + k) s"
  shows "\<exists>p dk s' B'. ext2_get_disk_info io device part s = Some (Inr (p, dk, s')) \<and> kblocks s' B' \<and> B \<subseteq> B'
    \<and> d_device dk = device \<and> d_part dk = part \<and> mounted io img dk \<and> loaded (img (nat device)) lba dk B' (kmem s')
    \<and> same_data B (kmem s) (kmem s') \<and> kheap_state.more s' = kheap_state.more s \<and> budget k s'"
proof -
  let ?b = "img (nat device)" let ?sb = "sb_bytes ?b lba" let ?g = "vol_groups ?sb"
  have v: "?g \<le> 4000" "0 < ?g" "512 * lba + 200000 < 2 ^ 31" "unat (word_at ?sb 24) \<le> 6" "word_at ?sb 32 \<noteq> 0" "word_at ?sb 40 \<noteq> 0"
    using vol by (simp_all add: volume_def Let_def)
  from bud have b24: "budget (pages_of 24 + (pages_of 1024 + (34 + (pages_of (of_nat (32 * ?g)) + (34 + k))))) s"
    by (simp only: mount_pages_def add.assoc)
  from kmalloc_next [OF heap(1) b24] obtain d s1 where
    d: "kmalloc 24 s = Some (Inr (of_nat (fst d), s1))" "kblocks s1 (insert d B)" "d \<notin> B" "same_data B (kmem s) (kmem s1)"
      "kheap_state.more s1 = kheap_state.more s" "budget (pages_of 1024 + (34 + (pages_of (of_nat (32 * ?g)) + (34 + k)))) s1" by blast
  let ?l = "s_lba (kmem s) part"
  have l1: "s_lba (kmem s1) part = ?l" by (rule held_part [OF d(4) heap(2)])
  note sr = sb_request [OF vol lba [symmetric]]
  have "unat (1024 :: u32) \<le> 130000" by simp
  from alloc_read_list [OF hw d(2) sr this d(6)] obtain x t1 s2 where
    x: "kmalloc 1024 s1 = Some (Inr (of_nat (fst x), t1))" "same_data (insert d B) (kmem s1) (kmem t1)"
      "io_read io device (sint (?l * 512 + 1024)) (of_nat (fst x)) (int (unat (1024 :: u32))) t1 = Some (Inr (int (unat (1024 :: u32)), s2))"
      "kblocks s2 (insert x (insert d B))" "x \<notin> insert d B" "held (insert x (insert d B)) (of_nat (fst x)) (unat (1024 :: u32))"
      "mem_list (kmem s2) (of_nat (fst x)) (map (\<lambda>j. ?b (512 * lba + 1024 + j)) [0..<unat (1024 :: u32)])"
      "same_data (insert d B) (kmem s1) (kmem s2)" "kheap_state.more s2 = kheap_state.more s1"
      "budget (pages_of (of_nat (32 * ?g)) + (34 + k)) s2" by blast
  have sb: "mem_list (kmem s2) (of_nat (fst x)) ?sb" using x(7) by (simp add: sb_bytes_def)
  define bs where "bs = push_bit (unat (s_log_block_size (kmem s2) (of_nat (fst x)) AND 31)) (1024 :: u32)"
  have bs: "unat bs = vol_blocksize ?sb" unfolding bs_def sb_fields [OF sb] vol_blocksize_def by (rule blocksize_word [OF v(4)])
  define i where "i = sint (div_up (s_blocks_count (kmem s2) (of_nat (fst x))) (s_blocks_per_group (kmem s2) (of_nat (fst x))))"
  define j where "j = sint (div_up (s_inodes_count (kmem s2) (of_nat (fst x))) (s_inodes_per_group (kmem s2) (of_nat (fst x))))"
  define g where "g = (word_of_int (if i > j then i else j) :: u16)"
  have g: "unat g = ?g" unfolding g_def i_def j_def by (rule group_words [OF sb vol])
  note gr = gd_request [OF vol g bs lba [symmetric]]
  let ?sz = "ucast g * 32 :: u32"
  have sz: "?sz = of_nat (32 * ?g)" using gr(1) v(1) unat_of_nat_u32 [of "32 * ?g"] by (simp add: word_unat_eq_iff)
  have "gd_pos ?b lba + unat ?sz < 2 ^ 31" "unat ?sz \<le> 130000" "budget (pages_of ?sz + (34 + k)) s2"
    using gr(1,3) v(1) x(10) sz by simp_all
  from alloc_read_list [OF hw x(4) gr(2) this] obtain y t2 s3 where
    y: "kmalloc ?sz s2 = Some (Inr (of_nat (fst y), t2))" 
      "io_read io device (sint (?l * 512 + gd_offset bs)) (of_nat (fst y)) (int (unat ?sz)) t2 = Some (Inr (int (unat ?sz), s3))"
      "kblocks s3 (insert y (insert x (insert d B)))" "y \<notin> insert x (insert d B)"
      "held (insert y (insert x (insert d B))) (of_nat (fst y)) (unat ?sz)"
      "mem_list (kmem s3) (of_nat (fst y)) (map (\<lambda>j. ?b (gd_pos ?b lba + j)) [0..<unat ?sz])"
      "same_data (insert x (insert d B)) (kmem s2) (kmem s3)" "kheap_state.more s3 = kheap_state.more s2"
      "budget k s3" by blast
  let ?dk = "\<lparr>d_device = device, d_part = part, d_sb = of_nat (fst x), d_blocksize = bs, d_groups = g, d_gd = of_nat (fst y)\<rparr>"
  let ?B = "insert y (insert x (insert d B))"
  have l2: "s_lba (kmem s2) part = ?l"
    using held_part [OF same_data_mono [OF x(8)] heap(2)] l1 by auto
  have l3: "s_lba (kmem s3) part = ?l"
    using held_part [OF same_data_mono [OF y(7)] heap(2)] l2 by auto
  have ssz: "sint ?sz = int (unat ?sz)" by (rule sint_u32) (use gr(1) v(1) in simp)
  have sbr: "ext2_read_sb io device (?l * 512) s1 = Some (Inr (of_nat (fst x), s2))"
    unfolding ext2_read_sb_def using x(1,3) by simp
  have gdr: "ext2_read_gd io device bs g (?l * 512) s2 = Some (Inr (of_nat (fst y), s3))"
    unfolding ext2_read_gd_def Let_def y(1) bind_out_simps prod.case ssz y(2) ..
  have nz: "s_blocks_per_group (kmem s2) (of_nat (fst x)) \<noteq> 0" "s_inodes_per_group (kmem s2) (of_nat (fst x)) \<noteq> 0"
    using v(5,6) by (simp_all add: sb_fields [OF sb])
  have "ext2_get_disk_info io device part s = Some (Inr (of_nat (fst d), ?dk, s3))"
    unfolding ext2_get_disk_info_def Let_def d(1) bind_out_simps prod.case l1 sbr
    by (simp only: nz simp_thms if_False l2 bs_def [symmetric] i_def [symmetric] j_def [symmetric] g_def [symmetric] gdr
        bind_out_simps prod.case)
  moreover have "loaded ?b lba ?dk ?B (kmem s3)"
  proof -
    have h: "held ?B part 16" "held ?B (of_nat (fst x)) 1024"
      by (rule held_mono [OF heap(2)], blast) (use held_mono [OF x(6), of ?B] in auto)
    have "mem_list (kmem s3) (of_nat (fst x)) ?sb" by (rule mem_list_keep [OF y(7) _ sb]) (use x(6) in simp)
    moreover have "mem_list (kmem s3) (of_nat (fst y)) (gd_bytes ?b lba)" using y(6) gr(1) by (simp add: gd_bytes_def)
    ultimately show ?thesis unfolding loaded_def using bs g h y(5) gr(1) l3 lba by simp
  qed
  moreover have "mounted io img ?dk"
  proof -
    have "(2 :: nat) ^ unat (word_at ?sb 24) \<le> 2 ^ 6" by (rule power_increasing [OF v(4)]) simp
    then have "unat bs < 255 * 512" unfolding bs vol_blocksize_def by simp
    moreover have "512 dvd unat bs" "0 < unat bs" unfolding bs vol_blocksize_def by (simp_all add: dvd_mult2)
    ultimately show ?thesis using hw by (simp add: mounted_def)
  qed
  moreover have "same_data B (kmem s) (kmem s3)"
    by (rule same_data_trans [OF d(4)], rule same_data_trans [OF same_data_mono [OF x(8)] same_data_mono [OF y(7)]]) blast+
  ultimately show ?thesis using d(5) x(9) y(3,8,9) by (intro exI [of _ "of_nat (fst d)"] exI [of _ ?dk] exI [of _ s3] exI [of _ ?B]) auto
qed

section \<open>Files of a volume\<close>

lemma of_nat_minus_1: "1 \<le> i \<Longrightarrow> i < 2 ^ 32 \<Longrightarrow> unat (of_nat i - 1 :: u32) = i - 1"
  using unat_of_nat_u32 [of "i - 1"] by (simp add: of_nat_diff)

lemma loaded_inode:
  assumes "loaded b lba dk B m" "b = img (nat (d_device dk))" "volume b lba" "vol_inode_ok b lba i"
  shows "fs_loaded B dk (of_nat i) m" "inode_pos dk (of_nat i) m = vol_inode_pos b lba i"
    "inode_bytes img dk (of_nat i) m = vol_inode b lba i" "s_inodes_per_group m (d_sb dk) \<noteq> 0"
    "unat (s_inode_size m (d_sb dk)) = unat (half_at (sb_bytes b lba) 88)"
    "blk_of img dk (s_lba m (d_part dk)) = vol_block b lba"
    "blk_in_range dk (s_lba m (d_part dk)) = vol_block_in_range b lba"
proof -
  let ?sb = "sb_bytes b lba" let ?ipg = "unat (word_at ?sb 40)"
  note l = assms(1) [unfolded loaded_def]
  have sb: "mem_list m (d_sb dk) ?sb" and gd: "mem_list m (d_gd dk) (gd_bytes b lba)" using l by simp_all
  note f = sb_fields [OF sb]
  have i: "1 \<le> i" "i < 2 ^ 32" "(i - 1) div ?ipg < vol_groups ?sb" using assms(4) by (simp_all add: vol_inode_ok_def)
  have u: "unat (of_nat i - 1 :: u32) = i - 1" by (rule of_nat_minus_1 [OF i(1,2)])
  have g: "inode_group dk (of_nat i) m = of_nat ((i - 1) div ?ipg)" "(i - 1) div ?ipg < 4000"
  proof -
    show "(i - 1) div ?ipg < 4000" using i(3) assms(3) by (simp add: volume_def Let_def)
    then have "unat (of_nat ((i - 1) div ?ipg) :: u32) = (i - 1) div ?ipg" by (intro unat_of_nat_u32) simp
    then show "inode_group dk (of_nat i) m = of_nat ((i - 1) div ?ipg)"
      by (simp only: inode_group_def f word_unat_eq_iff unat_div_distrib u)
  qed
  have x: "unat ((of_nat i - 1) mod s_inodes_per_group m (d_sb dk)) = (i - 1) mod ?ipg"
    by (simp add: f unat_mod_distrib u)
  have t: "bg_inode_table m (d_gd dk) (of_nat ((i - 1) div ?ipg)) = word_at (gd_bytes b lba) (32 * ((i - 1) div ?ipg) + 8)"
    using mem_list_rd32 [OF gd, of "32 * ((i - 1) div ?ipg) + 8"] i(3) by (simp add: bg_inode_table_def add.assoc)
  show "fs_loaded B dk (of_nat i) m"
  proof -
    have "held B (d_gd dk + of_nat (32 * ((i - 1) div ?ipg) + 8)) 4" by (rule held_at) (use l i(3) in auto)
    then show ?thesis using l unfolding fs_loaded_def g(1) by (simp add: add.assoc)
  qed
  show p: "inode_pos dk (of_nat i) m = vol_inode_pos b lba i"
    unfolding inode_pos_def vol_inode_pos_def Let_def g(1) t x using l by (simp add: f)
  show "inode_bytes img dk (of_nat i) m = vol_inode b lba i"
    unfolding inode_bytes_def vol_inode_def p f assms(2) ..
  show "s_inodes_per_group m (d_sb dk) \<noteq> 0" using assms(3) by (simp add: f volume_def Let_def)
  show "unat (s_inode_size m (d_sb dk)) = unat (half_at (sb_bytes b lba) 88)" by (simp add: f)
  show "blk_of img dk (s_lba m (d_part dk)) = vol_block b lba" "blk_in_range dk (s_lba m (d_part dk)) = vol_block_in_range b lba"
    using l by (simp_all add: blk_of_def vol_block_def fun_eq_iff blk_in_range_def vol_block_in_range_def Let_def assms(2))
qed

text \<open>The pages of heap for the inode and the file.\<close>

definition vol_read_pages :: "(nat \<Rightarrow> u8) \<Rightarrow> nat \<Rightarrow> nat \<Rightarrow> nat" where
  "vol_read_pages b lba i =
     (let bs = vol_blocksize (sb_bytes b lba)
      in 4 * pages_of (of_nat bs) + pages_of (word_at (vol_inode b lba i) 4) + pages_of (of_nat ((bs div 512 + 1) * 512)))"

definition vol_file_pages :: "(nat \<Rightarrow> u8) \<Rightarrow> nat \<Rightarrow> nat \<Rightarrow> nat" where
  "vol_file_pages b lba i = 2 + vol_read_pages b lba i"

lemma length_vol_inode: "volume b lba \<Longrightarrow> 100 \<le> length (vol_inode b lba i) \<and> length (vol_inode b lba i) \<le> 128"
  by (simp add: vol_inode_def volume_def Let_def)

lemma loaded_read_inode:
  fixes s :: "'a kheap_state_scheme"
  assumes mt: "mounted io img dk" "b = img (nat (d_device dk))" and heap: "kblocks s B" "loaded b lba dk B (kmem s)"
    and vol: "volume b lba" "vol_inode_ok b lba i" and bud: "budget (2 + bu) s"
  shows "\<exists>x s'. ext2_read_inode io dk (of_nat i) s = Some (Inr (of_nat (fst x), s')) \<and> kblocks s' (insert x B) \<and> x \<notin> B
    \<and> held {x} (of_nat (fst x)) 128 \<and> mem_list (kmem s') (of_nat (fst x)) (vol_inode b lba i)
    \<and> same_data B (kmem s) (kmem s') \<and> kheap_state.more s' = kheap_state.more s \<and> budget bu s'"
proof -
  note li = loaded_inode [where img = img, OF heap(2) mt(2) vol]
  let ?isz = "unat (s_inode_size (kmem s) (d_sb dk))"
  have v: "?isz \<le> 128" "inode_pos dk (of_nat i) (kmem s) + ?isz < 2 ^ 31"
    using vol li(2,5) by (simp_all add: volume_def vol_inode_ok_def Let_def)
  have p: "budget (pages_of 128 + (1 + bu)) s" using bud by (simp add: pages_of_def real_size_def)
  from ext2_read_inode_ok [OF mt(1) heap(1) li(1,4) refl v p] obtain x s' where
    x: "ext2_read_inode io dk (of_nat i) s = Some (Inr (of_nat (fst x), s'))" "kblocks s' (insert x B)" "x \<notin> B" "128 \<le> snd x"
      "\<forall>j < ?isz. kmem s' (of_nat (fst x + j)) = vol_inode b lba i ! j" "same_data B (kmem s) (kmem s')"
      "kheap_state.more s' = kheap_state.more s" "budget bu s'" unfolding li(3) by blast
  have "mem_list (kmem s') (of_nat (fst x)) (vol_inode b lba i)"
    using x(5) by (simp add: mem_list_def li(5) vol_inode_def)
  moreover have "held {x} (of_nat (fst x)) 128" by (rule held_new [OF x(2)]) (use x(4) in simp_all)
  ultimately show ?thesis using x by (intro exI [of _ x] exI [of _ s']) simp
qed

lemma loaded_read_file:
  fixes s :: "'a kheap_state_scheme"
  assumes mt: "mounted io img dk" "b = img (nat (d_device dk))" and heap: "kblocks s B" "loaded b lba dk B (kmem s)"
    and vol: "volume b lba" "vol_inode_ok b lba i" and ino: "held B p 128" "mem_list (kmem s) p (vol_inode b lba i)"
    and bud: "budget (vol_read_pages b lba i + bu) s"
  shows "\<exists>y s'. ext2_read_file io dk p s = Some (Inr (of_nat (fst y), s')) \<and> kblocks s' (insert y B) \<and> y \<notin> B
    \<and> unat (word_at (vol_inode b lba i) 4) \<le> snd y \<and> mem_list (kmem s') (of_nat (fst y)) (vol_file b lba i)
    \<and> same_data B (kmem s) (kmem s') \<and> kheap_state.more s' = kheap_state.more s \<and> budget bu s'"
proof -
  note li = loaded_inode [where img = img, OF heap(2) mt(2) vol] and l = length_vol_inode [OF vol(1), of i]
  let ?lba = "s_lba (kmem s) (d_part dk)" and ?sz = "word_at (vol_inode b lba i) 4"
  have part: "held B (d_part dk) 16" using heap(2) by (simp add: loaded_def)
  have rd: "rd32 (kmem s) (p + of_nat k) = word_at (vol_inode b lba i) k" if "k + 4 \<le> 100" for k
    by (rule mem_list_rd32 [OF ino(2)]) (use l that in simp)
  have sz: "?sz = i_size (kmem s) p" using rd [of 4] by (simp add: i_size_def)
  have ibk: "i_block (kmem s) p k = vol_iblock b lba i k" if "k < 15" for k
    using rd [of "40 + 4 * k"] that by (simp add: i_block_def vol_iblock_def add.assoc)
  have fc: "file_bytes blk (i_block (kmem s) p) = file_bytes blk (vol_iblock b lba i)"
    "file_ok ok blk (i_block (kmem s) p) = file_ok ok blk (vol_iblock b lba i)" for ok blk
    by (rule file_cong, rule ibk, assumption)+
  have fo: "file_ok (blk_in_range dk ?lba) (blk_of img dk ?lba) (i_block (kmem s) p)"
    unfolding li(6,7) fc(2) using vol(2) by (simp add: vol_inode_ok_def)
  have bs: "unat (d_blocksize dk) = vol_blocksize (sb_bytes b lba)" using heap(2) by (simp add: loaded_def)
  have "of_nat (vol_blocksize (sb_bytes b lba)) = d_blocksize dk" unfolding bs [symmetric] by simp
  then have bud': "budget (read_file_pages dk ?sz + bu) s"
    using bud unfolding vol_read_pages_def read_file_pages_def blk_request_def Let_def bs by simp
  from ext2_read_file_ok [OF mt(1) heap(1) part ino(1) refl sz refl fo bud'] obtain y s' where
    y: "ext2_read_file io dk p s = Some (Inr (of_nat (fst y), s'))" "kblocks s' (insert y B)" "y \<notin> B" "unat ?sz \<le> snd y"
      "\<forall>j < min (unat ?sz) (length (file_bytes (vol_block b lba) (vol_iblock b lba i))).
        kmem s' (of_nat (fst y + j)) = file_bytes (vol_block b lba) (vol_iblock b lba i) ! j"
      "same_data B (kmem s) (kmem s')" "kheap_state.more s' = kheap_state.more s" "budget bu s'"
    unfolding li(6) fc(1) by blast
  have "mem_list (kmem s') (of_nat (fst y)) (vol_file b lba i)"
    using y(5) by (simp add: mem_list_def vol_file_def)
  then show ?thesis using y by (intro exI [of _ y] exI [of _ s']) simp
qed

lemma loaded_keep:
  assumes "same_data B m m'" "loaded b lba dk B m" "B \<subseteq> B'"
  shows "loaded b lba dk B' m'"
proof -
  note l = assms(2) [unfolded loaded_def]
  have "mem_list m' (d_sb dk) (sb_bytes b lba)" by (rule mem_list_keep [OF assms(1)]) (use l in simp_all)
  moreover have "mem_list m' (d_gd dk) (gd_bytes b lba)" by (rule mem_list_keep [OF assms(1)]) (use l in simp_all)
  moreover have "s_lba m' (d_part dk) = s_lba m (d_part dk)" by (rule held_part [OF assms(1)]) (use l in simp)
  ultimately show ?thesis using l held_mono [OF _ assms(3)] unfolding loaded_def by simp
qed

lemma loaded_file:
  fixes s :: "'a kheap_state_scheme"
  assumes mt: "mounted io img dk" "b = img (nat (d_device dk))" and heap: "kblocks s B" "loaded b lba dk B (kmem s)"
    and vol: "volume b lba" "vol_inode_ok b lba i" and bud: "budget (vol_file_pages b lba i + bu) s"
  shows "\<exists>x y s1 s2. ext2_read_inode io dk (of_nat i) s = Some (Inr (of_nat (fst x), s1))
    \<and> ext2_read_file io dk (of_nat (fst x)) s1 = Some (Inr (of_nat (fst y), s2))
    \<and> kblocks s2 (insert y (insert x B)) \<and> x \<notin> B \<and> y \<notin> insert x B
    \<and> mem_list (kmem s2) (of_nat (fst y)) (vol_file b lba i) \<and> same_data B (kmem s) (kmem s2)
    \<and> kheap_state.more s2 = kheap_state.more s \<and> budget bu s2"
proof -
  have b2: "budget (2 + (vol_read_pages b lba i + bu)) s" using bud by (simp add: vol_file_pages_def)
  from loaded_read_inode [OF mt heap vol b2] obtain x s1 where
    x: "ext2_read_inode io dk (of_nat i) s = Some (Inr (of_nat (fst x), s1))" "kblocks s1 (insert x B)" "x \<notin> B"
      "held {x} (of_nat (fst x)) 128" "mem_list (kmem s1) (of_nat (fst x)) (vol_inode b lba i)"
      "same_data B (kmem s) (kmem s1)" "kheap_state.more s1 = kheap_state.more s" "budget (vol_read_pages b lba i + bu) s1" by blast
  have "loaded b lba dk (insert x B) (kmem s1)" by (rule loaded_keep [OF x(6) heap(2)]) blast
  have h: "held (insert x B) (of_nat (fst x)) 128" by (rule held_mono [OF x(4)]) simp
  from loaded_read_file [OF mt x(2) \<open>loaded b lba dk (insert x B) (kmem s1)\<close> vol h x(5,8)] obtain y s2 where
    y: "ext2_read_file io dk (of_nat (fst x)) s1 = Some (Inr (of_nat (fst y), s2))" "kblocks s2 (insert y (insert x B))"
      "y \<notin> insert x B" "mem_list (kmem s2) (of_nat (fst y)) (vol_file b lba i)" "same_data (insert x B) (kmem s1) (kmem s2)"
      "kheap_state.more s2 = kheap_state.more s1" "budget bu s2" by blast
  have "same_data B (kmem s) (kmem s2)" by (rule same_data_trans [OF x(6) same_data_mono [OF y(5)]]) blast
  then show ?thesis using x(1,3,7) y(1-4,6,7) by (intro exI [of _ x] exI [of _ y] exI [of _ s1] exI [of _ s2]) simp
qed

section \<open>The boot sector of a FAT volume\<close>

text \<open>Whatever partition is asked for, the block holds the first 90 bytes of the disk.\<close>

lemma fat_get_disk_info_ok:
  fixes s :: "'a kheap_state_scheme"
  assumes hw: "ata_reads (fst io) img" "status_ready (snd io)" "device = 0 \<or> device = 1"
    and heap: "kblocks s B" and bud: "budget (pages_of 90 + (34 + k)) s"
  shows "\<exists>x s'. fat_get_disk_info io device part s = Some (Inr (of_nat (fst x), s')) \<and> kblocks s' (insert x B) \<and> x \<notin> B
    \<and> mem_list (kmem s') (of_nat (fst x)) (map (img (nat device)) [0..<90]) \<and> same_data B (kmem s) (kmem s') \<and> budget k s'"
proof -
  have "unat (0 :: u32) = 0" "0 + unat (90 :: u32) < 2 ^ 31" "unat (90 :: u32) \<le> 130000" by simp_all
  from alloc_read_list [OF hw heap this bud] obtain x s1 s' where
    "kmalloc 90 s = Some (Inr (of_nat (fst x), s1))"
    "io_read io device (sint (0 :: u32)) (of_nat (fst x)) (int (unat (90 :: u32))) s1 = Some (Inr (int (unat (90 :: u32)), s'))"
    "kblocks s' (insert x B)" "x \<notin> B"
    "mem_list (kmem s') (of_nat (fst x)) (map (\<lambda>j. img (nat device) (0 + j)) [0..<unat (90 :: u32)])"
    "same_data B (kmem s) (kmem s')" "budget k s'" by blast
  then show ?thesis unfolding fat_get_disk_info_def by (intro exI [of _ x] exI [of _ s']) simp
qed

section \<open>Properties\<close>

text \<open>C4. From the partition table to the bytes of a file. \<open>ext2_get_disk_info\<close> on a partition entry in the heap
  mounts the volume; with the structure it returns, reading an inode and then its file gives a buffer that holds
  the file as the disk defines it: the superblock 1024 bytes behind the start of the partition says how large blocks
  and inodes are and how many groups there are, the group descriptors are in the next block, inode number \<open>i\<close>
  (counted from 1) is in the table of its group, and the file is the concatenation of its direct and indirect
  blocks, cut at its size. No other allocated byte changes.\<close>

theorem volume_file_contents:
  fixes s :: "'a kheap_state_scheme"
  assumes "ata_reads (fst io) img" "status_ready (snd io)" "device = 0 \<or> device = 1"
    and "kblocks s B" "held B part 16" "lba = unat (s_lba (kmem s) part)"
    and "b = img (nat device)" "volume b lba" "vol_inode_ok b lba i"
    and "budget (mount_pages b lba + vol_file_pages b lba i) s"
  shows "\<exists>p dk s1 x s2 y s3 B'. ext2_get_disk_info io device part s = Some (Inr (p, dk, s1))
    \<and> ext2_read_inode io dk (of_nat i) s1 = Some (Inr (of_nat x, s2))
    \<and> ext2_read_file io dk (of_nat x) s2 = Some (Inr (of_nat y, s3))
    \<and> kblocks s3 B' \<and> B \<subseteq> B' \<and> mem_list (kmem s3) (of_nat y) (vol_file b lba i) \<and> same_data B (kmem s) (kmem s3)"
proof -
  from ext2_get_disk_info_ok [OF assms(1-6) assms(8,10) [unfolded assms(7)]] obtain p dk s1 B1 where
    m: "ext2_get_disk_info io device part s = Some (Inr (p, dk, s1))" "kblocks s1 B1" "B \<subseteq> B1" "d_device dk = device"
      "mounted io img dk" "loaded b lba dk B1 (kmem s1)" "same_data B (kmem s) (kmem s1)" "budget (vol_file_pages b lba i) s1"
    unfolding assms(7) by blast
  from loaded_file [where bu = 0, unfolded add_0_right, OF m(5) _ m(2,6) assms(8,9) m(8)] m(4) assms(7) obtain x y s2 s3 where
    f: "ext2_read_inode io dk (of_nat i) s1 = Some (Inr (of_nat (fst x), s2))"
      "ext2_read_file io dk (of_nat (fst x)) s2 = Some (Inr (of_nat (fst y), s3))"
      "kblocks s3 (insert y (insert x B1))" "mem_list (kmem s3) (of_nat (fst y)) (vol_file b lba i)"
      "same_data B1 (kmem s1) (kmem s3)" by blast
  have "same_data B (kmem s) (kmem s3)" by (rule same_data_trans [OF m(7) same_data_mono [OF f(5) m(3)]])
  moreover have "B \<subseteq> insert y (insert x B1)" using m(3) by blast
  ultimately show ?thesis using m(1) f(1-4)
    by (intro exI [of _ p] exI [of _ dk] exI [of _ s1] exI [of _ "fst x"] exI [of _ s2] exI [of _ "fst y"] exI [of _ s3]
        exI [of _ "insert y (insert x B1)"]) simp
qed

text \<open>A volume at block 2 with one group; inode 2 has 5 bytes in block 5.\<close>

definition demo_vol :: "nat \<Rightarrow> u8" where
  "demo_vol i =
     (if i = 2048 then 8 else if i = 2052 then 100 else if i = 2081 then 0x20 else if i = 2088 then 8 else if i = 2136 then 128
      else if i = 3080 then 3 else if i = 4228 then 5 else if i = 4264 then 5 else if 6144 \<le> i then of_nat i else 0)"

lemma demo_vol_sb:
  "word_at (sb_bytes demo_vol 2) 0 = 8" "word_at (sb_bytes demo_vol 2) 4 = 100" "word_at (sb_bytes demo_vol 2) 24 = 0"
  "word_at (sb_bytes demo_vol 2) 32 = 8192" "word_at (sb_bytes demo_vol 2) 40 = 8" "half_at (sb_bytes demo_vol 2) 88 = 128"
  by (simp_all add: word_at_def half_at_def sb_bytes_def demo_vol_def)

lemma demo_vol_groups: "vol_groups (sb_bytes demo_vol 2) = 1" "vol_blocksize (sb_bytes demo_vol 2) = 1024" "gd_pos demo_vol 2 = 3072"
  by (simp_all add: vol_groups_def vol_blocksize_def gd_pos_def ceil_div_def demo_vol_sb)

lemma demo_vol_inode:
  "vol_inode_pos demo_vol 2 2 = 4224" "k < 128 \<Longrightarrow> vol_inode demo_vol 2 2 ! k = demo_vol (4224 + k)"
proof -
  have "word_at (gd_bytes demo_vol 2) 8 = 3"
    by (simp add: word_at_def gd_bytes_def demo_vol_groups demo_vol_def)
  then show p: "vol_inode_pos demo_vol 2 2 = 4224" by (simp add: vol_inode_pos_def demo_vol_sb demo_vol_groups Let_def)
  show "k < 128 \<Longrightarrow> vol_inode demo_vol 2 2 ! k = demo_vol (4224 + k)" by (simp add: vol_inode_def p demo_vol_sb)
qed

lemma demo_vol_file:
  "word_at (vol_inode demo_vol 2 2) 4 = 5" "vol_file demo_vol 2 2 = [0, 1, 2, 3, 4]" "vol_inode_ok demo_vol 2 2"
proof -
  show sz: "word_at (vol_inode demo_vol 2 2) 4 = 5" by (simp add: word_at_def demo_vol_inode demo_vol_def)
  have ib: "vol_iblock demo_vol 2 2 k = (if k = 0 then 5 else 0)" if "k < 15" for k
    using that by (auto simp: vol_iblock_def word_at_def demo_vol_inode demo_vol_def)
  have "map (vol_iblock demo_vol 2 2) [0..<12] = map (\<lambda>k. if k = 0 then 5 else 0) [0..<12]"
    by (rule map_cong [OF refl]) (use ib in simp)
  then have es: "takeWhile (\<lambda>b. b \<noteq> 0) (map (vol_iblock demo_vol 2 2) [0..<12]) = [5]" by (simp add: upt_rec)
  have fb: "file_bytes (vol_block demo_vol 2) (vol_iblock demo_vol 2 2) = vol_block demo_vol 2 5"
    "file_ok (vol_block_in_range demo_vol 2) (vol_block demo_vol 2) (vol_iblock demo_vol 2 2)"
    unfolding file_bytes_def file_ok_def es using ib [of 12] ib [of 13] ib [of 14]
    by (simp_all add: vol_block_in_range_def demo_vol_groups Let_def)
  have "take 5 (vol_block demo_vol 2 5) = map (\<lambda>i. demo_vol (6144 + i)) [0..<5]"
    by (simp add: vol_block_def block_bytes_def demo_vol_groups take_map)
  also have "\<dots> = [0, 1, 2, 3, 4]" by (simp add: upt_rec demo_vol_def)
  finally show "vol_file demo_vol 2 2 = [0, 1, 2, 3, 4]" by (simp add: vol_file_def fb sz)
  show "vol_inode_ok demo_vol 2 2"
    using fb(2) by (simp add: vol_inode_ok_def demo_vol_sb demo_vol_groups demo_vol_inode)
qed

theorem volume_file_contents_witness:
  "\<exists>(s :: kheap_state) p dk s1 x s2 y s3. ext2_get_disk_info (demo_dev (\<lambda>_. demo_vol), \<lambda>_. 8) 0 0x10000004 s = Some (Inr (p, dk, s1))
    \<and> ext2_read_inode (demo_dev (\<lambda>_. demo_vol), \<lambda>_. 8) dk 2 s1 = Some (Inr (of_nat x, s2))
    \<and> ext2_read_file (demo_dev (\<lambda>_. demo_vol), \<lambda>_. 8) dk (of_nat x) s2 = Some (Inr (of_nat y, s3))
    \<and> kmem s3 (of_nat y + 4) = 4"
proof -
  let ?io = "(demo_dev (\<lambda>_. demo_vol), \<lambda>_ :: nat. 8 :: u8)"
  obtain s :: kheap_state where s: "kblocks s {(0x10000004, 1200)}"
    "\<And>k. k < 1200 \<Longrightarrow> kmem s (of_nat (0x10000004 + k)) = (if k = 8 then 2 else 0)" "budget 100 s"
    using demo_block [of "\<lambda>k. if k = 8 then 2 else 0"] by blast
  have lba: "2 = unat (s_lba (kmem s) 0x10000004)"
    using s(2) [of 8] s(2) [of 9] s(2) [of 10] s(2) [of 11] by (simp add: s_lba_def rd32_def)
  have v: "volume demo_vol 2" by (simp add: volume_def demo_vol_sb demo_vol_groups Let_def)
  have h: "held {(0x10000004, 1200)} 0x10000004 16" by (simp add: held_def)
  have hw: "ata_reads (fst ?io) (\<lambda>_. demo_vol)" "status_ready (snd ?io)" "(0 :: int) = 0 \<or> (0 :: int) = 1"
    by (simp_all add: demo_dev_reads status_ready_def)
  have "mount_pages demo_vol 2 + vol_file_pages demo_vol 2 2 \<le> 100"
    by (simp add: mount_pages_def vol_file_pages_def vol_read_pages_def demo_vol_groups demo_vol_file(1) pages_of_def real_size_def Let_def)
  then have bud: "budget (mount_pages demo_vol 2 + vol_file_pages demo_vol 2 2) s" by (rule budget_mono [OF s(3)])
  obtain p dk s1 x s2 y s3 where
    r: "ext2_get_disk_info ?io 0 0x10000004 s = Some (Inr (p, dk, s1))" "ext2_read_inode ?io dk (of_nat 2) s1 = Some (Inr (of_nat x, s2))"
    "ext2_read_file ?io dk (of_nat x) s2 = Some (Inr (of_nat y, s3))" "mem_list (kmem s3) (of_nat y) (vol_file demo_vol 2 2)"
    using volume_file_contents [OF hw s(1) h lba refl v demo_vol_file(3) bud] by (elim exE conjE) (rule that, assumption+)
  have "kmem s3 (of_nat y + 4) = 4"
    using mem_list_nth [OF r(4), of 4] by (simp add: demo_vol_file(2))
  with r(1,3) r(2) [unfolded of_nat_numeral] show ?thesis by (intro exI conjI)
qed

end
