(* ===== verification/Directory.thy ===== *)
theory Directory
  imports File Volume
begin

text \<open>
  What the cache of files has to do with the disk. A directory on the disk is the list of its entries
  (\<open>dir_list\<close>); \<open>get_dir_entries\<close> gives the file of the directory one leaf for every name that is in it, and a
  path leads to the inode that the directories on the disk give for its names. The invariant \<open>fs_ok\<close> says that
  the structures in memory agree with the disk.
\<close>

section \<open>Directories on the disk\<close>

text \<open>The entries of a directory from its bytes: the inode number, the length of the entry, the length of the name and
  the name. The list ends at an entry without an inode.\<close>

definition entry_len :: "u8 list \<Rightarrow> nat" where
  "entry_len xs = unat (half_at xs 4)"

definition entry_name :: "u8 list \<Rightarrow> u8 list" where
  "entry_name xs = take (unat (xs ! 6)) (drop 8 xs)"

function dir_list :: "u8 list \<Rightarrow> (u8 list \<times> u32) list" where
  "dir_list xs =
     (if length xs < 8 \<or> word_at xs 0 = 0 \<or> entry_len xs = 0 then []
      else (entry_name xs, word_at xs 0) # dir_list (drop (entry_len xs) xs))"
  by pat_completeness auto
termination
  by (relation "measure length") auto

declare dir_list.simps [simp del]

text \<open>Every entry fits into what is left of the directory, and names have no zero bytes.\<close>

function dir_wf :: "u8 list \<Rightarrow> bool" where
  "dir_wf xs \<longleftrightarrow>
     (if xs = [] then True
      else if length xs < 8 then False
      else if word_at xs 0 = 0 then True
      else if entry_len xs < 8 + unat (xs ! 6) \<or> length xs < entry_len xs \<or> 0 \<in> set (entry_name xs) then False
      else dir_wf (drop (entry_len xs) xs))"
  by pat_completeness auto
termination
  by (relation "measure length") auto

declare dir_wf.simps [simp del]

text \<open>The names that are cached, the last one first: the first entry of a name counts, \<open>.\<close> and \<open>..\<close> do not.\<close>

definition add_name :: "u8 list \<times> u32 \<Rightarrow> (u8 list \<times> u32) list \<Rightarrow> (u8 list \<times> u32) list" where
  "add_name e D = (if fst e = [46] \<or> fst e = [46, 46] \<or> fst e \<in> fst ` set D then D else e # D)"

definition vol_dir :: "(nat \<Rightarrow> u8) \<Rightarrow> nat \<Rightarrow> nat \<Rightarrow> (u8 list \<times> u32) list" where
  "vol_dir b lba i = fold add_name (dir_list (vol_file b lba i)) []"

definition vol_is_dir :: "(nat \<Rightarrow> u8) \<Rightarrow> nat \<Rightarrow> nat \<Rightarrow> bool" where
  "vol_is_dir b lba i \<longleftrightarrow> half_at (vol_inode b lba i) 0 AND EXT2_S_IFDIR \<noteq> 0"

lemma add_name_again: "fold add_name es (fold add_name es D) = fold add_name es D"
proof -
  have k: "fst ` set D' \<subseteq> fst ` set (fold add_name es' D')" for es' D'
  proof (induction es' arbitrary: D')
    case (Cons e es')
    have "fst ` set D' \<subseteq> fst ` set (add_name e D')" by (auto simp: add_name_def)
    with Cons [of "add_name e D'"] show ?case by simp
  qed simp
  have m: "fst e \<in> {[46], [46, 46]} \<or> fst e \<in> fst ` set (fold add_name es' D')" if "e \<in> set es'" for e es' D'
    using that
  proof (induction es' arbitrary: D')
    case (Cons x es')
    show ?case
    proof (cases "e = x")
      case True
      then have "fst e \<in> {[46], [46, 46]} \<or> fst e \<in> fst ` set (add_name x D')" by (auto simp: add_name_def)
      with k [of "add_name x D'" es'] show ?thesis by auto
    next
      case False
      with Cons show ?thesis by simp
    qed
  qed simp
  have "fold add_name es' X = X" if "\<And>e. e \<in> set es' \<Longrightarrow> fst e \<in> {[46], [46, 46]} \<or> fst e \<in> fst ` set X" for es' X
    using that
  proof (induction es')
    case (Cons e es')
    have "add_name e X = X" using Cons.prems [of e] by (auto simp: add_name_def)
    with Cons show ?case by simp
  qed simp
  from this [of es "fold add_name es D"] m show ?thesis by blast
qed

text \<open>Looking a name up finds the inode of its first entry.\<close>

lemma map_of_add_names:
  assumes "n \<noteq> [46]" "n \<noteq> [46, 46]"
  shows "map_of (fold add_name es D) n = (case map_of D n of Some i \<Rightarrow> Some i | None \<Rightarrow> map_of es n)"
proof (induction es arbitrary: D)
  case Nil
  show ?case by (simp split: option.split)
next
  case (Cons e es)
  have "fst e = n \<Longrightarrow> fst e \<in> fst ` set D \<longleftrightarrow> map_of D n \<noteq> None" by (simp add: map_of_eq_None_iff)
  then have "(case map_of (add_name e D) n of Some i \<Rightarrow> Some i | None \<Rightarrow> map_of es n)
    = (case map_of D n of Some i \<Rightarrow> Some i | None \<Rightarrow> map_of (e # es) n)"
    using assms by (cases "fst e = n"; cases e) (simp_all add: add_name_def split: option.split)
  then show ?case unfolding fold_Cons o_apply Cons .
qed

section \<open>Nodes in memory\<close>

lemma fs_fields:
  fixes s s' :: "'a fs_state_scheme"
  assumes "kheap_state.more s' = kheap_state.more s"
  shows "f_disk s' = f_disk s" "f_inum s' = f_inum s" "f_name s' = f_name s" "f_inode s' = f_inode s" "f_parent s' = f_parent s"
    "f_leaf s' = f_leaf s" "f_root s' = f_root s" "f_mmap s' = f_mmap s" "p_list s' = p_list s" "current s' = current s"
  using assms by (cases s; cases s'; simp)+

text \<open>The state besides the memory and the nodes.\<close>

definition fs_rest where
  "fs_rest s = kheap_state.more (s\<lparr>f_mmap := \<lambda>_. 0, f_inum := \<lambda>_. 0, f_name := \<lambda>_. 0, f_inode := \<lambda>_. 0, f_parent := \<lambda>_. 0,
     f_leaf := \<lambda>_. [], f_disk := \<lambda>_. \<lparr>d_device = 0, d_part = 0, d_sb = 0, d_blocksize = 0, d_groups = 0, d_gd = 0\<rparr>\<rparr>)"

lemma fs_rest_updates [simp]:
  "fs_rest (s\<lparr>kmem := m\<rparr>) = fs_rest s" "fs_rest (s\<lparr>f_mmap := a\<rparr>) = fs_rest s" "fs_rest (s\<lparr>f_inum := a\<rparr>) = fs_rest s"
  "fs_rest (s\<lparr>f_name := a\<rparr>) = fs_rest s" "fs_rest (s\<lparr>f_inode := a\<rparr>) = fs_rest s" "fs_rest (s\<lparr>f_parent := a\<rparr>) = fs_rest s"
  "fs_rest (s\<lparr>f_leaf := l\<rparr>) = fs_rest s" "fs_rest (s\<lparr>f_disk := d\<rparr>) = fs_rest s"
  by (cases s; simp add: fs_rest_def)+

lemma fs_rest_more: "kheap_state.more s' = kheap_state.more s \<Longrightarrow> fs_rest s' = fs_rest (s :: 'a fs_state_scheme)"
  by (cases s; cases s'; simp add: fs_rest_def)

lemma fs_rest_fields:
  fixes s s' :: "'a fs_state_scheme"
  assumes "fs_rest s' = fs_rest s"
  shows "f_root s' = f_root s" "p_list s' = p_list s" "current s' = current s" "n_proc s' = n_proc s" "scr s' = scr s"
    "current_term s' = current_term s" "fs_state.more s' = fs_state.more s"
  using assms by (cases s; cases s'; simp add: fs_rest_def)+

text \<open>A block that begins at \<open>a\<close>, and a node with its name.\<close>

definition blk :: "(nat \<times> nat) set \<Rightarrow> u32 \<Rightarrow> nat \<Rightarrow> bool" where
  "blk B a c \<longleftrightarrow> (\<exists>n. (unat a, n) \<in> B \<and> c \<le> n)"

definition node :: "(nat \<times> nat) set \<Rightarrow> (u32 \<Rightarrow> u8 list) \<Rightarrow> 'a fs_state_scheme \<Rightarrow> u32 \<Rightarrow> bool" where
  "node B N s f \<longleftrightarrow> blk B f 44 \<and> held B (f_name s f) (length (N f) + 1) \<and> cstr (kmem s) (f_name s f) (N f)"

definition listing :: "(u32 \<Rightarrow> u8 list) \<Rightarrow> 'a fs_state_scheme \<Rightarrow> u32 \<Rightarrow> (u8 list \<times> u32) list" where
  "listing N s dir = map (\<lambda>l. (N l, f_inum s l)) (f_leaf s dir)"

lemma held_cstr: "same_data B m m' \<Longrightarrow> held B a (length n + 1) \<Longrightarrow> cstr m' a n = cstr m a n"
  by (rule cstr_cong) (use held_byte [of B m m' a "length n + 1"] in simp)

lemma blk_mono: "blk B a c \<Longrightarrow> B \<subseteq> B' \<Longrightarrow> blk B' a c"
  by (auto simp: blk_def)

lemma blk_held: "kblocks s B \<Longrightarrow> blk B a c \<Longrightarrow> held B a c"
  using held_new(1) [of s B] unfolding blk_def by (metis fst_conv of_nat_unat snd_conv ucast_id)

lemma node_keep:
  assumes "node B N s f" "same_data B (kmem s) (kmem s')" "B \<subseteq> B'" "f_name s' f = f_name s f" "N' f = N f"
  shows "node B' N' s' f"
  using assms held_cstr [OF assms(2), of "f_name s f" "N f"] blk_mono [OF _ assms(3)] held_mono [OF _ assms(3)]
  by (auto simp: node_def)

lemma find_leaf_names:
  assumes "\<And>l. l \<in> set ls \<Longrightarrow> cstr m (nm l) (N l)" "cstr m a x"
  shows "find_leaf m nm a ls = Some (case find (\<lambda>l. N l = x) ls of None \<Rightarrow> 0 | Some l \<Rightarrow> l)"
  using assms(1)
proof (induction ls)
  case (Cons l ls)
  have "strcmp m (nm l) a = Some (if N l = x then 0 else 1)" by (rule strcmp_cstr [OF _ assms(2)]) (use Cons.prems in simp)
  with Cons show ?case by simp
qed simp

lemma cached_leaf:
  assumes "\<And>l. l \<in> set (f_leaf s dir) \<Longrightarrow> node B N s l" "cstr (kmem s) a x"
  shows "is_cached_leaf dir a s = Some (case find (\<lambda>l. N l = x) (f_leaf s dir) of None \<Rightarrow> 0 | Some l \<Rightarrow> l)"
  unfolding is_cached_leaf_def by (rule find_leaf_names [OF _ assms(2)]) (use assms(1) in \<open>simp add: node_def\<close>)

lemma find_listing:
  "find (\<lambda>l. N l = x) (f_leaf s dir) = None \<longleftrightarrow> x \<notin> fst ` set (listing N s dir)"
  "find (\<lambda>l. N l = x) (f_leaf s dir) = Some l \<Longrightarrow> l \<in> set (f_leaf s dir) \<and> N l = x \<and> map_of (listing N s dir) x = Some (f_inum s l)"
proof -
  show "find (\<lambda>l. N l = x) (f_leaf s dir) = None \<longleftrightarrow> x \<notin> fst ` set (listing N s dir)"
    by (simp add: find_None_iff listing_def image_image) auto
  have "find (\<lambda>l. N l = x) ls = Some l \<Longrightarrow> l \<in> set ls \<and> N l = x \<and> map_of (map (\<lambda>l. (N l, f_inum s l)) ls) x = Some (f_inum s l)" for ls
    by (induction ls) (auto split: if_splits)
  then show "find (\<lambda>l. N l = x) (f_leaf s dir) = Some l \<Longrightarrow> l \<in> set (f_leaf s dir) \<and> N l = x
      \<and> map_of (listing N s dir) x = Some (f_inum s l)"
    unfolding listing_def .
qed

text \<open>What adding leaves to \<open>dir\<close> leaves alone, and what the new nodes are.\<close>

definition leaves_added where
  "leaves_added dir F N s F' N' s' \<longleftrightarrow> F \<subseteq> F'
     \<and> (\<forall>f \<in> F. N' f = N f \<and> f_inum s' f = f_inum s f \<and> f_inode s' f = f_inode s f \<and> f_parent s' f = f_parent s f
          \<and> f_disk s' f = f_disk s f \<and> f_mmap s' f = f_mmap s f \<and> f_name s' f = f_name s f \<and> (f \<noteq> dir \<longrightarrow> f_leaf s' f = f_leaf s f))
     \<and> (\<forall>f \<in> F' - F. f_inode s' f = 0 \<and> f_mmap s' f = 0 \<and> f_parent s' f = dir \<and> f_disk s' f = f_disk s dir \<and> f_leaf s' f = [])
     \<and> fs_rest s' = fs_rest s
     \<and> set (f_leaf s' dir) = set (f_leaf s dir) \<union> (F' - F)"

lemma leaves_added_refl:
  "kheap_state.more s' = kheap_state.more s \<Longrightarrow> leaves_added dir F N s F N (s' :: 'a fs_state_scheme)"
  using fs_fields [of s' s] fs_rest_more [of s' s] by (simp add: leaves_added_def)

lemma leaves_added_trans:
  assumes "leaves_added dir F N s F' N' s'" "leaves_added dir F' N' s' F'' N'' s''" "dir \<in> F"
  shows "leaves_added dir F N s F'' N'' s''"
proof -
  note a = assms(1) [unfolded leaves_added_def] and b = assms(2) [unfolded leaves_added_def]
  have old: "N'' f = N f \<and> f_inum s'' f = f_inum s f \<and> f_inode s'' f = f_inode s f \<and> f_parent s'' f = f_parent s f
      \<and> f_disk s'' f = f_disk s f \<and> f_mmap s'' f = f_mmap s f \<and> f_name s'' f = f_name s f \<and> (f \<noteq> dir \<longrightarrow> f_leaf s'' f = f_leaf s f)"
    if "f \<in> F" for f
  proof -
    have "f \<in> F'" using a that by blast
    with that a b show ?thesis by metis
  qed
  have new: "f_inode s'' f = 0 \<and> f_mmap s'' f = 0 \<and> f_parent s'' f = dir \<and> f_disk s'' f = f_disk s dir \<and> f_leaf s'' f = []"
    if "f \<in> F'' - F" for f
  proof (cases "f \<in> F'")
    case True
    moreover from True that have "f \<noteq> dir" "f \<in> F' - F" using assms(3) by auto
    ultimately show ?thesis using a b by metis
  next
    case False
    moreover have "f_disk s' dir = f_disk s dir" using a assms(3) by blast
    ultimately show ?thesis using that b by auto
  qed
  have "set (f_leaf s'' dir) = set (f_leaf s dir) \<union> (F'' - F)" using a b by blast
  with old new a b show ?thesis unfolding leaves_added_def by (intro conjI ballI) (auto dest: subsetD)
qed

section \<open>Writing a new block\<close>

lemma write_block:
  assumes "kblocks s (insert x B)" "x \<notin> B" "agree_outside (fst x) (fst x + snd x) (kmem s) m"
  shows "kblocks (s\<lparr>kmem := m\<rparr>) (insert x B)" "same_data B (kmem s) m"
proof -
  show "kblocks (s\<lparr>kmem := m\<rparr>) (insert x B)" by (rule kblocks_write [OF assms(1) _ assms(3)]) simp
  have "m (of_nat (p + i)) = kmem s (of_nat (p + i))" if p: "(p, n) \<in> B" "i < n" for p n i
  proof -
    have "p + n \<le> fst x \<or> fst x + snd x \<le> p"
      using kblocks_apart [OF assms(1), of p n "fst x" "snd x"] p(1) assms(2) by auto
    moreover have "p + n \<le> 0x40000000" using kblocks_bounds [OF assms(1), of p n] p(1) by simp
    ultimately have "p + i < 2 ^ 32" "p + i < fst x \<or> fst x + snd x \<le> p + i" using p(2) by auto
    with assms(3) show ?thesis unfolding agree_outside_def by blast
  qed
  then show "same_data B (kmem s) m" unfolding same_data_def by blast
qed

lemma fresh_block: "kblocks s (insert x B) \<Longrightarrow> x \<notin> B \<Longrightarrow> blk B f c \<Longrightarrow> f \<noteq> of_nat (fst x)"
proof
  assume h: "kblocks s (insert x B)" "x \<notin> B" "blk B f c" "f = of_nat (fst x)"
  have "unat f = fst x" using held_new(2) [OF h(1), of x 0] h(4) by simp
  with h(3) obtain n where n: "(fst x, n) \<in> B" unfolding blk_def by auto
  then have "(fst x, n) \<noteq> x" using h(2) by auto
  with kblocks_apart [OF h(1), of "fst x" n "fst x" "snd x"] n have "n = 0 \<or> snd x = 0" by auto
  moreover have "12 \<le> n" "12 \<le> snd x" using kblocks_bounds [OF h(1), of "fst x"] n by (auto simp: prod.collapse intro: kblocks_bounds(3) [OF h(1), of "fst x" "snd x"])
  ultimately show False by simp
qed

lemma terminated_copy:
  fixes nm :: "u8 list"
  assumes "kblocks s (insert x B)" "x \<notin> B" "held B src (length nm)" "length nm < snd x"
    and "\<And>i. i < length nm \<Longrightarrow> kmem s (src + of_nat i) = nm ! i" "0 \<notin> set nm"
    and m: "m = (memcpy (kmem s) (of_nat (fst x)) src (of_nat (length nm)))(of_nat (fst x) + of_nat (length nm) := 0)"
  shows "cstr m (of_nat (fst x)) nm" "agree_outside (fst x) (fst x + snd x) (kmem s) m"
proof -
  let ?a = "of_nat (fst x) :: u32" let ?l = "length nm"
  have ux: "unat ?a = fst x" and bx: "fst x + snd x \<le> 0x40000000"
    using held_new(2) [OF assms(1), of x 0] kblocks_bounds(2) [OF assms(1), of "fst x" "snd x"] by simp_all
  from assms(3) obtain p n where p: "(p, n) \<in> B" "p \<le> unat src" "unat src + ?l \<le> p + n" "p + n \<le> 2 ^ 32"
    by (auto simp: held_def)
  have ap: "p + n \<le> fst x \<or> fst x + snd x \<le> p"
    using kblocks_apart [OF assms(1), of p n "fst x" "snd x"] p(1) assms(2) by auto
  have neq: "?a + of_nat i \<noteq> ?a + of_nat ?l" if "i < ?l" for i
  proof
    assume "?a + of_nat i = ?a + of_nat ?l"
    then have "unat (of_nat i :: u32) = unat (of_nat ?l :: u32)" by simp
    moreover have "unat (of_nat i :: u32) = i" "unat (of_nat ?l :: u32) = ?l" using that assms(4) bx by (auto intro!: unat_of_nat_u32)
    ultimately show False using that by simp
  qed
  show "cstr m ?a nm"
  proof (rule cstrI)
    fix i assume i: "i < ?l"
    have "memcpy (kmem s) ?a src (of_nat ?l) (?a + of_nat i) = kmem s (src + of_nat i)"
      by (rule memcpy_blocks [OF _ _ _ p(2-4) ap i]) (use ux bx assms(4) in simp_all)
    then show "m (?a + of_nat i) = nm ! i \<and> nm ! i \<noteq> 0" using neq [OF i] assms(5) [OF i] assms(6) i unfolding m by (auto simp: in_set_conv_nth)
  qed (simp add: m)
  show "agree_outside (fst x) (fst x + snd x) (kmem s) m"
  proof (rule agree_outside_block [where b = ?a and c = "?l + 1"])
    fix a assume o': "\<not> in_block ?a (?l + 1) a"
    have ul: "unat (of_nat ?l :: u32) = ?l" using assms(4) bx by (intro unat_of_nat_u32) simp
    have "a \<noteq> ?a + of_nat ?l" using o' in_block_offset [of ?l "?l + 1" ?a] assms(4) bx by auto
    moreover have "memcpy (kmem s) ?a src (of_nat ?l) a = kmem s a"
      by (rule memcpy_outside) (use o' ul in \<open>auto simp: in_block_def\<close>)
    ultimately show "m a = kmem s a" by (simp add: m)
  qed (use ux bx assms(4) in simp_all)
qed

lemma strcpy_new:
  fixes nm :: "u8 list"
  assumes "kblocks s (insert y B)" "y \<notin> B" "held B src (length nm + 1)" "cstr (kmem s) src nm" "length nm < snd y"
  shows "\<exists>m. strcpy (kmem s) (of_nat (fst y)) src = Some (of_nat (length nm), m) \<and> cstr m (of_nat (fst y)) nm
    \<and> agree_outside (fst y) (fst y + snd y) (kmem s) m"
proof -
  let ?a = "of_nat (fst y) :: u32" let ?l = "length nm"
  have uy: "unat ?a = fst y" and b: "fst y + snd y \<le> 0x40000000"
    using held_new(2) [OF assms(1), of y 0] kblocks_bounds(2) [OF assms(1), of "fst y" "snd y"] by simp_all
  from assms(3) obtain p n where p: "(p, n) \<in> B" "p \<le> unat src" "unat src + (?l + 1) \<le> p + n" "p + n \<le> 2 ^ 32"
    by (auto simp: held_def)
  have ap: "p + n \<le> fst y \<or> fst y + snd y \<le> p"
    using kblocks_apart [OF assms(1), of p n "fst y" "snd y"] p(1) assms(2) by auto
  have "no_clobber ?a src (Suc ?l)"
    unfolding no_clobber_def
  proof (intro allI impI)
    fix j k assume jk: "j < k" "k < Suc ?l"
    have "unat (?a + of_nat j) = fst y + j" "unat (src + of_nat k) = unat src + k"
      using jk b uy assms(5) p by (auto simp: unat_add_nowrap unat_of_nat_u32)
    moreover have "fst y + j \<noteq> unat src + k" using ap jk p assms(5) by auto
    ultimately show "?a + of_nat j \<noteq> src + of_nat k" by metis
  qed
  moreover have "Suc ?l < 2 ^ 32" using assms(5) b by simp
  ultimately obtain m where m: "strcpy (kmem s) ?a src = Some (of_nat ?l, m)" "cstr m ?a nm"
    "\<forall>a. \<not> in_block ?a (Suc ?l) a \<longrightarrow> m a = kmem s a" using strcpy_cstr [OF assms(4)] by blast
  have "agree_outside (fst y) (fst y + snd y) (kmem s) m"
    by (rule agree_outside_block [where b = ?a and c = "Suc ?l"]) (use m(3) uy b assms(5) in simp_all)
  with m show ?thesis by blast
qed

lemma pages_small: "n \<le> 300 \<Longrightarrow> pages_of (of_nat n) = 1"
proof -
  assume n: "n \<le> 300"
  then have "unat (of_nat n :: u32) = n" by (intro unat_of_nat_u32) simp
  with n show ?thesis by (simp add: pages_of_def real_size_def)
qed

lemma kmalloc_small:
  assumes "kblocks s B" "budget (Suc k) s" "n \<le> 300"
  shows "\<exists>x s'. kmalloc (of_nat n) s = Some (Inr (of_nat (fst x), s')) \<and> kblocks s' (insert x B) \<and> x \<notin> B
    \<and> n \<le> snd x \<and> same_data B (kmem s) (kmem s') \<and> kheap_state.more s' = kheap_state.more s \<and> budget k s'"
proof -
  have u: "unat (of_nat n :: u32) = n" using assms(3) by (intro unat_of_nat_u32) simp
  have "budget (pages_of (of_nat n) + k) s" using assms(2) pages_small [OF assms(3)] by simp
  from kmalloc_next [OF assms(1) this] show ?thesis unfolding u .
qed

section \<open>Reading a directory\<close>

text \<open>The heap holds blocks \<open>E\<close> of the caller besides the blocks \<open>B\<close> of the files.\<close>

lemma add_leaf_ok:
  fixes s :: "'a fs_state_scheme" and nm :: "u8 list"
  assumes heap: "kblocks s C" "C = E \<union> B" "E \<inter> B = {}" and nodes: "\<And>f. f \<in> F \<Longrightarrow> node B N s f" and dir: "dir \<in> F" "set (f_leaf s dir) \<subseteq> F"
    and nm: "held C a (length nm + 1)" "cstr (kmem s) a nm" and nl: "unat (name_len (kmem s) d) = length nm"
    and i: "d_inode (kmem s) d = i" and d: "held C d 8"
    and bud: "budget (2 + k) s"
  shows "\<exists>s' B' F' N'. add_leaf dir d a s = Some (Inr s') \<and> kblocks s' (E \<union> B') \<and> E \<inter> B' = {} \<and> B \<subseteq> B'
    \<and> same_data C (kmem s) (kmem s') \<and> budget k s'
    \<and> (\<forall>f \<in> F'. node B' N' s' f) \<and> leaves_added dir F N s F' N' s'
    \<and> listing N' s' dir = (if nm \<in> fst ` set (listing N s dir) then listing N s dir else (nm, i) # listing N s dir)"
proof -
  have cl: "is_cached_leaf dir a s = Some (case find (\<lambda>l. N l = nm) (f_leaf s dir) of None \<Rightarrow> 0 | Some l \<Rightarrow> l)"
    by (rule cached_leaf [OF _ nm(2)]) (use nodes dir in blast)
  show ?thesis
  proof (cases "find (\<lambda>l. N l = nm) (f_leaf s dir)")
    case (Some l)
    note l = find_listing(2) [OF Some]
    have "nm \<in> fst ` set (listing N s dir)" using find_listing(1) [of N nm s dir] Some by auto
    moreover have "l \<noteq> 0"
    proof
      assume z: "l = 0"
      have "node B N s l" using l nodes dir by blast
      then obtain n where "(unat l, n) \<in> C" unfolding heap(2) by (auto simp: node_def blk_def)
      with kblocks_bounds(1) [OF heap(1) this] z show False by simp
    qed
    then have "add_leaf dir d a s = Some (Inr s)" unfolding add_leaf_def cl Some by simp
    moreover have "budget k s" by (rule budget_mono [OF bud]) simp
    moreover have "same_data C (kmem s) (kmem s)" by (simp add: same_data_def)
    ultimately show ?thesis using heap nodes leaves_added_refl [of s s dir F N]
      by (intro exI [of _ s] exI [of _ B] exI [of _ F] exI [of _ N]) simp
  next
    case None
    then have new: "nm \<notin> fst ` set (listing N s dir)" using find_listing(1) [of N nm s dir] by simp
    have d8: "d_inode m' d = d_inode m d \<and> name_len m' d = name_len m d" if "same_data C m m'" for m m'
      using held_rd32 [OF that held_at [OF d, of 0 4]] held_byte [OF that d, of 6] by (simp add: d_inode_def name_len_def)
    have b2: "budget (Suc (Suc k)) s" using bud by simp
    from kmalloc_small [OF heap(1) b2, of 44] obtain z s1 where
      z: "kmalloc 44 s = Some (Inr (of_nat (fst z), s1))" "kblocks s1 (insert z C)" "z \<notin> C" "44 \<le> snd z"
        "same_data C (kmem s) (kmem s1)" "kheap_state.more s1 = kheap_state.more s" "budget (Suc k) s1" by auto
    have l255: "length nm < 256" using nl unsigned_less [of "name_len (kmem s) d", where ?'a = nat] by simp
    have nl1: "ucast (name_len (kmem s1) d) + 1 = (of_nat (length nm + 1) :: u32)"
    proof -
      have "(ucast (name_len (kmem s) d) :: u32) = of_nat (length nm)" unfolding nl [symmetric] by simp
      then show ?thesis using d8 [OF z(5)] by simp
    qed
    have l300: "length nm + 1 \<le> 300" using l255 by simp
    from kmalloc_small [OF z(2,7) l300] obtain y s2 where
      y: "kmalloc (of_nat (length nm + 1)) s1 = Some (Inr (of_nat (fst y), s2))" "kblocks s2 (insert y (insert z C))"
        "y \<notin> insert z C" "length nm + 1 \<le> snd y" "same_data (insert z C) (kmem s1) (kmem s2)"
        "kheap_state.more s2 = kheap_state.more s1" "budget k s2" by blast
    have k2: "same_data C (kmem s) (kmem s2)" by (rule same_data_trans [OF z(5) same_data_mono [OF y(5)]]) blast
    have h2: "held (insert z C) a (length nm + 1)" by (rule held_mono [OF nm(1)]) blast
    have c2: "cstr (kmem s2) a nm" using held_cstr [OF k2 nm(1)] nm(2) by simp
    have ly: "length nm < snd y" using y(4) by simp
    from strcpy_new [OF y(2,3) h2 c2 ly] obtain m where
      m: "strcpy (kmem s2) (of_nat (fst y)) a = Some (of_nat (length nm), m)" "cstr m (of_nat (fst y)) nm"
        "agree_outside (fst y) (fst y + snd y) (kmem s2) m" by blast
    note w = write_block [OF y(2,3) m(3)]
    have km: "same_data C (kmem s) m" by (rule same_data_trans [OF k2 same_data_mono [OF w(2)]]) blast
    let ?l = "of_nat (fst z) :: u32" and ?n = "of_nat (fst y) :: u32" and ?B = "insert y (insert z B)"
    define s' where "s' = s2\<lparr>kmem := m, f_mmap := (f_mmap s2)(?l := 0), f_disk := (f_disk s2)(?l := f_disk s2 dir),
            f_inum := (f_inum s2)(?l := d_inode m d), f_name := (f_name s2)(?l := ?n),
            f_inode := (f_inode s2)(?l := 0), f_parent := (f_parent s2)(?l := dir),
            f_leaf := (f_leaf s2)(?l := [], dir := ?l # f_leaf s2 dir)\<rparr>"
    have run: "add_leaf dir d a s = Some (Inr s')"
      unfolding add_leaf_def cl None option.case bind.bind_lunit z(1) bind_out_simps prod.case nl1 y(1) m(1)
      by (simp add: s'_def)
    note ff = fs_fields [OF y(6)] fs_fields [OF z(6)]
    have fl: "f \<noteq> ?l" if "f \<in> F" for f
      using fresh_block [OF z(2,3), of f 44] nodes [OF that] blk_mono [of B f 44 C] heap(2) by (auto simp: node_def)
    have "kblocks s' (insert y (insert z C))" by (rule kblocks_fields [OF w(1)]) (simp_all add: s'_def)
    then have "kblocks s' (E \<union> ?B)" unfolding heap(2) by simp
    moreover have "E \<inter> ?B = {}" using z(3) y(3) heap(2,3) by auto
    moreover have "budget k s'" using y(7) by (simp add: s'_def budget_def frames.free_frames_def frame_used_def)
    moreover have "same_data C (kmem s) (kmem s')" using km by (simp add: s'_def)
    moreover have "node ?B (N(?l := nm)) s' f" if "f \<in> insert ?l F" for f
    proof (cases "f = ?l")
      case True
      have "blk ?B ?l 44" unfolding blk_def using z(4) held_new(2) [OF z(2), of z 44] by (intro exI [of _ "snd z"]) simp
      moreover have "held {y} ?n (length nm + 1)" by (rule held_new(3) [OF y(2)]) (use y(4) in simp_all)
      then have "held ?B ?n (length nm + 1)" by (rule held_mono) simp
      ultimately show ?thesis using True m(2) by (simp add: node_def s'_def)
    next
      case False
      with that have f: "f \<in> F" by simp
      show ?thesis
        by (rule node_keep [OF nodes [OF f], where s' = s']) (use same_data_mono [OF km] heap(2) False fl [OF f] ff in \<open>auto simp: s'_def\<close>)
    qed
    moreover have "leaves_added dir F N s (insert ?l F) (N(?l := nm)) s'"
      using fl dir fl [OF dir(1)] ff fs_rest_more [OF y(6)] fs_rest_more [OF z(6)] by (auto simp: leaves_added_def s'_def)
    moreover have "listing (N(?l := nm)) s' dir = (nm, i) # listing N s dir"
    proof -
      have "map (\<lambda>l. ((N(?l := nm)) l, f_inum s' l)) (f_leaf s dir) = map (\<lambda>l. (N l, f_inum s l)) (f_leaf s dir)"
        by (rule map_cong [OF refl]) (use fl dir ff in \<open>auto simp: s'_def\<close>)
      then show ?thesis using d8 [OF km] i fl [OF dir(1)] ff by (simp add: listing_def s'_def)
    qed
    ultimately show ?thesis using run new
      by (intro exI [of _ s'] exI [of _ ?B] exI [of _ "insert ?l F"] exI [of _ "N(?l := nm)"]) auto
  qed
qed

lemma eq_lit_cstr: "cstr m a nm \<Longrightarrow> 0 \<notin> set xs \<Longrightarrow> eq_lit xs m a \<longleftrightarrow> nm = xs"
proof (induction xs arbitrary: a nm)
  case Nil
  then show ?case by (cases nm) auto
next
  case (Cons x xs)
  then show ?case by (cases nm) auto
qed

lemma leaves_added_write:
  assumes "kheap_state.more s1 = kheap_state.more s" "leaves_added dir F N (s1\<lparr>kmem := m\<rparr>) F' N' s2"
    "kheap_state.more s3 = kheap_state.more s2"
  shows "leaves_added dir F N (s :: 'a fs_state_scheme) F' N' s3"
  using assms(2) fs_fields [OF assms(1)] fs_fields [OF assms(3)] fs_rest_more [OF assms(1)] fs_rest_more [OF assms(3)]
  unfolding leaves_added_def by simp

lemma listing_more:
  "kheap_state.more s' = kheap_state.more s \<Longrightarrow> listing N (s' :: 'a fs_state_scheme) dir = listing N s dir"
  using fs_fields [of s' s] by (simp add: listing_def)

lemma read_entry_ok:
  fixes s :: "'a fs_state_scheme" and nm :: "u8 list"
  assumes heap: "kblocks s C" "C = E \<union> B" "E \<inter> B = {}" and nodes: "\<And>f. f \<in> F \<Longrightarrow> node B N s f" and dir: "dir \<in> F" "set (f_leaf s dir) \<subseteq> F"
    and d: "held C d (8 + length nm)" and nl: "unat (name_len (kmem s) d) = length nm"
    and bytes: "\<And>j. j < length nm \<Longrightarrow> kmem s (d + 8 + of_nat j) = nm ! j" "0 \<notin> set nm"
    and i: "d_inode (kmem s) d = i" and bud: "budget (3 + k) s"
  shows "\<exists>s' B' F' N'. read_entry dir d s = Some (Inr s') \<and> kblocks s' (E \<union> B') \<and> E \<inter> B' = {} \<and> B \<subseteq> B' \<and> same_data C (kmem s) (kmem s') \<and> budget k s'
    \<and> (\<forall>f \<in> F'. node B' N' s' f) \<and> leaves_added dir F N s F' N' s' \<and> listing N' s' dir = add_name (nm, i) (listing N s dir)"
proof -
  have l: "length nm + 1 \<le> 300" using nl unsigned_less [of "name_len (kmem s) d", where ?'a = nat] by simp
  have un: "(ucast (name_len (kmem s) d) :: u32) = of_nat (length nm)" unfolding nl [symmetric] by simp
  have d8: "d_inode m' d = d_inode m d \<and> name_len m' d = name_len m d" if "same_data C m m'" for m m'
    using held_rd32 [OF that held_at [OF d, of 0 4]] held_byte [OF that d, of 6] by (simp add: d_inode_def name_len_def)
  have "budget (Suc (2 + k)) s" using bud by (simp add: numeral_3_eq_3)
  from kmalloc_small [OF heap(1) this l] obtain x s1 where
    x: "kmalloc (of_nat (length nm + 1)) s = Some (Inr (of_nat (fst x), s1))" "kblocks s1 (insert x C)" "x \<notin> C"
      "length nm + 1 \<le> snd x" "same_data C (kmem s) (kmem s1)" "kheap_state.more s1 = kheap_state.more s" "budget (2 + k) s1" by blast
  let ?a = "of_nat (fst x) :: u32"
  have src: "held C (d + 8) (length nm)"
  proof (cases "length nm = 0")
    case True
    from d obtain p n where "(p, n) \<in> C" "p \<le> unat d" "unat d + (8 + length nm) \<le> p + n" "p + n \<le> 2 ^ 32" by (auto simp: held_def)
    moreover from this kblocks_bounds [OF heap(1), of p n] have "unat (d + 8) = unat d + 8" by (subst unat_add_nowrap) auto
    ultimately show ?thesis using True by (auto simp: held_def intro!: bexI [of _ "(p, n)"])
  next
    case False
    with held_at [OF d, of 8 "length nm"] show ?thesis by simp
  qed
  have b1: "kmem s1 (d + 8 + of_nat j) = nm ! j" if "j < length nm" for j
    using held_byte [OF x(5) src that] bytes(1) [OF that] by simp
  define m1 where "m1 = memcpy (kmem s1) ?a (d + 8) (of_nat (length nm))"
  define m where "m = m1(?a + of_nat (length nm) := 0)"
  have lx: "length nm < snd x" using x(4) by simp
  note tc = terminated_copy [OF x(2,3) src lx b1 bytes(2) m_def [unfolded m1_def]]
  note w = write_block [OF x(2,3) tc(2)]
  have km: "same_data C (kmem s) m" by (rule same_data_trans [OF x(5) w(2)])
  have n1: "(ucast (name_len (kmem s1) d) :: u32) = of_nat (length nm)" using d8 [OF x(5)] un by simp
  have n2: "(ucast (name_len m1 d) :: u32) = of_nat (length nm)"
  proof -
    have "d + 6 \<noteq> ?a + of_nat (length nm)"
    proof
      assume e: "d + 6 = ?a + of_nat (length nm)"
      from d obtain p n where p: "(p, n) \<in> C" "p \<le> unat d" "unat d + (8 + length nm) \<le> p + n" by (auto simp: held_def)
      have "p + n \<le> 0x40000000" "fst x + snd x \<le> 0x40000000"
        using kblocks_bounds(2) [OF heap(1) p(1)] kblocks_bounds(2) [OF x(2), of "fst x" "snd x"] by simp_all
      then have "unat (d + 6) = unat d + 6" "unat (?a + of_nat (length nm)) = fst x + length nm"
        using p held_new(2) [OF x(2), of x 0] lx by (auto simp: unat_add_nowrap unat_of_nat_u32)
      moreover have "p + n \<le> fst x \<or> fst x + snd x \<le> p"
        using kblocks_apart [OF x(2), of p n "fst x" "snd x"] p(1) x(3) by auto
      ultimately show False using e p lx by auto
    qed
    then have "m1 (d + 6) = m (d + 6)" by (simp add: m_def)
    then show ?thesis using d8 [OF km] un by (simp add: name_len_def)
  qed
  let ?s2 = "s1\<lparr>kmem := m\<rparr>"
  have nodes2: "node B N ?s2 f" if "f \<in> F" for f
    by (rule node_keep [OF nodes [OF that]]) (use same_data_mono [OF km] heap(2) fs_fields [OF x(6)] in auto)
  have dir2: "set (f_leaf ?s2 dir) \<subseteq> F" using dir(2) fs_fields [OF x(6)] by simp
  have h2: "held (insert x C) ?a (length nm + 1)" by (rule held_new(1) [OF x(2)]) (use x(4) in simp_all)
  have d2: "held (insert x C) d 8" using held_at [OF held_mono [OF d], of "insert x C" 0 8] by auto
  have i2: "d_inode (kmem ?s2) d = i" "unat (name_len (kmem ?s2) d) = length nm" using d8 [OF km] i nl by simp_all
  have b2: "budget (2 + k) ?s2" using x(7) by simp
  have c2: "listing N ?s2 dir = listing N s dir" using fs_fields [OF x(6)] by (simp add: listing_def)
  have C2: "insert x C = insert x E \<union> B" "insert x E \<inter> B = {}" using x(3) heap(2,3) by auto
  have e: "eq_lit [46] (kmem ?s2) ?a \<longleftrightarrow> nm = [46]" "eq_lit [46, 46] (kmem ?s2) ?a \<longleftrightarrow> nm = [46, 46]"
    using eq_lit_cstr [OF tc(1), of "[46]"] eq_lit_cstr [OF tc(1), of "[46, 46]"] by simp_all
  have "\<exists>s3 B' F' N'. (if \<not> eq_lit [46] (kmem ?s2) ?a \<and> \<not> eq_lit [46, 46] (kmem ?s2) ?a then add_leaf dir d ?a ?s2 else Some (Inr ?s2))
        = Some (Inr s3) \<and> kblocks s3 (insert x E \<union> B') \<and> insert x E \<inter> B' = {} \<and> B \<subseteq> B'
    \<and> same_data (insert x C) (kmem ?s2) (kmem s3) \<and> budget k s3
    \<and> (\<forall>f \<in> F'. node B' N' s3 f) \<and> leaves_added dir F N ?s2 F' N' s3 \<and> listing N' s3 dir = add_name (nm, i) (listing N s dir)"
  proof (cases "nm = [46] \<or> nm = [46, 46]")
    case True
    have "budget k ?s2" by (rule budget_mono [OF b2]) simp
    moreover have "same_data (insert x C) (kmem ?s2) (kmem ?s2)" by (simp add: same_data_def)
    ultimately show ?thesis using True w(1) x(3) heap(2,3) nodes2 c2 leaves_added_refl [of ?s2 ?s2 dir F N] tc(1)
      unfolding e by (intro exI [of _ ?s2] exI [of _ B] exI [of _ F] exI [of _ N]) (auto simp: add_name_def)
  next
    case False
    have "cstr (kmem ?s2) ?a nm" using tc(1) by simp
    note al = add_leaf_ok [OF w(1) C2 nodes2 dir(1) dir2 h2 this i2(2,1) d2 b2]
    have "add_name (nm, i) (listing N s dir) = (if nm \<in> fst ` set (listing N s dir) then listing N s dir else (nm, i) # listing N s dir)"
      using False by (simp add: add_name_def)
    with al False show ?thesis unfolding e c2 by (simp only: de_Morgan_disj simp_thms if_True)
  qed
  then obtain s3 B' F' N' where
    s3: "(if \<not> eq_lit [46] (kmem ?s2) ?a \<and> \<not> eq_lit [46, 46] (kmem ?s2) ?a then add_leaf dir d ?a ?s2 else Some (Inr ?s2)) = Some (Inr s3)"
      "kblocks s3 (insert x E \<union> B')" "insert x E \<inter> B' = {}" "B \<subseteq> B'" "same_data (insert x C) (kmem ?s2) (kmem s3)" "budget k s3"
      "\<forall>f \<in> F'. node B' N' s3 f" "leaves_added dir F N ?s2 F' N' s3" "listing N' s3 dir = add_name (nm, i) (listing N s dir)"
    by blast
  have xE: "x \<notin> E \<union> B'" using s3(3) x(3) heap(2) by auto
  have "kblocks s3 (insert x (E \<union> B'))" using s3(2) by simp
  from kfree_block [OF this xE] obtain s4 where
    s4: "kfree ?a s3 = Some (Inr s4)" "kblocks s4 (E \<union> B')" "same_data (E \<union> B') (kmem s3) (kmem s4)" "\<exists>m k. s4 = s3\<lparr>kmem := m, kmalloc_used := k\<rparr>" by blast
  have m4: "kheap_state.more s4 = kheap_state.more s3" using s4(4) by auto
  have "read_entry dir d s = Some (Inr s4)"
  proof -
    have x1: "kmalloc (of_nat (length nm) + 1) s = Some (Inr (?a, s1))" using x(1) by (simp add: add.commute)
    show ?thesis
      unfolding read_entry_def un Let_def x1 bind_out_simps prod.case n1 m1_def [symmetric] n2
      unfolding m_def [symmetric] s3(1) bind_out_simps by (rule s4(1))
  qed
  moreover have "same_data C (kmem s) (kmem s4)"
  proof -
    have "same_data C m (kmem s3)" using same_data_mono [OF s3(5), of C] by auto
    moreover have "same_data C (kmem s3) (kmem s4)" by (rule same_data_mono [OF s4(3)]) (use s3(4) heap(2) in blast)
    ultimately show ?thesis using same_data_trans [OF km] same_data_trans by blast
  qed
  moreover have "node B' N' s4 f" if "f \<in> F'" for f
    by (rule node_keep [OF _ same_data_mono [OF s4(3)]]) (use s3(7) that fs_fields [OF m4] in auto)
  ultimately show ?thesis
    using s4(2) s3(3,4,9) budget_same_heap [OF s3(6) s4(4)] leaves_added_write [OF x(6) s3(8) m4] listing_more [OF m4, of N' dir]
    by (intro exI [of _ s4] exI [of _ B'] exI [of _ F'] exI [of _ N']) simp
qed

lemma held_le: "held B d n \<Longrightarrow> c \<le> n \<Longrightarrow> held B d c"
  unfolding held_def by (erule bexE) (rule bexI, auto)

lemma mem_list_drop: "mem_list m d xs \<Longrightarrow> mem_list m (d + of_nat k) (drop k xs)"
  unfolding mem_list_def
proof (intro allI impI)
  fix j
  assume h: "\<forall>j < length xs. m (d + of_nat j) = xs ! j" "j < length (drop k xs)"
  then have "k + j < length xs" by simp
  with h(1) have "m (d + of_nat (k + j)) = xs ! (k + j)" by blast
  with h(2) show "m (d + of_nat k + of_nat j) = drop k xs ! j" by (simp add: add.assoc)
qed

lemma leaves_added_leaf:
  "leaves_added dir F N s F' N' s' \<Longrightarrow> set (f_leaf s dir) \<subseteq> F \<Longrightarrow> dir \<in> F \<Longrightarrow> dir \<in> F' \<and> set (f_leaf s' dir) \<subseteq> F'"
  unfolding leaves_added_def by blast

lemma entries_loop_ok:
  fixes s :: "'a fs_state_scheme"
  assumes "kblocks s (E \<union> B)" "E \<inter> B = {}" "\<And>f. f \<in> F \<Longrightarrow> node B N s f" "dir \<in> F" "set (f_leaf s dir) \<subseteq> F"
    and "xs \<noteq> [] \<Longrightarrow> held (E \<union> B) d (length xs)" "mem_list (kmem s) d xs" "length xs < 2 ^ 32" "dir_wf xs"
    and "budget (3 * length (dir_list xs) + k) s"
  shows "\<exists>s' B' F' N'. entries_loop dir d (of_nat (length xs)) s = Some (Inr s') \<and> kblocks s' (E \<union> B') \<and> E \<inter> B' = {} \<and> B \<subseteq> B'
    \<and> same_data (E \<union> B) (kmem s) (kmem s') \<and> budget k s' \<and> (\<forall>f \<in> F'. node B' N' s' f)
    \<and> leaves_added dir F N s F' N' s' \<and> listing N' s' dir = fold add_name (dir_list xs) (listing N s dir)"
  using assms
proof (induction xs arbitrary: s B F N d rule: dir_wf.induct)
  case (1 xs)
  note wf = "1.prems"(9) [unfolded dir_wf.simps [of xs]]
  show ?case
  proof (cases "length xs < 8 \<or> word_at xs 0 = 0")
    case True
    then have "entries_loop dir d (of_nat (length xs)) s = Some (Inr s)"
    proof (cases "xs = []")
      case True
      then show ?thesis by (subst entries_loop.simps) simp
    next
      case False
      with True wf have "8 \<le> length xs" "word_at xs 0 = 0" by (auto split: if_splits)
      then have "d_inode (kmem s) d = 0" using mem_list_rd32 [OF "1.prems"(7), of 0] by (simp add: d_inode_def)
      then show ?thesis by (subst entries_loop.simps) simp
    qed
    moreover have "dir_list xs = []" using True by (subst dir_list.simps) auto
    moreover have "budget k s" by (rule budget_mono [OF "1.prems"(10)]) simp
    moreover have "same_data (E \<union> B) (kmem s) (kmem s)" by (simp add: same_data_def)
    ultimately show ?thesis using "1.prems"(1-3) leaves_added_refl [of s s dir F N]
      by (intro exI [of _ s] exI [of _ B] exI [of _ F] exI [of _ N]) simp
  next
    case False
    let ?l = "entry_len xs" and ?nm = "entry_name xs" and ?i = "word_at xs 0"
    have x: "xs \<noteq> []" "8 \<le> length xs" "?i \<noteq> 0" using False by auto
    with wf have w: "8 + unat (xs ! 6) \<le> ?l" "?l \<le> length xs" "0 \<notin> set ?nm" "dir_wf (drop ?l xs)"
      by (auto split: if_splits)
    have nm: "length ?nm = unat (xs ! 6)" using w(1,2) by (simp add: entry_name_def)
    have hd: "held (E \<union> B) d (length xs)" using "1.prems"(6) x(1) by simp
    have in_d: "d_inode (kmem s) d = ?i" using mem_list_rd32 [OF "1.prems"(7), of 0] x(2) by (simp add: d_inode_def)
    have len_d: "unat (name_len (kmem s) d) = length ?nm"
      using mem_list_nth [OF "1.prems"(7), of 6] x(2) nm by (simp add: name_len_def)
    have rec_d: "rec_len (kmem s) d = half_at xs 4"
      using mem_list_rd16 [OF "1.prems"(7), of 4] x(2) by (simp add: rec_len_def)
    have h1: "held (E \<union> B) d (8 + length ?nm)"
      by (rule held_le [OF hd]) (use w(1,2) nm in simp)
    have by1: "kmem s (d + 8 + of_nat j) = ?nm ! j" if "j < length ?nm" for j
    proof -
      have "8 + j < length xs" using that nm w(1,2) by simp
      from mem_list_nth [OF "1.prems"(7) this] that nm x(2) show ?thesis by (simp add: entry_name_def add.assoc nth_drop)
    qed
    have dl: "dir_list xs = (?nm, ?i) # dir_list (drop ?l xs)" using x w(1) by (subst dir_list.simps) auto
    have bud: "budget (3 + (3 * length (dir_list (drop ?l xs)) + k)) s" using "1.prems"(10) unfolding dl by (simp add: add.assoc)
    from read_entry_ok [OF "1.prems"(1) refl "1.prems"(2-5) h1 len_d by1 w(3) in_d bud]
    obtain s1 B1 F1 N1 where s1: "read_entry dir d s = Some (Inr s1)" "kblocks s1 (E \<union> B1)" "E \<inter> B1 = {}" "B \<subseteq> B1" "same_data (E \<union> B) (kmem s) (kmem s1)"
        "budget (3 * length (dir_list (drop ?l xs)) + k) s1" "\<forall>f \<in> F1. node B1 N1 s1 f" "leaves_added dir F N s F1 N1 s1"
        "listing N1 s1 dir = add_name (?nm, ?i) (listing N s dir)" by blast
    have EB: "E \<union> B \<subseteq> E \<union> B1" using s1(4) by blast
    note lf = leaves_added_leaf [OF s1(8) "1.prems"(5,4)]
    have ml: "mem_list (kmem s1) d xs" by (rule mem_list_keep [OF s1(5) hd "1.prems"(7)])
    have rl: "rec_len (kmem s1) d = half_at xs 4"
      using mem_list_rd16 [OF ml, of 4] x(2) by (simp add: rec_len_def)
    have uc: "(ucast (half_at xs 4) :: u32) = of_nat ?l" by (simp add: entry_len_def)
    have hr: "held (E \<union> B1) (d + of_nat ?l) (length (drop ?l xs))" if "drop ?l xs \<noteq> []"
      using held_at [OF held_mono [OF hd EB], of ?l "length (drop ?l xs)"] that by simp
    have sz: "of_nat (length xs) - of_nat ?l = (of_nat (length (drop ?l xs)) :: u32)" using w(2) by (simp add: of_nat_diff)
    have nz: "of_nat (length xs) \<noteq> (0 :: u32)"
    proof
      assume "of_nat (length xs) = (0 :: u32)"
      then have "unat (of_nat (length xs) :: u32) = 0" by simp
      with "1.prems"(8) x(1) show False by (simp add: unat_of_nat_u32)
    qed
    have ih: "\<exists>s' B' F' N'. entries_loop dir (d + of_nat ?l) (of_nat (length (drop ?l xs))) s1 = Some (Inr s') \<and> kblocks s' (E \<union> B') \<and> E \<inter> B' = {} \<and> B1 \<subseteq> B'
      \<and> same_data (E \<union> B1) (kmem s1) (kmem s') \<and> budget k s' \<and> (\<forall>f \<in> F'. node B' N' s' f)
      \<and> leaves_added dir F1 N1 s1 F' N' s' \<and> listing N' s' dir = fold add_name (dir_list (drop ?l xs)) (listing N1 s1 dir)"
    proof (rule "1.IH")
      show "mem_list (kmem s1) (d + of_nat ?l) (drop ?l xs)" by (rule mem_list_drop [OF ml])
    qed (use x w s1 lf hr "1.prems"(8) in auto)
    then obtain s2 B2 F2 N2 where s2: "entries_loop dir (d + of_nat ?l) (of_nat (length (drop ?l xs))) s1 = Some (Inr s2)"
      "kblocks s2 (E \<union> B2)" "E \<inter> B2 = {}" "B1 \<subseteq> B2" "same_data (E \<union> B1) (kmem s1) (kmem s2)" "budget k s2" "\<forall>f \<in> F2. node B2 N2 s2 f"
      "leaves_added dir F1 N1 s1 F2 N2 s2" "listing N2 s2 dir = fold add_name (dir_list (drop ?l xs)) (listing N1 s1 dir)" by blast
    have "entries_loop dir d (of_nat (length xs)) s = Some (Inr s2)"
      by (subst entries_loop.simps) (simp only: in_d x(3) nz s1(1) bind_out_simps rl uc sz s2(1) not_False_eq_True simp_thms if_True)
    moreover have "same_data (E \<union> B) (kmem s) (kmem s2)" by (rule same_data_trans [OF s1(5) same_data_mono [OF s2(5) EB]])
    moreover have "B \<subseteq> B2" using s1(4) s2(4) by (rule order_trans)
    ultimately show ?thesis
      using s2(2,3,6,7,9) s1(9) leaves_added_trans [OF s1(8) s2(8) "1.prems"(4)] unfolding dl
      by (intro exI [of _ s2] exI [of _ B2] exI [of _ F2] exI [of _ N2]) simp
  qed
qed

section \<open>The cache agrees with the disk\<close>

text \<open>The inodes \<open>I\<close> can be read, the directories among them are well formed, and what they name is in \<open>I\<close>.\<close>

definition vol_tree :: "(nat \<Rightarrow> u8) \<Rightarrow> nat \<Rightarrow> nat set \<Rightarrow> bool" where
  "vol_tree b lba I \<longleftrightarrow> volume b lba \<and> (\<forall>i \<in> I. vol_inode_ok b lba i \<and>
     (vol_is_dir b lba i \<longrightarrow> dir_wf (vol_file b lba i) \<and> length (vol_file b lba i) = unat (word_at (vol_inode b lba i) 4)
        \<and> (\<forall>e \<in> set (vol_dir b lba i). unat (snd e) \<in> I)))"

definition cached :: "(nat \<Rightarrow> u8) \<Rightarrow> nat \<Rightarrow> nat set \<Rightarrow> disk \<Rightarrow> (nat \<times> nat) set \<Rightarrow> u32 set \<Rightarrow> (u32 \<Rightarrow> u8 list) \<Rightarrow> 'a fs_state_scheme \<Rightarrow> u32 \<Rightarrow> bool" where
  "cached b lba I dk B F N s f \<longleftrightarrow> node B N s f \<and> f_disk s f = dk \<and> f_parent s f \<in> F \<and> unat (f_inum s f) \<in> I
     \<and> (\<forall>l \<in> set (f_leaf s f). l \<in> F \<and> f_parent s l = f)
     \<and> (f_inode s f \<noteq> 0 \<longrightarrow> held B (f_inode s f) 128 \<and> mem_list (kmem s) (f_inode s f) (vol_inode b lba (unat (f_inum s f))))
     \<and> (listing N s f = [] \<or> listing N s f = vol_dir b lba (unat (f_inum s f)))"

definition fs_ok :: "(nat \<Rightarrow> u8) \<Rightarrow> nat \<Rightarrow> nat set \<Rightarrow> disk \<Rightarrow> (nat \<times> nat) set \<Rightarrow> (nat \<times> nat) set \<Rightarrow> u32 set \<Rightarrow> (u32 \<Rightarrow> u8 list)
    \<Rightarrow> 'a fs_state_scheme \<Rightarrow> bool" where
  "fs_ok b lba I dk E B F N s \<longleftrightarrow> kblocks s (E \<union> B) \<and> E \<inter> B = {} \<and> loaded b lba dk B (kmem s)
     \<and> (\<forall>f \<in> F. cached b lba I dk B F N s f \<and> f_mmap s f = 0)"

text \<open>What the operations on the cache leave alone.\<close>

definition fs_more :: "(nat \<times> nat) set \<Rightarrow> u32 set \<Rightarrow> 'a fs_state_scheme \<Rightarrow> u32 set \<Rightarrow> 'a fs_state_scheme \<Rightarrow> bool" where
  "fs_more D F s F' s' \<longleftrightarrow> F \<subseteq> F' \<and> same_data D (kmem s) (kmem s')
     \<and> (\<forall>f \<in> F. f_inum s' f = f_inum s f \<and> f_parent s' f = f_parent s f \<and> (f_inode s f \<noteq> 0 \<longrightarrow> f_inode s' f = f_inode s f))
     \<and> fs_rest s' = fs_rest s"

lemma fs_more_trans:
  assumes "fs_more D F s F' s'" "fs_more D' F' s' F'' s''" "D \<subseteq> D'"
  shows "fs_more D F s F'' s''"
proof -
  note a = assms(1) [unfolded fs_more_def] and b = assms(2) [unfolded fs_more_def]
  have "same_data D (kmem s) (kmem s'')" using a b same_data_trans same_data_mono [OF _ assms(3)] by blast
  moreover have "f_inum s'' f = f_inum s f \<and> f_parent s'' f = f_parent s f \<and> (f_inode s f \<noteq> 0 \<longrightarrow> f_inode s'' f = f_inode s f)"
    if "f \<in> F" for f
    using that a b by (metis subsetD)
  ultimately show ?thesis unfolding fs_more_def using a b by auto
qed

lemma fs_more_mono: "fs_more D F s F' s' \<Longrightarrow> C \<subseteq> D \<Longrightarrow> fs_more C F s F' s'"
  unfolding fs_more_def by (blast intro: same_data_mono)

lemma fs_more_same: "kheap_state.more s' = kheap_state.more s \<Longrightarrow> same_data D (kmem s) (kmem s') \<Longrightarrow> fs_more D F s F (s' :: 'a fs_state_scheme)"
  using fs_fields [of s' s] fs_rest_more [of s' s] by (simp add: fs_more_def)

lemma cached_keep:
  assumes "cached b lba I dk B F N s f" "same_data B (kmem s) (kmem s')" "B \<subseteq> B'" "F \<subseteq> F'" "f \<in> F"
    and "\<And>g. g \<in> F \<Longrightarrow> N' g = N g \<and> f_disk s' g = f_disk s g \<and> f_parent s' g = f_parent s g \<and> f_inum s' g = f_inum s g \<and> f_name s' g = f_name s g"
    and "f_leaf s' f = f_leaf s f" "f_inode s' f = f_inode s f" "volume b lba"
  shows "cached b lba I dk B' F' N' s' f"
proof -
  note a = assms(1) [unfolded cached_def]
  have "node B' N' s' f" by (rule node_keep [OF _ assms(2,3)]) (use a assms(5,6) in auto)
  moreover have "mem_list (kmem s') (f_inode s f) (vol_inode b lba (unat (f_inum s f)))" if "f_inode s f \<noteq> 0"
    by (rule mem_list_keep [OF assms(2)]) (use a that held_le length_vol_inode [OF assms(9)] in auto)
  moreover have "listing N' s' f = listing N s f"
    unfolding listing_def assms(7) by (rule map_cong [OF refl]) (use a assms(6) in auto)
  ultimately show ?thesis unfolding cached_def
    using a assms(4,5,6) assms(7,8) held_mono [OF _ assms(3)] by auto
qed

lemma fs_okD:
  assumes "fs_ok b lba I dk E B F N s" "f \<in> F"
  shows "cached b lba I dk B F N s f" "f_mmap s f = 0" "node B N s f" "f_disk s f = dk" "unat (f_inum s f) \<in> I" "f_parent s f \<in> F"
    "set (f_leaf s f) \<subseteq> F"
  using assms unfolding fs_ok_def cached_def by auto

lemma load_inode_ok:
  fixes s :: "'a fs_state_scheme"
  assumes dsk: "mounted io img dk" "b = img (nat (d_device dk))" "vol_tree b lba I"
    and ok: "fs_ok b lba I dk E B F N s" "f \<in> F" and bud: "budget (2 + k) s"
  shows "\<exists>s' B'. load_inode io f s = Some (Inr s') \<and> fs_ok b lba I dk E B' F N s' \<and> B \<subseteq> B' \<and> f_inode s' f \<noteq> 0
    \<and> fs_more (E \<union> B) F s F s' \<and> budget k s'"
proof (cases "f_inode s f = 0")
  case False
  then have "load_inode io f s = Some (Inr s)" by (simp add: load_inode_def)
  moreover have "budget k s" by (rule budget_mono [OF bud]) simp
  moreover have "fs_more (E \<union> B) F s F s" by (rule fs_more_same) (simp_all add: same_data_def)
  ultimately show ?thesis using ok False by blast
next
  case True
  have v: "volume b lba" "vol_inode_ok b lba (unat (f_inum s f))" using dsk(3) fs_okD(5) [OF ok] by (simp_all add: vol_tree_def)
  have un: "of_nat (unat (f_inum s f)) = f_inum s f" by simp
  have h: "kblocks s (E \<union> B)" "E \<inter> B = {}" "loaded b lba dk B (kmem s)" using ok(1) by (simp_all add: fs_ok_def)
  have l: "loaded b lba dk (E \<union> B) (kmem s)" by (rule loaded_keep [OF _ h(3)]) (auto simp: same_data_def)
  from loaded_read_inode [OF dsk(1,2) h(1) l v bud] obtain x s1 where
    x: "ext2_read_inode io dk (f_inum s f) s = Some (Inr (of_nat (fst x), s1))" "kblocks s1 (insert x (E \<union> B))" "x \<notin> E \<union> B"
      "held {x} (of_nat (fst x)) 128" "mem_list (kmem s1) (of_nat (fst x)) (vol_inode b lba (unat (f_inum s f)))"
      "same_data (E \<union> B) (kmem s) (kmem s1)" "kheap_state.more s1 = kheap_state.more s" "budget k s1" unfolding un by blast
  let ?p = "of_nat (fst x) :: u32"
  define s' where "s' = s1\<lparr>f_inode := (f_inode s1)(f := ?p)\<rparr>"
  note ff = fs_fields [OF x(7)]
  have run: "load_inode io f s = Some (Inr s')"
    unfolding load_inode_def using True fs_okD(4) [OF ok] x(1) by (simp add: s'_def)
  have sd: "same_data B (kmem s) (kmem s')" using same_data_mono [OF x(6)] by (simp add: s'_def)
  have hx: "held (insert x B) ?p 128" by (rule held_mono [OF x(4)]) simp
  have nz: "?p \<noteq> 0"
    using held_new(2) [OF x(2), of x 0] kblocks_bounds(1) [OF x(2), of "fst x" "snd x"] by auto
  have "cached b lba I dk (insert x B) F N s' g" if g: "g \<in> F" for g
  proof (cases "g = f")
    case False
    show ?thesis
      by (rule cached_keep [OF fs_okD(1) [OF ok(1) g] sd]) (use g False ff v(1) in \<open>auto simp: s'_def\<close>)
  next
    case True
    have "cached b lba I dk (insert x B) F N (s'\<lparr>f_inode := (f_inode s')(f := 0)\<rparr>) g"
      by (rule cached_keep [OF fs_okD(1) [OF ok(1) g]]) (use g True \<open>f_inode s f = 0\<close> ff v(1) sd in \<open>auto simp: s'_def\<close>)
    then show ?thesis using True hx x(5) ff by (simp add: cached_def s'_def node_def listing_def)
  qed
  moreover have "loaded b lba dk (insert x B) (kmem s')" by (rule loaded_keep [OF sd h(3)]) blast
  moreover have "f_mmap s' g = 0" if "g \<in> F" for g using fs_okD(2) [OF ok(1) that] ff by (simp add: s'_def)
  moreover have "kblocks s' (E \<union> insert x B)"
    using kblocks_fields [OF x(2), of s'] by (simp add: s'_def)
  ultimately have "fs_ok b lba I dk E (insert x B) F N s'" unfolding fs_ok_def using h(2) x(3) by auto
  moreover have "fs_more (E \<union> B) F s F s'" unfolding fs_more_def using x(6) True ff fs_rest_more [OF x(7)] by (simp add: s'_def)
  moreover have "budget k s'" using x(8) by (simp add: s'_def budget_def frames.free_frames_def frame_used_def)
  moreover have "f_inode s' f \<noteq> 0" using nz by (simp add: s'_def)
  ultimately show ?thesis using run by blast
qed

lemma is_directory_ok:
  assumes "vol_tree b lba I" "fs_ok b lba I dk E B F N s" "f \<in> F" "f_inode s f \<noteq> 0"
  shows "is_directory io f s = Some (Inr (vol_is_dir b lba (unat (f_inum s f)), s))"
    "i_size (kmem s) (f_inode s f) = word_at (vol_inode b lba (unat (f_inum s f))) 4"
proof -
  let ?v = "vol_inode b lba (unat (f_inum s f))"
  have m: "mem_list (kmem s) (f_inode s f) ?v" using fs_okD(1) [OF assms(2,3)] assms(4) by (simp add: cached_def)
  have l: "100 \<le> length ?v" using length_vol_inode assms(1) by (simp add: vol_tree_def)
  show "i_size (kmem s) (f_inode s f) = word_at ?v 4" using mem_list_rd32 [OF m, of 4] l by (simp add: i_size_def)
  have "i_mode (kmem s) (f_inode s f) = half_at ?v 0" using mem_list_rd16 [OF m, of 0] l by (simp add: i_mode_def)
  then show "is_directory io f s = Some (Inr (vol_is_dir b lba (unat (f_inum s f)), s))"
    using assms(4) by (simp add: is_directory_def load_inode_def vol_is_dir_def)
qed

text \<open>The pages for the entries of a directory.\<close>

definition dir_pages :: "(nat \<Rightarrow> u8) \<Rightarrow> nat \<Rightarrow> nat \<Rightarrow> nat" where
  "dir_pages b lba i = vol_read_pages b lba i + 3 * length (dir_list (vol_file b lba i))"

text \<open>What reading the entries gives: the nodes of before, and the leaves of \<open>f\<close>.\<close>

lemma entries_fs_ok:
  fixes s s' :: "'a fs_state_scheme"
  assumes vt: "vol_tree b lba I" and ok: "fs_ok b lba I dk E B F N s" "f \<in> F" "f_inode s f \<noteq> 0" "vol_is_dir b lba (unat (f_inum s f))"
    and new: "leaves_added f F N (s\<lparr>f_mmap := mp\<rparr>) F' N' (s'\<lparr>f_mmap := mp'\<rparr>)" "f_mmap s' = mp'(f := 0)" "mp = (f_mmap s)(f := p)"
    and heap: "kblocks s' (E \<union> B')" "E \<inter> B' = {}" "B \<subseteq> B'" "same_data (E \<union> B) (kmem s) (kmem s')"
    and nodes: "\<forall>g \<in> F'. node B' N' s' g"
    and con: "listing N' s' f = fold add_name (dir_list (vol_file b lba (unat (f_inum s f)))) (listing N s f)"
  shows "fs_ok b lba I dk E B' F' N' s' \<and> fs_more (E \<union> B) F s F' s' \<and> listing N' s' f = vol_dir b lba (unat (f_inum s f))"
proof -
  let ?i = "unat (f_inum s f)"
  note la = new(1) [unfolded leaves_added_def, simplified]
  have v: "volume b lba" using vt by (simp add: vol_tree_def)
  have sd: "same_data B (kmem s) (kmem s')" by (rule same_data_mono [OF heap(4)]) blast
  have c: "listing N' s' f = vol_dir b lba ?i"
    using fs_okD(1) [OF ok(1,2)] con add_name_again by (auto simp: cached_def vol_dir_def)
  have old: "N' g = N g \<and> f_inum s' g = f_inum s g \<and> f_inode s' g = f_inode s g \<and> f_parent s' g = f_parent s g
      \<and> f_disk s' g = f_disk s g \<and> f_name s' g = f_name s g \<and> (g \<noteq> f \<longrightarrow> f_leaf s' g = f_leaf s g)" if "g \<in> F" for g
    using la that by blast
  have mm: "f_mmap s' g = 0" if "g \<in> F'" for g
  proof (cases "g \<in> F")
    case True
    then have "mp' g = mp g" using la by blast
    with True fs_okD(2) [OF ok(1)] show ?thesis unfolding new(2,3) by simp
  next
    case False
    with la that have "mp' g = 0" by blast
    then show ?thesis by (simp add: new(2))
  qed
  have "cached b lba I dk B' F' N' s' g" if g: "g \<in> F'" for g
  proof -
    consider "g \<in> F" "g \<noteq> f" | "g = f" | "g \<in> F' - F" using g by blast
    then show ?thesis
    proof cases
      case 1
      show ?thesis
        by (rule cached_keep [OF fs_okD(1) [OF ok(1) 1(1)] sd heap(3)]) (use la old 1 v in auto)
    next
      case 2
      note o' = fs_okD(1) [OF ok(1,2), unfolded cached_def]
      have "mem_list (kmem s') (f_inode s f) (vol_inode b lba ?i)"
        by (rule mem_list_keep [OF sd]) (use o' ok(3) held_le length_vol_inode [OF v] in auto)
      moreover have "held B' (f_inode s f) 128" using o' ok(3) held_mono [OF _ heap(3)] by blast
      moreover have "l \<in> F' \<and> f_parent s' l = f" if l: "l \<in> set (f_leaf s' f)" for l
      proof (cases "l \<in> F")
        case True
        with l la have "l \<in> set (f_leaf s f)" by blast
        with o' old True la show ?thesis by auto
      next
        case False
        with l la o' have "l \<in> F' - F" by blast
        with la show ?thesis by blast
      qed
      ultimately show ?thesis unfolding 2 cached_def using nodes g old [OF ok(2)] o' c la ok(2) by auto
    next
      case 3
      with la have l: "f_inode s' g = 0" "f_parent s' g = f" "f_disk s' g = f_disk s f" "f_leaf s' g = []" "g \<in> set (f_leaf s' f)"
        by blast+
      have "(N' g, f_inum s' g) \<in> set (vol_dir b lba ?i)" unfolding c [symmetric] listing_def using l(5) by auto
      with vt ok(4) fs_okD(5) [OF ok(1,2)] have "unat (f_inum s' g) \<in> I" unfolding vol_tree_def by fastforce
      then show ?thesis unfolding cached_def using l nodes g fs_okD(4) [OF ok(1,2)] la ok(2) by (auto simp: listing_def)
    qed
  qed
  moreover have "loaded b lba dk B' (kmem s')" by (rule loaded_keep [OF sd _ heap(3)]) (use ok(1) in \<open>simp add: fs_ok_def\<close>)
  ultimately have "fs_ok b lba I dk E B' F' N' s'" using heap(1,2) mm unfolding fs_ok_def by blast
  moreover have "fs_more (E \<union> B) F s F' s'" unfolding fs_more_def using heap(4) la old by auto
  ultimately show ?thesis using c by blast
qed

lemma dir_file_ok:
  assumes "vol_tree b lba I" "i \<in> I" "vol_is_dir b lba i"
  shows "dir_wf (vol_file b lba i)" "of_nat (length (vol_file b lba i)) = word_at (vol_inode b lba i) 4"
    "length (vol_file b lba i) < 2 ^ 32"
proof -
  have l: "length (vol_file b lba i) = unat (word_at (vol_inode b lba i) 4)" and "dir_wf (vol_file b lba i)"
    using assms unfolding vol_tree_def by blast+
  then show "dir_wf (vol_file b lba i)" by simp
  show "of_nat (length (vol_file b lba i)) = word_at (vol_inode b lba i) 4" unfolding l by simp
  show "length (vol_file b lba i) < 2 ^ 32" unfolding l
    using unsigned_less [of "word_at (vol_inode b lba i) 4", where ?'a = nat] by simp
qed

lemma get_dir_entries_ok:
  fixes s :: "'a fs_state_scheme"
  assumes dsk: "mounted io img dk" "b = img (nat (d_device dk))" "vol_tree b lba I"
    and ok: "fs_ok b lba I dk E B F N s" "f \<in> F" "f_inode s f \<noteq> 0" "vol_is_dir b lba (unat (f_inum s f))"
    and bud: "budget (dir_pages b lba (unat (f_inum s f)) + k) s"
  shows "\<exists>s' B' F' N'. get_dir_entries io f s = Some (Inr (0, s')) \<and> fs_ok b lba I dk E B' F' N' s' \<and> B \<subseteq> B'
    \<and> fs_more (E \<union> B) F s F' s' \<and> listing N' s' f = vol_dir b lba (unat (f_inum s f)) \<and> budget k s'"
proof -
  let ?i = "unat (f_inum s f)" let ?xs = "vol_file b lba ?i"
  have v: "volume b lba" "vol_inode_ok b lba ?i" using dsk(3) fs_okD(5) [OF ok(1,2)] by (simp_all add: vol_tree_def)
  note c = fs_okD [OF ok(1,2)] and df = dir_file_ok [OF dsk(3) fs_okD(5) [OF ok(1,2)] ok(4)]
  have h: "kblocks s (E \<union> B)" "E \<inter> B = {}" "loaded b lba dk B (kmem s)" using ok(1) by (simp_all add: fs_ok_def)
  have l: "loaded b lba dk (E \<union> B) (kmem s)" by (rule loaded_keep [OF _ h(3)]) (auto simp: same_data_def)
  have ino: "held (E \<union> B) (f_inode s f) 128" "mem_list (kmem s) (f_inode s f) (vol_inode b lba ?i)"
    using c(1) ok(3) held_mono by (auto simp: cached_def)
  have bud': "budget (vol_read_pages b lba ?i + (3 * length (dir_list ?xs) + k)) s" using bud by (simp add: dir_pages_def add.assoc)
  from loaded_read_file [OF dsk(1,2) h(1) l v ino bud'] obtain y s3 where
    y: "ext2_read_file io dk (f_inode s f) s = Some (Inr (of_nat (fst y), s3))" "kblocks s3 (insert y (E \<union> B))" "y \<notin> E \<union> B"
      "unat (word_at (vol_inode b lba ?i) 4) \<le> snd y" "mem_list (kmem s3) (of_nat (fst y)) ?xs" "same_data (E \<union> B) (kmem s) (kmem s3)"
      "kheap_state.more s3 = kheap_state.more s" "budget (3 * length (dir_list ?xs) + k) s3" by blast
  let ?p = "of_nat (fst y) :: u32" and ?E = "insert y E"
  note ff = fs_fields [OF y(7)]
  have sz: "i_size (kmem s3) (f_inode s3 f) = of_nat (length ?xs)"
  proof -
    have "mem_list (kmem s3) (f_inode s f) (vol_inode b lba ?i)"
      by (rule mem_list_keep [OF y(6) _ ino(2)]) (use ino(1) held_le length_vol_inode [OF v(1)] in auto)
    from mem_list_rd32 [OF this, of 4] show ?thesis using length_vol_inode [OF v(1), of ?i] df(2) ff by (simp add: i_size_def)
  qed
  define s3' where "s3' = s3\<lparr>f_mmap := (f_mmap s3)(f := ?p)\<rparr>"
  have k3: "kblocks s3' (?E \<union> B)" using kblocks_fields [OF y(2), of s3'] by (simp add: s3'_def)
  have dj: "?E \<inter> B = {}" using y(3) h(2) by auto
  have sd3: "same_data (E \<union> B) (kmem s) (kmem s3')" using y(6) by (simp add: s3'_def)
  have n3: "node B N s3' g" if "g \<in> F" for g
    by (rule node_keep [OF fs_okD(3) [OF ok(1) that] same_data_mono [OF sd3]]) (use ff in \<open>auto simp: s3'_def\<close>)
  have lf: "set (f_leaf s3' f) \<subseteq> F" using c(7) ff by (simp add: s3'_def)
  have hp: "held (?E \<union> B) ?p (length ?xs)"
    using held_new(1) [OF y(2), of y "length ?xs"] y(4) df(3) df(2) [symmetric] by (simp add: unat_of_nat_u32)
  have m3: "mem_list (kmem s3') ?p ?xs" using y(5) by (simp add: s3'_def)
  have b3: "budget (3 * length (dir_list ?xs) + k) s3'" using y(8) by (simp add: s3'_def budget_def frames.free_frames_def frame_used_def)
  from entries_loop_ok [OF k3 dj n3 ok(2) lf hp m3 df(3,1) b3] obtain s4 B4 F4 N4 where
    s4: "entries_loop f ?p (of_nat (length ?xs)) s3' = Some (Inr s4)" "kblocks s4 (?E \<union> B4)" "?E \<inter> B4 = {}" "B \<subseteq> B4"
      "same_data (?E \<union> B) (kmem s3') (kmem s4)" "budget k s4" "\<forall>g \<in> F4. node B4 N4 s4 g" "leaves_added f F N s3' F4 N4 s4"
      "listing N4 s4 f = fold add_name (dir_list ?xs) (listing N s3' f)" by blast
  have mm: "f_mmap s4 f = ?p" using s4(8) ok(2) unfolding leaves_added_def by (simp add: s3'_def)
  have "kblocks s4 (insert y (E \<union> B4))" "y \<notin> E \<union> B4" using s4(2,3) y(3) by auto
  from kfree_block [OF this] obtain s5 where
    s5: "kfree ?p s4 = Some (Inr s5)" "kblocks s5 (E \<union> B4)" "same_data (E \<union> B4) (kmem s4) (kmem s5)" "\<exists>m u. s5 = s4\<lparr>kmem := m, kmalloc_used := u\<rparr>" by blast
  have m5: "kheap_state.more s5 = kheap_state.more s4" using s5(4) by auto
  note f5 = fs_fields [OF m5]
  define s' where "s' = s5\<lparr>f_mmap := (f_mmap s5)(f := 0)\<rparr>"
  have "get_dir_entries io f s = Some (Inr (0, s'))"
    unfolding get_dir_entries_def using ok(3,4) c(2,4) y(1) is_directory_ok(1) [OF dsk(3) ok(1-3)] sz s4(1) mm s5(1)
    by (simp add: load_inode_def s3'_def s'_def)
  moreover have "budget k s'" using budget_same_heap [OF s4(6) s5(4)] by (simp add: s'_def budget_def frames.free_frames_def frame_used_def)
  moreover have "fs_ok b lba I dk E B4 F4 N4 s' \<and> fs_more (E \<union> B) F s F4 s' \<and> listing N4 s' f = vol_dir b lba ?i"
  proof (rule entries_fs_ok [OF dsk(3) ok, where mp = "(f_mmap s)(f := ?p)" and mp' = "f_mmap s4" and p = ?p])
    show "leaves_added f F N (s\<lparr>f_mmap := (f_mmap s)(f := ?p)\<rparr>) F4 N4 (s'\<lparr>f_mmap := f_mmap s4\<rparr>)"
      using s4(8) ff f5 fs_rest_more [OF m5] fs_rest_more [OF y(7)] unfolding leaves_added_def by (simp add: s'_def s3'_def)
    show "kblocks s' (E \<union> B4)" using kblocks_fields [OF s5(2), of s'] by (simp add: s'_def)
    show "same_data (E \<union> B) (kmem s) (kmem s')"
    proof -
      have "same_data (E \<union> B) (kmem s3') (kmem s4)" by (rule same_data_mono [OF s4(5)]) blast
      moreover have "same_data (E \<union> B) (kmem s4) (kmem s5)" by (rule same_data_mono [OF s5(3)]) (use s4(4) in blast)
      ultimately have "same_data (E \<union> B) (kmem s) (kmem s5)" using sd3 same_data_trans by blast
      then show ?thesis by (simp add: s'_def)
    qed
    show "\<forall>g \<in> F4. node B4 N4 s' g"
    proof
      fix g assume "g \<in> F4"
      then show "node B4 N4 s' g"
        using node_keep [OF bspec [OF s4(7)], of g s' B4 N4] same_data_mono [OF s5(3), of B4] f5 by (simp add: s'_def)
    qed
    have "listing N4 s' f = listing N4 s4 f" using f5 by (simp add: listing_def s'_def)
    moreover have "listing N s3' f = listing N s f" using ff by (simp add: listing_def s3'_def)
    ultimately show "listing N4 s' f = fold add_name (dir_list ?xs) (listing N s f)" using s4(9) by simp
  qed (use s4(3,4) f5 in \<open>auto simp: s'_def\<close>)
  ultimately show ?thesis using s4(4) by blast
qed

section \<open>Paths on the disk\<close>

text \<open>A step from a directory, with the stack of the directories that lead to it: \<open>..\<close> goes back, and stays at the root.\<close>

definition vol_step :: "(nat \<Rightarrow> u8) \<Rightarrow> nat \<Rightarrow> u8 list \<Rightarrow> nat list \<Rightarrow> nat list option" where
  "vol_step b lba n st =
     (if \<not> vol_is_dir b lba (hd st) then None
      else if n = [46, 46] then Some (if tl st = [] then st else tl st)
      else if n = [46] then Some st
      else map_option (\<lambda>j. unat j # st) (map_of (vol_dir b lba (hd st)) n))"

primrec vol_path :: "(nat \<Rightarrow> u8) \<Rightarrow> nat \<Rightarrow> u8 list list \<Rightarrow> nat list \<Rightarrow> nat list option" where
  "vol_path b lba [] st = Some st"
| "vol_path b lba (n # ns) st = Option.bind (vol_step b lba n st) (vol_path b lba ns)"

text \<open>The stack of a file in memory.\<close>

fun chain :: "'a fs_state_scheme \<Rightarrow> u32 \<Rightarrow> nat list \<Rightarrow> bool" where
  "chain s f [] \<longleftrightarrow> False"
| "chain s f [i] \<longleftrightarrow> unat (f_inum s f) = i \<and> f_parent s f = f"
| "chain s f (i # j # st) \<longleftrightarrow> unat (f_inum s f) = i \<and> chain s (f_parent s f) (j # st)"

text \<open>The pages of heap that a path takes at most.\<close>

primrec path_pages :: "(nat \<Rightarrow> u8) \<Rightarrow> nat \<Rightarrow> u8 list list \<Rightarrow> nat list \<Rightarrow> nat" where
  "path_pages b lba [] st = 0"
| "path_pages b lba (n # ns) st = 2 + (pages_of (of_nat (length n + 1)) + (dir_pages b lba (hd st)
     + (case vol_step b lba n st of None \<Rightarrow> 0 | Some st' \<Rightarrow> path_pages b lba ns st')))"

lemma chain_hd: "chain s f st \<Longrightarrow> st \<noteq> [] \<and> hd st = unat (f_inum s f)"
  by (cases "(s, f, st)" rule: chain.cases) auto

lemma chain_keep:
  assumes "fs_ok b lba I dk E B F N s" "fs_more D F s F' s'"
  shows "f \<in> F \<Longrightarrow> chain s f st \<Longrightarrow> chain s' f st"
proof (induction st arbitrary: f)
  case (Cons i st)
  have e: "f_inum s' f = f_inum s f" "f_parent s' f = f_parent s f" using assms(2) Cons.prems(1) by (simp_all add: fs_more_def)
  show ?case
  proof (cases st)
    case Nil
    with Cons.prems(2) e show ?thesis by simp
  next
    case (Cons j st')
    with Cons.prems(2) e Cons.IH [OF fs_okD(6) [OF assms(1) Cons.prems(1)]] show ?thesis by simp
  qed
qed simp

lemma fs_ok_same:
  assumes "fs_ok b lba I dk E B F N s" "kblocks s' (E' \<union> B)" "E' \<inter> B = {}" "same_data B (kmem s) (kmem s')"
    "kheap_state.more s' = kheap_state.more s" "volume b lba"
  shows "fs_ok b lba I dk E' B F N (s' :: 'a fs_state_scheme)"
proof -
  note ff = fs_fields [OF assms(5)]
  have "cached b lba I dk B F N s' g" if "g \<in> F" for g
    by (rule cached_keep [OF fs_okD(1) [OF assms(1) that] assms(4)]) (use that ff assms(6) in auto)
  moreover have "loaded b lba dk B (kmem s')" by (rule loaded_keep [OF assms(4)]) (use assms(1) in \<open>simp_all add: fs_ok_def\<close>)
  ultimately show ?thesis using assms(2,3) fs_okD(2) [OF assms(1)] ff by (simp add: fs_ok_def)
qed

lemma visit_ok:
  fixes s :: "'a fs_state_scheme"
  assumes dsk: "mounted io img dk" "b = img (nat (d_device dk))" "vol_tree b lba I"
    and ok: "fs_ok b lba I dk E B F N s" "f \<in> F" "f_inode s f \<noteq> 0" "vol_is_dir b lba (unat (f_inum s f))"
    and nm: "held E a (length n + 1)" "cstr (kmem s) a n" and st: "chain s f st"
    and bud: "budget (dir_pages b lba (unat (f_inum s f)) + k) s"
  shows "\<exists>v s' B' F' N'. visit io f a s = Some (Inr (v, s')) \<and> fs_ok b lba I dk E B' F' N' s' \<and> B \<subseteq> B'
    \<and> fs_more (E \<union> B) F s F' s' \<and> budget k s'
    \<and> (case vol_step b lba n st of None \<Rightarrow> v = None | Some st' \<Rightarrow> \<exists>g. v = Some g \<and> g \<in> F' \<and> chain s' g st')"
proof -
  note hd = chain_hd [OF st]
  have e: "eq_lit [46, 46] (kmem s) a \<longleftrightarrow> n = [46, 46]" "eq_lit [46] (kmem s) a \<longleftrightarrow> n = [46]"
    using eq_lit_cstr [OF nm(2), of "[46]"] eq_lit_cstr [OF nm(2), of "[46, 46]"] by simp_all
  have same: "fs_more (E \<union> B) F s F s" by (rule fs_more_same) (simp_all add: same_data_def)
  have bk: "budget k s" by (rule budget_mono [OF bud]) simp
  consider "n = [46, 46]" | "n = [46]" | "n \<noteq> [46, 46]" "n \<noteq> [46]" by blast
  then show ?thesis
  proof cases
    case 1
    have v: "vol_step b lba n st = Some (if tl st = [] then st else tl st)" using 1 ok(4) hd by (simp add: vol_step_def)
    have "chain s (f_parent s f) (if tl st = [] then st else tl st)" using st by (cases "(s, f, st)" rule: chain.cases) auto
    moreover have "visit io f a s = Some (Inr (Some (f_parent s f), s))" unfolding visit_def e using 1 by simp
    moreover have "f_parent s f \<in> F" by (rule fs_okD(6) [OF ok(1,2)])
    ultimately show ?thesis unfolding v using ok(1) same bk by (intro exI conjI) auto
  next
    case 2
    then have "visit io f a s = Some (Inr (Some f, s))" "vol_step b lba n st = Some st"
      unfolding visit_def e using ok(4) hd by (simp_all add: vol_step_def)
    then show ?thesis using ok(1,2) same bk st by (intro exI conjI) auto
  next
    case 3
    from get_dir_entries_ok [OF dsk ok bud] obtain s' B' F' N' where
      g: "get_dir_entries io f s = Some (Inr (0, s'))" "fs_ok b lba I dk E B' F' N' s'" "B \<subseteq> B'"
        "fs_more (E \<union> B) F s F' s'" "listing N' s' f = vol_dir b lba (unat (f_inum s f))" "budget k s'" by blast
    have f: "f \<in> F'" using g(4) ok(2) by (auto simp: fs_more_def)
    have "same_data (E \<union> B) (kmem s) (kmem s')" using g(4) by (simp add: fs_more_def)
    from held_cstr [OF this held_mono [OF nm(1)]] nm(2) have c: "cstr (kmem s') a n" by auto
    have cl: "is_cached_leaf f a s' = Some (case find (\<lambda>l. N' l = n) (f_leaf s' f) of None \<Rightarrow> 0 | Some l \<Rightarrow> l)"
      by (rule cached_leaf [OF _ c]) (use fs_okD(3) [OF g(2)] fs_okD(7) [OF g(2) f] in blast)
    have st': "chain s' f st" by (rule chain_keep [OF ok(1) g(4) ok(2) st])
    show ?thesis
    proof (cases "find (\<lambda>l. N' l = n) (f_leaf s' f)")
      case None
      then have "n \<notin> fst ` set (vol_dir b lba (unat (f_inum s f)))" using find_listing(1) [of N' n s' f] g(5) by simp
      then have "vol_step b lba n st = None" using 3 hd by (auto simp: vol_step_def map_of_eq_None_iff)
      moreover have "visit io f a s = Some (Inr (None, s'))" unfolding visit_def e using 3 g(1) cl None by simp
      ultimately show ?thesis using g by (intro exI conjI) auto
    next
      case (Some l)
      note fl = find_listing(2) [OF Some, unfolded g(5)]
      have l: "l \<in> F'" "f_parent s' l = f" using fs_okD(1) [OF g(2) f] fl by (auto simp: cached_def)
      have "l \<noteq> 0"
      proof
        assume z: "l = 0"
        have "node B' N' s' l" by (rule fs_okD(3) [OF g(2) l(1)])
        then obtain m where "(unat l, m) \<in> E \<union> B'" by (auto simp: node_def blk_def)
        moreover have "kblocks s' (E \<union> B')" using g(2) by (simp add: fs_ok_def)
        ultimately show False using kblocks_bounds(1) z by fastforce
      qed
      then have "visit io f a s = Some (Inr (Some l, s'))" unfolding visit_def e using 3 g(1) cl Some by simp
      moreover have "vol_step b lba n st = Some (unat (f_inum s' l) # st)" using 3 hd fl ok(4) by (simp add: vol_step_def)
      moreover have "chain s' l (unat (f_inum s' l) # st)" using st' l(2) hd by (cases st) auto
      ultimately show ?thesis using g l(1) by (intro exI conjI) auto
    qed
  qed
qed

lemma name_block:
  assumes "kblocks s (insert x D)" "x \<notin> D" "length n + 1 \<le> snd x" "0 \<notin> set n"
  defines "s' \<equiv> s\<lparr>kmem := wr_bytes (kmem s) (of_nat (fst x)) (n @ [0])\<rparr>"
  shows "kblocks s' (insert x D)" "same_data D (kmem s) (kmem s')" "cstr (kmem s') (of_nat (fst x)) n"
proof -
  have u: "unat (of_nat (fst x) :: u32) = fst x" and b: "fst x + snd x \<le> 0x40000000"
    using held_new(2) [OF assms(1), of x 0] kblocks_bounds(2) [OF assms(1), of "fst x" "snd x"] by simp_all
  have l: "length (n @ [0]) < 2 ^ 32" using b assms(3) by simp
  have "agree_outside (fst x) (fst x + snd x) (kmem s) (kmem s')"
    by (rule agree_outside_block [where b = "of_nat (fst x)" and c = "length (n @ [0])"])
      (use u b assms(3) in \<open>simp_all add: s'_def wr_bytes_outside\<close>)
  from write_block [OF assms(1,2) this] show "kblocks s' (insert x D)" "same_data D (kmem s) (kmem s')" by (simp_all add: s'_def)
  show "cstr (kmem s') (of_nat (fst x)) n"
  proof (rule cstrI)
    fix i assume i: "i < length n"
    then have "kmem s' (of_nat (fst x) + of_nat i) = (n @ [0]) ! i" unfolding s'_def by (simp add: wr_bytes_nth l [simplified])
    then show "kmem s' (of_nat (fst x) + of_nat i) = n ! i \<and> n ! i \<noteq> 0" using i assms(4) by (auto simp: nth_append in_set_conv_nth)
  next
    have "kmem s' (of_nat (fst x) + of_nat (length n)) = (n @ [0]) ! length n" unfolding s'_def
      using wr_bytes_nth [of "n @ [0]" "length n"] l by simp
    then show "kmem s' (of_nat (fst x) + of_nat (length n)) = 0" by simp
  qed
qed

lemma walk_names_ok:
  fixes s :: "'a fs_state_scheme"
  assumes dsk: "mounted io img dk" "b = img (nat (d_device dk))" "vol_tree b lba I"
  shows "fs_ok b lba I dk E B F N s \<Longrightarrow> f \<in> F \<Longrightarrow> chain s f st \<Longrightarrow> \<forall>n \<in> set ns. 0 \<notin> set n \<and> length n + 1 < 2 ^ 32
    \<Longrightarrow> budget (path_pages b lba ns st + k) s
    \<Longrightarrow> \<exists>g s' B' F' N'. walk_names io ns f s = Some (Inr (g, s')) \<and> fs_ok b lba I dk E B' F' N' s' \<and> B \<subseteq> B'
    \<and> fs_more (E \<union> B) F s F' s' \<and> budget k s'
    \<and> (case vol_path b lba ns st of None \<Rightarrow> g = 0 | Some st' \<Rightarrow> g \<in> F' \<and> chain s' g st')"
proof (induction ns arbitrary: f s B F N st)
  case Nil
  have "fs_more (E \<union> B) F s F s" by (rule fs_more_same) (simp_all add: same_data_def)
  then show ?case using Nil by (intro exI conjI) auto
next
  case (Cons n ns)
  let ?i = "unat (f_inum s f)"
  have v: "volume b lba" using dsk(3) by (simp add: vol_tree_def)
  note hd = chain_hd [OF Cons.prems(3)]
  let ?rest = "case vol_step b lba n st of None \<Rightarrow> 0 | Some st' \<Rightarrow> path_pages b lba ns st'"
  have b1: "budget (2 + (pages_of (of_nat (length n + 1)) + (dir_pages b lba ?i + (?rest + k)))) s"
    using Cons.prems(5) hd by (simp add: add.assoc)
  from load_inode_ok [OF dsk Cons.prems(1,2) b1] obtain s1 B1 where
    s1: "load_inode io f s = Some (Inr s1)" "fs_ok b lba I dk E B1 F N s1" "B \<subseteq> B1" "f_inode s1 f \<noteq> 0" "fs_more (E \<union> B) F s F s1"
      "budget (pages_of (of_nat (length n + 1)) + (dir_pages b lba ?i + (?rest + k))) s1" by blast
  have i1: "f_inum s1 f = f_inum s f" using s1(5) Cons.prems(2) by (simp add: fs_more_def)
  note isd = is_directory_ok(1) [OF dsk(3) s1(2) Cons.prems(2) s1(4), of io, unfolded i1]
  show ?case
  proof (cases "vol_is_dir b lba ?i")
    case False
    then have "walk_names io (n # ns) f s = Some (Inr (0, s1))" by (simp add: s1(1) isd)
    moreover have "vol_path b lba (n # ns) st = None" using False hd by (simp add: vol_step_def)
    moreover have "budget k s1" by (rule budget_mono [OF s1(6)]) simp
    ultimately show ?thesis using s1(2,3,5) by (intro exI conjI) auto
  next
    case True
    have "length n + 1 < 2 ^ 32" using Cons.prems(4) by simp
    from unat_of_nat_u32 [OF this] have n: "0 \<notin> set n" "unat (of_nat (length n + 1) :: u32) = length n + 1"
      using Cons.prems(4) by simp_all
    have h1: "kblocks s1 (E \<union> B1)" "E \<inter> B1 = {}" using s1(2) by (simp_all add: fs_ok_def)
    from kmalloc_next [OF h1(1) s1(6)] obtain x s2 where
      x: "kmalloc (of_nat (length n + 1)) s1 = Some (Inr (of_nat (fst x), s2))" "kblocks s2 (insert x (E \<union> B1))" "x \<notin> E \<union> B1"
        "length n + 1 \<le> snd x" "same_data (E \<union> B1) (kmem s1) (kmem s2)" "kheap_state.more s2 = kheap_state.more s1"
        "budget (dir_pages b lba ?i + (?rest + k)) s2" unfolding n(2) by blast
    let ?a = "of_nat (fst x) :: u32" and ?E = "insert x E"
    define s3 where "s3 = s2\<lparr>kmem := wr_bytes (kmem s2) ?a (n @ [0])\<rparr>"
    note nb = name_block [OF x(2-4) n(1), folded s3_def]
    have m3: "kheap_state.more s3 = kheap_state.more s1" using x(6) by (simp add: s3_def)
    have sd3: "same_data (E \<union> B1) (kmem s1) (kmem s3)" by (rule same_data_trans [OF x(5) nb(2)])
    have ok3: "fs_ok b lba I dk ?E B1 F N s3"
      by (rule fs_ok_same [OF s1(2) _ _ same_data_mono [OF sd3] m3 v]) (use nb(1) x(3) h1(2) in auto)
    have f3: "fs_more (E \<union> B1) F s1 F s3" by (rule fs_more_same [OF m3 sd3])
    have st3: "chain s3 f st"
      by (rule chain_keep [OF s1(2) f3 Cons.prems(2) chain_keep [OF Cons.prems(1) s1(5) Cons.prems(2,3)]])
    have i3: "f_inum s3 f = f_inum s f" "f_inode s3 f \<noteq> 0" using fs_fields [OF m3] i1 s1(4) by simp_all
    have ha: "held ?E ?a (length n + 1)" by (rule held_mono [OF held_new(3) [OF x(2) _ x(4)]]) auto
    have d3: "vol_is_dir b lba (unat (f_inum s3 f))" "budget (dir_pages b lba (unat (f_inum s3 f)) + (?rest + k)) s3"
      using True x(7) i3 by (simp_all add: s3_def)
    from visit_ok [OF dsk ok3 Cons.prems(2) i3(2) d3(1) ha nb(3) st3 d3(2)] obtain vv s4 B4 F4 N4 where
      s4: "visit io f ?a s3 = Some (Inr (vv, s4))" "fs_ok b lba I dk ?E B4 F4 N4 s4" "B1 \<subseteq> B4" "fs_more (?E \<union> B1) F s3 F4 s4"
        "budget (?rest + k) s4"
        "case vol_step b lba n st of None \<Rightarrow> vv = None | Some st' \<Rightarrow> \<exists>g. vv = Some g \<and> g \<in> F4 \<and> chain s4 g st'" by blast
    have h4: "kblocks s4 (insert x (E \<union> B4))" "x \<notin> E \<union> B4" "E \<inter> B4 = {}" using s4(2) x(3) by (auto simp: fs_ok_def)
    from kfree_block [OF h4(1,2)] obtain s5 where
      s5: "kfree ?a s4 = Some (Inr s5)" "kblocks s5 (E \<union> B4)" "same_data (E \<union> B4) (kmem s4) (kmem s5)" "\<exists>m u. s5 = s4\<lparr>kmem := m, kmalloc_used := u\<rparr>"
      by blast
    have m5: "kheap_state.more s5 = kheap_state.more s4" using s5(4) by auto
    have ok5: "fs_ok b lba I dk E B4 F4 N4 s5" by (rule fs_ok_same [OF s4(2) s5(2) h4(3) same_data_mono [OF s5(3)] m5 v]) blast
    have f5: "fs_more (E \<union> B4) F4 s4 F4 s5" by (rule fs_more_same [OF m5 s5(3)])
    have "fs_more (E \<union> B1) F s1 F4 s4" by (rule fs_more_trans [OF f3 s4(4)]) auto
    then have "fs_more (E \<union> B) F s F4 s4" by (rule fs_more_trans [OF s1(5)]) (use s1(3) in blast)
    then have more: "fs_more (E \<union> B) F s F4 s5" by (rule fs_more_trans [OF _ f5]) (use s1(3) s4(3) in blast)
    have b5: "budget (?rest + k) s5" by (rule budget_same_heap [OF s4(5) s5(4)])
    have BB: "B \<subseteq> B4" using s1(3) s4(3) by blast
    have run: "walk_names io (n # ns) f s = (case vv of None \<Rightarrow> Some (Inr (0, s5)) | Some g \<Rightarrow> walk_names io ns g s5)"
      using True x(1) s4(1) s5(1) by (cases vv) (simp_all add: s1(1) isd s3_def)
    show ?thesis
    proof (cases "vol_step b lba n st")
      case None
      with s4(6) run b5 have "walk_names io (n # ns) f s = Some (Inr (0, s5))" "budget k s5" by simp_all
      with None ok5 BB more show ?thesis by (intro exI conjI) auto
    next
      case (Some st')
      with s4(6) obtain g where g: "vv = Some g" "g \<in> F4" "chain s4 g st'" by auto
      have c5: "chain s5 g st'" by (rule chain_keep [OF s4(2) f5 g(2,3)])
      have ns: "\<forall>n \<in> set ns. 0 \<notin> set n \<and> length n + 1 < 2 ^ 32" using Cons.prems(4) by simp
      have b5': "budget (path_pages b lba ns st' + k) s5" using b5 Some by simp
      from Cons.IH [OF ok5 g(2) c5 ns b5'] obtain h s6 B6 F6 N6 where
        r: "walk_names io ns g s5 = Some (Inr (h, s6))" "fs_ok b lba I dk E B6 F6 N6 s6" "B4 \<subseteq> B6" "fs_more (E \<union> B4) F4 s5 F6 s6"
          "budget k s6" "case vol_path b lba ns st' of None \<Rightarrow> h = 0 | Some st'' \<Rightarrow> h \<in> F6 \<and> chain s6 h st''" by blast
      have "fs_more (E \<union> B) F s F6 s6" by (rule fs_more_trans [OF more r(4)]) (use BB in blast)
      moreover have "B \<subseteq> B6" using BB r(3) by blast
      ultimately show ?thesis using run g(1) r(1,2,5,6) Some by (intro exI conjI) (auto split: option.splits)
    qed
  qed
qed

section \<open>The root\<close>

definition root_pages :: "(nat \<Rightarrow> u8) \<Rightarrow> nat \<Rightarrow> nat" where
  "root_pages b lba = 4 + dir_pages b lba 2"

lemma init_root_ok:
  fixes s :: "'a fs_state_scheme"
  assumes dsk: "mounted io img dk" "b = img (nat (d_device dk))" "vol_tree b lba I" and root: "2 \<in> I" "vol_is_dir b lba 2"
    and heap: "kblocks s D" "loaded b lba dk D (kmem s)" and bud: "budget (root_pages b lba + k) s"
  shows "\<exists>f s' B F N. init_root io dk s = Some (Inr (f, s')) \<and> fs_ok b lba I dk {} B F N s' \<and> D \<subseteq> B \<and> f \<in> F \<and> chain s' f [2]
    \<and> listing N s' f = vol_dir b lba 2 \<and> same_data D (kmem s) (kmem s') \<and> fs_rest s' = fs_rest s \<and> budget k s'"
proof -
  have v: "volume b lba" "vol_inode_ok b lba 2" using dsk(3) root(1) by (simp_all add: vol_tree_def)
  have b4: "budget (Suc (Suc (2 + (dir_pages b lba 2 + k)))) s" using bud by (simp add: root_pages_def eval_nat_numeral)
  from kmalloc_small [OF heap(1) b4, of 44] obtain z s1 where
    z: "kmalloc 44 s = Some (Inr (of_nat (fst z), s1))" "kblocks s1 (insert z D)" "z \<notin> D" "44 \<le> snd z"
      "same_data D (kmem s) (kmem s1)" "kheap_state.more s1 = kheap_state.more s" "budget (Suc (2 + (dir_pages b lba 2 + k))) s1" by auto
  from kmalloc_small [OF z(2,7), of 2] obtain y s2 where
    y: "kmalloc 2 s1 = Some (Inr (of_nat (fst y), s2))" "kblocks s2 (insert y (insert z D))" "y \<notin> insert z D" "2 \<le> snd y"
      "same_data (insert z D) (kmem s1) (kmem s2)" "kheap_state.more s2 = kheap_state.more s1" "budget (2 + (dir_pages b lba 2 + k)) s2" by auto
  let ?f = "of_nat (fst z) :: u32" and ?n = "of_nat (fst y) :: u32" and ?C = "insert y (insert z D)"
  have "length [47 :: u8] + 1 \<le> snd y" "0 \<notin> set [47 :: u8]" using y(4) by simp_all
  note nb = name_block [OF y(2,3) this]
  define s3 where "s3 = s2\<lparr>kmem := wr_bytes (kmem s2) ?n [47, 0], f_name := (f_name s2)(?f := ?n), f_disk := (f_disk s2)(?f := dk),
           f_inum := (f_inum s2)(?f := EXT2_INUM_ROOT)\<rparr>"
  have h3: "kblocks s3 ?C" using kblocks_fields [OF nb(1), of s3] by (simp add: s3_def)
  have sd3: "same_data D (kmem s) (kmem s3)"
  proof -
    have "same_data D (kmem s1) (kmem s2)" "same_data D (kmem s2) (kmem s3)"
      using same_data_mono [OF y(5), of D] same_data_mono [OF nb(2), of D] by (auto simp: s3_def)
    then show ?thesis using z(5) same_data_trans by blast
  qed
  have l3: "loaded b lba dk ?C (kmem s3)" by (rule loaded_keep [OF sd3 heap(2)]) blast
  have b3: "budget (2 + (dir_pages b lba 2 + k)) s3" using y(7) by (simp add: s3_def budget_def frames.free_frames_def frame_used_def)
  from loaded_read_inode [OF dsk(1,2) h3 l3 v b3] obtain x s4 where
    x: "ext2_read_inode io dk 2 s3 = Some (Inr (of_nat (fst x), s4))" "kblocks s4 (insert x ?C)" "x \<notin> ?C"
      "held {x} (of_nat (fst x)) 128" "mem_list (kmem s4) (of_nat (fst x)) (vol_inode b lba 2)" "same_data ?C (kmem s3) (kmem s4)"
      "kheap_state.more s4 = kheap_state.more s3" "budget (dir_pages b lba 2 + k) s4" by auto
  let ?p = "of_nat (fst x) :: u32" and ?B = "insert x ?C"
  define s5 where "s5 = s4\<lparr>f_inode := (f_inode s4)(?f := ?p), f_mmap := (f_mmap s4)(?f := 0),
          f_parent := (f_parent s4)(?f := ?f), f_leaf := (f_leaf s4)(?f := [])\<rparr>"
  note ff = fs_fields [OF x(7)]
  have fi: "f_name s5 ?f = ?n" "f_disk s5 ?f = dk" "f_inum s5 ?f = 2" using ff by (simp_all add: s5_def s3_def)
  have h5: "kblocks s5 ?B" using kblocks_fields [OF x(2), of s5] by (simp add: s5_def)
  have sd5: "same_data D (kmem s) (kmem s5)"
  proof -
    have "same_data D (kmem s3) (kmem s5)" using same_data_mono [OF x(6), of D] by (auto simp: s5_def)
    then show ?thesis using sd3 same_data_trans by blast
  qed
  have nz: "?p \<noteq> 0"
    using held_new(2) [OF x(2), of x 0] kblocks_bounds(1) [OF x(2), of "fst x" "snd x"] by auto
  have nd: "node ?B (\<lambda>_. [47]) s5 ?f"
  proof -
    have "(unat ?f, snd z) \<in> ?B" using held_new(2) [OF z(2), of z 0] by (simp add: prod.collapse)
    then have "blk ?B ?f 44" unfolding blk_def using z(4) by blast
    moreover have hn: "held {y} ?n 2" by (rule held_new(3) [OF y(2) _ y(4)]) simp
    moreover have "cstr (kmem s5) ?n [47]"
    proof -
      have "same_data {y} (kmem s3) (kmem s5)" using same_data_mono [OF x(6), of "{y}"] by (simp add: s5_def)
      from held_cstr [OF this, of ?n "[47]"] hn nb(3) show ?thesis by (simp add: s3_def numeral_2_eq_2)
    qed
    ultimately show ?thesis unfolding node_def fi using held_mono [OF hn, of ?B] by (simp add: numeral_2_eq_2)
  qed
  have "cached b lba I dk ?B {?f} (\<lambda>_. [47]) s5 ?f"
    unfolding cached_def using nd fi root(1) x(5) held_mono [OF x(4), of ?B] by (simp add: s5_def listing_def)
  moreover have "loaded b lba dk ?B (kmem s5)" by (rule loaded_keep [OF sd5 heap(2)]) blast
  ultimately have ok: "fs_ok b lba I dk {} ?B {?f} (\<lambda>_. [47]) s5" unfolding fs_ok_def using h5 by (simp add: s5_def)
  have g: "?f \<in> {?f}" "f_inode s5 ?f \<noteq> 0" "vol_is_dir b lba (unat (f_inum s5 ?f))" "budget (dir_pages b lba (unat (f_inum s5 ?f)) + k) s5"
    using nz fi root(2) x(8) by (simp_all add: s5_def budget_def frames.free_frames_def frame_used_def)
  from get_dir_entries_ok [OF dsk ok g] obtain s6 B6 F6 N6 where
    r: "get_dir_entries io ?f s5 = Some (Inr (0, s6))" "fs_ok b lba I dk {} B6 F6 N6 s6" "?B \<subseteq> B6" "fs_more ({} \<union> ?B) {?f} s5 F6 s6"
      "listing N6 s6 ?f = vol_dir b lba 2" "budget k s6" unfolding fi by auto
  have "init_root io dk s = Some (Inr (?f, s6))"
    unfolding init_root_def Let_def z(1) bind_out_simps prod.case y(1) s3_def [symmetric] x(1) s5_def [symmetric] r(1) ..
  moreover have "chain s6 ?f [2]" using r(4) fi by (simp add: fs_more_def s5_def)
  moreover have "same_data D (kmem s) (kmem s6)"
  proof -
    have "same_data D (kmem s5) (kmem s6)" using r(4) same_data_mono [of ?B "kmem s5" "kmem s6" D] by (auto simp: fs_more_def)
    then show ?thesis using sd5 same_data_trans by blast
  qed
  moreover have "fs_rest s6 = fs_rest s"
    using r(4) fs_rest_more [OF x(7)] fs_rest_more [OF z(6)] fs_rest_more [OF y(6)] by (simp add: fs_more_def s5_def s3_def)
  moreover have "?f \<in> F6" "D \<subseteq> B6" using r(3,4) by (auto simp: fs_more_def)
  ultimately show ?thesis using r(2,5,6) by (intro exI conjI) auto
qed

section \<open>Properties\<close>

lemma path_names_set: "n \<in> set (path_names xs) \<Longrightarrow> set n \<subseteq> set xs \<and> length n \<le> length xs"
proof -
  have "\<forall>n \<in> set (split_on 47 xs). set n \<subseteq> set xs \<and> length n \<le> length xs" for xs :: "u8 list"
  proof (induction xs)
    case (Cons x xs)
    obtain h t where e: "split_on 47 xs = h # t" using split_on_nonempty [of 47 xs] by (cases "split_on 47 xs") auto
    from Cons show ?case unfolding split_on.simps e by auto
  qed simp
  then show "n \<in> set (path_names xs) \<Longrightarrow> set n \<subseteq> set xs \<and> length n \<le> length xs" by (auto simp: path_names_def)
qed

lemma cstr_no_zero: "cstr m a xs \<Longrightarrow> 0 \<notin> set xs"
  by (induction xs arbitrary: a) auto

text \<open>A path from a cached file.\<close>

lemma path_to_file_ok:
  fixes s :: "'a fs_state_scheme"
  assumes dsk: "mounted io img dk" "b = img (nat (d_device dk))" "vol_tree b lba I"
    and ok: "fs_ok b lba I dk E B F N s" and path: "cstr pm path xs" "length xs + 1 < 2 ^ 32"
    and start: "f = (if xs \<noteq> [] \<and> hd xs = 47 then f_root s else pwd (cur s))" "f \<in> F" "chain s f st"
    and bud: "budget (path_pages b lba (path_names xs) st + k) s"
  shows "\<exists>g s' B' F' N'. path_to_file io pm path s = Some (Inr (g, s')) \<and> fs_ok b lba I dk E B' F' N' s' \<and> B \<subseteq> B'
    \<and> fs_more (E \<union> B) F s F' s' \<and> budget k s'
    \<and> (case vol_path b lba (path_names xs) st of None \<Rightarrow> g = 0 | Some st' \<Rightarrow> g \<noteq> 0 \<and> g \<in> F' \<and> chain s' g st')"
proof -
  have "\<forall>n \<in> set (path_names xs). 0 \<notin> set n \<and> length n + 1 < 2 ^ 32"
    using path_names_set cstr_no_zero [OF path(1)] path(2) by fastforce
  from walk_names_ok [OF dsk ok start(2,3) this bud] obtain g s' B' F' N' where
    r: "walk_names io (path_names xs) f s = Some (Inr (g, s'))" "fs_ok b lba I dk E B' F' N' s'" "B \<subseteq> B'"
      "fs_more (E \<union> B) F s F' s'" "budget k s'"
      "case vol_path b lba (path_names xs) st of None \<Rightarrow> g = 0 | Some st' \<Rightarrow> g \<in> F' \<and> chain s' g st'" by blast
  have "g \<noteq> 0" if gF: "g \<in> F'"
  proof
    assume z: "g = 0"
    obtain m where "(unat g, m) \<in> E \<union> B'" using fs_okD(3) [OF r(2) gF] by (auto simp: node_def blk_def)
    moreover have "kblocks s' (E \<union> B')" using r(2) by (simp add: fs_ok_def)
    ultimately show False using kblocks_bounds(1) z by fastforce
  qed
  then show ?thesis using r path_to_file_walk [OF path, of io s] unfolding start(1)
    by (intro exI conjI) (auto split: option.splits)
qed

text \<open>The volume and its root.\<close>

lemma mounted_root_ok:
  fixes s :: "'a fs_state_scheme"
  assumes hw: "ata_reads (fst io) img" "status_ready (snd io)" "device = 0 \<or> device = 1"
    and heap: "kblocks s B" "held B part 16" "lba = unat (s_lba (kmem s) part)"
    and vol: "b = img (nat device)" "vol_tree b lba I" "2 \<in> I" "vol_is_dir b lba 2"
    and bud: "budget (mount_pages b lba + (root_pages b lba + k)) s"
  shows "\<exists>p dk s1 r s2 B' F N. ext2_get_disk_info io device part s = Some (Inr (p, dk, s1)) \<and> init_root io dk s1 = Some (Inr (r, s2))
    \<and> d_device dk = device \<and> mounted io img dk \<and> fs_ok b lba I dk {} B' F N (s2\<lparr>f_root := r\<rparr>) \<and> r \<in> F
    \<and> chain (s2\<lparr>f_root := r\<rparr>) r [2] \<and> budget k (s2\<lparr>f_root := r\<rparr>)"
proof -
  have v: "volume b lba" using vol(2) by (simp add: vol_tree_def)
  from ext2_get_disk_info_ok [OF hw heap v [unfolded vol(1)] bud [unfolded vol(1)]] obtain p dk s1 B1 where
    m: "ext2_get_disk_info io device part s = Some (Inr (p, dk, s1))" "kblocks s1 B1" "d_device dk = device"
      "mounted io img dk" "loaded b lba dk B1 (kmem s1)" "budget (root_pages b lba + k) s1"
    unfolding vol(1) by blast
  have bd: "b = img (nat (d_device dk))" using m(3) vol(1) by simp
  from init_root_ok [OF m(4) bd vol(2-4) m(2,5,6)] obtain r s2 B2 F N where
    r: "init_root io dk s1 = Some (Inr (r, s2))" "fs_ok b lba I dk {} B2 F N s2" "r \<in> F" "chain s2 r [2]" "budget k s2" by blast
  let ?s = "s2\<lparr>f_root := r\<rparr>"
  have "fs_ok b lba I dk {} B2 F N ?s"
    using r(2) kblocks_fields [of s2 B2 ?s] by (simp add: fs_ok_def cached_def node_def listing_def)
  moreover have "chain ?s r [2]" "budget k ?s" using r(4,5) by (simp_all add: budget_def frames.free_frames_def frame_used_def)
  ultimately show ?thesis using m(1,3,4) r(1,3) by blast
qed

text \<open>C3. From the partition table to a file by its name. The kernel mounts the volume, makes the structure of the root and
  looks an absolute path up: it gets a file exactly when the directories on the disk lead to one, and then the
  inode number is the one that they give. The path is taken name by name, from the root directory on: \<open>.\<close> stays,
  \<open>..\<close> goes back, every other name is looked up among the entries of the directory as they stand in its
  file on the disk (the first entry of a name counts), and a name in what is no directory gives no file.\<close>

theorem path_lookup_correct:
  fixes s :: "'a fs_state_scheme"
  assumes "ata_reads (fst io) img" "status_ready (snd io)" "device = 0 \<or> device = 1"
    and "kblocks s B" "held B part 16" "lba = unat (s_lba (kmem s) part)"
    and "b = img (nat device)" "vol_tree b lba I" "2 \<in> I" "vol_is_dir b lba 2"
    and "cstr pm path (47 # xs)" "length xs + 2 < 2 ^ 32"
    and "budget (mount_pages b lba + (root_pages b lba + path_pages b lba (path_names xs) [2])) s"
  shows "\<exists>p dk s1 r s2 f s3. ext2_get_disk_info io device part s = Some (Inr (p, dk, s1))
    \<and> init_root io dk s1 = Some (Inr (r, s2))
    \<and> path_to_file io pm path (s2\<lparr>f_root := r\<rparr>) = Some (Inr (f, s3))
    \<and> (case vol_path b lba (path_names xs) [2] of None \<Rightarrow> f = 0 | Some st \<Rightarrow> f \<noteq> 0 \<and> unat (f_inum s3 f) = hd st)"
proof -
  from mounted_root_ok [OF assms(1-10,13)] obtain p dk s1 r s2 B' F N where
    m: "ext2_get_disk_info io device part s = Some (Inr (p, dk, s1))" "init_root io dk s1 = Some (Inr (r, s2))" "d_device dk = device"
      "mounted io img dk" "fs_ok b lba I dk {} B' F N (s2\<lparr>f_root := r\<rparr>)" "r \<in> F" "chain (s2\<lparr>f_root := r\<rparr>) r [2]"
      "budget (path_pages b lba (path_names xs) [2]) (s2\<lparr>f_root := r\<rparr>)" by blast
  have b: "b = img (nat (d_device dk))" using m(3) assms(7) by simp
  have len: "length (47 # xs) + 1 < 2 ^ 32" using assms(12) by simp
  have bk: "budget (path_pages b lba (path_names (47 # xs)) [2] + 0) (s2\<lparr>f_root := r\<rparr>)" using m(8) by simp
  from path_to_file_ok [OF m(4) b assms(8) m(5) assms(11) len _ m(6,7) bk] obtain f s3 where
    "path_to_file io pm path (s2\<lparr>f_root := r\<rparr>) = Some (Inr (f, s3))"
    "case vol_path b lba (path_names xs) [2] of None \<Rightarrow> f = 0 | Some st \<Rightarrow> f \<noteq> 0 \<and> chain s3 f st" by (auto split: option.splits)
  with m(1,2) show ?thesis using chain_hd [of s3 f]
    by (intro exI [of _ p] exI [of _ dk] exI [of _ s1] exI [of _ r] exI [of _ s2] exI [of _ f] exI [of _ s3])
      (auto split: option.splits)
qed

text \<open>C5. The cache of files stays true to the disk. Looking a path up, absolute or relative, from any state in which every
  cached file has the inode that the disk has for its number and the leaves of a directory are the entries of its
  file (or have not been read yet), returns and leads to such a state again; no file that was cached moves, changes its
  number or loses its inode, no allocated byte changes, and the file that is returned stands where the path leads on the
  disk, its parents included.\<close>

theorem path_lookup_keeps_cache:
  fixes s :: "'a fs_state_scheme"
  assumes "mounted io img dk" "b = img (nat (d_device dk))" "vol_tree b lba I" "fs_ok b lba I dk E B F N s"
    and "cstr pm path xs" "length xs + 1 < 2 ^ 32"
    and "f = (if xs \<noteq> [] \<and> hd xs = 47 then f_root s else pwd (cur s))" "f \<in> F" "chain s f st"
    and "budget (path_pages b lba (path_names xs) st) s"
  shows "\<exists>g s' B' F' N'. path_to_file io pm path s = Some (Inr (g, s')) \<and> fs_ok b lba I dk E B' F' N' s' \<and> B \<subseteq> B'
    \<and> fs_more (E \<union> B) F s F' s'
    \<and> (case vol_path b lba (path_names xs) st of None \<Rightarrow> g = 0 | Some st' \<Rightarrow> g \<noteq> 0 \<and> g \<in> F' \<and> chain s' g st')"
  using path_to_file_ok [where k = 0, unfolded add_0_right, OF assms] by blast

text \<open>A volume at block 2. The directory 2 has one entry, \<open>b\<close>, the file 3.\<close>

definition demo_tree :: "nat \<Rightarrow> u8" where
  "demo_tree i =
     (if i = 2048 then 8 else if i = 2052 then 100 else if i = 2081 then 0x20 else if i = 2088 then 8 else if i = 2136 then 128
      else if i = 3080 then 3 else if i = 4225 then 0x40 else if i = 4228 then 12 else if i = 4264 then 5
      else if i = 6144 then 3 else if i = 6148 then 12 else if i = 6150 then 1 else if i = 6152 then 98 else 0)"

lemma demo_tree_sb:
  "word_at (sb_bytes demo_tree 2) 0 = 8" "word_at (sb_bytes demo_tree 2) 4 = 100" "word_at (sb_bytes demo_tree 2) 24 = 0"
  "word_at (sb_bytes demo_tree 2) 32 = 8192" "word_at (sb_bytes demo_tree 2) 40 = 8" "half_at (sb_bytes demo_tree 2) 88 = 128"
  by (simp_all add: word_at_def half_at_def sb_bytes_def demo_tree_def)

lemma demo_tree_groups: "vol_groups (sb_bytes demo_tree 2) = 1" "vol_blocksize (sb_bytes demo_tree 2) = 1024" "gd_pos demo_tree 2 = 3072"
  by (simp_all add: vol_groups_def vol_blocksize_def gd_pos_def ceil_div_def demo_tree_sb)

lemma demo_tree_inode:
  "vol_inode_pos demo_tree 2 2 = 4224" "k < 128 \<Longrightarrow> vol_inode demo_tree 2 2 ! k = demo_tree (4224 + k)"
  "vol_inode_pos demo_tree 2 3 = 4352" "k < 128 \<Longrightarrow> vol_inode demo_tree 2 3 ! k = demo_tree (4352 + k)"
proof -
  have "word_at (gd_bytes demo_tree 2) 8 = 3"
    by (simp add: word_at_def gd_bytes_def demo_tree_groups demo_tree_def)
  then show p: "vol_inode_pos demo_tree 2 2 = 4224" "vol_inode_pos demo_tree 2 3 = 4352"
    by (simp_all add: vol_inode_pos_def demo_tree_sb demo_tree_groups Let_def)
  show "k < 128 \<Longrightarrow> vol_inode demo_tree 2 2 ! k = demo_tree (4224 + k)" "k < 128 \<Longrightarrow> vol_inode demo_tree 2 3 ! k = demo_tree (4352 + k)"
    by (simp_all add: vol_inode_def p demo_tree_sb)
qed

lemma demo_tree_root:
  "word_at (vol_inode demo_tree 2 2) 4 = 12" "vol_file demo_tree 2 2 = [3, 0, 0, 0, 12, 0, 1, 0, 98, 0, 0, 0]" "vol_inode_ok demo_tree 2 2"
  "vol_is_dir demo_tree 2 2"
proof -
  show sz: "word_at (vol_inode demo_tree 2 2) 4 = 12" by (simp add: word_at_def demo_tree_inode demo_tree_def)
  have ib: "vol_iblock demo_tree 2 2 k = (if k = 0 then 5 else 0)" if "k < 15" for k
    using that by (auto simp: vol_iblock_def word_at_def demo_tree_inode demo_tree_def)
  have "map (vol_iblock demo_tree 2 2) [0..<12] = map (\<lambda>k. if k = 0 then 5 else 0) [0..<12]"
    by (rule map_cong [OF refl]) (use ib in simp)
  then have es: "takeWhile (\<lambda>b. b \<noteq> 0) (map (vol_iblock demo_tree 2 2) [0..<12]) = [5]" by (simp add: upt_rec)
  have fb: "file_bytes (vol_block demo_tree 2) (vol_iblock demo_tree 2 2) = vol_block demo_tree 2 5"
    "file_ok (vol_block_in_range demo_tree 2) (vol_block demo_tree 2) (vol_iblock demo_tree 2 2)"
    unfolding file_bytes_def file_ok_def es using ib [of 12] ib [of 13] ib [of 14]
    by (simp_all add: vol_block_in_range_def demo_tree_groups Let_def)
  have "take 12 (vol_block demo_tree 2 5) = map (\<lambda>i. demo_tree (6144 + i)) [0..<12]"
    by (simp add: vol_block_def block_bytes_def demo_tree_groups take_map)
  also have "\<dots> = [3, 0, 0, 0, 12, 0, 1, 0, 98, 0, 0, 0]" by (simp add: upt_rec demo_tree_def)
  finally show "vol_file demo_tree 2 2 = [3, 0, 0, 0, 12, 0, 1, 0, 98, 0, 0, 0]" by (simp add: vol_file_def fb sz)
  show "vol_inode_ok demo_tree 2 2"
    using fb(2) by (simp add: vol_inode_ok_def demo_tree_sb demo_tree_groups demo_tree_inode)
  show "vol_is_dir demo_tree 2 2" by (simp add: vol_is_dir_def half_at_def demo_tree_inode demo_tree_def)
qed

lemma demo_tree_file: "vol_inode_ok demo_tree 2 3" "\<not> vol_is_dir demo_tree 2 3"
proof -
  have ib: "vol_iblock demo_tree 2 3 k = 0" if "k < 15" for k
    using that by (auto simp: vol_iblock_def word_at_def demo_tree_inode demo_tree_def)
  have "map (vol_iblock demo_tree 2 3) [0..<12] = map (\<lambda>_. 0) [0..<12]"
    by (rule map_cong [OF refl]) (use ib in simp)
  then have es: "takeWhile (\<lambda>b. b \<noteq> 0) (map (vol_iblock demo_tree 2 3) [0..<12]) = []" by (simp add: upt_rec)
  have "file_ok (vol_block_in_range demo_tree 2) (vol_block demo_tree 2) (vol_iblock demo_tree 2 3)"
    unfolding file_ok_def es using ib [of 12] ib [of 13] ib [of 14] by simp
  then show "vol_inode_ok demo_tree 2 3"
    by (simp add: vol_inode_ok_def demo_tree_sb demo_tree_groups demo_tree_inode)
  show "\<not> vol_is_dir demo_tree 2 3" by (simp add: vol_is_dir_def half_at_def demo_tree_inode demo_tree_def)
qed

lemma demo_tree_dir:
  "dir_list (vol_file demo_tree 2 2) = [([98], 3)]" "dir_wf (vol_file demo_tree 2 2)" "vol_dir demo_tree 2 2 = [([98], 3)]"
proof -
  let ?xs = "[3, 0, 0, 0, 12, 0, 1, 0, 98, 0, 0, 0] :: u8 list"
  have w: "word_at ?xs 0 = 3" "entry_len ?xs = 12" "entry_name ?xs = [98]"
    by (simp_all add: word_at_def entry_len_def half_at_def entry_name_def)
  show l: "dir_list (vol_file demo_tree 2 2) = [([98], 3)]" unfolding demo_tree_root
    by (subst dir_list.simps) (simp add: w dir_list.simps)
  show "dir_wf (vol_file demo_tree 2 2)" unfolding demo_tree_root
    by (subst dir_wf.simps) (simp add: w dir_wf.simps)
  show "vol_dir demo_tree 2 2 = [([98], 3)]" by (simp add: vol_dir_def l add_name_def)
qed

lemma demo_tree_ok: "vol_tree demo_tree 2 {2, 3}"
  by (simp add: vol_tree_def volume_def demo_tree_sb demo_tree_groups Let_def demo_tree_root demo_tree_file
      demo_tree_dir [unfolded demo_tree_root])

lemma demo_block_fs:
  "\<exists>s :: fs_state. kblocks s {(0x10000004, 1200)} \<and> (\<forall>k < 1200. kmem s (of_nat (0x10000004 + k)) = f k) \<and> budget 100 s"
proof -
  from demo_block [of f] obtain t :: kheap_state where
    t: "kblocks t {(0x10000004, 1200)}" "\<forall>k < 1200. kmem t (of_nat (0x10000004 + k)) = f k" "budget 100 t" by blast
  fix s0 :: fs_state
  let ?s = "s0\<lparr>pmem := pmem t, cr3 := cr3 t, mem_bitmap := mem_bitmap t, kmem := kmem t, kern_heap := kern_heap t\<rparr>"
  have "kblocks ?s {(0x10000004, 1200)}" by (rule kblocks_fields [OF t(1)]) simp_all
  moreover have "budget 100 ?s" using t(3) by (simp add: budget_def frames.free_frames_def frame_used_def)
  ultimately show ?thesis using t(2) by (intro exI [of _ ?s]) simp
qed

text \<open>The volume in a heap with its partition entry.\<close>

lemma demo_tree_mount:
  defines "io \<equiv> (demo_dev (\<lambda>_. demo_tree), \<lambda>_ :: nat. 8 :: u8)" and "B \<equiv> {(0x10000004 :: nat, 1200 :: nat)}"
  obtains s :: fs_state where "kblocks s B" "held B 0x10000004 16" "2 = unat (s_lba (kmem s) 0x10000004)" "budget 100 s"
    "ata_reads (fst io) (\<lambda>_. demo_tree)" "status_ready (snd io)"
proof -
  obtain s :: fs_state where s: "kblocks s {(0x10000004, 1200)}"
    "\<And>k. k < 1200 \<Longrightarrow> kmem s (of_nat (0x10000004 + k)) = (if k = 8 then 2 else 0)" "budget 100 s"
    using demo_block_fs [of "\<lambda>k. if k = 8 then 2 else 0"] by blast
  have "2 = unat (s_lba (kmem s) 0x10000004)"
    using s(2) [of 8] s(2) [of 9] s(2) [of 10] s(2) [of 11] by (simp add: s_lba_def rd32_def)
  with s(1,3) show ?thesis by (intro that [of s]) (simp_all add: B_def io_def held_def demo_dev_reads status_ready_def)
qed

lemma demo_tree_walk:
  "path_names [98] = [[98]]" "vol_path demo_tree 2 [[98]] [2] = Some [3, 2]" "cstr (wr_bytes (\<lambda>_. 0) 0 [47, 98]) 0 (47 # [98])"
  "mount_pages demo_tree 2 + (root_pages demo_tree 2 + path_pages demo_tree 2 [[98]] [2]) \<le> 100"
proof -
  have vs: "vol_step demo_tree 2 [98] [2] = Some [3, 2]" by (simp add: vol_step_def demo_tree_root demo_tree_dir)
  then show "vol_path demo_tree 2 [[98]] [2] = Some [3, 2]" by simp
  show "mount_pages demo_tree 2 + (root_pages demo_tree 2 + path_pages demo_tree 2 [[98]] [2]) \<le> 100"
    by (simp add: mount_pages_def root_pages_def dir_pages_def vol_read_pages_def demo_tree_groups demo_tree_root(1) vs
        demo_tree_dir(1) pages_of_def real_size_def Let_def)
qed (simp_all add: path_names_def)

theorem path_lookup_correct_witness:
  "\<exists>(s :: fs_state) p dk s1 r s2 f s3. ext2_get_disk_info (demo_dev (\<lambda>_. demo_tree), \<lambda>_. 8) 0 0x10000004 s = Some (Inr (p, dk, s1))
    \<and> init_root (demo_dev (\<lambda>_. demo_tree), \<lambda>_. 8) dk s1 = Some (Inr (r, s2))
    \<and> path_to_file (demo_dev (\<lambda>_. demo_tree), \<lambda>_. 8) (wr_bytes (\<lambda>_. 0) 0 [47, 98]) 0 (s2\<lparr>f_root := r\<rparr>) = Some (Inr (f, s3))
    \<and> f \<noteq> 0 \<and> unat (f_inum s3 f) = 3"
proof -
  obtain s :: fs_state where s: "kblocks s {(0x10000004, 1200)}" "held {(0x10000004, 1200)} 0x10000004 16" "2 = unat (s_lba (kmem s) 0x10000004)"
    "budget 100 s" "ata_reads (fst (demo_dev (\<lambda>_. demo_tree), \<lambda>_ :: nat. 8 :: u8)) (\<lambda>_. demo_tree)"
    "status_ready (snd (demo_dev (\<lambda>_. demo_tree), \<lambda>_ :: nat. 8 :: u8))" by (rule demo_tree_mount)
  have "length [98 :: u8] + 2 < 2 ^ 32" "2 \<in> {2 :: nat, 3}" "(0 :: int) = 0 \<or> (0 :: int) = 1" by simp_all
  note l = path_lookup_correct [OF s(5,6) this(3) s(1-3) refl demo_tree_ok this(2) demo_tree_root(4) demo_tree_walk(3) this(1),
      unfolded demo_tree_walk(1,2)]
  from l [OF budget_mono [OF s(4) demo_tree_walk(4)]] show ?thesis by (intro exI [of _ s]) simp
qed

theorem path_lookup_keeps_cache_witness:
  "\<exists>(s :: fs_state) dk g s' B' F' N'. path_to_file (demo_dev (\<lambda>_. demo_tree), \<lambda>_. 8) (wr_bytes (\<lambda>_. 0) 0 [47, 98]) 0 s = Some (Inr (g, s'))
    \<and> fs_ok demo_tree 2 {2, 3} dk {} B' F' N' s' \<and> g \<in> F' \<and> chain s' g [3, 2]"
proof -
  let ?io = "(demo_dev (\<lambda>_. demo_tree), \<lambda>_ :: nat. 8 :: u8)"
  obtain s :: fs_state where s: "kblocks s {(0x10000004, 1200)}" "held {(0x10000004, 1200)} 0x10000004 16" "2 = unat (s_lba (kmem s) 0x10000004)"
    "budget 100 s" "ata_reads (fst ?io) (\<lambda>_. demo_tree)" "status_ready (snd ?io)" by (rule demo_tree_mount)
  have r: "2 \<in> {2 :: nat, 3}" "(0 :: int) = 0 \<or> (0 :: int) = 1" by simp_all
  from mounted_root_ok [OF s(5,6) r(2) s(1-3) refl demo_tree_ok r(1) demo_tree_root(4) budget_mono [OF s(4) demo_tree_walk(4)]]
  obtain dk r B F N and s2 :: fs_state where d: "d_device dk = 0" "mounted ?io (\<lambda>_. demo_tree) dk" "fs_ok demo_tree 2 {2, 3} dk {} B F N (s2\<lparr>f_root := r\<rparr>)"
      "r \<in> F" "chain (s2\<lparr>f_root := r\<rparr>) r [2]" "budget (path_pages demo_tree 2 [[98]] [2]) (s2\<lparr>f_root := r\<rparr>)" by blast
  define t where "t = s2\<lparr>f_root := r\<rparr>"
  have m: "mounted ?io (\<lambda>_. demo_tree) dk" "fs_ok demo_tree 2 {2, 3} dk {} B F N t" "f_root t \<in> F" "chain t (f_root t) [2]"
      "budget (path_pages demo_tree 2 [[98]] [2]) t" using d unfolding t_def [symmetric] by (simp_all add: t_def)
  have start: "length [47, 98 :: u8] + 1 < 2 ^ 32" "f_root t = (if [47, 98 :: u8] \<noteq> [] \<and> hd [47, 98 :: u8] = 47 then f_root t else pwd (cur t))"
    "budget (path_pages demo_tree 2 (path_names [47, 98]) [2]) t" using m(5) by (simp_all add: demo_tree_walk(1))
  have "path_names [47, 98] = [[98]]" by (simp add: demo_tree_walk(1))
  note l = path_lookup_keeps_cache [OF m(1) refl demo_tree_ok m(2) demo_tree_walk(3) start(1,2) m(3,4) start(3), unfolded this demo_tree_walk(2)]
  then show ?thesis by (elim exE conjE, intro exI [of _ t]) auto
qed

end
