(* ===== verification/Boot.thy ===== *)
theory Boot
  imports Descriptors Directory Syscalls
begin

text \<open>
  The start of the kernel, \<^verbatim>\<open>kern/kernel.c\<close>: from the multiboot information to the first process. The loader of the
  kernel gives the sizes of the memory; the addresses of the task state and of the trap entries are parameters.
  The property goes through the whole initialisation: the file that is loaded as the first process is the one
  that the directories on the disk name \<^verbatim>\<open>/bin/shell\<close>.
\<close>

section \<open>The code\<close>

text \<open>What the kernel sets up besides the state of its modules: the descriptor tables, the bytes that go to ports, and
  the task register.\<close>

record boot_state = fs_state +
  desc :: tables
  outs :: "(u16 \<times> u8) list"
  task_reg :: u16

definition set_attr :: "u8 \<Rightarrow> 'a tty_state_scheme \<Rightarrow> 'a tty_state_scheme" where
  "set_attr a s = s\<lparr>scr := (scr s)\<lparr>kattr := a\<rparr>\<rparr>"

definition ok_msg :: "(nat \<Rightarrow> u32) \<Rightarrow> 'a tty_state_scheme \<Rightarrow> 'a tty_state_scheme out" where
  "ok_msg junk s =
     bind_out (say junk ''OK\<newline>'' junk (s\<lparr>scr := (scr s)\<lparr>kX := 40, kattr := 0x0A\<rparr>\<rparr>)) (\<lambda>s1.
     Some (Inr (set_attr 0x07 s1)))"

text \<open>The arguments of a message; behind them is what the stack holds.\<close>

definition with_args :: "u32 list \<Rightarrow> (nat \<Rightarrow> u32) \<Rightarrow> nat \<Rightarrow> u32" where
  "with_args ws junk i = (if i < length ws then ws ! i else junk (i - length ws))"

text \<open>The processor and its memory.\<close>

definition kmain_cpu :: "(nat \<Rightarrow> u32) \<Rightarrow> u32 \<Rightarrow> handlers \<Rightarrow> u32 \<Rightarrow> u32 \<Rightarrow> 'a boot_state_scheme \<Rightarrow> 'a boot_state_scheme out" where
  "kmain_cpu junk tss_addr h low_mem high_mem s =
     bind_out (say junk ''Pepin is booting...\<newline>'' junk s) (\<lambda>s1.
     bind_out (say junk ''RAM detected : %uk (lower), %uk (upper)\<newline>'' (with_args [low_mem, high_mem] junk) s1) (\<lambda>s2.
     bind_out (say junk ''Loading GDT'' junk s2) (\<lambda>s3.
     bind_out (ok_msg junk (s3\<lparr>desc := init_gdt tss_addr (desc s3)\<rparr>)) (\<lambda>s4.
     bind_out (say junk ''Loading IDT'' junk s4) (\<lambda>s5.
     bind_out (ok_msg junk (s5\<lparr>desc := init_idt h (desc s5)\<rparr>)) (\<lambda>s6.
     bind_out (say junk ''Configure PIC'' junk s6) (\<lambda>s7.
     bind_out (ok_msg junk (s7\<lparr>outs := outs s7 @ init_pic\<rparr>)) (\<lambda>s8.
     bind_out (say junk ''Loading Task Register'' junk s8) (\<lambda>s9.
     bind_out (ok_msg junk (s9\<lparr>task_reg := 0x38\<rparr>)) (\<lambda>s10.
     bind_out (say junk ''Enabling paging'' junk s10) (\<lambda>s11.
     bind_out (init_mm high_mem s11) (\<lambda>s12.
     bind_out (ok_msg junk s12) (\<lambda>s13.
     Some (Inr (s13\<lparr>outs := outs s13 @ hide_hw_cursor\<rparr>)))))))))))))))"

text \<open>The first entry of the partition table, and the volume.\<close>

definition kmain_mount :: "drive_io \<Rightarrow> (nat \<Rightarrow> u32) \<Rightarrow> 'a fs_state_scheme \<Rightarrow> (disk \<times> 'a fs_state_scheme) out" where
  "kmain_mount io junk s =
     bind_out (kmalloc 16 s) (\<lambda>(p1, s1).
     bind_out (io_read io 0 0x01BE p1 16 s1) (\<lambda>(_, s2).
     bind_out (say junk ''Partition found: bootable: %x, block start: %d, block size: %d\<newline>''
       (with_args [ucast (kmem s2 p1), s_lba (kmem s2) p1, rd32 (kmem s2) (p1 + 12)] junk) s2) (\<lambda>s3.
     bind_out (ext2_get_disk_info io 0 p1 s3) (\<lambda>(_, dk, s4).
     bind_out (init_root io dk s4) (\<lambda>(r, s5).
     Some (Inr (dk, s5\<lparr>f_root := r\<rparr>)))))))"

text \<open>The terminal and the thread of the kernel, process 0. \<open>tty1\<close> is on the stack.\<close>

definition kmain_thread :: "u32 \<Rightarrow> 'a fs_state_scheme \<Rightarrow> 'a fs_state_scheme" where
  "kmain_thread tty1 s =
     upd_proc 0 (\<lambda>p. p\<lparr>pid := 0, pstate := 1, regs := (regs p)\<lparr>r_cr3 := KERN_PDIR\<rparr>, pwd := f_root s\<rparr>)
       (s\<lparr>t_pread := (t_pread s)(tty1 := None), current_term := tty1, current := 0\<rparr>)"

text \<open>The shell: its file structure.\<close>

definition kmain_shell :: "drive_io \<Rightarrow> disk \<Rightarrow> 'a fs_state_scheme \<Rightarrow> (u32 \<times> 'a fs_state_scheme) out" where
  "kmain_shell io dk s =
     bind_out (path_to_file io (wr_bytes (\<lambda>_. 0) 0 (lit ''/bin/shell'')) 0 s) (\<lambda>(fp, s1).
     if fp = 0 then Some (Inl NullDeref)
     else bind_out (ext2_read_inode io dk (f_inum s1 fp) s1) (\<lambda>(p, s2).
          Some (Inr (fp, s2\<lparr>f_inode := (f_inode s2)(fp := p)\<rparr>))))"

definition kmain_setup ::
    "drive_io \<Rightarrow> (nat \<Rightarrow> u32) \<Rightarrow> u32 \<Rightarrow> handlers \<Rightarrow> u32 \<Rightarrow> u32 \<Rightarrow> u32 \<Rightarrow> 'a boot_state_scheme \<Rightarrow> (disk \<times> u32 \<times> 'a boot_state_scheme) out" where
  "kmain_setup io junk tss_addr h tty1 low_mem high_mem s =
     bind_out (kmain_cpu junk tss_addr h low_mem high_mem s) (\<lambda>s1.
     bind_out (kmain_mount io junk s1) (\<lambda>(dk, s2).
     bind_out (kmain_shell io dk (kmain_thread tty1 s2)) (\<lambda>(fp, s3).
     Some (Inr (dk, fp, s3)))))"

text \<open>\<open>load_task(hd, fp->inode, 0, 0)\<close>; \<open>um\<close> is what the frames of the new process hold.\<close>

definition start_shell :: "drive_io \<Rightarrow> disk \<Rightarrow> u32 \<Rightarrow> u32 \<Rightarrow> mem \<Rightarrow> 'a fs_state_scheme \<Rightarrow> 'a fs_state_scheme out" where
  "start_shell io dk fp junk um s =
     bind_out (load_task io dk (f_inode s fp) 0 (\<lambda>_. 0) 0 junk um s) (\<lambda>(n, s1, m).
     Some (Inr (if n = 0 then s1 else s1\<lparr>umem := (umem s1)(r_cr3 (regs (p_list s1 n)) := m)\<rparr>)))"

text \<open>\<open>kmain\<close> up to its loop, and one round of the loop.\<close>

definition kmain ::
    "drive_io \<Rightarrow> (nat \<Rightarrow> u32) \<Rightarrow> u32 \<Rightarrow> handlers \<Rightarrow> u32 \<Rightarrow> mem \<Rightarrow> u32 \<Rightarrow> u32 \<Rightarrow> 'a boot_state_scheme \<Rightarrow> (disk \<times> u32 \<times> 'a boot_state_scheme) out" where
  "kmain io junk tss_addr h tty1 um low_mem high_mem s =
     bind_out (kmain_setup io junk tss_addr h tty1 low_mem high_mem s) (\<lambda>(dk, fp, s1).
     bind_out (start_shell io dk fp (junk 0) um s1) (\<lambda>s2.
     bind_out (say junk ''Interruptions activees\<newline>'' junk (set_attr 0x47 s2)) (\<lambda>s3.
     Some (Inr (dk, fp, set_attr 0x02 s3)))))"

definition kmain_idle :: "drive_io \<Rightarrow> (nat \<Rightarrow> u32) \<Rightarrow> mem \<Rightarrow> disk \<Rightarrow> u32 \<Rightarrow> 'a fs_state_scheme \<Rightarrow> 'a fs_state_scheme out" where
  "kmain_idle io junk um dk fp s = (if n_proc s = 0 then start_shell io dk fp (junk 0) um s else Some (Inr s))"

section \<open>Messages\<close>

lemma lit_cstr:
  assumes "0 \<notin> set xs" "length xs + 1 < 2 ^ 32"
  shows "cstr (wr_bytes (\<lambda>_. 0) 0 xs) 0 xs"
proof (rule cstrI)
  fix i assume i: "i < length xs"
  then show "wr_bytes (\<lambda>_. 0) 0 xs (0 + of_nat i) = xs ! i \<and> xs ! i \<noteq> 0"
    using wr_bytes_nth [of xs i "\<lambda>_. 0" 0] assms by (auto simp: in_set_conv_nth)
next
  have "\<not> in_block 0 (length xs) (of_nat (length xs) :: u32)" using assms(2) by (simp add: in_block_def unat_of_nat_u32)
  then show "wr_bytes (\<lambda>_. 0) 0 xs (0 + of_nat (length xs)) = 0" using assms(2) by (simp add: wr_bytes_outside)
qed

lemma say_ok:
  assumes "list_all item_ok its" "\<forall>it \<in> set its. \<forall>w. it \<noteq> Conv w 115" "lit fmt = concat (map item_text its)"
    "0 \<notin> set (lit fmt)" "length (lit fmt) < 1000"
  shows "\<exists>sc. say junk fmt args s = Some (Inr (s\<lparr>scr := sc\<rparr>))"
proof -
  have st: "strs_ok m str its a" for m str a
    using assms(2) by (induction its arbitrary: a rule: list.induct) (auto split: item.splits, case_tac x1, auto)
  let ?f = "\<lparr>fmem = wr_bytes (\<lambda>_. 0) 0 (lit fmt), fptr = 0, vargs = args\<rparr>"
  have "cstr (fmem ?f) (fptr ?f) (concat (map item_text its))"
    using lit_cstr [OF assms(4)] assms(3,5) by simp
  from printk_rendered [OF assms(1) this st, of junk "scr s" "\<lambda>_. []"] show ?thesis
    unfolding say_def by (intro exI [of _ "fold putcar (rendered (\<lambda>_. []) its args) (scr s)"]) simp
qed

lemma say_plain:
  assumes "37 \<notin> set (lit fmt)" "0 \<notin> set (lit fmt)" "length (lit fmt) < 1000"
  shows "\<exists>sc. say junk fmt args s = Some (Inr (s\<lparr>scr := sc\<rparr>))"
proof (rule say_ok)
  show "list_all item_ok (map Plain (lit fmt))" using assms(1,2) by (auto simp: list_all_iff)
  have "concat (map item_text (map Plain xs)) = xs" for xs by (induction xs) auto
  then show "lit fmt = concat (map item_text (map Plain (lit fmt)))" by simp
qed (use assms(2,3) in auto)

lemma ok_msg_ok: "\<exists>sc. ok_msg junk s = Some (Inr (s\<lparr>scr := sc\<rparr>))"
proof -
  obtain sc where "say junk ''OK\<newline>'' junk (s\<lparr>scr := (scr s)\<lparr>kX := 40, kattr := 0x0A\<rparr>\<rparr>)
    = Some (Inr (s\<lparr>scr := (scr s)\<lparr>kX := 40, kattr := 0x0A\<rparr>, scr := sc\<rparr>))"
    using say_plain [of "''OK\<newline>''" junk junk "s\<lparr>scr := (scr s)\<lparr>kX := 40, kattr := 0x0A\<rparr>\<rparr>"] by (auto simp: lit_def)
  then show ?thesis by (intro exI [of _ "sc\<lparr>kattr := 0x07\<rparr>"]) (simp add: ok_msg_def set_attr_def)
qed

section \<open>The processor\<close>

text \<open>A message and what follows it.\<close>

lemma bind_screen:
  assumes "\<exists>sc. r = Some (Inr (t\<lparr>scr := sc\<rparr>))" "\<And>sc. \<exists>s'. F (t\<lparr>scr := sc\<rparr>) = Some (Inr s') \<and> Q s'"
  shows "\<exists>s'. bind_out r F = Some (Inr s') \<and> Q s'"
  using assms by auto

lemma say_ram:
  "\<exists>sc. say junk ''RAM detected : %uk (lower), %uk (upper)\<newline>'' a t = Some (Inr (t\<lparr>scr := sc\<rparr>))"
  by (rule say_ok [where its = "map Plain (lit ''RAM detected : '') @ [Conv None 117] @ map Plain (lit ''k (lower), '') @ [Conv None 117]
      @ map Plain (lit ''k (upper)\<newline>'')"]) (simp_all add: lit_def)

lemma say_partition:
  "\<exists>sc. say junk ''Partition found: bootable: %x, block start: %d, block size: %d\<newline>'' a t = Some (Inr (t\<lparr>scr := sc\<rparr>))"
  by (rule say_ok [where its = "map Plain (lit ''Partition found: bootable: '') @ [Conv None 120] @ map Plain (lit '', block start: '')
      @ [Conv None 100] @ map Plain (lit '', block size: '') @ [Conv None 100] @ map Plain (lit ''\<newline>'')"]) (simp_all add: lit_def)

lemma init_mm_then:
  fixes t :: "'a vm_state_scheme"
  assumes "boot_ok high_mem t"
    and "\<And>u. vm_state.more u = vm_state.more t \<Longrightarrow> kblocks u {(heap_base + 4, 16)} \<Longrightarrow> kern_heap u = KERN_HEAP + PAGESIZE \<Longrightarrow>
      \<forall>k. 2048 + 8 * k \<le> unat (high_mem * 1024 div PAGESIZE) \<longrightarrow> 2048 + 8 * k \<le> RAM_MAXPAGE \<longrightarrow> 8 * k \<le> card (frames.free_frames u) + 2 \<Longrightarrow>
      \<exists>s'. F u = Some (Inr s') \<and> Q s'"
  shows "\<exists>s'. bind_out (init_mm high_mem t) F = Some (Inr s') \<and> Q s'"
proof -
  from init_mm_ok [OF assms(1)] obtain u where u: "init_mm high_mem t = Some (Inr u)" "page_inv u {(heap_base + 4, 16)} [KERN_HEAP + 4]"
    "kern_heap u = KERN_HEAP + PAGESIZE" "vm_state.more u = vm_state.more t"
    "\<forall>k. 2048 + 8 * k \<le> unat (high_mem * 1024 div PAGESIZE) \<longrightarrow> 2048 + 8 * k \<le> RAM_MAXPAGE \<longrightarrow> 8 * k \<le> card (frames.free_frames u) + 2"
    by (elim exE conjE) (rule that, assumption+)
  from u(2) have "kblocks u {(heap_base + 4, 16)}" by (simp add: page_inv_def)
  from assms(2) [OF u(4) this u(3,5)] show ?thesis by (simp add: u(1))
qed

lemma boot_fields:
  "vm_state.more u = vm_state.more t \<Longrightarrow> desc u = desc t \<and> outs u = outs t \<and> task_reg (u :: 'a boot_state_scheme) = task_reg t"
  by (cases u; cases t; simp)

lemma kmain_cpu_ok:
  fixes s :: "'a boot_state_scheme"
  assumes "boot_ok high_mem s"
  shows "\<exists>s'. kmain_cpu junk tss_addr h low_mem high_mem s = Some (Inr s')
    \<and> (desc s' = init_idt h (init_gdt tss_addr (desc s)) \<and> outs s' = outs s @ init_pic @ hide_hw_cursor \<and> task_reg s' = 0x38
    \<and> kblocks s' {(heap_base + 4, 16)} \<and> kern_heap s' = KERN_HEAP + PAGESIZE
    \<and> (\<forall>k. 2048 + 8 * k \<le> unat (high_mem * 1024 div PAGESIZE) \<longrightarrow> 2048 + 8 * k \<le> RAM_MAXPAGE \<longrightarrow> 8 * k \<le> card (frames.free_frames s') + 2))"
  unfolding kmain_cpu_def
  apply (rule bind_screen [OF say_plain]; (simp add: lit_def; fail)?)
  apply (rule bind_screen [OF say_ram])
  apply (rule bind_screen [OF say_plain]; (simp add: lit_def; fail)?)
  apply (rule bind_screen [OF ok_msg_ok])
  apply (rule bind_screen [OF say_plain]; (simp add: lit_def; fail)?)
  apply (rule bind_screen [OF ok_msg_ok])
  apply (rule bind_screen [OF say_plain]; (simp add: lit_def; fail)?)
  apply (rule bind_screen [OF ok_msg_ok])
  apply (rule bind_screen [OF say_plain]; (simp add: lit_def; fail)?)
  apply (rule bind_screen [OF ok_msg_ok])
  apply (rule bind_screen [OF say_plain]; (simp add: lit_def; fail)?)
  apply (rule init_mm_then)
  subgoal using assms by (simp add: boot_ok_def)
  apply (rule bind_screen [OF ok_msg_ok])
  subgoal for _ _ _ _ _ _ _ _ _ _ _ u sc
    using boot_fields [of u] kblocks_fields [of u "{(heap_base + 4, 16)}" "u\<lparr>scr := sc, outs := outs u @ hide_hw_cursor\<rparr>"]
    by (simp add: frames.free_frames_def frame_used_def)
  done

section \<open>The volume and the shell\<close>

text \<open>The first entry of the partition table.\<close>

definition mbr_entry :: "(nat \<Rightarrow> u8) \<Rightarrow> u8 list" where
  "mbr_entry b = map (\<lambda>j. b (0x1BE + j)) [0..<16]"

definition mbr_lba :: "(nat \<Rightarrow> u8) \<Rightarrow> nat" where
  "mbr_lba b = unat (word_at (mbr_entry b) 8)"

lemma kmain_mount_ok:
  fixes s :: "'a fs_state_scheme"
  assumes hw: "ata_reads (fst io) img" "status_ready (snd io)" and heap: "kblocks s B"
    and vol: "vol_tree (img 0) (mbr_lba (img 0)) I" "2 \<in> I" "vol_is_dir (img 0) (mbr_lba (img 0)) 2"
    and bud: "budget (1 + (34 + (mount_pages (img 0) (mbr_lba (img 0)) + (root_pages (img 0) (mbr_lba (img 0)) + k)))) s"
  shows "\<exists>dk s' B' F N. kmain_mount io junk s = Some (Inr (dk, s')) \<and> d_device dk = 0 \<and> mounted io img dk
    \<and> fs_ok (img 0) (mbr_lba (img 0)) I dk {} B' F N s' \<and> B \<subseteq> B' \<and> f_root s' \<in> F \<and> chain s' (f_root s') [2]
    \<and> fs_state.more s' = fs_state.more s \<and> budget k s'"
proof -
  let ?b = "img 0" let ?lba = "mbr_lba ?b"
  have v: "volume ?b ?lba" using vol(1) by (simp add: vol_tree_def)
  have r: "(0 :: int) = 0 \<or> (0 :: int) = 1" "unat (0x01BE :: u32) = 0x1BE" "0x1BE + unat (16 :: u32) < 2 ^ 31" "unat (16 :: u32) \<le> 130000" by simp_all
  have "budget (pages_of 16 + (34 + (mount_pages ?b ?lba + (root_pages ?b ?lba + k)))) s"
    using bud by (simp add: pages_of_def real_size_def)
  from alloc_read_list [OF hw r(1) heap r(2-4) this] obtain x s1 s2 where
    x: "kmalloc 16 s = Some (Inr (of_nat (fst x), s1))" "io_read io 0 0x01BE (of_nat (fst x)) 16 s1 = Some (Inr (16, s2))"
      "kblocks s2 (insert x B)" "held (insert x B) (of_nat (fst x)) 16" "mem_list (kmem s2) (of_nat (fst x)) (mbr_entry ?b)"
      "kheap_state.more s2 = kheap_state.more s" "budget (mount_pages ?b ?lba + (root_pages ?b ?lba + k)) s2"
    by (auto simp: mbr_entry_def)
  let ?p = "of_nat (fst x) :: u32"
  have lba: "?lba = unat (s_lba (kmem s2) ?p)"
    using mem_list_rd32 [OF x(5), of 8] by (simp add: mbr_lba_def s_lba_def mbr_entry_def)
  obtain sc where sc: "say junk ''Partition found: bootable: %x, block start: %d, block size: %d\<newline>''
       (with_args [ucast (kmem s2 ?p), s_lba (kmem s2) ?p, rd32 (kmem s2) (?p + 12)] junk) s2 = Some (Inr (s2\<lparr>scr := sc\<rparr>))"
    using say_partition by blast
  let ?s3 = "s2\<lparr>scr := sc\<rparr>"
  have h3: "kblocks ?s3 (insert x B)" by (rule kblocks_fields [OF x(3)]) simp_all
  have b3: "budget (mount_pages (img (nat 0)) ?lba + (root_pages ?b ?lba + k)) ?s3"
    using x(7) by (simp add: budget_def frames.free_frames_def frame_used_def)
  have l3: "?lba = unat (s_lba (kmem ?s3) ?p)" "volume (img (nat 0)) ?lba" using lba v by simp_all
  from ext2_get_disk_info_ok [OF hw r(1) h3 x(4) l3 b3] obtain p dk s4 B4 where
    m: "ext2_get_disk_info io 0 ?p ?s3 = Some (Inr (p, dk, s4))" "kblocks s4 B4" "insert x B \<subseteq> B4" "d_device dk = 0" "mounted io img dk"
      "loaded ?b ?lba dk B4 (kmem s4)" "kheap_state.more s4 = kheap_state.more ?s3" "budget (root_pages ?b ?lba + k) s4" by auto
  have bd: "?b = img (nat (d_device dk))" using m(4) by simp
  from init_root_ok [OF m(5) bd vol m(2,6,8)] obtain f s5 B5 F N where
    r: "init_root io dk s4 = Some (Inr (f, s5))" "fs_ok ?b ?lba I dk {} B5 F N s5" "B4 \<subseteq> B5" "f \<in> F" "chain s5 f [2]"
      "fs_rest s5 = fs_rest s4" "budget k s5" by blast
  let ?s = "s5\<lparr>f_root := f\<rparr>"
  have "kmain_mount io junk s = Some (Inr (dk, ?s))"
    unfolding kmain_mount_def x(1,2) bind_out_simps prod.case sc m(1) r(1) ..
  moreover have "fs_ok ?b ?lba I dk {} B5 F N ?s"
    using r(2) kblocks_fields [of s5 B5 ?s] by (simp add: fs_ok_def cached_def node_def listing_def)
  moreover have "fs_state.more ?s = fs_state.more s"
    using fs_rest_fields(7) [OF r(6)] fs_rest_fields(7) [OF fs_rest_more [OF m(7)]] fs_rest_fields(7) [OF fs_rest_more [OF x(6)]] by simp
  moreover have "budget k ?s" using r(7) by (simp add: budget_def frames.free_frames_def frame_used_def)
  moreover have "chain ?s f [2]" using r(5) by simp
  ultimately show ?thesis using m(3,4,5) r(3,4)
    by (intro exI [of _ dk] exI [of _ ?s] exI [of _ B5] exI [of _ F] exI [of _ N]) auto
qed

lemma shell_names: "path_names (lit ''/bin/shell'') = [lit ''bin'', lit ''shell'']"
  by (simp add: path_names_def lit_def)

lemma kmain_shell_ok:
  fixes s :: "'a fs_state_scheme"
  assumes dsk: "mounted io img dk" "b = img (nat (d_device dk))" "vol_tree b lba I"
    and ok: "fs_ok b lba I dk {} B F N s" "f_root s \<in> F" "chain s (f_root s) [2]"
    and shell: "vol_path b lba [lit ''bin'', lit ''shell''] [2] = Some (i # st)"
    and bud: "budget (path_pages b lba [lit ''bin'', lit ''shell''] [2] + (2 + k)) s"
  shows "\<exists>fp s' B'. kmain_shell io dk s = Some (Inr (fp, s')) \<and> kblocks s' B' \<and> B \<subseteq> B' \<and> loaded b lba dk B' (kmem s')
    \<and> i \<in> I \<and> unat (f_inum s' fp) = i \<and> held B' (f_inode s' fp) 128 \<and> mem_list (kmem s') (f_inode s' fp) (vol_inode b lba i)
    \<and> fs_rest s' = fs_rest s \<and> budget k s'"
proof -
  let ?p = "lit ''/bin/shell''"
  have c: "cstr (wr_bytes (\<lambda>_. 0) 0 ?p) 0 ?p" by (rule lit_cstr) (simp_all add: lit_def)
  have st: "f_root s = (if ?p \<noteq> [] \<and> hd ?p = 47 then f_root s else pwd (cur s))" "length ?p + 1 < 2 ^ 32" by (simp_all add: lit_def)
  from path_to_file_ok [OF dsk ok(1) c st(2,1) ok(2,3) bud [folded shell_names]] obtain g s1 B1 F1 N1 where
    r: "path_to_file io (wr_bytes (\<lambda>_. 0) 0 ?p) 0 s = Some (Inr (g, s1))" "fs_ok b lba I dk {} B1 F1 N1 s1" "B \<subseteq> B1"
      "fs_more ({} \<union> B) F s F1 s1" "budget (2 + k) s1" "g \<noteq> 0" "g \<in> F1" "chain s1 g (i # st)"
    unfolding shell_names shell by auto
  have i: "unat (f_inum s1 g) = i" "i \<in> I" using chain_hd [OF r(8)] fs_okD(5) [OF r(2,7)] by simp_all
  then have iw: "f_inum s1 g = of_nat i" by auto
  have h: "kblocks s1 B1" "loaded b lba dk B1 (kmem s1)" using r(2) by (simp_all add: fs_ok_def)
  have v: "volume b lba" "vol_inode_ok b lba i" using dsk(3) i(2) by (simp_all add: vol_tree_def)
  from loaded_read_inode [OF dsk(1,2) h v r(5)] obtain x s2 where
    x: "ext2_read_inode io dk (of_nat i) s1 = Some (Inr (of_nat (fst x), s2))" "kblocks s2 (insert x B1)" "held {x} (of_nat (fst x)) 128"
      "mem_list (kmem s2) (of_nat (fst x)) (vol_inode b lba i)" "same_data B1 (kmem s1) (kmem s2)"
      "kheap_state.more s2 = kheap_state.more s1" "budget k s2" by blast
  let ?s = "s2\<lparr>f_inode := (f_inode s2)(g := of_nat (fst x))\<rparr>"
  have "kmain_shell io dk s = Some (Inr (g, ?s))"
    unfolding kmain_shell_def r(1) bind_out_simps prod.case iw x(1) using r(6) by simp
  moreover have "kblocks ?s (insert x B1)" by (rule kblocks_fields [OF x(2)]) simp_all
  moreover have "loaded b lba dk (insert x B1) (kmem ?s)" using loaded_keep [OF x(5) h(2), of "insert x B1"] by auto
  moreover have "held (insert x B1) (of_nat (fst x)) 128" by (rule held_mono [OF x(3)]) simp
  moreover have "fs_rest ?s = fs_rest s" using r(4) fs_rest_more [OF x(6)] by (simp add: fs_more_def)
  moreover have "budget k ?s" using x(7) by (simp add: budget_def frames.free_frames_def frame_used_def)
  ultimately show ?thesis using r(3) i x(4) fs_fields(2) [OF x(6)]
    by (intro exI [of _ g] exI [of _ ?s] exI [of _ "insert x B1"]) auto
qed

lemma kmain_thread_ok:
  "fs_ok b lba I dk E B F N s \<Longrightarrow> fs_ok b lba I dk E B F N (kmain_thread tty1 s)"
  "chain s f st \<Longrightarrow> chain (kmain_thread tty1 s) f st" "budget k s \<Longrightarrow> budget k (kmain_thread tty1 s)"
  "f_root (kmain_thread tty1 s) = f_root s" "fs_state.more (kmain_thread tty1 s) = fs_state.more s"
proof -
  have e: "kmem (kmain_thread tty1 s) = kmem s" "f_disk (kmain_thread tty1 s) = f_disk s" "f_inum (kmain_thread tty1 s) = f_inum s"
    "f_name (kmain_thread tty1 s) = f_name s" "f_inode (kmain_thread tty1 s) = f_inode s" "f_parent (kmain_thread tty1 s) = f_parent s"
    "f_leaf (kmain_thread tty1 s) = f_leaf s" "f_mmap (kmain_thread tty1 s) = f_mmap s" "f_root (kmain_thread tty1 s) = f_root s"
    "fs_state.more (kmain_thread tty1 s) = fs_state.more s" "pmem (kmain_thread tty1 s) = pmem s" "cr3 (kmain_thread tty1 s) = cr3 s"
    "mem_bitmap (kmain_thread tty1 s) = mem_bitmap s" "kern_heap (kmain_thread tty1 s) = kern_heap s"
    by (simp_all add: kmain_thread_def upd_proc_def)
  show "f_root (kmain_thread tty1 s) = f_root s" "fs_state.more (kmain_thread tty1 s) = fs_state.more s" by (fact e)+
  have "kblocks s D \<Longrightarrow> kblocks (kmain_thread tty1 s) D" for D by (rule kblocks_fields) (simp_all add: e)
  then show "fs_ok b lba I dk E B F N s \<Longrightarrow> fs_ok b lba I dk E B F N (kmain_thread tty1 s)"
    by (simp add: fs_ok_def cached_def node_def listing_def e)
  show "budget k s \<Longrightarrow> budget k (kmain_thread tty1 s)" by (simp add: budget_def frames.free_frames_def frame_used_def e)
  show "chain s f st \<Longrightarrow> chain (kmain_thread tty1 s) f st"
  proof (induction st arbitrary: f)
    case (Cons i st)
    then show ?case by (cases st) (simp_all add: e)
  qed simp
qed

section \<open>Properties\<close>

text \<open>The pages of heap that the start takes at most.\<close>

definition boot_pages :: "(nat \<Rightarrow> u8) \<Rightarrow> nat" where
  "boot_pages b = (let lba = mbr_lba b
     in 1 + (34 + (mount_pages b lba + (root_pages b lba + (path_pages b lba [lit ''bin'', lit ''shell''] [2] + 2)))))"

text \<open>C2. The start of the kernel. On a machine with enough memory, whose first disk has a readable volume in the first entry
  of its partition table and on it a file \<^verbatim>\<open>/bin/shell\<close>, \<open>kmain\<close> comes to the point where it loads the first process:
  the descriptor tables and the interrupt controllers are set up, paging and the kernel heap work, process 0 runs
  in the root directory, and the inode in memory from which \<open>load_task\<close> will read the program is the one
  that the directories on the disk give for \<^verbatim>\<open>/bin/shell\<close>.\<close>

theorem kmain_finds_shell:
  fixes s :: "'a boot_state_scheme"
  assumes "boot_ok high_mem s" "ata_reads (fst io) img" "status_ready (snd io)"
    and "b = img 0" "lba = mbr_lba b" "vol_tree b lba I" "2 \<in> I" "vol_is_dir b lba 2"
    and "vol_path b lba [lit ''bin'', lit ''shell''] [2] = Some (i # st)"
    and "2048 + 8 * k \<le> unat (high_mem * 1024 div PAGESIZE)" "2048 + 8 * k \<le> RAM_MAXPAGE"
    and "boot_pages b + 2 \<le> 8 * k" "boot_pages b \<le> 196607"
  shows "\<exists>dk fp s' B. kmain_setup io junk tss_addr h tty1 low_mem high_mem s = Some (Inr (dk, fp, s'))
    \<and> desc s' = init_idt h (init_gdt tss_addr (desc s)) \<and> outs s' = outs s @ init_pic @ hide_hw_cursor \<and> task_reg s' = 0x38
    \<and> current s' = 0 \<and> pstate (cur s') = 1 \<and> r_cr3 (regs (cur s')) = KERN_PDIR \<and> pwd (cur s') = f_root s' \<and> current_term s' = tty1
    \<and> kblocks s' B \<and> mounted io img dk \<and> loaded b lba dk B (kmem s')
    \<and> unat (f_inum s' fp) = i \<and> vol_inode_ok b lba i \<and> held B (f_inode s' fp) 128 \<and> mem_list (kmem s') (f_inode s' fp) (vol_inode b lba i)"
proof -
  from kmain_cpu_ok [OF assms(1)] obtain s1 where
    c: "kmain_cpu junk tss_addr h low_mem high_mem s = Some (Inr s1)" "desc s1 = init_idt h (init_gdt tss_addr (desc s))"
      "outs s1 = outs s @ init_pic @ hide_hw_cursor" "task_reg s1 = 0x38" "kblocks s1 {(heap_base + 4, 16)}" "kern_heap s1 = KERN_HEAP + PAGESIZE"
      "8 * k \<le> card (frames.free_frames s1) + 2" using assms(10,11) by blast
  have "budget (boot_pages b) s1" using c(6,7) assms(12,13) by (simp add: budget_def)
  then have b1: "budget (1 + (34 + (mount_pages (img 0) (mbr_lba (img 0)) + (root_pages (img 0) (mbr_lba (img 0))
      + (path_pages b lba [lit ''bin'', lit ''shell''] [2] + (2 + 0)))))) s1"
    by (simp only: boot_pages_def Let_def assms(4,5) add_0_right)
  from kmain_mount_ok [OF assms(2,3) c(5) assms(6-8) [unfolded assms(4,5)] b1] obtain dk s2 B2 F N where
    m: "kmain_mount io junk s1 = Some (Inr (dk, s2))" "d_device dk = 0" "mounted io img dk" "fs_ok b lba I dk {} B2 F N s2"
      "f_root s2 \<in> F" "chain s2 (f_root s2) [2]" "fs_state.more s2 = fs_state.more s1"
      "budget (path_pages b lba [lit ''bin'', lit ''shell''] [2] + (2 + 0)) s2"
    unfolding assms(4,5) by blast
  let ?t = "kmain_thread tty1 s2"
  have bd: "b = img (nat (d_device dk))" using m(2) assms(4) by simp
  note kt = kmain_thread_ok [where s = s2 and ?tty1.0 = tty1]
  have rt: "f_root ?t \<in> F" "chain ?t (f_root ?t) [2]" using m(5) kt(2) [OF m(6)] kt(4) by simp_all
  from kmain_shell_ok [OF m(3) bd assms(6) kt(1) [OF m(4)] rt assms(9) kt(3) [OF m(8)]] obtain fp s3 B3 where
    r: "kmain_shell io dk ?t = Some (Inr (fp, s3))" "kblocks s3 B3" "loaded b lba dk B3 (kmem s3)" "i \<in> I" "unat (f_inum s3 fp) = i"
      "held B3 (f_inode s3 fp) 128" "mem_list (kmem s3) (f_inode s3 fp) (vol_inode b lba i)" "fs_rest s3 = fs_rest ?t"
    by blast
  note ff = fs_rest_fields [OF r(8)]
  have run: "kmain_setup io junk tss_addr h tty1 low_mem high_mem s = Some (Inr (dk, fp, s3))"
    unfolding kmain_setup_def c(1) bind_out_simps m(1) prod.case r(1) ..
  have mf: "fs_state.more s3 = fs_state.more s1" using ff(7) kt(5) m(7) by simp
  then have "desc s3 = desc s1 \<and> outs s3 = outs s1 \<and> task_reg s3 = task_reg s1" by (cases s3; cases s1; simp)
  moreover have "current s3 = 0" "pstate (cur s3) = 1" "r_cr3 (regs (cur s3)) = KERN_PDIR" "pwd (cur s3) = f_root s3" "current_term s3 = tty1"
    using ff by (simp_all add: kmain_thread_def upd_proc_def)
  moreover have "vol_inode_ok b lba i" using assms(6) r(4) by (simp add: vol_tree_def)
  ultimately show ?thesis using run c(2-4) m(3) r(2,3,5-7)
    by (intro exI [of _ dk] exI [of _ fp] exI [of _ s3] exI [of _ B3]) simp
qed

text \<open>A disk whose first partition begins at block 2: the directory 2 names \<^verbatim>\<open>bin\<close>, inode 3, and that names \<^verbatim>\<open>shell\<close>, inode 4.\<close>

definition boot_disk :: "nat \<Rightarrow> u8" where
  "boot_disk n =
     (case map_of [(454, 2), (2048, 8), (2052, 100), (2081, 0x20), (2088, 8), (2136, 128), (3080, 3),
        (4225, 0x40), (4228, 12), (4264, 5), (4353, 0x40), (4356, 16), (4392, 6),
        (6144, 3), (6148, 12), (6150, 3), (6152, 98), (6153, 105), (6154, 110),
        (7168, 4), (7172, 16), (7174, 5), (7176, 115), (7177, 104), (7178, 101), (7179, 108), (7180, 108)] n of
      None \<Rightarrow> 0 | Some c \<Rightarrow> c)"

lemma boot_disk_sb:
  "mbr_lba boot_disk = 2" "word_at (sb_bytes boot_disk 2) 0 = 8" "word_at (sb_bytes boot_disk 2) 4 = 100"
  "word_at (sb_bytes boot_disk 2) 24 = 0" "word_at (sb_bytes boot_disk 2) 32 = 8192" "word_at (sb_bytes boot_disk 2) 40 = 8"
  "half_at (sb_bytes boot_disk 2) 88 = 128"
  by (simp_all add: mbr_lba_def mbr_entry_def word_at_def half_at_def sb_bytes_def boot_disk_def)

lemma boot_disk_groups: "vol_groups (sb_bytes boot_disk 2) = 1" "vol_blocksize (sb_bytes boot_disk 2) = 1024" "gd_pos boot_disk 2 = 3072"
  by (simp_all add: vol_groups_def vol_blocksize_def gd_pos_def ceil_div_def boot_disk_sb)

lemma boot_disk_inode:
  assumes "i \<in> {2, 3, 4}"
  shows "vol_inode_pos boot_disk 2 i = 3968 + 128 * i" "k < 128 \<Longrightarrow> vol_inode boot_disk 2 i ! k = boot_disk (3968 + 128 * i + k)"
proof -
  have "word_at (gd_bytes boot_disk 2) 8 = 3"
    by (simp add: word_at_def gd_bytes_def boot_disk_groups boot_disk_def)
  then show p: "vol_inode_pos boot_disk 2 i = 3968 + 128 * i"
    using assms by (auto simp: vol_inode_pos_def boot_disk_sb boot_disk_groups Let_def)
  show "k < 128 \<Longrightarrow> vol_inode boot_disk 2 i ! k = boot_disk (3968 + 128 * i + k)"
    by (simp add: vol_inode_def p boot_disk_sb)
qed

text \<open>The files: inode \<open>i\<close> has one block, or none.\<close>

lemma boot_disk_file:
  assumes i: "i \<in> {2, 3, 4}" and blk: "k0 = (if i = 4 then 0 else of_nat i + 3)"
  shows "vol_inode_ok boot_disk 2 i" "word_at (vol_inode boot_disk 2 i) 4 = (if i = 2 then 12 else if i = 3 then 16 else 0)"
    "vol_is_dir boot_disk 2 i \<longleftrightarrow> i \<noteq> 4"
    "i \<noteq> 4 \<Longrightarrow> file_bytes (vol_block boot_disk 2) (vol_iblock boot_disk 2 i) = vol_block boot_disk 2 k0"
proof -
  have n: "vol_inode boot_disk 2 i ! k = boot_disk (3968 + 128 * i + k)" if "k < 128" for k by (rule boot_disk_inode(2) [OF i that])
  show "word_at (vol_inode boot_disk 2 i) 4 = (if i = 2 then 12 else if i = 3 then 16 else 0)"
    using i by (auto simp: word_at_def n boot_disk_def)
  show "vol_is_dir boot_disk 2 i \<longleftrightarrow> i \<noteq> 4" using i by (auto simp: vol_is_dir_def half_at_def n boot_disk_def)
  have "list_all (\<lambda>k. vol_iblock boot_disk 2 i k = (if k = 0 then k0 else 0)) [0..<15]"
  proof -
    consider "i = 2" | "i = 3" | "i = 4" using i by blast
    then show ?thesis
      by cases (simp_all add: upt_rec vol_iblock_def word_at_def boot_disk_inode boot_disk_def blk)
  qed
  then have ib: "vol_iblock boot_disk 2 i k = (if k = 0 then k0 else 0)" if "k < 15" for k
    using that by (simp add: list_all_iff)
  have "map (vol_iblock boot_disk 2 i) [0..<12] = map (\<lambda>k. if k = 0 then k0 else 0) [0..<12]"
    by (rule map_cong [OF refl]) (use ib in simp)
  then have es: "takeWhile (\<lambda>b. b \<noteq> 0) (map (vol_iblock boot_disk 2 i) [0..<12]) = (if i = 4 then [] else [k0])"
    using i by (auto simp: upt_rec blk)
  have "file_ok (vol_block_in_range boot_disk 2) (vol_block boot_disk 2) (vol_iblock boot_disk 2 i)"
    unfolding file_ok_def es using ib [of 12] ib [of 13] ib [of 14] i
    by (auto simp: vol_block_in_range_def boot_disk_groups Let_def blk)
  then show "vol_inode_ok boot_disk 2 i"
    using i by (auto simp: vol_inode_ok_def boot_disk_sb boot_disk_groups boot_disk_inode)
  show "i \<noteq> 4 \<Longrightarrow> file_bytes (vol_block boot_disk 2) (vol_iblock boot_disk 2 i) = vol_block boot_disk 2 k0"
    unfolding file_bytes_def es using ib [of 12] ib [of 13] ib [of 14] by simp
qed

lemma boot_disk_bytes:
  "vol_file boot_disk 2 2 = [3, 0, 0, 0, 12, 0, 3, 0, 98, 105, 110, 0]"
  "vol_file boot_disk 2 3 = [4, 0, 0, 0, 16, 0, 5, 0, 115, 104, 101, 108, 108, 0, 0, 0]"
proof -
  have "take n (vol_block boot_disk 2 k) = map (\<lambda>j. boot_disk (1024 + unat k * 1024 + j)) [0..<n]" if "n \<le> 1024" for n k
    using that by (simp add: vol_block_def block_bytes_def boot_disk_groups take_map)
  then show "vol_file boot_disk 2 2 = [3, 0, 0, 0, 12, 0, 3, 0, 98, 105, 110, 0]"
    "vol_file boot_disk 2 3 = [4, 0, 0, 0, 16, 0, 5, 0, 115, 104, 101, 108, 108, 0, 0, 0]"
    by (simp_all add: vol_file_def boot_disk_file upt_rec boot_disk_def)
qed

lemma boot_disk_dirs:
  "dir_list (vol_file boot_disk 2 2) = [([98, 105, 110], 3)]" "dir_wf (vol_file boot_disk 2 2)"
  "dir_list (vol_file boot_disk 2 3) = [([115, 104, 101, 108, 108], 4)]" "dir_wf (vol_file boot_disk 2 3)"
proof -
  let ?xs = "[3, 0, 0, 0, 12, 0, 3, 0, 98, 105, 110, 0] :: u8 list"
  let ?ys = "[4, 0, 0, 0, 16, 0, 5, 0, 115, 104, 101, 108, 108, 0, 0, 0] :: u8 list"
  have x: "word_at ?xs 0 = 3" "entry_len ?xs = 12" "entry_name ?xs = [98, 105, 110]"
    and y: "word_at ?ys 0 = 4" "entry_len ?ys = 16" "entry_name ?ys = [115, 104, 101, 108, 108]"
    by (simp_all add: word_at_def entry_len_def half_at_def entry_name_def)
  show "dir_list (vol_file boot_disk 2 2) = [([98, 105, 110], 3)]" "dir_list (vol_file boot_disk 2 3) = [([115, 104, 101, 108, 108], 4)]"
    unfolding boot_disk_bytes by (subst dir_list.simps, simp add: x y dir_list.simps)+
  show "dir_wf (vol_file boot_disk 2 2)" "dir_wf (vol_file boot_disk 2 3)"
    unfolding boot_disk_bytes by (subst dir_wf.simps, simp add: x y dir_wf.simps)+
qed

lemma boot_disk_names:
  "vol_dir boot_disk 2 2 = [(lit ''bin'', 3)]" "vol_dir boot_disk 2 3 = [(lit ''shell'', 4)]"
  by (simp_all add: vol_dir_def boot_disk_dirs add_name_def lit_def)

lemma boot_disk_ok: "vol_tree boot_disk 2 {2, 3, 4}"
proof -
  have "volume boot_disk 2" by (simp add: volume_def boot_disk_sb boot_disk_groups Let_def)
  then show ?thesis
    unfolding vol_tree_def by (simp add: boot_disk_file boot_disk_dirs boot_disk_names boot_disk_bytes [THEN arg_cong [where f = length]])
qed

lemma boot_disk_path:
  "vol_step boot_disk 2 (lit ''bin'') [2] = Some [3, 2]" "vol_step boot_disk 2 (lit ''shell'') [3, 2] = Some [4, 3, 2]"
  by (simp_all add: vol_step_def boot_disk_file boot_disk_names) (simp_all add: lit_def)

theorem kmain_finds_shell_witness:
  "\<exists>(s :: boot_state) dk fp s'. kmain_setup (demo_dev (\<lambda>_. boot_disk), \<lambda>_. 8) (\<lambda>_. 0) 0x9000 demo_handlers 0x1FF00 640 65536 s = Some (Inr (dk, fp, s'))
    \<and> task_reg s' = 0x38 \<and> unat (f_inum s' fp) = 4"
proof -
  fix s0 :: boot_state
  let ?s = "s0\<lparr>pmem := \<lambda>_. 0, kern_free_vm := 0x108000\<rparr>" and ?io = "(demo_dev (\<lambda>_. boot_disk), \<lambda>_ :: nat. 8 :: u8)"
  have b: "boot_ok 65536 ?s" by (simp add: boot_ok_def)
  have hw: "ata_reads (fst ?io) (\<lambda>_. boot_disk)" "status_ready (snd ?io)" by (simp_all add: demo_dev_reads status_ready_def)
  have l: "2 = mbr_lba boot_disk" by (simp add: boot_disk_sb)
  have p: "vol_path boot_disk 2 [lit ''bin'', lit ''shell''] [2] = Some (4 # [3, 2])" by (simp add: boot_disk_path)
  have "boot_pages boot_disk \<le> 190"
    by (simp add: boot_pages_def mount_pages_def root_pages_def dir_pages_def vol_read_pages_def boot_disk_sb boot_disk_groups
        boot_disk_file boot_disk_path boot_disk_dirs pages_of_def real_size_def Let_def) (simp add: lit_def)
  then have bp: "boot_pages boot_disk + 2 \<le> 8 * 24" "boot_pages boot_disk \<le> 196607" by simp_all
  have r: "2 \<in> {2 :: nat, 3, 4}" "vol_is_dir boot_disk 2 2" "2048 + 8 * 24 \<le> unat (65536 * 1024 div PAGESIZE)" "2048 + 8 * 24 \<le> RAM_MAXPAGE"
    by (simp_all add: boot_disk_file)
  from kmain_finds_shell [OF b hw refl l boot_disk_ok r(1,2) p r(3,4) bp] show ?thesis by blast
qed

end
