(* ===== verification/Spec2Isabelle.thy ===== *)
theory Spec2Isabelle
  imports Programs Vga Boot
begin

text \<open>
  Creeks is a small kernel for the i386 with a C library and a few user programs. Its parts, from the hardware up:
  descriptor tables and interrupt controllers; page frames, page tables and the kernel heap; the screen, the
  keyboard and the console; the disk driver, an ext2 reader and a cache of the directory tree; processes with
  signals, a round-robin scheduler and demand paging; the ELF loader and the creation of processes; the system
  calls; and in user space the stubs, \<^verbatim>\<open>libc\<close>, an allocator, a shell, \<^verbatim>\<open>cat\<close> and \<^verbatim>\<open>kill\<close>. This library is a shallow
  embedding of all of them.

  \<^bold>\<open>Conventions.\<close> A machine integer is a word of its width (\<open>u8\<close>, \<open>u16\<close>, \<open>u32\<close>), so arithmetic wraps as in C; signed
  comparisons are written with \<open>sint\<close>. Memory is a function from 32-bit addresses to bytes (\<open>mem\<close>), and a packed
  structure is read and written at its offsets (\<open>rd32\<close>, \<open>wr32\<close>, \<open>rd_bytes\<close>, \<open>wr_bytes\<close>). Global variables are the
  fields of one record that every layer extends: \<open>frame_state\<close> (the bitmap), \<open>mmu_state\<close> (physical memory and
  \<open>cr3\<close>), \<open>kheap_state\<close> (kernel memory and \<open>kern_heap\<close>), \<open>vm_state\<close> (the page heap), \<open>kstate\<close> (processes and
  their memory), \<open>tty_state\<close> (screen and console), \<open>fs_state\<close> (the cache of files), \<open>boot_state\<close> (what only the start sets up) and \<open>prog_state\<close> (the statics of the
  user allocator). An operation returns its result in \<open>out\<close>, that is an \<open>option\<close> of a sum: \<open>None\<close> is a loop that never
  ends, \<open>Inl e\<close> says how the kernel stopped (\<open>Halt\<close>, a PANIC; \<open>PageFault\<close>; \<open>NullDeref\<close>; \<open>OutOfBounds\<close>), \<open>Inr\<close> is a
  return. Loops whose end depends on data are \<open>partial_function (option)\<close>; no definition has fuel, and each theorem
  about an operation says that it returns. Code that waits for another process is cut at the wait: the system call
  answers \<open>Wait_term\<close>, \<open>Wait_line\<close> or \<open>Wait_child\<close>, and a second function goes on from there.

  \<^bold>\<open>Theories.\<close>
  \<^item> \<open>Prelude\<close>: words, byte memory, the result type with \<open>bind_out\<close>, the collections \<open>mem_simps\<close> and \<open>res_simps\<close>.
  \<^item> \<open>Linked_List\<close> (\<^verbatim>\<open>kern/list.h\<close>): pointer stores; the locale \<open>list_impl\<close> states that any sequence of insertions
    and deletions does to the pointers what it does to a list, interpreted for the macros.
  \<^item> \<open>Lib\<close> (\<^verbatim>\<open>kern/lib.c\<close>): \<open>memcpy\<close>, the string functions, \<open>itoa\<close>; what they write and that they end.
  \<^item> \<open>Frames\<close>, \<open>Paging\<close>, \<open>Page_Heap\<close> (\<^verbatim>\<open>kern/mm.c\<close>, \<^verbatim>\<open>mm.h\<close>): the bitmap with the contract \<open>frame_allocator\<close>; the
    processor's table walk, the mirror entry through which the kernel reaches its tables, and adding and removing
    a page with the contract \<open>kernel_mapping\<close>; the heap of kernel pages, page directories, and the state that \<open>init_mm\<close>
    establishes.
  \<^item> \<open>Chunks\<close>, \<open>Kmalloc\<close>, \<open>Heap_Data\<close> (\<^verbatim>\<open>kern/kmalloc.c\<close>): the heap as a run of chunks. The locale \<open>block_allocator\<close> is the
    contract of an allocator: blocks do not overlap, and what a client wrote stays until it frees the block, over
    all sequences of calls. It is interpreted for the kernel heap and for the allocator of user programs.
    \<open>kmalloc\<close> also refines first fit on the list of chunks. \<open>Heap_Data\<close> has the rules for clients.
  \<^item> \<open>Signal\<close>, \<open>Process\<close> (\<^verbatim>\<open>kern/signal.c\<close>, \<^verbatim>\<open>schedule.c\<close>, \<^verbatim>\<open>process.h\<close>, \<^verbatim>\<open>asm/sched.asm\<close>, the page fault handler of
    \<^verbatim>\<open>interrupt.c\<close> and the system calls exit, wait, sbrk, sigreturn): the process table; \<open>pstep\<close> is the step relation of
    the calls that change parents and children, and every reachable table is a forest whose links agree in
    both directions. A task that is switched out comes back with all registers; a signal frame on the user stack is
    undone by \<open>sys_sigreturn\<close>; every runnable process has its turn.
  \<^item> \<open>Screen\<close>, \<open>Printk\<close>, \<open>Console\<close> (\<^verbatim>\<open>kern/screen.c\<close>, \<^verbatim>\<open>printk.c\<close>, \<^verbatim>\<open>console.c\<close>, \<^verbatim>\<open>kbd.h\<close>, the keyboard and clock handlers):
    the screen as a grid of 80 by 25 cells; formatted output against the text it means; the line discipline.
  \<^item> \<open>Descriptors\<close> (\<^verbatim>\<open>kern/gdt.c\<close>, \<^verbatim>\<open>idt.c\<close>, \<^verbatim>\<open>pic.c\<close>): the bytes of the tables and what the processor decodes from them.
  \<^item> \<open>Disk\<close>, \<open>Ext2\<close>, \<open>Ext2_Read\<close>, \<open>Ext2_Files\<close>, \<open>File\<close> (\<^verbatim>\<open>kern/disk.c\<close>, \<^verbatim>\<open>ext2.c\<close>, \<^verbatim>\<open>file.c\<close>): the driver's port writes, over
    a drive that is a parameter (hypothesis: after a read command it delivers the words of the sectors
    addressed); a file read through direct, indirect and double indirect blocks is the file on the disk; a path is
    resolved name by name.
  \<^item> \<open>Volume\<close> (\<^verbatim>\<open>kern/ext2.c\<close>, \<^verbatim>\<open>fat.c\<close>): a volume as it is on the disk, and the way from the partition entry to the bytes of
    a file in these terms alone.
  \<^item> \<open>Directory\<close>: the cache of files against the disk. \<open>fs_ok\<close> says that every cached file has the inode of its number and that the
    leaves of a directory are the entries of its file; reading a directory and looking a path up keep it, and a path
    leads to the inode that the directories on the disk give (\<open>vol_path\<close>). \<open>path_pages\<close> bounds the heap that this takes.
  \<^item> \<open>Boot\<close> (\<^verbatim>\<open>kern/kernel.c\<close>): \<open>kmain\<close>, from the multiboot information to the first process; \<open>kmain_finds_shell\<close> goes
    through memory, disk, volume and directories to the inode of the shell.
  \<^item> \<open>Vga\<close> (\<^verbatim>\<open>kern/vgaM.c\<close>): the graphics modes, against a model of the adapter.
  \<^item> \<open>Elf\<close>, \<open>Task\<close> (\<^verbatim>\<open>kern/elf.c\<close>, \<^verbatim>\<open>process.c\<close>, \<^verbatim>\<open>sys_exec.c\<close>): the loaded image, and the arguments that the new \<open>main\<close> finds
    on its stack.
  \<^item> \<open>Syscalls\<close> (\<^verbatim>\<open>kern/syscalls/\<close>, \<^verbatim>\<open>usr/libc/syscalls.c\<close>): the whole dispatcher and the registers that each stub loads.
  \<^item> \<open>Usr_Lib\<close>, \<open>Usr_Malloc\<close>, \<open>Programs\<close> (\<^verbatim>\<open>usr/\<close>): strings, numbers and \<open>sprintf\<close>; \<open>malloc\<close> and \<open>free\<close>; \<^verbatim>\<open>cat\<close>, \<^verbatim>\<open>kill\<close>,
    the test programs and the shell, which run over the dispatcher: \<open>cat_shows_file\<close> goes from the arguments of \<^verbatim>\<open>cat\<close>
    down to the characters on the console.

  \<^bold>\<open>Bounds.\<close> The heap theorems assume a heap below the limit of the kernel's heap region with a free frame for every
  page to come (\<open>room\<close>, \<open>budget\<close>), without which the code halts; sizes below \<open>2 ^ 31\<close>, because a chunk's size has 31
  bits; the theorems on the disk assume that byte offsets fit the signed 32-bit arithmetic of the driver; a directory is
  well formed (\<open>dir_wf\<close>) when its entries lie inside of its file.

  \<^bold>\<open>Not modelled.\<close> Assembly, apart from the effect of \<open>do_switch\<close> and the trap frame; the interrupt flag (\<open>cli\<close>, \<open>sti\<close>); the TLB; the diagnostic messages that lower modules print
  before they halt or return an error; the timing of the devices, apart from the number of polls.
\<close>

end
